(* ===== verification/Prelude.thy ===== *)
theory Prelude
  imports Main "HOL-Library.Multiset"
begin

text \<open>
  Shared vocabulary of the development: characters and strings as the program's Rust code sees
  them, the standard-library operations on strings and vectors the code uses, and the generic
  lemmas about lists the components share.

  A Rust \<open>char\<close> is a Unicode scalar value, modelled as its code point (a \<open>nat\<close>); a
  \<open>String\<close> or \<open>&str\<close> is the list of its characters. Where the code counts UTF-8 bytes
  the model says so with \<open>len_utf8\<close>. Vectors are lists and a \<open>usize\<close> index is a \<open>nat\<close>.
  The Unicode tables behind \<open>char::is_alphanumeric\<close>, \<open>char::to_lowercase\<close> and the
  \<open>unicode-width\<close> crate are a parameter, the record \<open>unicode\<close>.
\<close>

section \<open>Collections of lemmas\<close>

named_theorems list_ops \<open>equations that unfold the vector operations into list operations\<close>
named_theorems str_simps \<open>facts that evaluate string literals and character classes\<close>

section \<open>Characters and strings\<close>

type_synonym rchar = nat
type_synonym rstring = "nat list"

abbreviation LF :: rchar where "LF \<equiv> 10"
abbreviation CR :: rchar where "CR \<equiv> 13"
abbreviation TAB :: rchar where "TAB \<equiv> 9"
abbreviation SP :: rchar where "SP \<equiv> 32"

text \<open>A string literal of the source.\<close>

definition lit :: "string \<Rightarrow> rstring" where
  "lit s = map of_char s"

lemma lit_Nil [simp, str_simps]: "lit [] = []"
  by (simp add: lit_def)

lemma lit_Cons [simp, str_simps]: "lit (c # s) = of_char c # lit s"
  by (simp add: lit_def)

lemma lit_append: "lit (s @ t) = lit s @ lit t"
  by (simp add: lit_def)

lemma lit_inj: "inj lit"
proof -
  have "inj (of_char :: char \<Rightarrow> nat)" by (rule injI) simp
  then show ?thesis unfolding lit_def [abs_def] by (rule inj_mapI)
qed

text \<open>The Unicode White_Space property, as \<open>char::is_whitespace\<close> decides it.\<close>

definition is_whitespace :: "rchar \<Rightarrow> bool" where
  "is_whitespace c \<longleftrightarrow>
     (9 \<le> c \<and> c \<le> 13) \<or> c = 32 \<or> c = 133 \<or> c = 160 \<or> c = 5760 \<or>
     (8192 \<le> c \<and> c \<le> 8202) \<or> c = 8232 \<or> c = 8233 \<or> c = 8239 \<or> c = 8287 \<or> c = 12288"

text \<open>\<open>char::is_control\<close>: the general category Cc.\<close>

definition is_control :: "rchar \<Rightarrow> bool" where
  "is_control c \<longleftrightarrow> c < 32 \<or> (127 \<le> c \<and> c < 160)"

definition is_ascii_digit :: "rchar \<Rightarrow> bool" where
  "is_ascii_digit c \<longleftrightarrow> 48 \<le> c \<and> c \<le> 57"

definition is_ascii_upper :: "rchar \<Rightarrow> bool" where
  "is_ascii_upper c \<longleftrightarrow> 65 \<le> c \<and> c \<le> 90"

definition is_ascii_lower :: "rchar \<Rightarrow> bool" where
  "is_ascii_lower c \<longleftrightarrow> 97 \<le> c \<and> c \<le> 122"

definition is_ascii_alphanumeric :: "rchar \<Rightarrow> bool" where
  "is_ascii_alphanumeric c \<longleftrightarrow> is_ascii_digit c \<or> is_ascii_upper c \<or> is_ascii_lower c"

definition to_ascii_upper :: "rchar \<Rightarrow> rchar" where
  "to_ascii_upper c = (if is_ascii_lower c then c - 32 else c)"

definition to_ascii_lower :: "rchar \<Rightarrow> rchar" where
  "to_ascii_lower c = (if is_ascii_upper c then c + 32 else c)"

text \<open>Bytes of a character in UTF-8, and code units in UTF-16.\<close>

definition len_utf8 :: "rchar \<Rightarrow> nat" where
  "len_utf8 c = (if c < 128 then 1 else if c < 2048 then 2 else if c < 65536 then 3 else 4)"

definition len_utf16 :: "rchar \<Rightarrow> nat" where
  "len_utf16 c = (if c < 65536 then 1 else 2)"

definition str_bytes :: "rstring \<Rightarrow> nat" where
  "str_bytes s = sum_list (map len_utf8 s)"

text \<open>Tables of the Unicode database and of the \<open>unicode-width\<close> crate: a parameter.\<close>

record unicode =
  is_alphanumeric :: "rchar \<Rightarrow> bool"
  to_lowercase :: "rchar \<Rightarrow> rchar list"
  char_columns :: "rchar \<Rightarrow> nat option"

text \<open>An instance for ASCII, used where a closed example needs the tables.\<close>

definition ascii_unicode :: unicode where
  "ascii_unicode = \<lparr> is_alphanumeric = is_ascii_alphanumeric,
     to_lowercase = (\<lambda>c. [to_ascii_lower c]),
     char_columns = (\<lambda>c. if is_control c then None else Some 1) \<rparr>"

section \<open>Standard-library string operations\<close>

definition trim :: "rstring \<Rightarrow> rstring" where
  "trim s = rev (dropWhile is_whitespace (rev (dropWhile is_whitespace s)))"

fun strip_prefix :: "'a list \<Rightarrow> 'a list \<Rightarrow> 'a list option" where
  "strip_prefix [] s = Some s"
| "strip_prefix (p # ps) (c # s) = (if p = c then strip_prefix ps s else None)"
| "strip_prefix (p # ps) [] = None"

definition starts_with :: "'a list \<Rightarrow> 'a list \<Rightarrow> bool" where
  "starts_with p s \<longleftrightarrow> strip_prefix p s \<noteq> None"

definition ends_with :: "'a list \<Rightarrow> 'a list \<Rightarrow> bool" where
  "ends_with p s \<longleftrightarrow> strip_prefix (rev p) (rev s) \<noteq> None"

text \<open>\<open>str::split\<close> on one character: always at least one piece.\<close>

fun split_on :: "'a \<Rightarrow> 'a list \<Rightarrow> 'a list list" where
  "split_on c [] = [[]]"
| "split_on c (x # xs) =
     (if x = c then [] # split_on c xs
      else (case split_on c xs of [] \<Rightarrow> [[x]] | p # ps \<Rightarrow> (x # p) # ps))"

fun join :: "'a list \<Rightarrow> 'a list list \<Rightarrow> 'a list" where
  "join sep [] = []"
| "join sep [p] = p"
| "join sep (p # q # ps) = p @ sep @ join sep (q # ps)"

lemma strip_prefix_Some: "strip_prefix p s = Some r \<longleftrightarrow> s = p @ r"
  by (induction p s rule: strip_prefix.induct) auto

lemma strip_prefix_append [simp]: "strip_prefix p (p @ r) = Some r"
  by (simp add: strip_prefix_Some)

lemma starts_with_iff: "starts_with p s \<longleftrightarrow> (\<exists>r. s = p @ r)"
  unfolding starts_with_def by (metis not_None_eq strip_prefix_Some)

lemma ends_with_iff: "ends_with p s \<longleftrightarrow> (\<exists>r. s = r @ p)"
  unfolding ends_with_def
  by (metis (no_types, lifting) not_None_eq rev_append rev_rev_ident strip_prefix_Some)

lemma split_on_neq_Nil [simp]: "split_on c xs \<noteq> []"
  by (induction xs) (auto split: list.splits)

lemma join_Cons: "ps \<noteq> [] \<Longrightarrow> join sep (p # ps) = p @ sep @ join sep ps"
  by (cases ps) auto

lemma join_split_on [simp]: "join [c] (split_on c xs) = xs"
proof (induction xs)
  case (Cons x xs)
  show ?case
  proof (cases "split_on c xs")
    case (Cons p ps)
    with Cons.IH show ?thesis
      by (cases ps) (auto simp: join_Cons)
  qed (use Cons.IH in simp)
qed simp

lemma split_on_pieces: "p \<in> set (split_on c xs) \<Longrightarrow> c \<notin> set p"
  by (induction xs arbitrary: p) (auto split: if_splits list.splits)

lemma split_on_no: "c \<notin> set xs \<Longrightarrow> split_on c xs = [xs]"
  by (induction xs) auto

lemma split_on_append: "c \<notin> set p \<Longrightarrow> split_on c (p @ c # s) = p # split_on c s"
  by (induction p) auto

lemma split_on_join:
  "ps \<noteq> [] \<Longrightarrow> \<forall>p \<in> set ps. c \<notin> set p \<Longrightarrow> split_on c (join [c] ps) = ps"
proof (induction ps)
  case (Cons p ps)
  then show ?case
    by (cases ps) (auto simp: split_on_no split_on_append)
qed simp

lemma split_on_subset: "p \<in> set (split_on c xs) \<Longrightarrow> x \<in> set p \<Longrightarrow> x \<in> set xs"
proof (induction xs arbitrary: p)
  case (Cons y ys)
  show ?case
  proof (cases "y = c")
    case True
    then show ?thesis using Cons by auto
  next
    case False
    obtain q qs where q: "split_on c ys = q # qs" by (cases "split_on c ys") auto
    then have "p = y # q \<or> p \<in> set qs" using Cons.prems(1) False by auto
    then show ?thesis using Cons.IH [of q] Cons.IH [of p] Cons.prems(2) q by auto
  qed
qed simp

lemma length_split_on: "length (split_on c xs) = Suc (count_list xs c)"
proof (induction xs)
  case (Cons x xs)
  then show ?case
    by (cases "split_on c xs") auto
qed simp

lemma trim_idem_edges:
  "trim s \<noteq> [] \<Longrightarrow> \<not> is_whitespace (hd (trim s)) \<and> \<not> is_whitespace (last (trim s))"
proof -
  assume ne: "trim s \<noteq> []"
  let ?d = "dropWhile is_whitespace s"
  from ne have d: "dropWhile is_whitespace (rev ?d) \<noteq> []" by (simp add: trim_def)
  have last: "\<not> is_whitespace (last (trim s))"
    using hd_dropWhile [OF d] by (simp add: trim_def last_rev)
  have "?d \<noteq> []" using d by (metis dropWhile.simps(1) rev.simps(1))
  then have "\<not> is_whitespace (hd ?d)" by (rule hd_dropWhile)
  moreover have "hd (trim s) = hd ?d"
  proof -
    obtain w where w: "rev ?d = w @ dropWhile is_whitespace (rev ?d)"
      by (metis takeWhile_dropWhile_id)
    then have "?d = trim s @ rev w"
      by (metis rev_append rev_rev_ident trim_def)
    with ne show ?thesis by (metis hd_append2)
  qed
  ultimately show ?thesis using last by simp
qed

lemma trim_id:
  assumes "s \<noteq> []" "\<not> is_whitespace (hd s)" "\<not> is_whitespace (last s)"
  shows "trim s = s"
proof -
  have "dropWhile is_whitespace s = s" using assms(1,2) by (cases s) simp_all
  moreover have "dropWhile is_whitespace (rev s) = rev s" using assms(1,3) by (cases s rule: rev_cases) simp_all
  ultimately show ?thesis by (simp add: trim_def)
qed

lemma set_trim: "set (trim s) \<subseteq> set s"
proof
  fix x assume "x \<in> set (trim s)"
  then have "x \<in> set (dropWhile is_whitespace (rev (dropWhile is_whitespace s)))" by (simp add: trim_def)
  from set_dropWhileD [OF this] have "x \<in> set (dropWhile is_whitespace s)" by simp
  from set_dropWhileD [OF this] show "x \<in> set s" by simp
qed

text \<open>\<open>str::split_once\<close> on one character.\<close>

fun split_once :: "'a \<Rightarrow> 'a list \<Rightarrow> ('a list \<times> 'a list) option" where
  "split_once c [] = None"
| "split_once c (x # xs) =
     (if x = c then Some ([], xs) else map_option (\<lambda>(a, b). (x # a, b)) (split_once c xs))"

lemma split_once_Some: "split_once c xs = Some (a, b) \<longleftrightarrow> xs = a @ c # b \<and> c \<notin> set a"
proof (induction xs arbitrary: a)
  case (Cons x xs)
  then show ?case by (cases a) auto
qed simp

lemma split_once_append: "c \<notin> set a \<Longrightarrow> split_once c (a @ c # b) = Some (a, b)"
  by (simp add: split_once_Some)

text \<open>\<open>str::rsplit_once\<close> on one character; \<open>str::contains\<close>; \<open>str::get(n..)\<close>, at a byte offset.\<close>

definition rsplit_once :: "'a \<Rightarrow> 'a list \<Rightarrow> ('a list \<times> 'a list) option" where
  "rsplit_once c s = map_option (\<lambda>(a, b). (rev b, rev a)) (split_once c (rev s))"

lemma rsplit_once_Some: "rsplit_once c s = Some (a, b) \<longleftrightarrow> s = a @ c # b \<and> c \<notin> set b"
proof -
  have "rsplit_once c s = Some (a, b) \<longleftrightarrow> split_once c (rev s) = Some (rev b, rev a)"
    by (cases "split_once c (rev s)") (auto simp: rsplit_once_def)
  also have "\<dots> \<longleftrightarrow> rev s = rev (a @ c # b) \<and> c \<notin> set b" by (simp add: split_once_Some)
  also have "\<dots> \<longleftrightarrow> s = a @ c # b \<and> c \<notin> set b" by (simp only: rev_is_rev_conv)
  finally show ?thesis .
qed

fun contains_str :: "'a list \<Rightarrow> 'a list \<Rightarrow> bool" where
  "contains_str p [] = (p = [])"
| "contains_str p (c # s) = (starts_with p (c # s) \<or> contains_str p s)"

fun byte_drop :: "nat \<Rightarrow> rstring \<Rightarrow> rstring option" where
  "byte_drop n [] = (if n = 0 then Some [] else None)"
| "byte_drop n (c # s) =
     (if n = 0 then Some (c # s) else if len_utf8 c \<le> n then byte_drop (n - len_utf8 c) s else None)"

section \<open>Decimal numbers\<close>

fun show_nat :: "nat \<Rightarrow> rstring" where
  "show_nat n = (if n < 10 then [48 + n] else show_nat (n div 10) @ [48 + n mod 10])"

declare show_nat.simps [simp del]

definition digits_value :: "rstring \<Rightarrow> nat" where
  "digits_value ds = foldl (\<lambda>n d. n * 10 + (d - 48)) 0 ds"

text \<open>\<open>str::parse::<u64>\<close>: an optional \<open>+\<close>, at least one digit, no overflow.\<close>

definition parse_u64 :: "rstring \<Rightarrow> nat option" where
  "parse_u64 s =
     (let ds = (case s of [] \<Rightarrow> [] | c # cs \<Rightarrow> if c = 43 then cs else s)
      in if ds = [] \<or> \<not> list_all is_ascii_digit ds then None
         else if digits_value ds < 2 ^ 64 then Some (digits_value ds) else None)"

lemma show_nat_digits: "list_all is_ascii_digit (show_nat n)"
proof (induction n rule: show_nat.induct)
  case (1 n)
  then show ?case
    by (cases "n < 10")
      (simp_all add: show_nat.simps [of n] is_ascii_digit_def [of "48 + n"]
        is_ascii_digit_def [of "48 + n mod 10"])
qed

lemma show_nat_no: "\<not> is_ascii_digit c \<Longrightarrow> c \<notin> set (show_nat n)"
  using show_nat_digits [of n] by (auto simp: list_all_iff)

lemma show_nat_neq_Nil [simp]: "show_nat n \<noteq> []"
  by (subst show_nat.simps) simp

lemma digits_value_snoc: "digits_value (ds @ [d]) = digits_value ds * 10 + (d - 48)"
  by (simp add: digits_value_def)

lemma digits_value_show [simp]: "digits_value (show_nat n) = n"
proof (induction n rule: show_nat.induct)
  case (1 n)
  show ?case
  proof (cases "n < 10")
    case True
    then show ?thesis by (subst show_nat.simps) (simp add: digits_value_def)
  next
    case False
    with 1 show ?thesis by (subst show_nat.simps) (simp add: digits_value_snoc)
  qed
qed

lemma parse_u64_show: "n < 2 ^ 64 \<Longrightarrow> parse_u64 (show_nat n) = Some n"
proof -
  assume n: "n < 2 ^ 64"
  obtain c cs where s: "show_nat n = c # cs" by (meson neq_Nil_conv show_nat_neq_Nil)
  have "is_ascii_digit c" using show_nat_digits [of n] s by simp
  then have "c \<noteq> 43" by (auto simp: is_ascii_digit_def)
  then have "(case show_nat n of [] \<Rightarrow> [] | c # cs \<Rightarrow> if c = 43 then cs else show_nat n) = show_nat n"
    using s by simp
  with n show ?thesis
    using show_nat_digits [of n] by (simp add: parse_u64_def Let_def)
qed

lemma show_nat_inject [simp]: "show_nat m = show_nat n \<longleftrightarrow> m = n"
  by (metis digits_value_show)

section \<open>Vectors\<close>

text \<open>\<open>Iterator::position\<close>, \<open>Vec::remove\<close>, \<open>Vec::insert\<close>, \<open>Iterator::find\<close>.\<close>

fun position :: "('a \<Rightarrow> bool) \<Rightarrow> 'a list \<Rightarrow> nat option" where
  "position P [] = None"
| "position P (x # xs) = (if P x then Some 0 else map_option Suc (position P xs))"

definition remove_at :: "nat \<Rightarrow> 'a list \<Rightarrow> 'a list" where
  "remove_at i xs = take i xs @ drop (Suc i) xs"

definition insert_at :: "nat \<Rightarrow> 'a \<Rightarrow> 'a list \<Rightarrow> 'a list" where
  "insert_at i x xs = take i xs @ x # drop i xs"

text \<open>Keep the last \<open>n\<close> elements: what \<open>drain(..len.saturating_sub(n))\<close> leaves.\<close>

definition keep_last :: "nat \<Rightarrow> 'a list \<Rightarrow> 'a list" where
  "keep_last n xs = drop (length xs - n) xs"

text \<open>The least number from 1 that is not in \<open>used\<close>: \<open>(1..).find(|n| !used.contains(n))\<close>.\<close>

function first_unused :: "nat list \<Rightarrow> nat \<Rightarrow> nat" where
  "first_unused used n = (if n \<in> set used then first_unused (removeAll n used) (Suc n) else n)"
  by pat_completeness auto
termination
  by (relation "measure (\<lambda>(used, n). length used)")
    (auto intro: length_removeAll_less)

declare first_unused.simps [simp del]

lemma position_Some:
  "position P xs = Some i \<longleftrightarrow> i < length xs \<and> P (xs ! i) \<and> (\<forall>j < i. \<not> P (xs ! j))"
proof (induction xs arbitrary: i)
  case (Cons x xs)
  show ?case
  proof (cases i)
    case 0
    then show ?thesis by auto
  next
    case (Suc k)
    have "position P (x # xs) = Some (Suc k) \<longleftrightarrow> \<not> P x \<and> position P xs = Some k"
      by auto
    also have "\<dots> \<longleftrightarrow> \<not> P x \<and> k < length xs \<and> P (xs ! k) \<and> (\<forall>j < k. \<not> P (xs ! j))"
      by (simp add: Cons.IH)
    also have "\<dots> \<longleftrightarrow> Suc k < length (x # xs) \<and> P ((x # xs) ! Suc k)
        \<and> (\<forall>j < Suc k. \<not> P ((x # xs) ! j))"
      by (auto simp: nth_Cons split: nat.splits)
    finally show ?thesis using Suc by simp
  qed
qed simp

lemma position_None: "position P xs = None \<longleftrightarrow> (\<forall>x \<in> set xs. \<not> P x)"
  by (induction xs) auto

lemma position_eq_Some_nth: "position P xs = Some i \<Longrightarrow> i < length xs \<and> P (xs ! i)"
  by (simp add: position_Some)

lemma position_eq_in: "x \<in> set xs \<Longrightarrow> \<exists>i. position (\<lambda>y. y = x) xs = Some i"
  by (metis (mono_tags, lifting) not_None_eq position_None)

lemma length_remove_at [list_ops]: "i < length xs \<Longrightarrow> length (remove_at i xs) = length xs - 1"
  by (simp add: remove_at_def)

lemma length_insert_at [list_ops]: "i \<le> length xs \<Longrightarrow> length (insert_at i x xs) = Suc (length xs)"
  by (simp add: insert_at_def)

lemma set_insert_at [list_ops]: "set (insert_at i x xs) = insert x (set xs)"
proof -
  have "set (take i xs) \<union> set (drop i xs) = set xs"
    by (metis append_take_drop_id set_append)
  then show ?thesis by (auto simp: insert_at_def)
qed

lemma distinct_insert_at [list_ops]:
  "distinct (insert_at i x xs) \<longleftrightarrow> x \<notin> set xs \<and> distinct xs"
proof -
  have "distinct (insert_at i x xs) \<longleftrightarrow> distinct (x # (take i xs @ drop i xs))"
    by (simp add: insert_at_def del: append_take_drop_id) blast
  then show ?thesis by simp
qed

lemma remove_at_split: "i < length xs \<Longrightarrow> xs = take i xs @ xs ! i # drop (Suc i) xs"
  by (rule id_take_nth_drop)

lemma set_remove_at: "distinct xs \<Longrightarrow> i < length xs \<Longrightarrow> set (remove_at i xs) = set xs - {xs ! i}"
proof -
  assume d: "distinct xs" and i: "i < length xs"
  from i have s: "xs = take i xs @ xs ! i # drop (Suc i) xs" by (rule id_take_nth_drop)
  with d have "distinct (take i xs @ xs ! i # drop (Suc i) xs)" by simp
  then show ?thesis unfolding remove_at_def by (subst (3) s) auto
qed

lemma set_remove_at_subset: "set (remove_at i xs) \<subseteq> set xs"
  unfolding remove_at_def using set_take_subset set_drop_subset by fastforce

lemma distinct_remove_at [list_ops]: "distinct xs \<Longrightarrow> distinct (remove_at i xs)"
  unfolding remove_at_def
  by (metis distinct_append distinct_drop distinct_take le_SucI order_refl set_take_disj_set_drop_if_distinct)

lemma length_keep_last [simp]: "length (keep_last n xs) = min n (length xs)"
  by (simp add: keep_last_def)

lemma keep_last_small [simp]: "length xs \<le> n \<Longrightarrow> keep_last n xs = xs"
  by (simp add: keep_last_def)

lemma keep_last_suffix: "\<exists>ys. xs = ys @ keep_last n xs"
  unfolding keep_last_def by (metis append_take_drop_id)

lemma set_keep_last: "set (keep_last n xs) \<subseteq> set xs"
  unfolding keep_last_def by (rule set_drop_subset)

lemma first_unused_spec:
  "n \<le> first_unused used n \<and> first_unused used n \<notin> set used \<and>
   (\<forall>k. n \<le> k \<and> k < first_unused used n \<longrightarrow> k \<in> set used)"
proof (induction used n rule: first_unused.induct)
  case (1 used n)
  show ?case
  proof (cases "n \<in> set used")
    case True
    let ?m = "first_unused (removeAll n used) (Suc n)"
    have eq: "first_unused used n = ?m"
      using True by (simp add: first_unused.simps [of used n])
    from 1 [OF True] have IH: "Suc n \<le> ?m" "?m \<notin> set used - {n}"
      "\<And>k. Suc n \<le> k \<Longrightarrow> k < ?m \<Longrightarrow> k \<in> set used - {n}"
      by auto
    have "?m \<notin> set used" using IH(1,2) by auto
    moreover have "k \<in> set used" if "n \<le> k" "k < ?m" for k
      using IH(3) [of k] that True by (cases "k = n") auto
    ultimately show ?thesis using eq IH(1) by simp
  next
    case False
    then show ?thesis by (auto simp: first_unused.simps [of used n])
  qed
qed

lemma first_unused_bound: "first_unused used n \<le> n + length used"
proof -
  have "{n..<first_unused used n} \<subseteq> set used"
    using first_unused_spec [of n used] by auto
  then have "card {n..<first_unused used n} \<le> card (set used)" by (rule card_mono [OF finite_set])
  also have "\<dots> \<le> length used" by (rule card_length)
  finally show ?thesis by simp
qed

text \<open>The first unused number, written after a prefix, is a name nobody has.\<close>

lemma first_unused_fresh_name:
  assumes num: "\<And>n. n < 2 ^ 64 \<Longrightarrow> num (pre @ show_nat n) = Some n"
    and len: "Suc (length names) < 2 ^ 64"
  shows "pre @ show_nat (first_unused (List.map_filter num names) 1) \<notin> set names"
proof
  let ?used = "List.map_filter num names" and ?n = "first_unused (List.map_filter num names) 1"
  assume "pre @ show_nat ?n \<in> set names"
  moreover have "length ?used \<le> length names" by (simp add: List.map_filter_def)
  then have "?n \<le> Suc (length names)" using first_unused_bound [of ?used 1] by simp
  then have "?n < 2 ^ 64" using len by (rule le_less_trans)
  then have "num (pre @ show_nat ?n) = Some ?n" by (rule num)
  ultimately have "?n \<in> set ?used" by (force simp: List.map_filter_def)
  then show False using first_unused_spec [of 1 ?used] by blast
qed

section \<open>Stable sorting\<close>

text \<open>
  \<open>slice::sort_by\<close>, \<open>sort_by_key\<close> and \<open>sort_unstable\<close> on a total preorder: an
  insertion sort that keeps equal elements in their order.
\<close>

fun insert_by :: "('a \<Rightarrow> 'a \<Rightarrow> bool) \<Rightarrow> 'a \<Rightarrow> 'a list \<Rightarrow> 'a list" where
  "insert_by le x [] = [x]"
| "insert_by le x (y # ys) = (if le x y then x # y # ys else y # insert_by le x ys)"

fun sort_by :: "('a \<Rightarrow> 'a \<Rightarrow> bool) \<Rightarrow> 'a list \<Rightarrow> 'a list" where
  "sort_by le [] = []"
| "sort_by le (x # xs) = insert_by le x (sort_by le xs)"

lemma mset_insert_by [simp]: "mset (insert_by le x xs) = add_mset x (mset xs)"
  by (induction xs) auto

lemma mset_sort_by [simp]: "mset (sort_by le xs) = mset xs"
  by (induction xs) auto

lemma set_sort_by [simp]: "set (sort_by le xs) = set xs"
  by (metis mset_sort_by set_mset_mset)

lemma length_sort_by [simp]: "length (sort_by le xs) = length xs"
  by (metis mset_sort_by size_mset)

lemma sort_by_eq_Nil [simp]: "sort_by le xs = [] \<longleftrightarrow> xs = []"
  by (metis length_0_conv length_sort_by)

lemma set_insert_by [simp]: "set (insert_by le x xs) = insert x (set xs)"
  by (induction xs) auto

lemma sorted_insert_by:
  assumes "\<And>x y. le x y \<or> le y x" and "\<And>x y z. le x y \<Longrightarrow> le y z \<Longrightarrow> le x z"
  shows "sorted_wrt le xs \<Longrightarrow> sorted_wrt le (insert_by le x xs)"
proof (induction xs)
  case (Cons y ys)
  show ?case
  proof (cases "le x y")
    case True
    with Cons.prems assms(2) show ?thesis by auto
  next
    case False
    with assms(1) have "le y x" by blast
    with False Cons show ?thesis by auto
  qed
qed simp

lemma sorted_sort_by:
  assumes "\<And>x y. le x y \<or> le y x" and "\<And>x y z. le x y \<Longrightarrow> le y z \<Longrightarrow> le x z"
  shows "sorted_wrt le (sort_by le xs)"
  by (induction xs) (auto intro: sorted_insert_by [OF assms])

lemma insert_by_first: "\<forall>y \<in> set ys. le x y \<Longrightarrow> insert_by le x ys = x # ys"
  by (cases ys) auto

lemma insert_by_last: "\<forall>y \<in> set ys. \<not> le x y \<Longrightarrow> insert_by le x ys = ys @ [x]"
  by (induction ys) auto

lemma sort_by_sorted: "sorted_wrt le xs \<Longrightarrow> sort_by le xs = xs"
  by (induction xs) (auto simp: insert_by_first)

end
