(* ===== verification/RopeText.thy ===== *)
theory RopeText
  imports Prelude
begin

text \<open>
  The text buffer under the editor. The program keeps a document in a \<open>ropey::Rope\<close>
  (crate \<open>ropey\<close> 1.6, default features), which is not part of the repository: here it is a
  parameter, the record \<open>ropey\<close> of the operations the editor calls, and every definition that
  uses a rope takes the record as its first argument. The locale \<open>rope_contract\<close> states what
  the crate documents about them, always relative to the text (the list of characters) a rope
  holds, and only for arguments in range: outside the range the crate panics, and nothing is
  assumed about the value.

  A line of a rope ends after a line break. With its default features the crate recognises the
  Unicode line breaks, CR LF counting as one (\<open>ends_line\<close>).
\<close>

section \<open>Lines of a text\<close>

definition is_break :: "rchar \<Rightarrow> bool" where
  "is_break c \<longleftrightarrow> c \<in> {10, 11, 12, 13, 133, 8232, 8233}"

text \<open>Does a line end after \<open>c\<close> when \<open>rest\<close> follows?\<close>

definition ends_line :: "rchar \<Rightarrow> rstring \<Rightarrow> bool" where
  "ends_line c rest \<longleftrightarrow> is_break c \<and> \<not> (c = CR \<and> rest \<noteq> [] \<and> hd rest = LF)"

fun tlines :: "rstring \<Rightarrow> rstring list" where
  "tlines [] = [[]]"
| "tlines (c # cs) =
     (if ends_line c cs then [c] # tlines cs
      else (case tlines cs of [] \<Rightarrow> [[c]] | l # ls \<Rightarrow> (c # l) # ls))"

text \<open>Line breaks before offset \<open>n\<close>: the line that offset is on.\<close>

fun line_index :: "rstring \<Rightarrow> nat \<Rightarrow> nat" where
  "line_index [] n = 0"
| "line_index (c # cs) n =
     (case n of 0 \<Rightarrow> 0 | Suc m \<Rightarrow> (if ends_line c cs then 1 else 0) + line_index cs m)"

text \<open>Offset where line \<open>k\<close> starts.\<close>

definition line_offset :: "rstring \<Rightarrow> nat \<Rightarrow> nat" where
  "line_offset s k = length (concat (take k (tlines s)))"

section \<open>The rope interface\<close>

record 'r ropey =
  from_str :: "rstring \<Rightarrow> 'r"
  to_string :: "'r \<Rightarrow> rstring"
  len_chars :: "'r \<Rightarrow> nat"
  len_lines :: "'r \<Rightarrow> nat"
  char_at :: "'r \<Rightarrow> nat \<Rightarrow> rchar"
  slice :: "'r \<Rightarrow> nat \<Rightarrow> nat \<Rightarrow> rstring"
  remove_range :: "'r \<Rightarrow> nat \<Rightarrow> nat \<Rightarrow> 'r"
  insert_str :: "'r \<Rightarrow> nat \<Rightarrow> rstring \<Rightarrow> 'r"
  char_to_line :: "'r \<Rightarrow> nat \<Rightarrow> nat"
  line_to_char :: "'r \<Rightarrow> nat \<Rightarrow> nat"
  rope_line :: "'r \<Rightarrow> nat \<Rightarrow> rstring"
  rope_eq :: "'r \<Rightarrow> 'r \<Rightarrow> bool"
  rope_chunks :: "'r \<Rightarrow> rstring list"
  len_utf16_cu :: "'r \<Rightarrow> nat"
  char_to_utf16_cu :: "'r \<Rightarrow> nat \<Rightarrow> nat"

locale rope_contract =
  fixes R :: "'r ropey"
  assumes text_from_str [simp]: "to_string R (from_str R s) = s"
    and len_chars_text [simp]: "len_chars R r = length (to_string R r)"
    and len_lines_text [simp]: "len_lines R r = length (tlines (to_string R r))"
    and char_at_text [simp]: "i < length (to_string R r) \<Longrightarrow> char_at R r i = to_string R r ! i"
    and slice_text [simp]: "a \<le> b \<Longrightarrow> b \<le> length (to_string R r) \<Longrightarrow>
      slice R r a b = take (b - a) (drop a (to_string R r))"
    and remove_text [simp]: "a \<le> b \<Longrightarrow> b \<le> length (to_string R r) \<Longrightarrow>
      to_string R (remove_range R r a b) = take a (to_string R r) @ drop b (to_string R r)"
    and insert_text [simp]: "a \<le> length (to_string R r) \<Longrightarrow>
      to_string R (insert_str R r a s) = take a (to_string R r) @ s @ drop a (to_string R r)"
    and char_to_line_text [simp]: "i \<le> length (to_string R r) \<Longrightarrow>
      char_to_line R r i = line_index (to_string R r) i"
    and line_to_char_text [simp]: "k \<le> length (tlines (to_string R r)) \<Longrightarrow>
      line_to_char R r k = line_offset (to_string R r) k"
    and rope_line_text [simp]: "k < length (tlines (to_string R r)) \<Longrightarrow>
      rope_line R r k = tlines (to_string R r) ! k"
    and rope_eq_text [simp]: "rope_eq R r r' \<longleftrightarrow> to_string R r = to_string R r'"
    and rope_chunks_text: "concat (rope_chunks R r) = to_string R r"
    and len_utf16_cu_text [simp]:
      "len_utf16_cu R r = sum_list (map len_utf16 (to_string R r))"
    and char_to_utf16_cu_text [simp]: "i \<le> length (to_string R r) \<Longrightarrow>
      char_to_utf16_cu R r i = sum_list (map len_utf16 (take i (to_string R r)))"

text \<open>The contract can be met: a rope that is its text.\<close>

definition list_rope :: "rstring ropey" where
  "list_rope = \<lparr> from_str = (\<lambda>s. s), to_string = (\<lambda>s. s), len_chars = length,
     len_lines = (\<lambda>s. length (tlines s)), char_at = (\<lambda>s i. s ! i),
     slice = (\<lambda>s a b. take (b - a) (drop a s)),
     remove_range = (\<lambda>s a b. take a s @ drop b s),
     insert_str = (\<lambda>s a t. take a s @ t @ drop a s),
     char_to_line = line_index, line_to_char = line_offset,
     rope_line = (\<lambda>s k. tlines s ! k), rope_eq = (\<lambda>s t. s = t),
     rope_chunks = (\<lambda>s. [s]), len_utf16_cu = (\<lambda>s. sum_list (map len_utf16 s)),
     char_to_utf16_cu = (\<lambda>s i. sum_list (map len_utf16 (take i s))) \<rparr>"

lemma list_rope_simps [simp]:
  "from_str list_rope s = s" "to_string list_rope s = s" "len_chars list_rope s = length s"
  "len_lines list_rope s = length (tlines s)" "char_at list_rope s i = s ! i"
  "slice list_rope s a b = take (b - a) (drop a s)"
  "remove_range list_rope s a b = take a s @ drop b s"
  "insert_str list_rope s a t = take a s @ t @ drop a s"
  "char_to_line list_rope = line_index" "line_to_char list_rope = line_offset"
  "rope_line list_rope s k = tlines s ! k" "rope_eq list_rope s t = (s = t)"
  "rope_chunks list_rope s = [s]" "len_utf16_cu list_rope s = sum_list (map len_utf16 s)"
  "char_to_utf16_cu list_rope s i = sum_list (map len_utf16 (take i s))"
  by (simp_all add: list_rope_def)

interpretation list_rope: rope_contract list_rope
  by unfold_locales simp_all

lemma list_rope_contract: "rope_contract list_rope"
  by (rule list_rope.rope_contract_axioms)

section \<open>Facts about lines\<close>

lemma tlines_neq_Nil [simp]: "tlines s \<noteq> []"
  by (cases s) (auto split: list.splits)

lemma length_tlines_pos [simp]: "0 < length (tlines s)"
  by (simp add: length_greater_0_conv)

lemma concat_tlines [simp]: "concat (tlines s) = s"
  by (induction s) (auto split: list.splits)

lemma line_offset_0 [simp]: "line_offset s 0 = 0"
  by (simp add: line_offset_def)

lemma line_offset_all [simp]: "length (tlines s) \<le> k \<Longrightarrow> line_offset s k = length s"
  by (simp add: line_offset_def)

lemma line_offset_le [simp]: "line_offset s k \<le> length s"
proof -
  have "s = concat (take k (tlines s)) @ concat (drop k (tlines s))"
    by (metis append_take_drop_id concat_append concat_tlines)
  then show ?thesis unfolding line_offset_def by (metis le_add1 length_append)
qed

lemma line_offset_Suc:
  "k < length (tlines s) \<Longrightarrow> line_offset s (Suc k) = line_offset s k + length (tlines s ! k)"
  by (simp add: line_offset_def take_Suc_conv_app_nth)

lemma line_offset_mono: "j \<le> k \<Longrightarrow> line_offset s j \<le> line_offset s k"
proof -
  assume "j \<le> k"
  then obtain d where "k = j + d" using le_Suc_ex by blast
  then show ?thesis by (simp add: line_offset_def take_add)
qed

lemma line_offset_Cons_break:
  "ends_line c cs \<Longrightarrow> line_offset (c # cs) (Suc k) = Suc (line_offset cs k)"
  by (simp add: line_offset_def)

lemma line_offset_Cons_other:
  "\<not> ends_line c cs \<Longrightarrow> line_offset (c # cs) (Suc k) = Suc (line_offset cs (Suc k))"
  by (cases "tlines cs") (auto simp: line_offset_def)

lemma line_index_0 [simp]: "line_index s 0 = 0"
  by (cases s) auto

lemma length_tlines_Cons:
  "length (tlines (c # cs)) = (if ends_line c cs then 1 else 0) + length (tlines cs)"
  by (cases "tlines cs") auto

lemma line_index_lt [simp]: "line_index s n < length (tlines s)"
proof (induction s arbitrary: n)
  case (Cons c cs)
  then show ?case
    by (cases n) (simp_all add: length_tlines_Cons del: tlines.simps)
qed simp

lemma line_offset_le_iff:
  "n \<le> length s \<Longrightarrow> k < length (tlines s) \<Longrightarrow> line_offset s k \<le> n \<longleftrightarrow> k \<le> line_index s n"
proof (induction s arbitrary: n k)
  case Nil
  then show ?case by simp
next
  case (Cons c cs)
  show ?case
  proof (cases k)
    case (Suc j)
    show ?thesis
    proof (cases n)
      case 0
      then show ?thesis
        using Suc by (cases "ends_line c cs")
          (simp_all add: line_offset_Cons_break line_offset_Cons_other del: tlines.simps)
    next
      case (Suc m)
      show ?thesis
      proof (cases "ends_line c cs")
        case True
        with Cons.prems Suc \<open>k = Suc j\<close> show ?thesis
          by (simp add: line_offset_Cons_break Cons.IH [of m j])
      next
        case False
        with Cons.prems \<open>k = Suc j\<close> have k: "k < length (tlines cs)"
          by (simp add: length_tlines_Cons del: tlines.simps)
        have "line_offset (c # cs) k \<le> n \<longleftrightarrow> line_offset cs k \<le> m"
          using False Suc \<open>k = Suc j\<close> by (simp add: line_offset_Cons_other)
        also have "\<dots> \<longleftrightarrow> k \<le> line_index cs m"
          using Cons.prems(1) Suc k by (intro Cons.IH) auto
        finally show ?thesis using False Suc by simp
      qed
    qed
  qed simp
qed

text \<open>The line of an offset holds it.\<close>

lemma line_offset_line_index: "n \<le> length s \<Longrightarrow> line_offset s (line_index s n) \<le> n"
  by (simp add: line_offset_le_iff)

lemma line_index_less_next:
  "n \<le> length s \<Longrightarrow> Suc (line_index s n) < length (tlines s) \<Longrightarrow>
   n < line_offset s (Suc (line_index s n))"
  using line_offset_le_iff [of n s "Suc (line_index s n)"] by simp

lemma line_index_mono: "m \<le> n \<Longrightarrow> line_index s m \<le> line_index s n"
proof (induction s arbitrary: m n)
  case (Cons c cs)
  then show ?case by (cases m; cases n) auto
qed simp

lemma nonempty_line: "Suc k < length (tlines s) \<Longrightarrow> tlines s ! k \<noteq> []"
proof (induction s arbitrary: k)
  case (Cons c cs)
  show ?case
    using Cons.prems Cons.IH [of k] Cons.IH [of "k - 1"]
    by (cases k; cases "tlines cs"; cases "ends_line c cs") auto
qed simp

lemma line_index_line_offset: "k < length (tlines s) \<Longrightarrow> line_index s (line_offset s k) = k"
proof (rule antisym)
  assume k: "k < length (tlines s)"
  show "k \<le> line_index s (line_offset s k)"
    using k line_offset_le_iff [of "line_offset s k" s k] by simp
  show "line_index s (line_offset s k) \<le> k"
  proof (rule ccontr)
    assume "\<not> ?thesis"
    then have "Suc k \<le> line_index s (line_offset s k)" by simp
    then have lt: "Suc k < length (tlines s)"
      using line_index_lt le_less_trans by blast
    then have "line_offset s (Suc k) \<le> line_offset s k"
      using \<open>Suc k \<le> _\<close> line_offset_le_iff [of "line_offset s k" s "Suc k"] by simp
    moreover have "tlines s ! k \<noteq> []"
      using lt by (rule nonempty_line)
    ultimately show False using k by (simp add: line_offset_Suc)
  qed
qed

section \<open>Joining texts\<close>

text \<open>No CR LF pair is made where two texts meet.\<close>

definition seam_ok :: "rstring \<Rightarrow> rstring \<Rightarrow> bool" where
  "seam_ok a b \<longleftrightarrow> \<not> (a \<noteq> [] \<and> last a = CR \<and> b \<noteq> [] \<and> hd b = LF)"

lemma seam_ok_no_cr [simp]: "CR \<notin> set a \<Longrightarrow> seam_ok a b"
  unfolding seam_ok_def by (metis last_in_set)

lemma seam_ok_Nil [simp]: "seam_ok [] b"
  by (simp add: seam_ok_def)

lemma seam_ok_Cons: "seam_ok (c # cs) b \<Longrightarrow> seam_ok cs b"
  by (auto simp: seam_ok_def split: if_splits)

lemma ends_line_append: "seam_ok (c # cs) b \<Longrightarrow> ends_line c (cs @ b) \<longleftrightarrow> ends_line c cs"
  by (cases cs) (auto simp: ends_line_def seam_ok_def)

lemma tlines_append:
  "seam_ok a b \<Longrightarrow>
   tlines (a @ b) = butlast (tlines a) @ (last (tlines a) @ hd (tlines b)) # tl (tlines b)"
proof (induction a)
  case Nil
  then show ?case by (cases "tlines b") auto
next
  case (Cons c cs)
  have IH: "tlines (cs @ b) = butlast (tlines cs) @ (last (tlines cs) @ hd (tlines b)) # tl (tlines b)"
    using Cons.IH seam_ok_Cons [OF Cons.prems] by simp
  obtain l ls where cs: "tlines cs = l # ls" by (meson list.exhaust tlines_neq_Nil)
  show ?case
  proof (cases "ends_line c cs")
    case True
    then show ?thesis using IH by (simp add: ends_line_append [OF Cons.prems])
  next
    case False
    then show ?thesis using IH cs
      by (cases ls) (simp_all add: ends_line_append [OF Cons.prems])
  qed
qed

lemma length_tlines_append:
  "seam_ok a b \<Longrightarrow> length (tlines (a @ b)) = length (tlines a) + length (tlines b) - 1"
  by (cases "tlines b") (simp_all add: tlines_append)

lemma line_index_append: "seam_ok a b \<Longrightarrow> line_index (a @ b) (length a) = length (tlines a) - 1"
proof (induction a)
  case (Cons c cs)
  have "0 < length (tlines cs)" by simp
  then show ?case
    using Cons.IH [OF seam_ok_Cons [OF Cons.prems]] ends_line_append [OF Cons.prems]
    by (simp add: length_tlines_Cons del: tlines.simps length_tlines_pos)
qed simp

lemma take_tlines_append:
  "seam_ok a b \<Longrightarrow> take (length (tlines a) - 1) (tlines (a @ b)) = butlast (tlines a)"
  by (simp only: tlines_append) simp

lemma drop_tlines_append:
  "seam_ok a b \<Longrightarrow> drop (length (tlines a)) (tlines (a @ b)) = tl (tlines b)"
proof -
  assume s: "seam_ok a b"
  have "length (tlines a) = length (butlast (tlines a) @ [last (tlines a) @ hd (tlines b)])"
    using length_tlines_pos [of a] by simp
  moreover have "tlines (a @ b)
      = (butlast (tlines a) @ [last (tlines a) @ hd (tlines b)]) @ tl (tlines b)"
    using tlines_append [OF s] by simp
  ultimately show ?thesis by (metis append_eq_conv_conj)
qed

end
