(* ===== verification/Change.thy ===== *)
theory Change
  imports RopeText
begin

text \<open>
  Edits as data (\<open>throng-editor/src/change.rs\<close>): a \<open>Transaction\<close> is a list of
  replacements, each at an offset of the document as the earlier ones left it. The file models
  building one from ranges (\<open>tx_replace\<close>), applying it to a rope, inverting it, and carrying
  positions across it, and relates each to the text the rope holds.
\<close>

section \<open>Data\<close>

record change =
  ch_at :: nat
  removed :: rstring
  inserted :: rstring

definition removed_len :: "change \<Rightarrow> nat" where
  "removed_len c = length (removed c)"

definition inserted_len :: "change \<Rightarrow> nat" where
  "inserted_len c = length (inserted c)"

datatype assoc = Before | After

record transaction =
  changes :: "change list"

section \<open>Operations\<close>

text \<open>The order edits are sorted into: from the end of the document backwards.\<close>

definition edit_order :: "nat \<times> nat \<times> rstring \<Rightarrow> nat \<times> nat \<times> rstring \<Rightarrow> bool" where
  "edit_order a b \<longleftrightarrow> fst b < fst a \<or> (fst b = fst a \<and> fst (snd b) \<le> fst (snd a))"

definition edit_change :: "'r ropey \<Rightarrow> 'r \<Rightarrow> nat \<times> nat \<times> rstring \<Rightarrow> change option" where
  "edit_change R r e =
     (case e of (from, to, ins) \<Rightarrow>
        let len = len_chars R r; from = min from len; to = min to len;
            rem = slice R r from to
        in if rem \<noteq> ins then Some \<lparr>ch_at = from, removed = rem, inserted = ins\<rparr> else None)"

definition tx_replace :: "'r ropey \<Rightarrow> 'r \<Rightarrow> (nat \<times> nat \<times> rstring) list \<Rightarrow> transaction" where
  "tx_replace R r edits =
     \<lparr>changes = List.map_filter (edit_change R r) (sort_by edit_order edits)\<rparr>"

definition tx_is_empty :: "transaction \<Rightarrow> bool" where
  "tx_is_empty tx \<longleftrightarrow> changes tx = []"

definition change_apply :: "'r ropey \<Rightarrow> 'r \<Rightarrow> change \<Rightarrow> 'r" where
  "change_apply R r c =
     insert_str R (remove_range R r (ch_at c) (ch_at c + removed_len c)) (ch_at c) (inserted c)"

definition tx_apply :: "'r ropey \<Rightarrow> transaction \<Rightarrow> 'r \<Rightarrow> 'r" where
  "tx_apply R tx r = foldl (change_apply R) r (changes tx)"

definition change_invert :: "change \<Rightarrow> change" where
  "change_invert c = \<lparr>ch_at = ch_at c, removed = inserted c, inserted = removed c\<rparr>"

definition tx_invert :: "transaction \<Rightarrow> transaction" where
  "tx_invert tx = \<lparr>changes = map change_invert (rev (changes tx))\<rparr>"

definition change_map :: "assoc \<Rightarrow> nat \<Rightarrow> change \<Rightarrow> nat" where
  "change_map assoc pos c =
     (let rem = removed_len c; ins = inserted_len c; end = ch_at c + rem
      in if pos < ch_at c then pos
         else if pos > end then pos - rem + ins
         else if rem = 0 then (if assoc = After then ch_at c + ins else ch_at c)
         else if pos = ch_at c then ch_at c
         else if pos = end \<or> assoc = After then ch_at c + ins
         else ch_at c)"

definition tx_map :: "transaction \<Rightarrow> nat \<Rightarrow> assoc \<Rightarrow> nat" where
  "tx_map tx pos assoc = foldl (change_map assoc) pos (changes tx)"

definition first_touched :: "transaction \<Rightarrow> nat option" where
  "first_touched tx =
     (case changes tx of [] \<Rightarrow> None | c # cs \<Rightarrow> Some (Min (ch_at ` set (c # cs))))"

definition weight :: "transaction \<Rightarrow> nat" where
  "weight tx = sum_list (map (\<lambda>c. str_bytes (removed c) + str_bytes (inserted c) + 16) (changes tx))"

section \<open>The same on texts\<close>

text \<open>
  The specification: what a change does to a text, and when it fits one (what it says it removes
  is there). A transaction fits when each of its changes fits the text the earlier ones left.
\<close>

definition change_text :: "rstring \<Rightarrow> change \<Rightarrow> rstring" where
  "change_text s c = take (ch_at c) s @ inserted c @ drop (ch_at c + removed_len c) s"

definition tx_text :: "change list \<Rightarrow> rstring \<Rightarrow> rstring" where
  "tx_text cs s = foldl change_text s cs"

definition change_fits :: "change \<Rightarrow> rstring \<Rightarrow> bool" where
  "change_fits c s \<longleftrightarrow> ch_at c + removed_len c \<le> length s
     \<and> take (removed_len c) (drop (ch_at c) s) = removed c"

fun tx_fits :: "change list \<Rightarrow> rstring \<Rightarrow> bool" where
  "tx_fits [] s = True"
| "tx_fits (c # cs) s = (change_fits c s \<and> tx_fits cs (change_text s c))"

text \<open>
  Replacing ranges all at once: walk the ranges in ascending order, copying what lies between.
\<close>

fun splice :: "rstring \<Rightarrow> nat \<Rightarrow> (nat \<times> nat \<times> rstring) list \<Rightarrow> rstring" where
  "splice s pos [] = drop pos s"
| "splice s pos ((f, t, ins) # es) = take (f - pos) (drop pos s) @ ins @ splice s t es"

text \<open>Ascending ranges, each after the one before, inside a text of length \<open>n\<close>.\<close>

fun spans_from :: "nat \<Rightarrow> nat \<Rightarrow> (nat \<times> nat \<times> rstring) list \<Rightarrow> bool" where
  "spans_from n pos [] = (pos \<le> n)"
| "spans_from n pos ((f, t, ins) # es) = (pos \<le> f \<and> f \<le> t \<and> t \<le> n \<and> spans_from n t es)"

definition spans_apart :: "nat \<times> nat \<times> rstring \<Rightarrow> nat \<times> nat \<times> rstring \<Rightarrow> bool" where
  "spans_apart a b \<longleftrightarrow> fst (snd a) \<le> fst b \<or> fst (snd b) \<le> fst a"

definition spans_ok :: "nat \<Rightarrow> (nat \<times> nat \<times> rstring) list \<Rightarrow> bool" where
  "spans_ok n es \<longleftrightarrow> list_all (\<lambda>(f, t, _). f \<le> t \<and> t \<le> n) es \<and> sorted_wrt spans_apart es"

section \<open>Lemmas on texts\<close>

lemma tx_text_Nil [simp]: "tx_text [] s = s"
  by (simp add: tx_text_def)

lemma tx_text_Cons [simp]: "tx_text (c # cs) s = tx_text cs (change_text s c)"
  by (simp add: tx_text_def)

lemma tx_text_append [simp]: "tx_text (cs @ ds) s = tx_text ds (tx_text cs s)"
  by (simp add: tx_text_def)

lemma tx_fits_append [simp]: "tx_fits (cs @ ds) s \<longleftrightarrow> tx_fits cs s \<and> tx_fits ds (tx_text cs s)"
  by (induction cs arbitrary: s) auto

lemma change_fits_split:
  "change_fits c s \<Longrightarrow> s = take (ch_at c) s @ removed c @ drop (ch_at c + removed_len c) s"
  unfolding change_fits_def
  by (metis append_take_drop_id drop_drop add.commute)

lemma change_fitsD: "change_fits c s \<Longrightarrow> ch_at c + removed_len c \<le> length s"
  by (simp add: change_fits_def)

lemma length_change_text:
  "change_fits c s \<Longrightarrow> length (change_text s c) = length s - removed_len c + inserted_len c"
  by (auto simp: change_fits_def change_text_def inserted_len_def)

lemma change_invert_fits: "change_fits c s \<Longrightarrow> change_fits (change_invert c) (change_text s c)"
  by (auto simp: change_fits_def change_text_def change_invert_def removed_len_def)

lemma change_text_parts: "length a = ch_at c \<Longrightarrow> change_text (a @ removed c @ b) c = a @ inserted c @ b"
  by (simp add: change_text_def removed_len_def)

lemma change_fitsE:
  assumes "change_fits c s"
  obtains a b where "s = a @ removed c @ b" "length a = ch_at c"
    "change_text s c = a @ inserted c @ b"
proof -
  let ?a = "take (ch_at c) s" and ?b = "drop (ch_at c + removed_len c) s"
  have "s = ?a @ removed c @ ?b" using assms by (rule change_fits_split)
  moreover have "length ?a = ch_at c" using change_fitsD [OF assms] by simp
  ultimately show ?thesis
    by (intro that [of ?a ?b]) (simp_all add: change_text_def)
qed

lemma change_invert_text: "change_fits c s \<Longrightarrow> change_text (change_text s c) (change_invert c) = s"
  by (erule change_fitsE) (auto simp: change_text_def change_invert_def removed_len_def)

lemma tx_invert_text:
  "tx_fits cs s \<Longrightarrow> tx_fits (map change_invert (rev cs)) (tx_text cs s)
     \<and> tx_text (map change_invert (rev cs)) (tx_text cs s) = s"
  by (induction cs arbitrary: s) (auto simp: change_invert_fits change_invert_text)

lemma change_invert_invert [simp]: "change_invert (change_invert c) = c"
  by (simp add: change_invert_def)

subsection \<open>Positions\<close>

lemma change_map_bounds:
  "change_fits c s \<Longrightarrow> pos \<le> length s \<Longrightarrow> change_map a pos c \<le> length (change_text s c)"
  by (auto simp: length_change_text change_map_def Let_def dest: change_fitsD)

lemma change_map_mono: "p \<le> q \<Longrightarrow> change_map a p c \<le> change_map a q c"
  by (auto simp: change_map_def Let_def)

lemma change_map_Before_le_After: "change_map Before p c \<le> change_map After p c"
  by (auto simp: change_map_def Let_def)

lemma foldl_change_map_mono: "p \<le> q \<Longrightarrow> foldl (change_map a) p cs \<le> foldl (change_map a) q cs"
  by (induction cs arbitrary: p q) (auto simp: change_map_mono)

lemma tx_map_mono: "p \<le> q \<Longrightarrow> tx_map tx p a \<le> tx_map tx q a"
  by (simp add: tx_map_def foldl_change_map_mono)

lemma tx_map_Before_le_After: "tx_map tx p Before \<le> tx_map tx p After"
proof -
  have "p \<le> q \<Longrightarrow> foldl (change_map Before) p cs \<le> foldl (change_map After) q cs" for p q cs
  proof (induction cs arbitrary: p q)
    case (Cons c cs)
    have "change_map Before p c \<le> change_map After q c"
      using change_map_mono [OF Cons.prems, of Before c] change_map_Before_le_After [of q c]
      by simp
    then show ?case by (simp add: Cons.IH)
  qed simp
  then show ?thesis by (simp add: tx_map_def)
qed

lemma foldl_change_map_bounds:
  "tx_fits cs s \<Longrightarrow> pos \<le> length s \<Longrightarrow> foldl (change_map a) pos cs \<le> length (tx_text cs s)"
  by (induction cs arbitrary: s pos) (auto simp: change_map_bounds)

lemma tx_map_bounds:
  "tx_fits (changes tx) s \<Longrightarrow> pos \<le> length s \<Longrightarrow> tx_map tx pos a \<le> length (tx_text (changes tx) s)"
  by (simp add: tx_map_def foldl_change_map_bounds)

text \<open>A character no change removes keeps its identity: it is found where \<open>map\<close> says.\<close>

fun survives :: "change list \<Rightarrow> nat \<Rightarrow> bool" where
  "survives [] i = True"
| "survives (c # cs) i =
     ((i < ch_at c \<or> ch_at c + removed_len c \<le> i) \<and> survives cs (change_map After i c))"

lemma change_map_nth:
  assumes "change_fits c s" "i < length s" "i < ch_at c \<or> ch_at c + removed_len c \<le> i"
  shows "change_map After i c < length (change_text s c)
    \<and> change_text s c ! change_map After i c = s ! i"
proof -
  obtain a b where s: "s = a @ removed c @ b" and a: "length a = ch_at c"
    and t: "change_text s c = a @ inserted c @ b"
    using assms(1) by (rule change_fitsE)
  show ?thesis
  proof (cases "i < ch_at c")
    case True
    then have "change_map After i c = i" by (simp add: change_map_def)
    then show ?thesis using True t a unfolding s by (simp add: nth_append)
  next
    case False
    with assms(3) obtain d where i: "i = length a + length (removed c) + d"
      by (metis a le_Suc_ex removed_len_def)
    then have "change_map After i c = length a + length (inserted c) + d"
      by (auto simp: change_map_def Let_def removed_len_def inserted_len_def a)
    moreover have "d < length b" using assms(2) by (simp add: s i)
    moreover have "s ! i = b ! d" by (simp add: s i nth_append)
    ultimately show ?thesis by (simp add: t nth_append)
  qed
qed

lemma tx_map_nth:
  "tx_fits cs s \<Longrightarrow> i < length s \<Longrightarrow> survives cs i \<Longrightarrow>
   foldl (change_map After) i cs < length (tx_text cs s)
   \<and> tx_text cs s ! foldl (change_map After) i cs = s ! i"
proof (induction cs arbitrary: s i)
  case (Cons c cs)
  then show ?case using change_map_nth [of c s i] by simp
qed simp

text \<open>Text before every change is not touched.\<close>

lemma tx_text_prefix:
  "tx_fits cs s \<Longrightarrow> \<forall>c \<in> set cs. n \<le> ch_at c \<Longrightarrow> take n (tx_text cs s) = take n s"
proof (induction cs arbitrary: s)
  case (Cons c cs)
  then have "take n (tx_text (c # cs) s) = take n (change_text s c)" by simp
  also have "\<dots> = take n s"
    using Cons.prems by (auto simp: change_text_def dest!: change_fitsD)
  finally show ?case .
qed simp

subsection \<open>Replacing ranges\<close>

lemma edit_order_total: "edit_order a b \<or> edit_order b a"
  by (auto simp: edit_order_def)

lemma edit_order_trans: "edit_order a b \<Longrightarrow> edit_order b c \<Longrightarrow> edit_order a c"
  by (auto simp: edit_order_def)

lemma sorted_edits: "sorted_wrt edit_order (sort_by edit_order es)"
  by (rule sorted_sort_by) (auto simp: edit_order_total intro: edit_order_trans)

lemma spans_apart_mset:
  "mset es = mset fs \<Longrightarrow> sorted_wrt spans_apart es \<Longrightarrow> sorted_wrt spans_apart fs"
proof (induction es arbitrary: fs)
  case (Cons e es)
  from Cons.prems(1) have "e \<in> set fs" by (metis list.set_intros(1) set_mset_mset)
  then obtain xs ys where fs: "fs = xs @ e # ys" by (meson split_list)
  with Cons.prems(1) have eq: "mset es = mset (xs @ ys)" by simp
  with Cons have "sorted_wrt spans_apart (xs @ ys)" by simp
  moreover have "\<forall>x \<in> set (xs @ ys). spans_apart e x"
    using Cons.prems(2) eq by (metis set_mset_mset sorted_wrt.simps(2))
  moreover have "spans_apart e x \<Longrightarrow> spans_apart x e" for x by (auto simp: spans_apart_def)
  ultimately show ?case by (auto simp: fs sorted_wrt_append)
qed simp

lemma spans_ok_mset: "mset es = mset fs \<Longrightarrow> spans_ok n es \<longleftrightarrow> spans_ok n fs"
proof -
  assume m: "mset es = mset fs"
  then have "set es = set fs" by (metis set_mset_mset)
  with spans_apart_mset [OF m] spans_apart_mset [OF m [symmetric]] show ?thesis
    by (auto simp: spans_ok_def list_all_iff)
qed

lemma spans_from_ascending:
  "spans_ok n es \<Longrightarrow> sorted_wrt (\<lambda>a b. edit_order b a) es \<Longrightarrow> pos \<le> n \<Longrightarrow>
   \<forall>e \<in> set es. pos \<le> fst e \<Longrightarrow> spans_from n pos es"
proof (induction es arbitrary: pos)
  case (Cons e es)
  obtain f t ins where e: "e = (f, t, ins)" by (cases e)
  have "\<forall>e' \<in> set es. t \<le> fst e'"
  proof
    fix e' assume "e' \<in> set es"
    with Cons.prems(1,2) e have "spans_apart e e'" "edit_order e' e" "f \<le> t"
      "fst e' \<le> fst (snd e')"
      by (auto simp: spans_ok_def list_all_iff)
    then show "t \<le> fst e'" by (auto simp: spans_apart_def edit_order_def e)
  qed
  with Cons e show ?case by (auto simp: spans_ok_def)
qed simp

lemma spans_from_sorted:
  "spans_ok n es \<Longrightarrow> spans_from n 0 (rev (sort_by edit_order es))"
proof (rule spans_from_ascending)
  assume "spans_ok n es"
  then show "spans_ok n (rev (sort_by edit_order es))"
    by (subst spans_ok_mset [of _ es]) auto
  show "sorted_wrt (\<lambda>a b. edit_order b a) (rev (sort_by edit_order es))"
    using sorted_edits [of es] by (simp add: sorted_wrt_rev)
qed auto

lemma spans_from_le: "spans_from n pos es \<Longrightarrow> pos \<le> n"
  by (induction n pos es rule: spans_from.induct) auto

lemma spans_from_snoc:
  "spans_from n pos (es @ [(f, t, ins)]) \<longleftrightarrow>
   spans_from n pos es \<and> f \<le> t \<and> t \<le> n \<and> pos \<le> f \<and> (\<forall>e \<in> set es. fst (snd e) \<le> f)"
proof (induction n pos es rule: spans_from.induct)
  case (2 n pos f' t' ins' es)
  then show ?case by auto
qed auto

definition edit_text :: "rstring \<Rightarrow> nat \<times> nat \<times> rstring \<Rightarrow> change option" where
  "edit_text s e =
     (case e of (f, t, ins) \<Rightarrow>
        let rem = take (t - f) (drop f s)
        in if rem \<noteq> ins then Some \<lparr>ch_at = f, removed = rem, inserted = ins\<rparr> else None)"

lemma map_filter_cong_set:
  "(\<And>x. x \<in> set xs \<Longrightarrow> f x = g x) \<Longrightarrow> List.map_filter f xs = List.map_filter g xs"
  by (induction xs) (auto simp: map_filter_simps split: option.splits)

lemma map_filter_append: "List.map_filter f (xs @ ys) = List.map_filter f xs @ List.map_filter f ys"
  by (simp add: map_filter_def)

lemma edit_text_step:
  assumes "f \<le> t" "t \<le> length s"
  shows "tx_fits (List.map_filter (edit_text s) [(f, t, ins)]) (take t s @ rest)"
    and "tx_text (List.map_filter (edit_text s) [(f, t, ins)]) (take t s @ rest)
      = take f s @ ins @ rest"
proof -
  let ?rem = "take (t - f) (drop f s)"
  have split: "take t s = take f s @ ?rem"
    using assms by (metis le_add_diff_inverse take_add)
  have "length ?rem = t - f" using assms by simp
  then show "tx_fits (List.map_filter (edit_text s) [(f, t, ins)]) (take t s @ rest)"
    and "tx_text (List.map_filter (edit_text s) [(f, t, ins)]) (take t s @ rest) = take f s @ ins @ rest"
    using assms unfolding split
    by (auto simp: edit_text_def map_filter_simps change_fits_def change_text_def removed_len_def Let_def)
qed

lemma edits_text:
  "spans_from (length s) pos es \<Longrightarrow>
   tx_fits (List.map_filter (edit_text s) (rev es)) s
   \<and> tx_text (List.map_filter (edit_text s) (rev es)) s = take pos s @ splice s pos es"
proof (induction es arbitrary: pos)
  case Nil
  then show ?case by (simp add: map_filter_simps)
next
  case (Cons e es)
  obtain f t ins where e: "e = (f, t, ins)" by (cases e)
  from Cons.prems e have b: "pos \<le> f" "f \<le> t" "t \<le> length s" "spans_from (length s) t es"
    by auto
  note IH = Cons.IH [OF b(4)]
  have "take f s = take pos s @ take (f - pos) (drop pos s)"
    using b(1) by (metis le_add_diff_inverse take_add)
  then show ?case
    using IH edit_text_step [OF b(2,3), of ins "splice s t es"]
    by (simp add: e map_filter_append)
qed

section \<open>The rope operations refine the text operations\<close>

context rope_contract
begin

lemma change_apply_text:
  "change_fits c (to_string R r) \<Longrightarrow>
   to_string R (change_apply R r c) = change_text (to_string R r) c"
  by (auto simp: change_apply_def change_text_def dest!: change_fitsD)

lemma foldl_change_apply_text:
  "tx_fits cs (to_string R r) \<Longrightarrow>
   to_string R (foldl (change_apply R) r cs) = tx_text cs (to_string R r)"
  by (induction cs arbitrary: r) (auto simp: change_apply_text)

lemma tx_apply_text:
  "tx_fits (changes tx) (to_string R r) \<Longrightarrow>
   to_string R (tx_apply R tx r) = tx_text (changes tx) (to_string R r)"
  by (simp add: tx_apply_def foldl_change_apply_text)

lemma tx_invert_undoes:
  assumes "tx_fits (changes tx) (to_string R r)"
  shows "to_string R (tx_apply R (tx_invert tx) (tx_apply R tx r)) = to_string R r"
  using tx_invert_text [OF assms] by (simp add: tx_apply_text assms tx_invert_def)

lemma edit_change_text:
  "f \<le> t \<Longrightarrow> t \<le> length (to_string R r) \<Longrightarrow>
   edit_change R r (f, t, ins) = edit_text (to_string R r) (f, t, ins)"
  by (simp add: edit_change_def edit_text_def Let_def min_absorb1)

lemma tx_replace_changes:
  assumes "spans_ok (length (to_string R r)) es"
  shows "changes (tx_replace R r es)
    = List.map_filter (edit_text (to_string R r)) (sort_by edit_order es)"
  unfolding tx_replace_def using assms
  by (fastforce simp: spans_ok_def list_all_iff edit_change_text intro!: map_filter_cong_set)

lemma tx_replace_text:
  assumes "spans_ok (length (to_string R r)) es"
  shows "tx_fits (changes (tx_replace R r es)) (to_string R r)"
    and "tx_text (changes (tx_replace R r es)) (to_string R r)
      = splice (to_string R r) 0 (rev (sort_by edit_order es))"
  using edits_text [OF spans_from_sorted [OF assms]]
  by (simp_all add: tx_replace_changes [OF assms])

end

end
