(* ===== verification/Selection.thy ===== *)
theory Selection
  imports Change
begin

text \<open>
  Cursors and selections (\<open>throng-editor/src/selection.rs\<close>). A range has an anchor and a head
  (character offsets) and the goal column of a run of vertical moves; a selection is a list of
  ranges, sorted and apart, one of them primary. \<open>Selection::new\<close> sorts its ranges and merges
  those that overlap; it panics on no range at all, which is the \<open>None\<close> of \<open>sel_new\<close>, and
  \<open>sel_norm\<close> is what it computes otherwise.
\<close>

section \<open>Ranges\<close>

record rng =
  anchor :: nat
  head :: nat
  goal :: "nat option"

definition range_new :: "nat \<Rightarrow> nat \<Rightarrow> rng" where
  "range_new a h = \<lparr>anchor = a, head = h, goal = None\<rparr>"

definition range_point :: "nat \<Rightarrow> rng" where
  "range_point p = range_new p p"

definition r_from :: "rng \<Rightarrow> nat" where
  "r_from r = min (anchor r) (head r)"

definition r_to :: "rng \<Rightarrow> nat" where
  "r_to r = max (anchor r) (head r)"

definition r_is_empty :: "rng \<Rightarrow> bool" where
  "r_is_empty r \<longleftrightarrow> anchor r = head r"

definition r_len :: "rng \<Rightarrow> nat" where
  "r_len r = r_to r - r_from r"

definition same_span :: "rng \<Rightarrow> rng \<Rightarrow> bool" where
  "same_span a b \<longleftrightarrow> r_from a = r_from b \<and> r_to a = r_to b"

definition put_head :: "rng \<Rightarrow> nat \<Rightarrow> bool \<Rightarrow> rng" where
  "put_head r h ext =
     (if ext then \<lparr>anchor = anchor r, head = h, goal = None\<rparr> else range_point h)"

definition range_map :: "transaction \<Rightarrow> rng \<Rightarrow> rng" where
  "range_map tx r =
     (if r_is_empty r then
        (let at = tx_map tx (head r) After in \<lparr>anchor = at, head = at, goal = goal r\<rparr>)
      else
        (let from = tx_map tx (r_from r) After;
             to = max (tx_map tx (r_to r) Before) from
         in if anchor r \<le> head r then \<lparr>anchor = from, head = to, goal = goal r\<rparr>
            else \<lparr>anchor = to, head = from, goal = goal r\<rparr>))"

section \<open>Selections\<close>

record selection =
  ranges :: "rng list"
  primary :: nat

definition sel_point :: "nat \<Rightarrow> selection" where
  "sel_point p = \<lparr>ranges = [range_point p], primary = 0\<rparr>"

definition sel_single :: "nat \<Rightarrow> nat \<Rightarrow> selection" where
  "sel_single a h = \<lparr>ranges = [range_new a h], primary = 0\<rparr>"

definition by_span :: "nat \<times> rng \<Rightarrow> nat \<times> rng \<Rightarrow> bool" where
  "by_span a b \<longleftrightarrow> r_from (snd a) < r_from (snd b)
     \<or> (r_from (snd a) = r_from (snd b) \<and> r_to (snd a) \<le> r_to (snd b))"

definition overlaps_last :: "rng \<Rightarrow> rng \<Rightarrow> bool" where
  "overlaps_last l r \<longleftrightarrow> r_from r < r_to l
     \<or> (r_from r = r_to l \<and> (r_is_empty r \<or> r_is_empty l))"

definition merge_into :: "rng \<Rightarrow> rng \<Rightarrow> rng" where
  "merge_into l r =
     (let from = min (r_from l) (r_from r); to = max (r_to l) (r_to r)
      in if anchor l \<le> head l then range_new from to else range_new to from)"

fun merge_ranges :: "nat \<Rightarrow> (nat \<times> rng) list \<Rightarrow> rng list \<Rightarrow> nat \<Rightarrow> rng list \<times> nat" where
  "merge_ranges prim [] merged new_primary = (merged, new_primary)"
| "merge_ranges prim ((index, r) # rest) merged new_primary =
     (if merged \<noteq> [] \<and> overlaps_last (last merged) r
      then merge_ranges prim rest (butlast merged @ [merge_into (last merged) r])
             (if index = prim then length merged - 1 else new_primary)
      else merge_ranges prim rest (merged @ [r])
             (if index = prim then length merged else new_primary))"

definition sel_norm :: "rng list \<Rightarrow> nat \<Rightarrow> selection" where
  "sel_norm rs p =
     (let prim = min p (length rs - 1);
          (merged, np) = merge_ranges prim (sort_by by_span (enumerate 0 rs)) [] 0
      in \<lparr>ranges = merged, primary = np\<rparr>)"

definition sel_new :: "rng list \<Rightarrow> nat \<Rightarrow> selection option" where
  "sel_new rs p = (if rs = [] then None else Some (sel_norm rs p))"

definition primary_range :: "selection \<Rightarrow> rng" where
  "primary_range s = ranges s ! primary s"

definition all_empty :: "selection \<Rightarrow> bool" where
  "all_empty s \<longleftrightarrow> list_all r_is_empty (ranges s)"

definition sel_transform :: "(rng \<Rightarrow> rng) \<Rightarrow> selection \<Rightarrow> selection" where
  "sel_transform f s = sel_norm (map f (ranges s)) (primary s)"

definition sel_with :: "rng \<Rightarrow> selection \<Rightarrow> selection" where
  "sel_with r s = sel_norm (ranges s @ [r]) (length (ranges s))"

definition only_primary :: "selection \<Rightarrow> selection" where
  "only_primary s = \<lparr>ranges = [primary_range s], primary = 0\<rparr>"

definition sel_map :: "transaction \<Rightarrow> selection \<Rightarrow> selection" where
  "sel_map tx s = sel_transform (range_map tx) s"

definition range_clamp :: "nat \<Rightarrow> rng \<Rightarrow> rng" where
  "range_clamp len r = \<lparr>anchor = min (anchor r) len, head = min (head r) len, goal = goal r\<rparr>"

definition sel_clamp :: "nat \<Rightarrow> selection \<Rightarrow> selection" where
  "sel_clamp len s = sel_transform (range_clamp len) s"

section \<open>The invariant\<close>

text \<open>
  Two ranges are apart when the second starts after the first ends; they may touch only when
  neither is a bare caret.
\<close>

definition apart :: "rng \<Rightarrow> rng \<Rightarrow> bool" where
  "apart a b \<longleftrightarrow> r_to a < r_from b \<or> (r_to a = r_from b \<and> \<not> r_is_empty a \<and> \<not> r_is_empty b)"

definition sel_wf :: "selection \<Rightarrow> bool" where
  "sel_wf s \<longleftrightarrow> ranges s \<noteq> [] \<and> primary s < length (ranges s) \<and> sorted_wrt apart (ranges s)"

definition sel_within :: "nat \<Rightarrow> selection \<Rightarrow> bool" where
  "sel_within n s \<longleftrightarrow> list_all (\<lambda>r. r_to r \<le> n) (ranges s)"

text \<open>\<open>covers a b\<close>: the span of \<open>b\<close> lies inside that of \<open>a\<close>.\<close>

definition covers :: "rng \<Rightarrow> rng \<Rightarrow> bool" where
  "covers a b \<longleftrightarrow> r_from a \<le> r_from b \<and> r_to b \<le> r_to a"

lemmas range_defs = r_from_def r_to_def r_is_empty_def range_new_def range_point_def

lemma r_from_le_to [simp]: "r_from r \<le> r_to r"
  by (simp add: range_defs)

lemma r_empty_iff: "r_is_empty r \<longleftrightarrow> r_from r = r_to r"
  by (auto simp: range_defs min_def max_def)

lemma range_new_simps [simp]:
  "r_from (range_new a h) = min a h" "r_to (range_new a h) = max a h"
  "r_is_empty (range_new a h) \<longleftrightarrow> a = h"
  "r_from (range_point p) = p" "r_to (range_point p) = p" "r_is_empty (range_point p)"
  by (auto simp: range_defs)

lemma merge_into_span:
  "r_from (merge_into l r) = min (r_from l) (r_from r)"
  "r_to (merge_into l r) = max (r_to l) (r_to r)"
proof -
  have "min (r_from l) (r_from r) \<le> max (r_to l) (r_to r)"
    by (meson le_max_iff_disj min.coboundedI1 r_from_le_to)
  then show "r_from (merge_into l r) = min (r_from l) (r_from r)"
    and "r_to (merge_into l r) = max (r_to l) (r_to r)"
    by (simp_all add: merge_into_def Let_def min_absorb1 min_absorb2 max_absorb1 max_absorb2)
qed

lemma apart_trans: "apart a b \<Longrightarrow> apart b c \<Longrightarrow> apart a c"
  using r_from_le_to [of a] r_from_le_to [of b] r_from_le_to [of c]
  unfolding apart_def r_empty_iff by linarith

lemma covers_refl [simp]: "covers r r"
  by (simp add: covers_def)

lemma by_span_total: "by_span a b \<or> by_span b a"
  by (auto simp: by_span_def)

lemma by_span_trans: "by_span a b \<Longrightarrow> by_span b c \<Longrightarrow> by_span a c"
  by (auto simp: by_span_def)

lemma sorted_by_span: "sorted_wrt by_span (sort_by by_span xs)"
  by (rule sorted_sort_by) (auto simp: by_span_total intro: by_span_trans)

section \<open>Normalisation\<close>

text \<open>One invariant of the merging loop, over what is merged so far and what is left.\<close>

definition merge_inv :: "rng list \<Rightarrow> (nat \<times> rng) list \<Rightarrow> bool" where
  "merge_inv merged rest \<longleftrightarrow> sorted_wrt apart merged \<and> sorted_wrt by_span rest
     \<and> (merged \<noteq> [] \<longrightarrow> (\<forall>x \<in> set rest. r_from (last merged) \<le> r_from (snd x)))"

lemma merge_inv_merge:
  assumes "merge_inv merged ((i, r) # rest)" "merged \<noteq> []" "overlaps_last (last merged) r"
  shows "merge_inv (butlast merged @ [merge_into (last merged) r]) rest"
proof -
  let ?m = "merge_into (last merged) r"
  have m: "merged = butlast merged @ [last merged]" using assms(2) by simp
  have le: "r_from (last merged) \<le> r_from r"
    using assms by (auto simp: merge_inv_def)
  have frm: "r_from ?m = r_from (last merged)" and to: "r_to (last merged) \<le> r_to ?m"
    using le by (simp_all add: merge_into_span)
  have s: "sorted_wrt apart (butlast merged @ [last merged])"
    using assms(1) m by (simp add: merge_inv_def)
  have "apart x (last merged) \<Longrightarrow> apart x ?m" for x
    using frm to r_from_le_to [of "last merged"] unfolding apart_def r_empty_iff by linarith
  then have "sorted_wrt apart (butlast merged @ [?m])"
    using s by (simp add: sorted_wrt_append)
  then show ?thesis using assms frm by (auto simp: merge_inv_def)
qed

lemma merge_inv_push:
  assumes "merge_inv merged ((i, r) # rest)" "merged = [] \<or> \<not> overlaps_last (last merged) r"
  shows "merge_inv (merged @ [r]) rest"
proof -
  have "sorted_wrt apart (merged @ [r])"
  proof (cases "merged = []")
    case False
    then have m: "merged = butlast merged @ [last merged]" by simp
    have l: "apart (last merged) r"
      using assms False by (auto simp: merge_inv_def overlaps_last_def apart_def)
    have "sorted_wrt apart (butlast merged @ [last merged])"
      using assms(1) m by (simp add: merge_inv_def)
    then have "\<forall>x \<in> set (butlast merged @ [last merged]). apart x r"
      using l by (auto simp: sorted_wrt_append intro: apart_trans)
    then have "\<forall>x \<in> set merged. apart x r" using m by simp
    then show ?thesis using assms(1) by (simp add: merge_inv_def sorted_wrt_append)
  qed simp
  then show ?thesis
    using assms(1) by (auto simp: merge_inv_def by_span_def)
qed

lemma merge_ranges_sorted:
  "merge_inv merged rest \<Longrightarrow> sorted_wrt apart (fst (merge_ranges p rest merged np))"
proof (induction p rest merged np rule: merge_ranges.induct)
  case (1 prim merged np)
  then show ?case by (simp add: merge_inv_def)
next
  case (2 prim i r rest merged np)
  show ?case
  proof (cases "merged \<noteq> [] \<and> overlaps_last (last merged) r")
    case True
    with 2 show ?thesis by (simp add: merge_inv_merge)
  next
    case False
    with 2 have "merge_inv (merged @ [r]) rest" by (intro merge_inv_push [of _ i]) auto
    with False 2 show ?thesis by auto
  qed
qed

text \<open>The merged list keeps the primary role with a range that covers the primary.\<close>

definition keeps_primary :: "nat \<Rightarrow> rng \<Rightarrow> (nat \<times> rng) list \<Rightarrow> rng list \<Rightarrow> nat \<Rightarrow> bool" where
  "keeps_primary prim pr rest merged np \<longleftrightarrow>
     (prim, pr) \<in> set rest
     \<or> (prim \<notin> fst ` set rest \<and> np < length merged \<and> covers (merged ! np) pr)"

lemma merge_into_covers: "covers (merge_into l r) l" "covers (merge_into l r) r"
  by (simp_all add: covers_def merge_into_span)

lemma covers_trans: "covers a b \<Longrightarrow> covers b c \<Longrightarrow> covers a c"
  by (auto simp: covers_def)

lemma nth_merge_last:
  "np < length merged \<Longrightarrow> covers (merged ! np) pr \<Longrightarrow>
   covers ((butlast merged @ [merge_into (last merged) r]) ! np) pr"
proof -
  assume np: "np < length merged" and cov: "covers (merged ! np) pr"
  show ?thesis
  proof (cases "np = length merged - 1")
    case True
    with np have "merged ! np = last merged" by (metis last_conv_nth length_0_conv not_less_zero)
    with cov have "covers (merge_into (last merged) r) pr"
      using covers_trans merge_into_covers(1) by metis
    with True show ?thesis by (simp add: nth_append)
  next
    case False
    with np have "np < length merged - 1" by simp
    with cov show ?thesis by (simp add: nth_append nth_butlast)
  qed
qed

lemma merge_ranges_primary:
  "keeps_primary prim pr rest merged np \<Longrightarrow> distinct (map fst rest) \<Longrightarrow>
   snd (merge_ranges prim rest merged np) < length (fst (merge_ranges prim rest merged np))
   \<and> covers (fst (merge_ranges prim rest merged np) ! snd (merge_ranges prim rest merged np)) pr"
proof (induction prim rest merged np rule: merge_ranges.induct)
  case (1 prim merged np)
  then show ?case by (simp add: keeps_primary_def)
next
  case (2 prim i r rest merged np)
  show ?case
  proof (cases "merged \<noteq> [] \<and> overlaps_last (last merged) r")
    case True
    let ?merged = "butlast merged @ [merge_into (last merged) r]"
    let ?np = "if i = prim then length merged - 1 else np"
    have "keeps_primary prim pr rest ?merged ?np"
    proof (cases "(prim, pr) \<in> set rest")
      case False
      with "2.prems"(1) True show ?thesis
        using nth_merge_last [of np merged pr r] merge_into_covers(2) [of "last merged" r]
          "2.prems"(2)
        by (cases "i = prim") (auto simp: keeps_primary_def nth_append)
    qed (simp add: keeps_primary_def)
    with True 2 show ?thesis by simp
  next
    case False
    let ?np = "if i = prim then length merged else np"
    have "keeps_primary prim pr rest (merged @ [r]) ?np"
      using "2.prems" by (auto simp: keeps_primary_def nth_append)
    with False 2 show ?thesis by auto
  qed
qed

text \<open>The characters a list of ranges selects; carets select none.\<close>

definition span_set :: "rng list \<Rightarrow> nat set" where
  "span_set rs = (\<Union>r \<in> set rs. {r_from r..<r_to r})"

lemma span_set_append [simp]: "span_set (xs @ ys) = span_set xs \<union> span_set ys"
  by (simp add: span_set_def)

lemma span_set_Nil [simp]: "span_set [] = {}"
  by (simp add: span_set_def)

lemma span_set_Cons [simp]: "span_set (x # xs) = {r_from x..<r_to x} \<union> span_set xs"
  by (simp add: span_set_def)

lemma merge_into_span_set:
  assumes "overlaps_last l r" "r_from l \<le> r_from r"
  shows "{r_from (merge_into l r)..<r_to (merge_into l r)} = {r_from l..<r_to l} \<union> {r_from r..<r_to r}"
proof -
  have "r_from r \<le> r_to l" using assms(1) by (auto simp: overlaps_last_def)
  then show ?thesis
    using assms(2) r_from_le_to [of r] r_from_le_to [of l] by (auto simp: merge_into_span)
qed

lemma merge_ranges_span:
  "merge_inv merged rest \<Longrightarrow>
   span_set (fst (merge_ranges p rest merged np)) = span_set merged \<union> span_set (map snd rest)"
proof (induction p rest merged np rule: merge_ranges.induct)
  case (2 prim i r rest merged np)
  show ?case
  proof (cases "merged \<noteq> [] \<and> overlaps_last (last merged) r")
    case True
    have le: "r_from (last merged) \<le> r_from r"
      using "2.prems" True by (auto simp: merge_inv_def)
    have "span_set (butlast merged @ [merge_into (last merged) r])
        = span_set (butlast merged) \<union> span_set [last merged] \<union> {r_from r..<r_to r}"
      using merge_into_span_set [OF _ le] True by (simp add: Un_assoc)
    also have "span_set (butlast merged) \<union> span_set [last merged] = span_set merged"
      using True by (metis append_butlast_last_id span_set_append)
    finally show ?thesis
      using True 2 merge_inv_merge [of merged i r rest] by (auto simp: Un_assoc)
  next
    case False
    with 2 have "merge_inv (merged @ [r]) rest" by (intro merge_inv_push [of _ i]) auto
    with False 2 show ?thesis by (auto simp: Un_assoc)
  qed
qed simp

text \<open>Ends stay among the ends of the ranges, so every offset stays in bounds.\<close>

lemma merge_ranges_to:
  "\<forall>x \<in> set merged \<union> snd ` set rest. r_to x \<le> n \<Longrightarrow>
   \<forall>x \<in> set (fst (merge_ranges p rest merged np)). r_to x \<le> n"
proof (induction p rest merged np rule: merge_ranges.induct)
  case (2 prim i r rest merged np)
  show ?case
  proof (cases "merged \<noteq> [] \<and> overlaps_last (last merged) r")
    case True
    with "2.prems"
    have "\<forall>x \<in> set (butlast merged @ [merge_into (last merged) r]) \<union> snd ` set rest. r_to x \<le> n"
      by (auto simp: merge_into_span dest: in_set_butlastD)
    with True 2 show ?thesis by simp
  next
    case False
    with 2 show ?thesis by auto
  qed
qed simp

lemma merge_ranges_apart:
  "sorted_wrt apart (merged @ map snd rest) \<Longrightarrow>
   fst (merge_ranges p rest merged np) = merged @ map snd rest"
proof (induction p rest merged np rule: merge_ranges.induct)
  case (2 prim i r rest merged np)
  have "\<not> (merged \<noteq> [] \<and> overlaps_last (last merged) r)"
  proof
    assume a: "merged \<noteq> [] \<and> overlaps_last (last merged) r"
    with "2.prems" have "apart (last merged) r" by (simp add: sorted_wrt_append)
    with a show False by (auto simp: apart_def overlaps_last_def)
  qed
  with 2 show ?case by auto
qed simp

lemma merge_ranges_apart_primary:
  "sorted_wrt apart (merged @ map snd rest) \<Longrightarrow> map fst rest = [length merged..<n] \<Longrightarrow>
   snd (merge_ranges p rest merged np) = (if length merged \<le> p \<and> p < n then p else np)"
proof (induction p rest merged np rule: merge_ranges.induct)
  case (1 prim merged np)
  then show ?case using upt_eq_Nil_conv [of "length merged" n] by auto
next
  case (2 prim i r rest merged np)
  have no: "\<not> (merged \<noteq> [] \<and> overlaps_last (last merged) r)"
  proof
    assume a: "merged \<noteq> [] \<and> overlaps_last (last merged) r"
    with "2.prems"(1) have "apart (last merged) r" by (simp add: sorted_wrt_append)
    with a show False by (auto simp: apart_def overlaps_last_def)
  qed
  have lt: "length merged < n" using "2.prems"(2) by (metis list.simps(9) list.simps(3) upt_conv_Nil not_le)
  with "2.prems"(2) have i: "i = length merged" and rest: "map fst rest = [Suc (length merged)..<n]"
    by (simp_all add: upt_conv_Cons)
  have "snd (merge_ranges prim rest (merged @ [r]) (if i = prim then length merged else np))
      = (if Suc (length merged) \<le> prim \<and> prim < n then prim
         else if i = prim then length merged else np)"
    using "2.IH"(2) [OF no] "2.prems"(1) rest by simp
  then show ?case using no i lt by auto
qed

section \<open>Selections built by the operations\<close>

lemma sel_norm_spec:
  assumes "rs \<noteq> []"
  shows "sel_wf (sel_norm rs p)"
    and "span_set (ranges (sel_norm rs p)) = span_set rs"
    and "covers (primary_range (sel_norm rs p)) (rs ! min p (length rs - 1))"
proof -
  let ?prim = "min p (length rs - 1)" and ?sorted = "sort_by by_span (enumerate 0 rs)"
  let ?out = "merge_ranges ?prim ?sorted [] 0"
  have norm: "sel_norm rs p = \<lparr>ranges = fst ?out, primary = snd ?out\<rparr>"
    by (simp add: sel_norm_def Let_def split_beta)
  have inv: "merge_inv [] ?sorted" by (simp add: merge_inv_def sorted_by_span)
  have mset: "mset (map fst ?sorted) = mset (map fst (enumerate 0 rs))"
    by (metis mset_map mset_sort_by)
  have "distinct (map fst (enumerate 0 rs))" by (simp add: map_fst_enumerate del: distinct_map)
  with mset have dist: "distinct (map fst ?sorted)" by (metis mset_eq_imp_distinct_iff)
  have "?prim < length rs" using assms by (cases rs) auto
  then have "(?prim, rs ! ?prim) \<in> set (enumerate 0 rs)"
    by (simp add: in_set_enumerate_eq)
  then have "keeps_primary ?prim (rs ! ?prim) ?sorted [] 0"
    by (simp add: keeps_primary_def)
  note prim = merge_ranges_primary [OF this dist]
  show "sel_wf (sel_norm rs p)"
    unfolding norm sel_wf_def using prim merge_ranges_sorted [OF inv] by auto
  show "covers (primary_range (sel_norm rs p)) (rs ! ?prim)"
    unfolding norm primary_range_def using prim by simp
  have "set (map snd ?sorted) = set rs"
    by (metis map_snd_enumerate set_map set_sort_by)
  then have "span_set (map snd ?sorted) = span_set rs" by (simp add: span_set_def)
  then show "span_set (ranges (sel_norm rs p)) = span_set rs"
    unfolding norm using merge_ranges_span [OF inv] by simp
qed

lemma sel_norm_within:
  "\<forall>r \<in> set rs. r_to r \<le> n \<Longrightarrow> sel_within n (sel_norm rs p)"
proof -
  assume a: "\<forall>r \<in> set rs. r_to r \<le> n"
  have "set (map snd (sort_by by_span (enumerate 0 rs))) = set rs"
    by (metis map_snd_enumerate set_map set_sort_by)
  with a have "\<forall>x \<in> set [] \<union> snd ` set (sort_by by_span (enumerate 0 rs)). r_to x \<le> n" by simp
  note merge_ranges_to [OF this]
  then show ?thesis
    by (simp add: sel_within_def sel_norm_def Let_def split_beta list_all_iff)
qed

text \<open>Normalising what is already a selection changes nothing.\<close>

lemma sel_norm_wf:
  assumes "sorted_wrt apart rs" "p < length rs"
  shows "sel_norm rs p = \<lparr>ranges = rs, primary = p\<rparr>"
proof -
  have "apart a b \<Longrightarrow> by_span (i, a) (j, b)" for a b i j
    using r_from_le_to [of a] r_from_le_to [of b] unfolding apart_def by_span_def r_empty_iff fst_conv snd_conv
    by linarith
  then have "sorted_wrt by_span (enumerate 0 rs)"
    using assms(1) by (auto simp: sorted_wrt_iff_nth_less nth_enumerate_eq)
  then have sort: "sort_by by_span (enumerate 0 rs) = enumerate 0 rs"
    by (simp add: sort_by_sorted)
  have "fst (merge_ranges p (enumerate 0 rs) [] 0) = rs"
    using merge_ranges_apart [of "[]" "enumerate 0 rs"] assms(1) by simp
  moreover have "snd (merge_ranges p (enumerate 0 rs) [] 0) = p"
    using merge_ranges_apart_primary [of "[]" "enumerate 0 rs" "length rs" p 0] assms
    by simp
  ultimately show ?thesis
    using assms(2) by (simp add: sel_norm_def sort split_beta Let_def)
qed

end
