(* ===== verification/History.thy ===== *)
theory History
  imports Selection
begin

text \<open>
  Undo and redo (\<open>throng-editor/src/history.rs\<close>): two stacks of revisions, newest last, with
  coalescing of typing and a cap on the number of steps. \<open>undo_ok\<close> and \<open>redo_ok\<close> say that a
  stack fits a text: each step can be undone (redone) in turn, its changes being exactly where it
  says they are.
\<close>

section \<open>Data\<close>

definition MAX_ENTRIES :: nat where "MAX_ENTRIES = 1000"
definition COALESCE_MS :: nat where "COALESCE_MS = 1000"

datatype edit_kind = Insert | Delete | Other

record revision =
  rev_tx :: transaction
  rev_before :: selection
  rev_after :: selection
  rev_kind :: edit_kind
  time_ms :: nat

record history =
  h_undo :: "revision list"
  h_redo :: "revision list"
  sealed :: bool

definition history_default :: history where
  "history_default = \<lparr>h_undo = [], h_redo = [], sealed = False\<rparr>"

section \<open>Operations\<close>

definition can_merge :: "revision \<Rightarrow> revision \<Rightarrow> bool" where
  "can_merge lst nxt \<longleftrightarrow>
     \<not> (rev_kind lst \<noteq> rev_kind nxt \<or> rev_kind lst = Other)
     \<and> \<not> (time_ms nxt - time_ms lst > COALESCE_MS)
     \<and> length (ranges (rev_after lst)) = length (ranges (rev_before nxt))
     \<and> list_all (\<lambda>(a, b). same_span a b)
         (zip (ranges (rev_after lst)) (ranges (rev_before nxt)))
     \<and> \<not> list_ex (\<lambda>c. LF \<in> set (inserted c)) (changes (rev_tx nxt))"

definition merge_revision :: "revision \<Rightarrow> revision \<Rightarrow> revision" where
  "merge_revision lst nxt = lst
     \<lparr>rev_tx := \<lparr>changes = changes (rev_tx lst) @ changes (rev_tx nxt)\<rparr>,
      rev_after := rev_after nxt, time_ms := time_ms nxt\<rparr>"

definition history_record :: "history \<Rightarrow> revision \<Rightarrow> history" where
  "history_record h rv =
     (let merged = \<not> sealed h \<and> h_undo h \<noteq> [] \<and> can_merge (last (h_undo h)) rv;
          und = (if merged then butlast (h_undo h) @ [merge_revision (last (h_undo h)) rv]
                 else h_undo h @ [rv])
      in \<lparr>h_undo = keep_last MAX_ENTRIES und, h_redo = [], sealed = False\<rparr>)"

definition history_seal :: "history \<Rightarrow> history" where
  "history_seal h = h\<lparr>sealed := True\<rparr>"

definition history_undo :: "history \<Rightarrow> (revision \<times> history) option" where
  "history_undo h =
     (if h_undo h = [] then None
      else let r = last (h_undo h)
           in Some (r, \<lparr>h_undo = butlast (h_undo h), h_redo = h_redo h @ [r], sealed = True\<rparr>))"

definition history_redo :: "history \<Rightarrow> (revision \<times> history) option" where
  "history_redo h =
     (if h_redo h = [] then None
      else let r = last (h_redo h)
           in Some (r, \<lparr>h_undo = h_undo h @ [r], h_redo = butlast (h_redo h), sealed = True\<rparr>))"

definition can_undo :: "history \<Rightarrow> bool" where
  "can_undo h \<longleftrightarrow> h_undo h \<noteq> []"

definition can_redo :: "history \<Rightarrow> bool" where
  "can_redo h \<longleftrightarrow> h_redo h \<noteq> []"

definition undo_len :: "history \<Rightarrow> nat" where
  "undo_len h = length (h_undo h)"

definition history_clear :: "history \<Rightarrow> history" where
  "history_clear h = \<lparr>h_undo = [], h_redo = [], sealed = True\<rparr>"

definition revision_size :: "revision \<Rightarrow> nat" where
  "revision_size r = weight (rev_tx r)
     + 32 * (length (ranges (rev_before r)) + length (ranges (rev_after r))) + 32"

text \<open>Drop from the front while the total is over the limit (both loops of \<open>trimmed_to\<close>).\<close>

fun drop_over :: "nat \<Rightarrow> nat \<Rightarrow> revision list \<Rightarrow> nat \<times> revision list" where
  "drop_over max_bytes tot [] = (tot, [])"
| "drop_over max_bytes tot (r # rs) =
     (if tot > max_bytes then drop_over max_bytes (tot - revision_size r) rs
      else (tot, r # rs))"

definition trimmed_to :: "history \<Rightarrow> nat \<Rightarrow> history" where
  "trimmed_to h max_bytes =
     (let tot = sum_list (map revision_size (h_undo h @ h_redo h));
          (tot, red) = drop_over max_bytes tot (h_redo h);
          (tot, und) = drop_over max_bytes tot (h_undo h)
      in h\<lparr>h_undo := und, h_redo := red\<rparr>)"

section \<open>Stacks that fit a text\<close>

text \<open>The stacks are read newest first.\<close>

fun undo_ok :: "revision list \<Rightarrow> rstring \<Rightarrow> bool" where
  "undo_ok [] s = True"
| "undo_ok (r # rs) s =
     (tx_fits (changes (tx_invert (rev_tx r))) s
      \<and> undo_ok rs (tx_text (changes (tx_invert (rev_tx r))) s))"

fun redo_ok :: "revision list \<Rightarrow> rstring \<Rightarrow> bool" where
  "redo_ok [] s = True"
| "redo_ok (r # rs) s =
     (tx_fits (changes (rev_tx r)) s \<and> redo_ok rs (tx_text (changes (rev_tx r)) s))"

definition history_fits :: "history \<Rightarrow> rstring \<Rightarrow> bool" where
  "history_fits h s \<longleftrightarrow> undo_ok (rev (h_undo h)) s \<and> redo_ok (rev (h_redo h)) s"

lemma changes_invert: "changes (tx_invert t) = map change_invert (rev (changes t))"
  by (simp add: tx_invert_def)

lemma undo_ok_take: "undo_ok (rs @ qs) s \<Longrightarrow> undo_ok rs s"
  by (induction rs arbitrary: s) auto

lemma redo_ok_take: "redo_ok (rs @ qs) s \<Longrightarrow> redo_ok rs s"
  by (induction rs arbitrary: s) auto

text \<open>A step that fits the text before it can be undone in the text after it, and back.\<close>

lemma undo_ok_push:
  "tx_fits (changes (rev_tx r)) s \<Longrightarrow> undo_ok rs s \<Longrightarrow>
   undo_ok (r # rs) (tx_text (changes (rev_tx r)) s)"
  using tx_invert_text [of "changes (rev_tx r)" s] by (simp add: changes_invert)

lemma redo_ok_push:
  assumes "tx_fits (changes (tx_invert (rev_tx r))) s" "redo_ok rs s"
  shows "redo_ok (r # rs) (tx_text (changes (tx_invert (rev_tx r))) s)"
proof -
  have "map change_invert (rev (map change_invert (rev cs))) = cs" for cs
    by (simp add: rev_map o_def)
  with assms show ?thesis
    using tx_invert_text [of "changes (tx_invert (rev_tx r))" s] by (simp add: changes_invert)
qed

lemma undo_ok_merge:
  "tx_fits (changes (rev_tx r)) s \<Longrightarrow> undo_ok (l # rs) s \<Longrightarrow>
   undo_ok (merge_revision l r # rs) (tx_text (changes (rev_tx r)) s)"
  using tx_invert_text [of "changes (rev_tx r)" s]
  by (simp add: changes_invert merge_revision_def)

lemma history_record_fits:
  assumes "history_fits h s" "tx_fits (changes (rev_tx r)) s"
  shows "history_fits (history_record h r) (tx_text (changes (rev_tx r)) s)"
proof -
  let ?merged = "\<not> sealed h \<and> h_undo h \<noteq> [] \<and> can_merge (last (h_undo h)) r"
  define und where "und = (if ?merged
    then butlast (h_undo h) @ [merge_revision (last (h_undo h)) r] else h_undo h @ [r])"
  have u: "undo_ok (rev (h_undo h)) s" using assms(1) by (simp add: history_fits_def)
  have "undo_ok (rev und) (tx_text (changes (rev_tx r)) s)"
  proof (cases ?merged)
    case True
    then have "rev (h_undo h) = last (h_undo h) # rev (butlast (h_undo h))"
      by (metis append_butlast_last_id rev_eq_Cons_iff rev_rev_ident)
    with u have "undo_ok (last (h_undo h) # rev (butlast (h_undo h))) s" by simp
    from undo_ok_merge [OF assms(2) this] True show ?thesis by (simp add: und_def)
  next
    case False
    with undo_ok_push [OF assms(2) u] show ?thesis by (auto simp: und_def)
  qed
  moreover obtain ys where "und = ys @ keep_last MAX_ENTRIES und"
    using keep_last_suffix by metis
  then have "rev und = rev (keep_last MAX_ENTRIES und) @ rev ys" by (metis rev_append)
  ultimately have "undo_ok (rev (keep_last MAX_ENTRIES und)) (tx_text (changes (rev_tx r)) s)"
    using undo_ok_take by metis
  then show ?thesis
    by (simp add: history_fits_def history_record_def und_def Let_def)
qed

lemma history_undo_fits:
  assumes "history_undo h = Some (r, h')" "history_fits h s"
  shows "tx_fits (changes (tx_invert (rev_tx r))) s"
    and "history_fits h' (tx_text (changes (tx_invert (rev_tx r))) s)"
proof -
  from assms(1) have ne: "h_undo h \<noteq> []" and r: "r = last (h_undo h)"
    and h': "h' = \<lparr>h_undo = butlast (h_undo h), h_redo = h_redo h @ [r], sealed = True\<rparr>"
    by (auto simp: history_undo_def Let_def split: if_splits)
  from ne r have "rev (h_undo h) = r # rev (butlast (h_undo h))"
    by (metis append_butlast_last_id rev_eq_Cons_iff rev_rev_ident)
  with assms(2) have u: "undo_ok (r # rev (butlast (h_undo h))) s" and "redo_ok (rev (h_redo h)) s"
    by (simp_all add: history_fits_def)
  then show "tx_fits (changes (tx_invert (rev_tx r))) s"
    and "history_fits h' (tx_text (changes (tx_invert (rev_tx r))) s)"
    using redo_ok_push [of r s "rev (h_redo h)"] by (simp_all add: h' history_fits_def)
qed

lemma history_redo_fits:
  assumes "history_redo h = Some (r, h')" "history_fits h s"
  shows "tx_fits (changes (rev_tx r)) s"
    and "history_fits h' (tx_text (changes (rev_tx r)) s)"
proof -
  from assms(1) have ne: "h_redo h \<noteq> []" and r: "r = last (h_redo h)"
    and h': "h' = \<lparr>h_undo = h_undo h @ [r], h_redo = butlast (h_redo h), sealed = True\<rparr>"
    by (auto simp: history_redo_def Let_def split: if_splits)
  from ne r have "rev (h_redo h) = r # rev (butlast (h_redo h))"
    by (metis append_butlast_last_id rev_eq_Cons_iff rev_rev_ident)
  with assms(2) have "redo_ok (r # rev (butlast (h_redo h))) s" and "undo_ok (rev (h_undo h)) s"
    by (simp_all add: history_fits_def)
  then show "tx_fits (changes (rev_tx r)) s"
    and "history_fits h' (tx_text (changes (rev_tx r)) s)"
    using undo_ok_push [of r s "rev (h_undo h)"] by (simp_all add: h' history_fits_def)
qed

section \<open>Bounds\<close>

definition history_bounded :: "history \<Rightarrow> bool" where
  "history_bounded h \<longleftrightarrow> length (h_undo h) + length (h_redo h) \<le> MAX_ENTRIES"

lemma history_record_bounded: "history_bounded (history_record h r)"
  by (simp add: history_bounded_def history_record_def Let_def)

lemma history_undo_bounded:
  "history_undo h = Some (r, h') \<Longrightarrow> history_bounded h \<Longrightarrow> history_bounded h'"
  by (cases "h_undo h" rule: rev_cases)
    (auto simp: history_undo_def history_bounded_def Let_def split: if_splits)

lemma history_redo_bounded:
  "history_redo h = Some (r, h') \<Longrightarrow> history_bounded h \<Longrightarrow> history_bounded h'"
  by (cases "h_redo h" rule: rev_cases)
    (auto simp: history_redo_def history_bounded_def Let_def split: if_splits)

lemma drop_over_spec:
  assumes "drop_over m tot rs = (tot', rs')" "sum_list (map revision_size rs) \<le> tot"
  shows "\<exists>ds. rs = ds @ rs' \<and> tot' = tot - sum_list (map revision_size ds)
    \<and> (tot' \<le> m \<or> rs' = []) \<and> (ds \<noteq> [] \<longrightarrow> m < tot - sum_list (map revision_size (butlast ds)))"
  using assms
proof (induction m tot rs arbitrary: tot' rs' rule: drop_over.induct)
  case (1 m tot)
  then show ?case by auto
next
  case (2 m tot r rs)
  show ?case
  proof (cases "tot > m")
    case True
    with 2 obtain ds where "rs = ds @ rs'"
      "tot' = tot - revision_size r - sum_list (map revision_size ds)"
      "tot' \<le> m \<or> rs' = []"
      "ds \<noteq> [] \<longrightarrow> m < tot - revision_size r - sum_list (map revision_size (butlast ds))"
      by force
    with True show ?thesis by (intro exI [of _ "r # ds"]) auto
  next
    case False
    with 2 show ?thesis by (intro exI [of _ "[]"]) auto
  qed
qed

lemma trimmed_to_spec:
  obtains ds es where "h_redo h = ds @ h_redo (trimmed_to h m)"
    and "h_undo h = es @ h_undo (trimmed_to h m)"
    and "sum_list (map revision_size (h_undo (trimmed_to h m) @ h_redo (trimmed_to h m))) \<le> m
      \<or> (h_undo (trimmed_to h m) = [] \<and> h_redo (trimmed_to h m) = [])"
    and "es \<noteq> [] \<longrightarrow> h_redo (trimmed_to h m) = []"
proof -
  let ?sum = "\<lambda>rs. sum_list (map revision_size rs)"
  let ?tot = "?sum (h_undo h @ h_redo h)"
  obtain t1 red where d1: "drop_over m ?tot (h_redo h) = (t1, red)" by fastforce
  obtain t2 und where d2: "drop_over m t1 (h_undo h) = (t2, und)" by fastforce
  have tr: "trimmed_to h m = h\<lparr>h_undo := und, h_redo := red\<rparr>"
    using d1 d2 by (simp add: trimmed_to_def Let_def)
  obtain ds where ds: "h_redo h = ds @ red" "t1 = ?tot - ?sum ds" "t1 \<le> m \<or> red = []"
    using drop_over_spec [OF d1] by auto
  then have t1: "t1 = ?sum (h_undo h) + ?sum red" by simp
  then obtain es where es: "h_undo h = es @ und" "t2 = t1 - ?sum es" "t2 \<le> m \<or> und = []"
    "es \<noteq> [] \<longrightarrow> m < t1 - ?sum (butlast es)"
    using drop_over_spec [OF d2] by auto
  have keep: "es \<noteq> [] \<longrightarrow> red = []" using es(4) ds(3) by auto
  have "?sum (und @ red) \<le> m \<or> (und = [] \<and> red = [])"
    using t1 es ds(3) keep by (cases "und = []") auto
  with that [of ds es] ds(1) es(1) keep show ?thesis by (simp add: tr)
qed

end
