(* ===== verification/Doc.thy ===== *)
theory Doc
  imports History
begin

text \<open>
  A document's text and history (\<open>throng-editor/src/doc.rs\<close>). The rope is a parameter (see
  \<open>RopeText\<close>); the two cells of interior mutability are explicit: the dirty cache is a field, and
  \<open>is_dirty\<close> returns the document with the cache it leaves. Versions are \<open>u64\<close> counters that
  only ever grow by one per edit, kept as \<open>nat\<close>.
\<close>

section \<open>Data\<close>

record applied =
  app_tx :: transaction
  first_line :: nat
  last_line :: nat
  line_delta :: int
  app_version :: nat

record 'r textdoc =
  rope :: 'r
  doc_history :: history
  version :: nat
  saved :: 'r
  dirty :: "(nat \<times> bool) option"

section \<open>Operations\<close>

definition doc_new :: "'r ropey \<Rightarrow> rstring \<Rightarrow> 'r textdoc" where
  "doc_new R text = (let r = from_str R text in
     \<lparr>rope = r, doc_history = history_default, version = 0, saved = r, dirty = None\<rparr>)"

definition doc_text :: "'r ropey \<Rightarrow> 'r textdoc \<Rightarrow> rstring" where
  "doc_text R d = to_string R (rope d)"

definition set_history :: "history \<Rightarrow> 'r textdoc \<Rightarrow> 'r textdoc" where
  "set_history h d = d\<lparr>doc_history := history_seal h\<rparr>"

definition is_dirty :: "'r ropey \<Rightarrow> 'r textdoc \<Rightarrow> bool \<times> 'r textdoc" where
  "is_dirty R d =
     (case dirty d of
        Some (v, b) \<Rightarrow>
          if v = version d then (b, d)
          else (let b = (len_chars R (rope d) \<noteq> len_chars R (saved d)
                         \<or> \<not> rope_eq R (rope d) (saved d))
                in (b, d\<lparr>dirty := Some (version d, b)\<rparr>))
      | None \<Rightarrow>
          (let b = (len_chars R (rope d) \<noteq> len_chars R (saved d)
                    \<or> \<not> rope_eq R (rope d) (saved d))
           in (b, d\<lparr>dirty := Some (version d, b)\<rparr>)))"

definition mark_saved :: "'r \<Rightarrow> 'r textdoc \<Rightarrow> 'r textdoc" where
  "mark_saved text d = d\<lparr>saved := text, dirty := None, doc_history := history_seal (doc_history d)\<rparr>"

definition doc_reset :: "'r ropey \<Rightarrow> rstring \<Rightarrow> 'r textdoc \<Rightarrow> 'r textdoc" where
  "doc_reset R text d = (let r = from_str R text in
     d\<lparr>rope := r, saved := r, doc_history := history_clear (doc_history d),
       version := version d + 1, dirty := None\<rparr>)"

definition restore_unsaved :: "'r ropey \<Rightarrow> rstring \<Rightarrow> 'r textdoc \<Rightarrow> 'r textdoc" where
  "restore_unsaved R text d =
     d\<lparr>rope := from_str R text, version := version d + 1, dirty := None\<rparr>"

text \<open>The line span an edit touches, carried through each change in turn.\<close>

definition shift_line :: "nat \<Rightarrow> nat \<Rightarrow> nat \<Rightarrow> int \<Rightarrow> nat \<Rightarrow> bool \<Rightarrow> nat" where
  "shift_line start end_old end_new delta line high =
     (if line < start then line
      else if line > end_old then nat (int line + delta)
      else if high then end_new else start)"

definition apply_one :: "'r ropey \<Rightarrow> 'r \<times> (nat \<times> nat) option \<Rightarrow> change \<Rightarrow> 'r \<times> (nat \<times> nat) option" where
  "apply_one R st c =
     (case st of (r, span) \<Rightarrow>
        let rem = length (removed c); ins = length (inserted c);
            start = char_to_line R r (ch_at c);
            end_old = char_to_line R r (ch_at c + rem);
            r' = tx_apply R \<lparr>changes = [c]\<rparr> r;
            end_new = char_to_line R r' (ch_at c + ins);
            delta = int end_new - int end_old
        in (r', Some (case span of
              None \<Rightarrow> (start, end_new)
            | Some (lo, hi) \<Rightarrow>
                (min (shift_line start end_old end_new delta lo False) start,
                 max (shift_line start end_old end_new delta hi True) end_new))))"

definition doc_apply :: "'r ropey \<Rightarrow> transaction \<Rightarrow> 'r textdoc \<Rightarrow> applied \<times> 'r textdoc" where
  "doc_apply R tx d =
     (let lines_before = len_lines R (rope d);
          (r, span) = foldl (apply_one R) (rope d, None) (changes tx);
          v = version d + 1;
          (first, lst) = (case span of None \<Rightarrow> (0, 0) | Some p \<Rightarrow> p)
      in (\<lparr>app_tx = tx, first_line = first, last_line = lst,
           line_delta = int (len_lines R r) - int lines_before, app_version = v\<rparr>,
          d\<lparr>rope := r, version := v\<rparr>))"

definition doc_edit ::
  "'r ropey \<Rightarrow> transaction \<Rightarrow> selection \<Rightarrow> selection \<Rightarrow> edit_kind \<Rightarrow> nat \<Rightarrow> 'r textdoc
   \<Rightarrow> applied option \<times> 'r textdoc" where
  "doc_edit R tx bef aft kind now_ms d =
     (if tx_is_empty tx then (None, d)
      else case doc_apply R tx d of (app, d') \<Rightarrow>
        (Some app, d'\<lparr>doc_history := history_record (doc_history d')
           \<lparr>rev_tx = tx, rev_before = bef, rev_after = aft, rev_kind = kind, time_ms = now_ms\<rparr>\<rparr>))"

definition doc_undo :: "'r ropey \<Rightarrow> 'r textdoc \<Rightarrow> (applied \<times> selection) option \<times> 'r textdoc" where
  "doc_undo R d =
     (case history_undo (doc_history d) of
        None \<Rightarrow> (None, d)
      | Some (rv, h) \<Rightarrow>
          (case doc_apply R (tx_invert (rev_tx rv)) (d\<lparr>doc_history := h\<rparr>) of (app, d') \<Rightarrow>
             (Some (app, sel_clamp (len_chars R (rope d')) (rev_before rv)), d')))"

definition doc_redo :: "'r ropey \<Rightarrow> 'r textdoc \<Rightarrow> (applied \<times> selection) option \<times> 'r textdoc" where
  "doc_redo R d =
     (case history_redo (doc_history d) of
        None \<Rightarrow> (None, d)
      | Some (rv, h) \<Rightarrow>
          (case doc_apply R (rev_tx rv) (d\<lparr>doc_history := h\<rparr>) of (app, d') \<Rightarrow>
             (Some (app, sel_clamp (len_chars R (rope d')) (rev_after rv)), d')))"

definition doc_seal :: "'r textdoc \<Rightarrow> 'r textdoc" where
  "doc_seal d = d\<lparr>doc_history := history_seal (doc_history d)\<rparr>"

section \<open>Line spans\<close>

text \<open>
  What an \<open>Applied\<close> promises: from the lines \<open>L\<close> before to the lines \<open>L'\<close> after, only
  lines \<open>lo..hi\<close> may differ, lines before are untouched and lines after are shifted by
  \<open>delta\<close>.
\<close>

definition lines_agree :: "nat \<Rightarrow> nat \<Rightarrow> int \<Rightarrow> 'a list \<Rightarrow> 'a list \<Rightarrow> bool" where
  "lines_agree lo hi delta L L' \<longleftrightarrow>
     int (length L') = int (length L) + delta \<and> lo \<le> hi \<and> hi < length L'
     \<and> int lo \<le> int hi - delta
     \<and> take lo L' = take lo L
     \<and> drop (Suc hi) L' = drop (nat (int (Suc hi) - delta)) L"

definition no_cr :: "rstring \<Rightarrow> bool" where
  "no_cr s \<longleftrightarrow> CR \<notin> set s"

fun inserts_no_cr :: "change list \<Rightarrow> bool" where
  "inserts_no_cr [] = True"
| "inserts_no_cr (c # cs) = (no_cr (inserted c) \<and> inserts_no_cr cs)"

lemma no_cr_append [simp]: "no_cr (a @ b) \<longleftrightarrow> no_cr a \<and> no_cr b"
  by (auto simp: no_cr_def)

lemma no_cr_change_text:
  "change_fits c s \<Longrightarrow> no_cr s \<Longrightarrow> no_cr (inserted c) \<Longrightarrow> no_cr (change_text s c)"
  by (erule change_fitsE) auto

lemma no_cr_tx_text: "tx_fits cs s \<Longrightarrow> no_cr s \<Longrightarrow> inserts_no_cr cs \<Longrightarrow> no_cr (tx_text cs s)"
  by (induction cs arbitrary: s) (auto simp: no_cr_change_text)

text \<open>One change: the lines it touches run from its start to its end.\<close>

lemma lines_agree_one:
  assumes fits: "change_fits c s" and cr: "no_cr s" "no_cr (inserted c)"
  defines "s' \<equiv> change_text s c"
  defines "start \<equiv> line_index s (ch_at c)"
    and "end_old \<equiv> line_index s (ch_at c + length (removed c))"
    and "end_new \<equiv> line_index s' (ch_at c + length (inserted c))"
  shows "start \<le> end_old" "start \<le> end_new"
    "int (length (tlines s')) - int (length (tlines s)) = int end_new - int end_old"
    "lines_agree start end_new (int end_new - int end_old) (tlines s) (tlines s')"
proof -
  obtain a b where s: "s = a @ removed c @ b" and a: "length a = ch_at c"
    and s': "s' = a @ inserted c @ b"
    using change_fitsE [OF fits] unfolding s'_def by metis
  have na: "no_cr a" "no_cr (removed c)" "no_cr b" using cr(1) by (auto simp: s)
  then have seams: "seam_ok a x" "seam_ok (a @ removed c) x" "seam_ok (a @ inserted c) x" for x
    using cr(2) by (auto simp: no_cr_def)
  have st: "start = length (tlines a) - 1"
    using line_index_append [OF seams(1), of "removed c @ b"] by (simp add: start_def s a)
  have eo: "end_old = length (tlines (a @ removed c)) - 1"
    using line_index_append [OF seams(2), of b] by (simp add: end_old_def s a)
  have en: "end_new = length (tlines (a @ inserted c)) - 1"
    using line_index_append [OF seams(3), of b] by (simp add: end_new_def s' a)
  have pos: "0 < length (tlines x)" for x by simp
  have la: "length (tlines (a @ x)) = length (tlines a) + length (tlines x) - 1" for x
    by (rule length_tlines_append [OF seams(1)])
  show le: "start \<le> end_old" "start \<le> end_new"
    using pos [of "removed c"] pos [of "inserted c"] pos [of a] by (simp_all only: st eo en la)
  have L: "length (tlines s) = length (tlines (a @ removed c)) + length (tlines b) - 1"
    using length_tlines_append [OF seams(2), of b] by (simp add: s)
  have L': "length (tlines s') = length (tlines (a @ inserted c)) + length (tlines b) - 1"
    using length_tlines_append [OF seams(3), of b] by (simp add: s')
  show len: "int (length (tlines s')) - int (length (tlines s)) = int end_new - int end_old"
    using pos [of "a @ removed c"] pos [of "a @ inserted c"] pos [of b]
    unfolding L L' eo en by linarith
  have "take start (tlines s') = take start (tlines s)"
    using take_tlines_append [OF seams(1)] by (simp add: st s s')
  moreover have "drop (Suc end_new) (tlines s') = tl (tlines b)"
    using drop_tlines_append [OF seams(3), of b] pos [of "a @ inserted c"] by (simp add: en s')
  moreover have "drop (Suc end_old) (tlines s) = tl (tlines b)"
    using drop_tlines_append [OF seams(2), of b] pos [of "a @ removed c"] by (simp add: eo s)
  moreover have "end_new < length (tlines s')" by (simp add: end_new_def)
  ultimately show "lines_agree start end_new (int end_new - int end_old) (tlines s) (tlines s')"
    using le len by (simp add: lines_agree_def nat_add_distrib)
qed

text \<open>Carrying a span across one more change.\<close>

lemma lines_agree_step:
  assumes A: "lines_agree lo hi d0 L0 L1" and se: "start \<le> end_old"
    and B: "lines_agree start end_new d L1 L2" and d: "d = int end_new - int end_old"
  defines "lo' \<equiv> min (shift_line start end_old end_new d lo False) start"
    and "hi' \<equiv> max (shift_line start end_old end_new d hi True) end_new"
  shows "lines_agree lo' hi' (d0 + d) L0 L2"
proof -
  from A have a: "int (length L1) = int (length L0) + d0" "lo \<le> hi" "hi < length L1"
    "int lo \<le> int hi - d0" "take lo L1 = take lo L0"
    "drop (Suc hi) L1 = drop (nat (int (Suc hi) - d0)) L0"
    by (simp_all add: lines_agree_def)
  from B have b: "int (length L2) = int (length L1) + d" "start \<le> end_new" "end_new < length L2"
    "take start L2 = take start L1" "drop (Suc end_new) L2 = drop (nat (int (Suc end_new) - d)) L1"
    by (simp_all add: lines_agree_def)
  have lo: "lo' \<le> lo" "lo' \<le> start"
    using se by (auto simp: lo'_def shift_line_def)
  have hi: "end_new \<le> hi'" "int hi \<le> int hi' - d" "hi' < length L2"
    using se d a(3) b(1,2,3) by (auto simp: hi'_def shift_line_def max_def)
  have "take lo' L2 = take lo' (take start L2)" using lo(2) by simp
  also have "\<dots> = take lo' (take lo L1)" using lo b(4) by (simp add: min_absorb1)
  also have "\<dots> = take lo' L0" using lo(1) a(5) by (simp add: min_absorb1)
  finally have t: "take lo' L2 = take lo' L0" .
  have "drop (Suc hi') L2 = drop (hi' - end_new) (drop (Suc end_new) L2)"
    using hi(1) by simp
  also have "\<dots> = drop (nat (int (Suc hi') - d)) L1"
    using hi(1) d by (simp add: b(5) nat_add_distrib) (intro arg_cong2 [where f = drop] refl, arith)
  also have "\<dots> = drop (nat (int hi' - d) - hi) (drop (Suc hi) L1)"
    using hi(2) by simp (intro arg_cong2 [where f = drop] refl, arith)
  also have "\<dots> = drop (nat (int (Suc hi') - (d0 + d))) L0"
    using hi(2) a(2,4) by (simp add: a(6)) (intro arg_cong2 [where f = drop] refl, arith)
  finally have dr: "drop (Suc hi') L2 = drop (nat (int (Suc hi') - (d0 + d))) L0" .
  show ?thesis
    unfolding lines_agree_def using t dr hi lo a(1,4) b(1,2) by auto
qed

definition agree :: "nat \<times> nat \<Rightarrow> 'a list \<Rightarrow> 'a list \<Rightarrow> bool" where
  "agree p L L' \<longleftrightarrow> lines_agree (fst p) (snd p) (int (length L') - int (length L)) L L'"

context rope_contract
begin

lemma apply_one_text:
  assumes fits: "change_fits c (to_string R r)" and cr: "no_cr (to_string R r)" "no_cr (inserted c)"
  obtains r' start end_old end_new where
    "to_string R r' = change_text (to_string R r) c" "start \<le> end_old"
    "agree (start, end_new) (tlines (to_string R r)) (tlines (to_string R r'))"
    "int (length (tlines (to_string R r'))) - int (length (tlines (to_string R r)))
       = int end_new - int end_old"
    "apply_one R (r, None) c = (r', Some (start, end_new))"
    "\<And>lo hi. apply_one R (r, Some (lo, hi)) c = (r', Some
       (min (shift_line start end_old end_new (int end_new - int end_old) lo False) start,
        max (shift_line start end_old end_new (int end_new - int end_old) hi True) end_new))"
proof -
  define r' where "r' = tx_apply R \<lparr>changes = [c]\<rparr> r"
  have r': "to_string R r' = change_text (to_string R r) c"
    using tx_apply_text [of "\<lparr>changes = [c]\<rparr>" r] fits by (simp add: r'_def)
  have "ch_at c + length (removed c) \<le> length (to_string R r)"
    using change_fitsD [OF fits] by (simp add: removed_len_def)
  moreover have "ch_at c + length (inserted c) \<le> length (to_string R r')"
    by (rule change_fitsE [OF fits]) (simp add: r')
  ultimately have idx:
    "char_to_line R r (ch_at c) = line_index (to_string R r) (ch_at c)"
    "char_to_line R r (ch_at c + length (removed c))
       = line_index (to_string R r) (ch_at c + length (removed c))"
    "char_to_line R r' (ch_at c + length (inserted c))
       = line_index (change_text (to_string R r) c) (ch_at c + length (inserted c))"
    by (simp_all flip: r')
  note one = lines_agree_one [OF fits cr]
  show ?thesis
    by (rule that [OF r' one(1)])
      (use one idx in \<open>simp_all add: agree_def r' apply_one_def Let_def flip: r'_def\<close>)
qed

lemma foldl_apply_one:
  "tx_fits cs (to_string R r) \<Longrightarrow> no_cr (to_string R r) \<Longrightarrow> inserts_no_cr cs \<Longrightarrow>
   agree p L0 (tlines (to_string R r)) \<Longrightarrow>
   \<exists>r' p'. foldl (apply_one R) (r, Some p) cs = (r', Some p')
     \<and> to_string R r' = tx_text cs (to_string R r) \<and> agree p' L0 (tlines (to_string R r'))"
proof (induction cs arbitrary: r p)
  case Nil
  then show ?case by auto
next
  case (Cons c cs)
  obtain lo hi where p: "p = (lo, hi)" by (cases p)
  from Cons.prems have c: "change_fits c (to_string R r)" "no_cr (to_string R r)" "no_cr (inserted c)"
    by simp_all
  obtain r' start end_old end_new where one:
    "to_string R r' = change_text (to_string R r) c" "start \<le> end_old"
    "agree (start, end_new) (tlines (to_string R r)) (tlines (to_string R r'))"
    "int (length (tlines (to_string R r'))) - int (length (tlines (to_string R r)))
       = int end_new - int end_old"
    "\<And>lo hi. apply_one R (r, Some (lo, hi)) c = (r', Some
       (min (shift_line start end_old end_new (int end_new - int end_old) lo False) start,
        max (shift_line start end_old end_new (int end_new - int end_old) hi True) end_new))"
    using apply_one_text [OF c] by metis
  let ?p = "(min (shift_line start end_old end_new (int end_new - int end_old) lo False) start,
        max (shift_line start end_old end_new (int end_new - int end_old) hi True) end_new)"
  have A: "lines_agree lo hi (int (length (tlines (to_string R r))) - int (length L0)) L0
      (tlines (to_string R r))"
    using Cons.prems(4) by (simp add: agree_def p)
  have B: "lines_agree start end_new (int end_new - int end_old)
      (tlines (to_string R r)) (tlines (to_string R r'))"
    using one(3,4) by (simp add: agree_def)
  have D: "int (length (tlines (to_string R r'))) - int (length L0)
      = (int (length (tlines (to_string R r))) - int (length L0)) + (int end_new - int end_old)"
    using one(4) by arith
  have "agree ?p L0 (tlines (to_string R r'))"
    unfolding agree_def D fst_conv snd_conv by (rule lines_agree_step [OF A one(2) B refl])
  moreover have "no_cr (to_string R r')" using c by (simp add: one(1) no_cr_change_text)
  moreover have "tx_fits cs (to_string R r')" "inserts_no_cr cs"
    using Cons.prems by (simp_all add: one(1))
  ultimately obtain r'' p'' where "foldl (apply_one R) (r', Some ?p) cs = (r'', Some p'')"
    "to_string R r'' = tx_text cs (to_string R r')" "agree p'' L0 (tlines (to_string R r''))"
    using Cons.IH [of r' ?p] by blast
  then show ?case by (simp add: p one(1,5))
qed

lemma agree_refl: "tlines s = L \<Longrightarrow> agree (0, 0) L (tlines s)"
  by (auto simp: agree_def lines_agree_def)

lemma foldl_apply_one_None:
  assumes "tx_fits cs (to_string R r)" "no_cr (to_string R r)" "inserts_no_cr cs"
  obtains r' span where "foldl (apply_one R) (r, None) cs = (r', span)"
    "to_string R r' = tx_text cs (to_string R r)"
    "agree (case span of None \<Rightarrow> (0, 0) | Some p \<Rightarrow> p)
       (tlines (to_string R r)) (tlines (to_string R r'))"
proof (cases cs)
  case Nil
  then show ?thesis using that [of r None] by (simp add: agree_refl)
next
  case (Cons c cs')
  with assms have c: "change_fits c (to_string R r)" "no_cr (to_string R r)" "no_cr (inserted c)"
    by simp_all
  obtain r' start end_new where one:
    "to_string R r' = change_text (to_string R r) c"
    "agree (start, end_new) (tlines (to_string R r)) (tlines (to_string R r'))"
    "apply_one R (r, None) c = (r', Some (start, end_new))"
    using apply_one_text [OF c] by metis
  have "no_cr (to_string R r')" using c by (simp add: one(1) no_cr_change_text)
  with assms Cons obtain r'' p where "foldl (apply_one R) (r', Some (start, end_new)) cs' = (r'', Some p)"
    "to_string R r'' = tx_text cs' (to_string R r')"
    "agree p (tlines (to_string R r)) (tlines (to_string R r''))"
    using foldl_apply_one [of cs' r' "(start, end_new)" "tlines (to_string R r)"] one(1,2)
    by (metis inserts_no_cr.simps(2) tx_fits.simps(2))
  then show ?thesis using that [of r'' "Some p"] by (simp add: Cons one(1,3))
qed

end

section \<open>The document invariant\<close>

text \<open>
  The history fits the text and stays within its cap; no carriage return is in the text or in any
  recorded change (the UI normalises what it inserts); the dirty cache, when it is about this
  version, holds the answer.
\<close>

definition tx_clean :: "transaction \<Rightarrow> bool" where
  "tx_clean tx \<longleftrightarrow> (\<forall>c \<in> set (changes tx). no_cr (removed c) \<and> no_cr (inserted c))"

definition history_clean :: "history \<Rightarrow> bool" where
  "history_clean h \<longleftrightarrow> (\<forall>r \<in> set (h_undo h) \<union> set (h_redo h). tx_clean (rev_tx r))"

definition cache_ok :: "'r ropey \<Rightarrow> 'r textdoc \<Rightarrow> bool" where
  "cache_ok R d \<longleftrightarrow> (case dirty d of None \<Rightarrow> True
     | Some (v, b) \<Rightarrow> v \<le> version d \<and> (v = version d \<longrightarrow> b = (doc_text R d \<noteq> to_string R (saved d))))"

definition doc_inv :: "'r ropey \<Rightarrow> 'r textdoc \<Rightarrow> bool" where
  "doc_inv R d \<longleftrightarrow> history_fits (doc_history d) (doc_text R d) \<and> history_bounded (doc_history d)
     \<and> no_cr (doc_text R d) \<and> history_clean (doc_history d) \<and> cache_ok R d"

lemma tx_clean_inserts: "tx_clean tx \<Longrightarrow> inserts_no_cr (changes tx)"
proof -
  have "\<forall>c \<in> set cs. no_cr (removed c) \<and> no_cr (inserted c) \<Longrightarrow> inserts_no_cr cs" for cs
    by (induction cs) auto
  then show "tx_clean tx \<Longrightarrow> inserts_no_cr (changes tx)" by (simp add: tx_clean_def)
qed

lemma tx_clean_invert: "tx_clean tx \<Longrightarrow> tx_clean (tx_invert tx)"
  by (auto simp: tx_clean_def tx_invert_def change_invert_def)

lemma tx_fits_clean:
  "tx_fits cs s \<Longrightarrow> no_cr s \<Longrightarrow> inserts_no_cr cs \<Longrightarrow> \<forall>c \<in> set cs. no_cr (removed c) \<and> no_cr (inserted c)"
proof (induction cs arbitrary: s)
  case (Cons c cs)
  then have "no_cr (change_text s c)" by (simp add: no_cr_change_text)
  moreover have "no_cr (removed c)"
    using Cons.prems(1,2) by (auto elim: change_fitsE)
  ultimately show ?case using Cons by auto
qed simp

lemma history_record_clean:
  "history_clean h \<Longrightarrow> tx_clean (rev_tx r) \<Longrightarrow> history_clean (history_record h r)"
proof -
  assume h: "history_clean h" and r: "tx_clean (rev_tx r)"
  let ?und = "if \<not> sealed h \<and> h_undo h \<noteq> [] \<and> can_merge (last (h_undo h)) r
    then butlast (h_undo h) @ [merge_revision (last (h_undo h)) r] else h_undo h @ [r]"
  have "\<forall>q \<in> set ?und. tx_clean (rev_tx q)"
  proof (cases "h_undo h = []")
    case False
    then have "tx_clean (rev_tx (last (h_undo h)))" using h by (simp add: history_clean_def)
    then show ?thesis
      using h r by (auto simp: history_clean_def tx_clean_def merge_revision_def dest: in_set_butlastD)
  qed (use r in simp)
  then show ?thesis
    using set_keep_last [of MAX_ENTRIES ?und] by (auto simp: history_clean_def history_record_def Let_def)
qed

lemma history_undo_clean:
  "history_undo h = Some (r, h') \<Longrightarrow> history_clean h \<Longrightarrow> tx_clean (rev_tx r) \<and> history_clean h'"
  by (auto simp: history_undo_def history_clean_def Let_def split: if_splits)
    (blast dest: in_set_butlastD)

lemma history_redo_clean:
  "history_redo h = Some (r, h') \<Longrightarrow> history_clean h \<Longrightarrow> tx_clean (rev_tx r) \<and> history_clean h'"
  by (auto simp: history_redo_def history_clean_def Let_def split: if_splits)
    (blast dest: in_set_butlastD)

context rope_contract
begin

lemma foldl_apply_one_rope:
  "fst (foldl (apply_one R) (r, span) cs) = foldl (change_apply R) r cs"
proof (induction cs arbitrary: r span)
  case (Cons c cs)
  have "fst (apply_one R (r, span) c) = change_apply R r c"
    by (simp add: apply_one_def Let_def tx_apply_def)
  then show ?case using Cons.IH by (metis foldl_Cons prod.collapse)
qed simp

lemma doc_apply_text:
  assumes "doc_apply R tx d = (app, d')" "tx_fits (changes tx) (doc_text R d)"
  shows "doc_text R d' = tx_text (changes tx) (doc_text R d)" "version d' = version d + 1"
    "doc_history d' = doc_history d" "saved d' = saved d" "dirty d' = dirty d"
    "app_tx app = tx" "app_version app = version d'"
    "line_delta app = int (length (tlines (doc_text R d'))) - int (length (tlines (doc_text R d)))"
proof -
  obtain r span where f: "foldl (apply_one R) (rope d, None) (changes tx) = (r, span)" by fastforce
  then have "r = foldl (change_apply R) (rope d) (changes tx)"
    using foldl_apply_one_rope [of "rope d" None "changes tx"] by simp
  then have "to_string R r = tx_text (changes tx) (doc_text R d)"
    using foldl_change_apply_text assms(2) by (simp add: doc_text_def)
  then show "doc_text R d' = tx_text (changes tx) (doc_text R d)" "version d' = version d + 1"
    "doc_history d' = doc_history d" "saved d' = saved d" "dirty d' = dirty d"
    "app_tx app = tx" "app_version app = version d'"
    "line_delta app = int (length (tlines (doc_text R d'))) - int (length (tlines (doc_text R d)))"
    using assms(1) f by (auto simp: doc_apply_def doc_text_def Let_def split: prod.splits)
qed

lemma doc_apply_lines:
  assumes "doc_apply R tx d = (app, d')" "tx_fits (changes tx) (doc_text R d)"
    "no_cr (doc_text R d)" "inserts_no_cr (changes tx)"
  shows "lines_agree (first_line app) (last_line app) (line_delta app)
    (tlines (doc_text R d)) (tlines (doc_text R d'))"
proof -
  obtain r' span where f: "foldl (apply_one R) (rope d, None) (changes tx) = (r', span)"
    "agree (case span of None \<Rightarrow> (0, 0) | Some p \<Rightarrow> p) (tlines (to_string R (rope d)))
       (tlines (to_string R r'))"
    using foldl_apply_one_None [of "changes tx" "rope d"] assms(2-4) by (metis doc_text_def)
  then show ?thesis
    using assms(1) by (auto simp: doc_apply_def doc_text_def Let_def agree_def split: prod.splits)
qed

lemma cache_ok_bump:
  "cache_ok R d \<Longrightarrow> dirty d' = dirty d \<Longrightarrow> version d' = version d + 1 \<Longrightarrow> cache_ok R d'"
  by (auto simp: cache_ok_def split: option.splits)

lemma doc_with_history [simp]:
  "cache_ok R (d\<lparr>doc_history := h\<rparr>) = cache_ok R d" "doc_text R (d\<lparr>doc_history := h\<rparr>) = doc_text R d"
  by (auto simp: cache_ok_def doc_text_def split: option.split)

lemma doc_new_inv: "no_cr text \<Longrightarrow> doc_inv R (doc_new R text)"
  by (simp add: doc_inv_def doc_new_def doc_text_def history_default_def history_fits_def
      history_bounded_def history_clean_def cache_ok_def Let_def)

lemma doc_edit_Some:
  assumes "doc_edit R tx bef aft kind now d = (Some app, d')"
  obtains d1 where "doc_apply R tx d = (app, d1)"
    "d' = d1\<lparr>doc_history := history_record (doc_history d1)
       \<lparr>rev_tx = tx, rev_before = bef, rev_after = aft, rev_kind = kind, time_ms = now\<rparr>\<rparr>"
  using assms by (auto simp: doc_edit_def split: if_splits prod.splits)

lemma doc_edit_text:
  assumes "tx_fits (changes tx) (doc_text R d)"
  shows "doc_text R (snd (doc_edit R tx bef aft kind now d)) = tx_text (changes tx) (doc_text R d)"
proof (cases "tx_is_empty tx")
  case True
  then show ?thesis by (simp add: doc_edit_def tx_is_empty_def)
next
  case False
  then show ?thesis
    using doc_apply_text(1) [OF _ assms]
    by (auto simp: doc_edit_def doc_text_def split: prod.splits)
qed

lemma doc_edit_inv:
  assumes "doc_inv R d" "tx_fits (changes tx) (doc_text R d)" "inserts_no_cr (changes tx)"
  shows "doc_inv R (snd (doc_edit R tx bef aft kind now d))"
proof (cases "tx_is_empty tx")
  case True
  then show ?thesis using assms(1) by (simp add: doc_edit_def)
next
  case False
  obtain app d1 where ap: "doc_apply R tx d = (app, d1)" by fastforce
  let ?rev = "\<lparr>rev_tx = tx, rev_before = bef, rev_after = aft, rev_kind = kind, time_ms = now\<rparr>"
  note t = doc_apply_text [OF ap assms(2)]
  have i: "history_fits (doc_history d) (doc_text R d)" "no_cr (doc_text R d)"
    "history_clean (doc_history d)" "cache_ok R d"
    using assms(1) by (simp_all add: doc_inv_def)
  have "tx_clean tx"
    using tx_fits_clean [OF assms(2) i(2) assms(3)] by (simp add: tx_clean_def)
  then have "history_clean (history_record (doc_history d) ?rev)"
    using history_record_clean i(3) by simp
  moreover have "history_fits (history_record (doc_history d) ?rev) (tx_text (changes tx) (doc_text R d))"
    using history_record_fits [OF i(1), of ?rev] assms(2) by simp
  moreover have "cache_ok R d1" using cache_ok_bump [OF i(4) t(5) t(2)] .
  moreover have "no_cr (doc_text R d1)"
    using t(1) no_cr_tx_text [OF assms(2) i(2) assms(3)] by simp
  ultimately show ?thesis
    using False ap t by (simp add: doc_inv_def doc_edit_def history_record_bounded)
qed

lemma doc_undo_cases:
  assumes "doc_inv R d"
  obtains (nothing) "h_undo (doc_history d) = []" "doc_undo R d = (None, d)"
  | (step) rv h app d' where "history_undo (doc_history d) = Some (rv, h)"
      "rv = last (h_undo (doc_history d))"
      "doc_apply R (tx_invert (rev_tx rv)) (d\<lparr>doc_history := h\<rparr>) = (app, d')"
      "doc_undo R d = (Some (app, sel_clamp (length (doc_text R d')) (rev_before rv)), d')"
      "tx_fits (changes (tx_invert (rev_tx rv))) (doc_text R d)"
      "doc_text R d' = tx_text (changes (tx_invert (rev_tx rv))) (doc_text R d)"
      "doc_history d' = h" "doc_inv R d'"
proof (cases "history_undo (doc_history d)")
  case None
  then have "h_undo (doc_history d) = []" by (auto simp: history_undo_def Let_def split: if_splits)
  moreover have "doc_undo R d = (None, d)" using None by (simp add: doc_undo_def)
  ultimately show ?thesis by (rule nothing)
next
  case (Some p)
  obtain rv h where p: "p = (rv, h)" by (cases p)
  obtain app d' where ap: "doc_apply R (tx_invert (rev_tx rv)) (d\<lparr>doc_history := h\<rparr>) = (app, d')"
    by fastforce
  have i: "history_fits (doc_history d) (doc_text R d)" "no_cr (doc_text R d)"
    "history_clean (doc_history d)" "cache_ok R d" "history_bounded (doc_history d)"
    using assms by (simp_all add: doc_inv_def)
  note u = history_undo_fits [OF Some [unfolded p] i(1)]
  have t0: "doc_text R (d\<lparr>doc_history := h\<rparr>) = doc_text R d" by (simp add: doc_text_def)
  note t = doc_apply_text [OF ap, unfolded t0, OF u(1)]
  have c: "tx_clean (tx_invert (rev_tx rv))" "history_clean h"
    using history_undo_clean [OF Some [unfolded p] i(3)] tx_clean_invert by auto
  have "cache_ok R d'" using cache_ok_bump [of d d'] i(4) t(2,5) by simp
  moreover have "no_cr (doc_text R d')"
    using t(1) no_cr_tx_text [OF u(1) i(2)] tx_clean_inserts [OF c(1)] by simp
  ultimately have "doc_inv R d'"
    using t u(2) c(2) history_undo_bounded [OF Some [unfolded p] i(5)] by (simp add: doc_inv_def)
  moreover have "rv = last (h_undo (doc_history d))"
    using Some p by (auto simp: history_undo_def Let_def split: if_splits)
  ultimately show ?thesis
    using step [of rv h app d'] Some p ap u(1) t
    by (simp add: doc_undo_def doc_text_def)
qed

lemma doc_redo_cases:
  assumes "doc_inv R d"
  obtains (nothing) "h_redo (doc_history d) = []" "doc_redo R d = (None, d)"
  | (step) rv h app d' where "history_redo (doc_history d) = Some (rv, h)"
      "rv = last (h_redo (doc_history d))"
      "doc_apply R (rev_tx rv) (d\<lparr>doc_history := h\<rparr>) = (app, d')"
      "doc_redo R d = (Some (app, sel_clamp (length (doc_text R d')) (rev_after rv)), d')"
      "tx_fits (changes (rev_tx rv)) (doc_text R d)"
      "doc_text R d' = tx_text (changes (rev_tx rv)) (doc_text R d)"
      "doc_history d' = h" "doc_inv R d'"
proof (cases "history_redo (doc_history d)")
  case None
  then have "h_redo (doc_history d) = []" by (auto simp: history_redo_def Let_def split: if_splits)
  moreover have "doc_redo R d = (None, d)" using None by (simp add: doc_redo_def)
  ultimately show ?thesis by (rule nothing)
next
  case (Some p)
  obtain rv h where p: "p = (rv, h)" by (cases p)
  obtain app d' where ap: "doc_apply R (rev_tx rv) (d\<lparr>doc_history := h\<rparr>) = (app, d')"
    by fastforce
  have i: "history_fits (doc_history d) (doc_text R d)" "no_cr (doc_text R d)"
    "history_clean (doc_history d)" "cache_ok R d" "history_bounded (doc_history d)"
    using assms by (simp_all add: doc_inv_def)
  note u = history_redo_fits [OF Some [unfolded p] i(1)]
  have t0: "doc_text R (d\<lparr>doc_history := h\<rparr>) = doc_text R d" by (simp add: doc_text_def)
  note t = doc_apply_text [OF ap, unfolded t0, OF u(1)]
  have c: "tx_clean (rev_tx rv)" "history_clean h"
    using history_redo_clean [OF Some [unfolded p] i(3)] by auto
  have "cache_ok R d'" using cache_ok_bump [of d d'] i(4) t(2,5) by simp
  moreover have "no_cr (doc_text R d')"
    using t(1) no_cr_tx_text [OF u(1) i(2)] tx_clean_inserts [OF c(1)] by simp
  ultimately have "doc_inv R d'"
    using t u(2) c(2) history_redo_bounded [OF Some [unfolded p] i(5)] by (simp add: doc_inv_def)
  moreover have "rv = last (h_redo (doc_history d))"
    using Some p by (auto simp: history_redo_def Let_def split: if_splits)
  ultimately show ?thesis
    using step [of rv h app d'] Some p ap u(1) t
    by (simp add: doc_redo_def doc_text_def)
qed

text \<open>Undo takes back an edit that did not merge into the step before it.\<close>

lemma doc_edit_then_undo:
  assumes inv: "doc_inv R d" and fits: "tx_fits (changes tx) (doc_text R d)"
    and clean: "inserts_no_cr (changes tx)" and ne: "\<not> tx_is_empty tx"
    and fresh: "sealed (doc_history d) \<or> kind = Other"
  obtains app d1 app2 d2 where "doc_edit R tx bef aft kind now d = (Some app, d1)"
    "doc_text R d1 = tx_text (changes tx) (doc_text R d)" "doc_inv R d1"
    "doc_undo R d1 = (Some (app2, sel_clamp (length (doc_text R d)) bef), d2)"
    "doc_text R d2 = doc_text R d" "doc_inv R d2"
proof -
  obtain app d0 where ap: "doc_apply R tx d = (app, d0)" by fastforce
  let ?rv = "\<lparr>rev_tx = tx, rev_before = bef, rev_after = aft, rev_kind = kind, time_ms = now\<rparr>"
  define d1 where "d1 = d0\<lparr>doc_history := history_record (doc_history d0) ?rv\<rparr>"
  have ed: "doc_edit R tx bef aft kind now d = (Some app, d1)"
    using ne ap by (simp add: doc_edit_def d1_def)
  have t1: "doc_text R d1 = tx_text (changes tx) (doc_text R d)"
    using doc_edit_text [OF fits, of bef aft kind now] ed by simp
  have i1: "doc_inv R d1" using doc_edit_inv [OF inv fits clean, of bef aft kind now] ed by simp
  have h0: "doc_history d0 = doc_history d" using doc_apply_text(3) [OF ap fits] .
  have merge: "\<not> (\<not> sealed (doc_history d) \<and> h_undo (doc_history d) \<noteq> []
      \<and> can_merge (last (h_undo (doc_history d))) ?rv)"
    using fresh by (auto simp: can_merge_def)
  have last: "h_undo (doc_history d1) \<noteq> []" "last (h_undo (doc_history d1)) = ?rv"
    using merge by (auto simp: d1_def h0 history_record_def Let_def MAX_ENTRIES_def keep_last_def)
  show ?thesis
  proof (rule doc_undo_cases [OF i1])
    assume "h_undo (doc_history d1) = []"
    with last show ?thesis by simp
  next
    fix rv h app' d'
    assume u: "rv = last (h_undo (doc_history d1))"
      "doc_undo R d1 = (Some (app', sel_clamp (length (doc_text R d')) (rev_before rv)), d')"
      "doc_text R d' = tx_text (changes (tx_invert (rev_tx rv))) (doc_text R d1)" "doc_inv R d'"
    have rv: "rev_tx rv = tx" "rev_before rv = bef" using u(1) last by simp_all
    have "doc_text R d' = doc_text R d"
      using u(3) tx_invert_text [OF fits] by (simp add: rv t1 tx_invert_def)
    with u(2,4) that [OF ed t1 i1] rv show ?thesis by simp
  qed
qed

text \<open>Redo brings back what undo took.\<close>

lemma doc_undo_then_redo:
  assumes inv: "doc_inv R d" and u: "doc_undo R d = (Some (app, sel), d1)"
  obtains app2 sel2 d2 where "doc_redo R d1 = (Some (app2, sel2), d2)"
    "doc_text R d2 = doc_text R d" "doc_inv R d1" "doc_inv R d2"
proof (rule doc_undo_cases [OF inv])
  assume "doc_undo R d = (None, d)"
  with u show ?thesis by simp
next
  fix rv h app' d'
  assume a: "history_undo (doc_history d) = Some (rv, h)" "rv = last (h_undo (doc_history d))"
    "doc_undo R d = (Some (app', sel_clamp (length (doc_text R d')) (rev_before rv)), d')"
    "tx_fits (changes (tx_invert (rev_tx rv))) (doc_text R d)"
    "doc_text R d' = tx_text (changes (tx_invert (rev_tx rv))) (doc_text R d)"
    "doc_history d' = h" "doc_inv R d'"
  have d1: "d1 = d'" using a(3) u by simp
  have hr: "h_redo h = h_redo (doc_history d) @ [rv]"
    using a(1) by (auto simp: history_undo_def Let_def split: if_splits)
  show ?thesis
  proof (rule doc_redo_cases [OF a(7)])
    assume "h_redo (doc_history d') = []"
    then show ?thesis using a(6) hr by simp
  next
    fix rv2 h2 app2 d2
    assume b: "rv2 = last (h_redo (doc_history d'))"
      "doc_redo R d' = (Some (app2, sel_clamp (length (doc_text R d2)) (rev_after rv2)), d2)"
      "doc_text R d2 = tx_text (changes (rev_tx rv2)) (doc_text R d')" "doc_inv R d2"
    have "rv2 = rv" using b(1) a(6) hr by simp
    then have "doc_text R d2 = doc_text R d"
      using b(3) a(5) tx_invert_text [OF a(4)] by (simp add: tx_invert_def rev_map o_def)
    then show ?thesis using that b(2,4) a(7) d1 by blast
  qed
qed

lemma is_dirty_spec:
  assumes "doc_inv R d"
  shows "fst (is_dirty R d) \<longleftrightarrow> doc_text R d \<noteq> to_string R (saved d)"
    and "doc_inv R (snd (is_dirty R d))"
  using assms by (auto simp: is_dirty_def doc_inv_def cache_ok_def doc_text_def Let_def split: option.splits)

lemma mark_saved_inv: "doc_inv R d \<Longrightarrow> doc_inv R (mark_saved r d)"
  by (auto simp: mark_saved_def doc_inv_def cache_ok_def doc_text_def history_seal_def history_fits_def
      history_bounded_def history_clean_def)

lemma doc_reset_inv: "no_cr text \<Longrightarrow> doc_inv R (doc_reset R text d)"
  by (simp add: doc_reset_def doc_inv_def cache_ok_def doc_text_def history_clear_def history_fits_def
      history_bounded_def history_clean_def Let_def)

lemma doc_edit_lines:
  assumes "doc_inv R d" "tx_fits (changes tx) (doc_text R d)" "inserts_no_cr (changes tx)"
    and "doc_edit R tx bef aft kind now d = (Some app, d')"
  shows "lines_agree (first_line app) (last_line app) (line_delta app)
    (tlines (doc_text R d)) (tlines (doc_text R d'))"
  using doc_apply_lines [OF _ assms(2) _ assms(3)] assms(1,4)
  by (auto simp: doc_edit_def doc_inv_def doc_text_def split: if_splits prod.splits)

end

end
