(* ===== verification/Lines.thy ===== *)
theory Lines
  imports RopeText
begin

text \<open>
  Line and character helpers over a rope (\<open>throng-editor/src/lines.rs\<close>). Every function clamps
  its line or position into the document first, as the code does.
\<close>

section \<open>Lines of a rope\<close>

definition line_of :: "'r ropey \<Rightarrow> 'r \<Rightarrow> nat \<Rightarrow> nat" where
  "line_of R r pos = char_to_line R r (min pos (len_chars R r))"

definition line_start :: "'r ropey \<Rightarrow> 'r \<Rightarrow> nat \<Rightarrow> nat" where
  "line_start R r line = line_to_char R r (min line (len_lines R r - 1))"

definition line_end :: "'r ropey \<Rightarrow> 'r \<Rightarrow> nat \<Rightarrow> nat" where
  "line_end R r line =
     (let line = min line (len_lines R r - 1); sl = rope_line R r line; len = length sl;
          trailing = (if len > 0 \<and> sl ! (len - 1) = LF then 1 else 0)
      in line_to_char R r line + len - trailing)"

definition line_text :: "'r ropey \<Rightarrow> 'r \<Rightarrow> nat \<Rightarrow> rstring" where
  "line_text R r line =
     (let t = rope_line R r (min line (len_lines R r - 1))
      in if ends_with [LF] t then butlast t else t)"

definition line_len :: "'r ropey \<Rightarrow> 'r \<Rightarrow> nat \<Rightarrow> nat" where
  "line_len R r line = line_end R r line - line_start R r line"

section \<open>Characters\<close>

datatype char_class = Word | Space | Newline | Punctuation

definition class_of :: "unicode \<Rightarrow> rchar \<Rightarrow> char_class" where
  "class_of U c =
     (if c = LF then Newline
      else if is_whitespace c then Space
      else if is_alphanumeric U c \<or> c = 95 then Word
      else Punctuation)"

definition char_width :: "unicode \<Rightarrow> rchar \<Rightarrow> nat \<Rightarrow> nat \<Rightarrow> nat" where
  "char_width U c col tab =
     (if c = TAB then (let tab = max tab 1 in tab - col mod tab)
      else (case char_columns U c of None \<Rightarrow> 0 | Some w \<Rightarrow> w))"

definition display_col :: "unicode \<Rightarrow> rstring \<Rightarrow> nat \<Rightarrow> nat \<Rightarrow> nat" where
  "display_col U line index tab =
     foldl (\<lambda>col c. col + char_width U c col tab) 0 (take index line)"

fun index_at_col_from :: "unicode \<Rightarrow> nat \<Rightarrow> nat \<Rightarrow> nat \<Rightarrow> nat \<Rightarrow> rstring \<Rightarrow> nat" where
  "index_at_col_from U target tab index col [] = index"
| "index_at_col_from U target tab index col (c # cs) =
     (let w = char_width U c col tab
      in if col + w > target then
           (if target - col > w div 2 \<and> w > 1 then index + 1 else index)
         else index_at_col_from U target tab (index + 1) (col + w) cs)"

definition index_at_col :: "unicode \<Rightarrow> rstring \<Rightarrow> nat \<Rightarrow> nat \<Rightarrow> nat" where
  "index_at_col U line target tab = index_at_col_from U target tab 0 0 line"

definition leading_whitespace :: "rstring \<Rightarrow> rstring" where
  "leading_whitespace line = takeWhile (\<lambda>c. c = SP \<or> c = TAB) line"

definition utf16_column :: "'r ropey \<Rightarrow> 'r \<Rightarrow> nat \<Rightarrow> nat" where
  "utf16_column R r pos =
     (let pos = min pos (len_chars R r); start = line_to_char R r (char_to_line R r pos)
      in sum_list (map len_utf16 (slice R r start pos)) + 1)"

fun count_words :: "rstring \<Rightarrow> nat \<times> bool \<Rightarrow> nat \<times> bool" where
  "count_words [] st = st"
| "count_words (c # cs) (words, in_word) =
     count_words cs (if \<not> is_whitespace c \<and> \<not> in_word then words + 1 else words, \<not> is_whitespace c)"

definition counts :: "'r ropey \<Rightarrow> 'r \<Rightarrow> nat \<times> nat" where
  "counts R r = (len_utf16_cu R r,
     fst (foldl (\<lambda>st chunk. count_words chunk st) (0, False) (rope_chunks R r)))"

definition utf16_between :: "'r ropey \<Rightarrow> 'r \<Rightarrow> nat \<Rightarrow> nat \<Rightarrow> nat" where
  "utf16_between R r frm to =
     (let a = min (min frm to) (len_chars R r); b = min (max frm to) (len_chars R r)
      in char_to_utf16_cu R r b - char_to_utf16_cu R r a)"

section \<open>What they compute, on the text\<close>

text \<open>A line without its line feed.\<close>

definition strip_lf :: "rstring \<Rightarrow> rstring" where
  "strip_lf t = (if t \<noteq> [] \<and> last t = LF then butlast t else t)"

definition text_line :: "rstring \<Rightarrow> nat \<Rightarrow> rstring" where
  "text_line s k = strip_lf (tlines s ! k)"

lemma ends_with_singleton: "ends_with [c] t \<longleftrightarrow> t \<noteq> [] \<and> last t = c"
  by (auto simp: ends_with_iff) (metis append_butlast_last_id)

lemma length_strip_lf_le: "length (strip_lf t) \<le> length t"
  by (simp add: strip_lf_def)

lemma strip_lf_prefix: "strip_lf t = take (length (strip_lf t)) t"
  by (simp add: strip_lf_def butlast_conv_take)

lemma nth_strip_lf: "i < length (strip_lf t) \<Longrightarrow> strip_lf t ! i = t ! i"
  by (auto simp: strip_lf_def nth_butlast split: if_splits)

lemma tlines_nth_no_lf: "k < length (tlines s) \<Longrightarrow> LF \<notin> set (butlast (tlines s ! k))"
proof (induction s arbitrary: k)
  case (Cons c cs)
  obtain l ls where ls: "tlines cs = l # ls" by (meson list.exhaust tlines_neq_Nil)
  show ?case
  proof (cases "ends_line c cs")
    case True
    with Cons show ?thesis by (cases k) auto
  next
    case False
    then have "c = LF \<Longrightarrow> False" by (simp add: ends_line_def is_break_def)
    with False Cons.prems Cons.IH [of 0] Cons.IH [of k] ls show ?thesis
      by (cases k) auto
  qed
qed simp

lemma last_tlines_no_lf: "LF \<notin> set (last (tlines s))"
proof (induction s)
  case (Cons c cs)
  obtain l ls where ls: "tlines cs = l # ls" by (meson list.exhaust tlines_neq_Nil)
  have "\<not> ends_line c cs \<Longrightarrow> c \<noteq> LF" by (auto simp: ends_line_def is_break_def)
  with Cons ls show ?case by (cases ls) auto
qed simp

lemma text_line_no_lf: "k < length (tlines s) \<Longrightarrow> LF \<notin> set (text_line s k)"
proof -
  assume k: "k < length (tlines s)"
  have "set t \<subseteq> insert (last t) (set (butlast t))" for t :: rstring
    by (cases t rule: rev_cases) auto
  from this [of "tlines s ! k"] tlines_nth_no_lf [OF k] show ?thesis
    by (auto simp: text_line_def strip_lf_def)
qed

context rope_contract
begin

abbreviation nlines :: "'r \<Rightarrow> nat" where
  "nlines r \<equiv> length (tlines (to_string R r))"

lemma clamp_line: "min k (nlines r - 1) < nlines r" "k < nlines r \<Longrightarrow> min k (nlines r - 1) = k"
proof -
  have "0 < nlines r" by simp
  then show "min k (nlines r - 1) < nlines r" "k < nlines r \<Longrightarrow> min k (nlines r - 1) = k"
    by linarith+
qed

lemma line_of_text: "line_of R r pos = line_index (to_string R r) (min pos (length (to_string R r)))"
  by (simp add: line_of_def)

lemma line_of_lt: "line_of R r pos < nlines r"
  by (simp add: line_of_text)

lemma line_start_text: "line_start R r k = line_offset (to_string R r) (min k (nlines r - 1))"
  by (simp add: line_start_def)

lemma line_text_text: "line_text R r k = text_line (to_string R r) (min k (nlines r - 1))"
  using clamp_line by (simp add: line_text_def text_line_def strip_lf_def ends_with_singleton)

lemma line_end_text:
  "line_end R r k = line_start R r k + length (line_text R r k)"
proof -
  let ?k = "min k (nlines r - 1)"
  have "rope_line R r ?k = tlines (to_string R r) ! ?k" using clamp_line by simp
  then show ?thesis
    by (cases "tlines (to_string R r) ! ?k" rule: rev_cases)
      (auto simp: line_end_def line_start_text line_text_text text_line_def strip_lf_def Let_def
        nth_append)
qed

lemma line_len_text: "line_len R r k = length (line_text R r k)"
  by (simp add: line_len_def line_end_text)

lemma line_end_le: "line_end R r k \<le> length (to_string R r)"
proof -
  let ?k = "min k (nlines r - 1)"
  have "line_end R r k \<le> line_offset (to_string R r) ?k + length (tlines (to_string R r) ! ?k)"
    by (simp add: line_end_text line_start_text line_text_text text_line_def length_strip_lf_le)
  also have "\<dots> = line_offset (to_string R r) (Suc ?k)"
    using clamp_line by (simp add: line_offset_Suc)
  finally show ?thesis using line_offset_le le_trans by blast
qed

lemma line_start_le_end: "line_start R r k \<le> line_end R r k"
  by (simp add: line_end_text)

lemma line_start_le: "line_start R r k \<le> length (to_string R r)"
  by (simp add: line_start_text)

lemma text_no_lf: "k < nlines r \<Longrightarrow> LF \<notin> set (strip_lf (tlines (to_string R r) ! k))
  \<and> set (strip_lf (tlines (to_string R r) ! k)) \<subseteq> set (to_string R r)"
proof -
  assume k: "k < nlines r"
  have "set (tlines (to_string R r) ! k) \<subseteq> (\<Union>l \<in> set (tlines (to_string R r)). set l)"
    using nth_mem [OF k] by blast
  also have "\<dots> = set (to_string R r)" by (metis concat_tlines set_concat)
  finally have "set (strip_lf (tlines (to_string R r) ! k)) \<subseteq> set (to_string R r)"
    by (auto simp: strip_lf_def dest: in_set_butlastD)
  with text_line_no_lf [OF k] show ?thesis by (simp add: text_line_def)
qed

lemma line_start_of_le: "pos \<le> length (to_string R r) \<Longrightarrow> line_start R r (line_of R r pos) \<le> pos"
  using clamp_line(2) [OF line_of_lt, of r pos]
  by (simp add: line_start_text line_of_text line_offset_line_index)

text \<open>An offset lies within the text of its line, line break excluded.\<close>

lemma index_in_line:
  assumes "pos \<le> length (to_string R r)"
  shows "pos - line_start R r (line_of R r pos) \<le> length (line_text R r (line_of R r pos))"
proof -
  let ?s = "to_string R r" and ?k = "line_index (to_string R r) pos"
  have k: "?k < nlines r" by simp
  have l: "line_of R r pos = ?k" using assms by (simp add: line_of_text)
  have st: "line_start R r ?k = line_offset ?s ?k" and tx: "line_text R r ?k = strip_lf (tlines ?s ! ?k)"
    using clamp_line(2) [OF k] by (simp_all add: line_start_text line_text_text text_line_def)
  show ?thesis
  proof (cases "Suc ?k < nlines r")
    case True
    have "pos < line_offset ?s (Suc ?k)" by (rule line_index_less_next [OF assms True])
    then have "pos - line_offset ?s ?k < length (tlines ?s ! ?k)"
      using line_offset_Suc [OF k] line_offset_line_index [OF assms] by linarith
    then show ?thesis unfolding l st tx by (auto simp: strip_lf_def)
  next
    case False
    then have "Suc ?k = nlines r" using k by linarith
    then have last: "tlines ?s ! ?k = last (tlines ?s)"
      by (metis diff_Suc_1 last_conv_nth tlines_neq_Nil)
    have "line_offset ?s (Suc ?k) = length ?s" using False by simp
    then have "pos - line_offset ?s ?k \<le> length (tlines ?s ! ?k)"
      using line_offset_Suc [OF k] assms by linarith
    moreover have "strip_lf (tlines ?s ! ?k) = tlines ?s ! ?k"
      using last_tlines_no_lf [of ?s] last_in_set unfolding strip_lf_def last by metis
    ultimately show ?thesis unfolding l st tx by simp
  qed
qed

end

section \<open>Display columns\<close>

definition cols :: "unicode \<Rightarrow> nat \<Rightarrow> nat \<Rightarrow> rstring \<Rightarrow> nat" where
  "cols U tab col cs = foldl (\<lambda>col c. col + char_width U c col tab) col cs"

lemma cols_simps [simp]:
  "cols U tab col [] = col" "cols U tab col (c # cs) = cols U tab (col + char_width U c col tab) cs"
  by (simp_all add: cols_def)

lemma cols_append [simp]: "cols U tab col (a @ b) = cols U tab (cols U tab col a) b"
  by (simp add: cols_def)

lemma cols_ge: "col \<le> cols U tab col cs"
  by (induction cs arbitrary: col) (simp, metis add_leD1 cols_simps(2))

lemma display_col_cols: "display_col U line index tab = cols U tab 0 (take index line)"
  by (simp add: display_col_def cols_def)

lemma display_col_mono: "i \<le> j \<Longrightarrow> display_col U line i tab \<le> display_col U line j tab"
proof -
  assume "i \<le> j"
  then have "take j line = take i line @ drop i (take j line)"
    by (metis append_take_drop_id min.absorb1 take_take)
  then show ?thesis by (metis cols_append cols_ge display_col_cols)
qed

lemma index_at_col_from_bounds:
  "index \<le> index_at_col_from U target tab index col cs
   \<and> index_at_col_from U target tab index col cs \<le> index + length cs"
proof (induction cs arbitrary: index col)
  case (Cons c cs)
  from Cons.IH [of "index + 1" "col + char_width U c col tab"] show ?case by (simp add: Let_def)
qed simp

lemma index_at_col_le: "index_at_col U line target tab \<le> length line"
  using index_at_col_from_bounds [where index = 0] by (simp add: index_at_col_def)

text \<open>The caret put at a character's own column comes back to that character.\<close>

lemma index_at_col_from_cols:
  "k \<le> length cs \<Longrightarrow> \<forall>c col. c \<in> set cs \<longrightarrow> 0 < char_width U c col tab \<Longrightarrow>
   index_at_col_from U (cols U tab col (take k cs)) tab index col cs = index + k"
proof (induction cs arbitrary: k index col)
  case (Cons c cs)
  let ?w = "char_width U c col tab"
  show ?case
  proof (cases k)
    case 0
    have "0 < ?w" using Cons.prems(2) by simp
    then show ?thesis by (simp add: 0 Let_def)
  next
    case (Suc m)
    have ge: "col + ?w \<le> cols U tab (col + ?w) (take m cs)" by (rule cols_ge)
    have "index_at_col_from U (cols U tab (col + ?w) (take m cs)) tab (index + 1) (col + ?w) cs
        = index + 1 + m"
      using Cons.prems Suc by (intro Cons.IH) auto
    with ge show ?thesis by (simp add: Suc Let_def)
  qed
qed simp

lemma index_at_col_display_col:
  "k \<le> length line \<Longrightarrow> \<forall>c col. c \<in> set line \<longrightarrow> 0 < char_width U c col tab \<Longrightarrow>
   index_at_col U line (display_col U line k tab) tab = k"
  using index_at_col_from_cols [of k line U tab 0 0] by (simp add: index_at_col_def display_col_cols)

section \<open>Counting words\<close>

text \<open>The number of runs of non-whitespace, the boundaries of the chunks notwithstanding.\<close>

fun word_starts :: "bool \<Rightarrow> rstring \<Rightarrow> nat" where
  "word_starts prev_space [] = 0"
| "word_starts prev_space (c # cs) =
     (if prev_space \<and> \<not> is_whitespace c then 1 else 0) + word_starts (is_whitespace c) cs"

lemma count_words_append: "count_words (a @ b) st = count_words b (count_words a st)"
  by (induction a st rule: count_words.induct) auto

lemma foldl_count_words:
  "foldl (\<lambda>st chunk. count_words chunk st) st chunks = count_words (concat chunks) st"
  by (induction chunks arbitrary: st) (auto simp: count_words_append)

lemma count_words_starts: "fst (count_words s (n, w)) = n + word_starts (\<not> w) s"
  by (induction s arbitrary: n w) auto

context rope_contract
begin

lemma counts_text:
  "counts R r = (sum_list (map len_utf16 (to_string R r)), word_starts True (to_string R r))"
  by (simp add: counts_def foldl_count_words rope_chunks_text count_words_starts)

lemma utf16_between_text:
  assumes "frm \<le> to" "to \<le> length (to_string R r)"
  shows "utf16_between R r frm to = sum_list (map len_utf16 (take (to - frm) (drop frm (to_string R r))))"
proof -
  have "take to (to_string R r) = take frm (to_string R r) @ take (to - frm) (drop frm (to_string R r))"
    using assms(1) by (metis le_add_diff_inverse take_add)
  then show ?thesis using assms by (simp add: utf16_between_def min_absorb1 max_absorb2)
qed

end

end
