(* ===== verification/Wrap.thy ===== *)
theory Wrap
  imports Doc Lines
begin

text \<open>
  Visual rows (\<open>throng-editor/src/wrap.rs\<close>): where a line breaks at a width, and the row
  counts a view keeps for the whole document, carried across edits. A row count is a \<open>u32\<close> in
  the code; a line has fewer characters than that, and here it is a \<open>nat\<close>. \<open>Wrap::apply\<close>
  calls \<open>clamp\<close> with bounds that would panic when crossed: that is its \<open>None\<close>.
\<close>

section \<open>Breaking one line\<close>

function rows_loop ::
  "unicode \<Rightarrow> nat \<Rightarrow> nat \<Rightarrow> rstring \<Rightarrow> nat \<Rightarrow> nat \<Rightarrow> nat \<Rightarrow> nat option \<Rightarrow> nat list \<Rightarrow> nat list" where
  "rows_loop U tab width chars i row_start col soft_break starts =
     (if i < length chars then
        (let c = chars ! i; w = char_width U c col tab
         in if col + w > width \<and> i > row_start then
              (let brk = (case soft_break of
                            Some b \<Rightarrow> if b > row_start \<and> b \<le> i then b else i
                          | None \<Rightarrow> i)
               in rows_loop U tab width chars brk brk 0 None (starts @ [brk]))
            else rows_loop U tab width chars (i + 1) row_start (col + w)
                   (if c = SP \<or> c = TAB then Some (i + 1) else soft_break) starts)
      else starts)"
  by pat_completeness auto
termination
  by (relation "measures [\<lambda>(U, tab, width, chars, i, row_start, col, soft, starts).
        length chars - row_start,
      \<lambda>(U, tab, width, chars, i, row_start, col, soft, starts). length chars - i]")
    (auto split: option.splits if_splits)

declare rows_loop.simps [simp del]

definition row_starts :: "unicode \<Rightarrow> rstring \<Rightarrow> nat option \<Rightarrow> nat \<Rightarrow> nat list" where
  "row_starts U line width tab =
     (case width of
        None \<Rightarrow> [0]
      | Some w \<Rightarrow> if w > 0 then rows_loop U tab w line 0 0 0 None [0] else [0])"

section \<open>Row counts of a document\<close>

record wrap =
  w_width :: "nat option"
  w_tab :: nat
  w_counts :: "nat list"
  w_prefix :: "nat list"
  prefix_valid :: bool

definition wrap_count :: "unicode \<Rightarrow> 'r ropey \<Rightarrow> wrap \<Rightarrow> 'r \<Rightarrow> nat \<Rightarrow> nat" where
  "wrap_count U R w r line =
     (if w_width w = None then 1
      else length (row_starts U (line_text R r line) (w_width w) (w_tab w)))"

definition wrap_rebuild :: "unicode \<Rightarrow> 'r ropey \<Rightarrow> 'r \<Rightarrow> wrap \<Rightarrow> wrap" where
  "wrap_rebuild U R r w =
     w\<lparr>w_counts := map (wrap_count U R w r) [0..<len_lines R r], prefix_valid := False\<rparr>"

definition wrap_new :: "unicode \<Rightarrow> 'r ropey \<Rightarrow> 'r \<Rightarrow> nat option \<Rightarrow> nat \<Rightarrow> wrap" where
  "wrap_new U R r width tab = wrap_rebuild U R r
     \<lparr>w_width = width, w_tab = tab, w_counts = [], w_prefix = [], prefix_valid = False\<rparr>"

definition wrap_set_width :: "unicode \<Rightarrow> 'r ropey \<Rightarrow> 'r \<Rightarrow> nat option \<Rightarrow> nat \<Rightarrow> wrap \<Rightarrow> wrap" where
  "wrap_set_width U R r width tab w =
     (if w_width w \<noteq> width \<or> w_tab w \<noteq> tab
      then wrap_rebuild U R r (w\<lparr>w_width := width, w_tab := tab\<rparr>) else w)"

definition wrap_apply :: "unicode \<Rightarrow> 'r ropey \<Rightarrow> 'r \<Rightarrow> applied \<Rightarrow> wrap \<Rightarrow> wrap option" where
  "wrap_apply U R r app w =
     (let tot = len_lines R r; n = length (w_counts w);
          old_last = max (int (last_line app) - line_delta app) (int (first_line app) - 1)
      in if first_line app > n then None
         else
           (let from = min (first_line app) n;
                to = min (max (nat (max (old_last + 1) 0)) (first_line app)) n;
                fresh = map (wrap_count U R w r) [first_line app..<min (last_line app + 1) tot];
                w' = w\<lparr>w_counts := take from (w_counts w) @ fresh @ drop to (w_counts w)\<rparr>;
                w'' = (if length (w_counts w') \<noteq> tot then wrap_rebuild U R r w' else w')
            in Some (w''\<lparr>prefix_valid := False\<rparr>)))"

fun prefix_sums :: "nat \<Rightarrow> nat list \<Rightarrow> nat list" where
  "prefix_sums acc [] = [acc]"
| "prefix_sums acc (c # cs) = acc # prefix_sums (acc + c) cs"

definition ensure_prefix :: "wrap \<Rightarrow> wrap" where
  "ensure_prefix w =
     (if prefix_valid w then w
      else w\<lparr>w_prefix := prefix_sums 0 (w_counts w), prefix_valid := True\<rparr>)"

definition total_rows :: "wrap \<Rightarrow> nat \<times> wrap" where
  "total_rows w =
     (let w = ensure_prefix w
      in (max (if w_prefix w = [] then 1 else last (w_prefix w)) 1, w))"

definition first_row_of :: "nat \<Rightarrow> wrap \<Rightarrow> nat \<times> wrap" where
  "first_row_of line w =
     (let w = ensure_prefix w in (w_prefix w ! min line (length (w_counts w) - 1), w))"

text \<open>\<open>slice::binary_search\<close>: some index holding the value, else where it would go.\<close>

definition binary_search :: "nat list \<Rightarrow> nat \<Rightarrow> nat + nat" where
  "binary_search xs x =
     (case position (\<lambda>y. y = x) xs of Some i \<Rightarrow> Inl i
      | None \<Rightarrow> Inr (length (takeWhile (\<lambda>y. y < x) xs)))"

function skip_equal :: "nat list \<Rightarrow> nat \<Rightarrow> nat \<Rightarrow> nat \<Rightarrow> nat" where
  "skip_equal prefix lines row l =
     (if l + 1 < lines \<and> prefix ! (l + 1) = row then skip_equal prefix lines row (l + 1) else l)"
  by pat_completeness auto
termination
  by (relation "measure (\<lambda>(prefix, lines, row, l). lines - l)") auto

declare skip_equal.simps [simp del]

definition line_at_row :: "nat \<Rightarrow> wrap \<Rightarrow> (nat \<times> nat) \<times> wrap" where
  "line_at_row row w =
     (let w = ensure_prefix w; lines = length (w_counts w)
      in if lines = 0 then ((0, 0), w)
         else
           (let line = (case binary_search (take lines (w_prefix w)) row of
                          Inl l \<Rightarrow> skip_equal (w_prefix w) lines row l
                        | Inr l \<Rightarrow> l - 1);
                line = min line (lines - 1)
            in ((line, row - w_prefix w ! line), w)))"

text \<open>\<open>Iterator::rposition\<close>: the last index that satisfies the test.\<close>

definition rposition :: "('a \<Rightarrow> bool) \<Rightarrow> 'a list \<Rightarrow> nat option" where
  "rposition P xs = map_option (\<lambda>i. length xs - 1 - i) (position P (rev xs))"

definition locate :: "unicode \<Rightarrow> 'r ropey \<Rightarrow> 'r \<Rightarrow> nat \<Rightarrow> wrap \<Rightarrow> (nat \<times> nat) \<times> wrap" where
  "locate U R r pos w =
     (let line = line_of R r pos; text = line_text R r line;
          index = pos - line_start R r line;
          starts = row_starts U text (w_width w) (w_tab w);
          sub = (case rposition (\<lambda>s. s \<le> index) starts of Some i \<Rightarrow> i | None \<Rightarrow> 0);
          row_text = drop (starts ! sub) text;
          col = display_col U row_text (index - starts ! sub) (w_tab w);
          (first, w) = first_row_of line w
      in ((first + sub, col), w))"

definition wrap_position :: "unicode \<Rightarrow> 'r ropey \<Rightarrow> 'r \<Rightarrow> nat \<Rightarrow> nat \<Rightarrow> wrap \<Rightarrow> nat \<times> wrap" where
  "wrap_position U R r row col w =
     (let (tot, w) = total_rows w; ((line, sub), w) = line_at_row (min row (tot - 1)) w;
          text = line_text R r line;
          starts = row_starts U text (w_width w) (w_tab w);
          sub = min sub (length starts - 1);
          start = starts ! sub;
          end = (if sub + 1 < length starts then starts ! (sub + 1) else length text);
          row_text = take (end - start) (drop start text);
          index = index_at_col U row_text col (w_tab w);
          index = (if sub + 1 < length starts \<and> index \<ge> end - start \<and> end > start
                   then end - start - 1 else index)
      in (line_start R r line + start + index, w))"

section \<open>Rows of a line\<close>

definition sub_text :: "nat \<Rightarrow> nat \<Rightarrow> rstring \<Rightarrow> rstring" where
  "sub_text a b s = take (b - a) (drop a s)"

text \<open>A row fits: it is no wider than the view, or it is a single character.\<close>

definition row_fits :: "unicode \<Rightarrow> nat \<Rightarrow> nat \<Rightarrow> rstring \<Rightarrow> nat \<Rightarrow> nat \<Rightarrow> bool" where
  "row_fits U tab width chars a b \<longleftrightarrow> b - a \<le> 1 \<or> cols U tab 0 (sub_text a b chars) \<le> width"

definition rows_ok :: "unicode \<Rightarrow> nat \<Rightarrow> nat \<Rightarrow> rstring \<Rightarrow> nat list \<Rightarrow> bool" where
  "rows_ok U tab width chars starts \<longleftrightarrow> starts \<noteq> [] \<and> hd starts = 0 \<and> sorted_wrt (<) starts
     \<and> (\<forall>s \<in> set starts. s = 0 \<or> s < length chars)
     \<and> (\<forall>k. Suc k < length starts \<longrightarrow> row_fits U tab width chars (starts ! k) (starts ! Suc k))"

lemma sub_text_Suc:
  "a \<le> i \<Longrightarrow> i < length s \<Longrightarrow> sub_text a (Suc i) s = sub_text a i s @ [s ! i]"
  by (simp add: sub_text_def Suc_diff_le take_Suc_conv_app_nth)

lemma sub_text_self [simp]: "sub_text a a s = []"
  by (simp add: sub_text_def)

lemma sub_text_split: "a \<le> b \<Longrightarrow> b \<le> c \<Longrightarrow> sub_text a c s = sub_text a b s @ sub_text b c s"
proof -
  assume "a \<le> b" "b \<le> c"
  then have "c - a = (b - a) + (c - b)" "(b - a) + a = b" by simp_all
  then show ?thesis unfolding sub_text_def by (simp only: take_add drop_drop)
qed

lemma cols_sub_text_mono:
  "a \<le> b \<Longrightarrow> b \<le> c \<Longrightarrow> cols U tab 0 (sub_text a b s) \<le> cols U tab 0 (sub_text a c s)"
  by (simp add: sub_text_split [of a b c] cols_ge)

lemma row_fits_shorter:
  "row_fits U tab width s a c \<Longrightarrow> a < b \<Longrightarrow> b \<le> c \<Longrightarrow> row_fits U tab width s a b"
  using cols_sub_text_mono [of a b c U tab s] by (auto simp: row_fits_def)

lemma rows_ok_snoc:
  assumes "rows_ok U tab width s starts" "last starts < b" "b < length s"
    "row_fits U tab width s (last starts) b"
  shows "rows_ok U tab width s (starts @ [b])"
proof -
  have ne: "starts \<noteq> []" using assms(1) by (simp add: rows_ok_def)
  have le: "\<forall>x \<in> set starts. x \<le> last starts"
    using assms(1) ne by (cases starts rule: rev_cases) (auto simp: rows_ok_def sorted_wrt_append)
  then have "sorted_wrt (<) (starts @ [b])"
    using assms by (force simp: rows_ok_def sorted_wrt_append)
  moreover have "row_fits U tab width s ((starts @ [b]) ! k) ((starts @ [b]) ! Suc k)"
    if "Suc k < length (starts @ [b])" for k
  proof (cases "Suc k < length starts")
    case True
    with assms(1) show ?thesis by (simp add: rows_ok_def nth_append)
  next
    case False
    with that have "k = length starts - 1" by simp
    with ne assms(4) show ?thesis by (simp add: nth_append last_conv_nth)
  qed
  ultimately show ?thesis using assms by (auto simp: rows_ok_def)
qed

lemma rows_loop_end:
  "\<not> i < length chars \<Longrightarrow> rows_loop U tab width chars i row_start col soft starts = starts"
  by (subst rows_loop.simps) simp

lemma rows_loop_next:
  "i < length chars \<Longrightarrow> \<not> (col + char_width U (chars ! i) col tab > width \<and> i > row_start) \<Longrightarrow>
   rows_loop U tab width chars i row_start col soft starts
     = rows_loop U tab width chars (i + 1) row_start (col + char_width U (chars ! i) col tab)
         (if chars ! i = SP \<or> chars ! i = TAB then Some (i + 1) else soft) starts"
  by (subst rows_loop.simps) (simp only: Let_def if_True if_False)

lemma rows_loop_break:
  assumes "i < length chars" "col + char_width U (chars ! i) col tab > width \<and> i > row_start"
  obtains b where "row_start < b" "b \<le> i"
    "rows_loop U tab width chars i row_start col soft starts
      = rows_loop U tab width chars b b 0 None (starts @ [b])"
    "b = (case soft of Some b \<Rightarrow> if b > row_start \<and> b \<le> i then b else i | None \<Rightarrow> i)"
proof (rule that [OF _ _ _ refl])
  let ?b = "case soft of Some b \<Rightarrow> if b > row_start \<and> b \<le> i then b else i | None \<Rightarrow> i"
  show "row_start < ?b" "?b \<le> i" using assms by (auto split: option.splits)
  show "rows_loop U tab width chars i row_start col soft starts
      = rows_loop U tab width chars ?b ?b 0 None (starts @ [?b])"
    using assms by (subst rows_loop.simps) (simp only: Let_def if_True if_False simp_thms)
qed

lemma rows_loop_ok:
  assumes "rows_ok U tab width s starts" "last starts = row_start" "row_start \<le> i" "i \<le> length s"
    "col = cols U tab 0 (sub_text row_start i s)" "row_fits U tab width s row_start i"
  shows "rows_ok U tab width s (rows_loop U tab width s i row_start col soft starts)
    \<and> row_fits U tab width s (last (rows_loop U tab width s i row_start col soft starts)) (length s)"
  using assms
proof (induction U tab width s i row_start col soft starts rule: rows_loop.induct)
  case (1 U tab width s i row_start col soft starts)
  show ?case
  proof (cases "i < length s")
    case False
    with 1 show ?thesis by (simp add: rows_loop_end)
  next
    case i: True
    let ?w = "char_width U (s ! i) col tab"
    show ?thesis
    proof (cases "col + ?w > width \<and> i > row_start")
      case True
      obtain b where b: "row_start < b" "b \<le> i" and
        eq: "rows_loop U tab width s i row_start col soft starts
          = rows_loop U tab width s b b 0 None (starts @ [b])" and
        b_eq: "b = (case soft of Some b \<Rightarrow> if b > row_start \<and> b \<le> i then b else i | None \<Rightarrow> i)"
        using rows_loop_break [OF i True] .
      have "rows_ok U tab width s (starts @ [b])"
        using "1.prems" i b row_fits_shorter [of U tab width s row_start i b]
        by (intro rows_ok_snoc) auto
      then show ?thesis
        unfolding eq using b i
        by (intro "1.IH"(1) [OF i refl refl True b_eq]) (auto simp: row_fits_def)
    next
      case False
      have c: "col + ?w = cols U tab 0 (sub_text row_start (i + 1) s)"
        using "1.prems" i by (simp add: sub_text_Suc)
      have "row_fits U tab width s row_start (i + 1)"
        using False "1.prems"(3) c by (auto simp: row_fits_def not_less)
      then show ?thesis
        unfolding rows_loop_next [OF i False]
        by (intro "1.IH"(2) [OF i refl refl False]) (use "1.prems" i c in auto)
    qed
  qed
qed

lemma row_starts_ok:
  "rows_ok U tab (case width of Some w \<Rightarrow> w | None \<Rightarrow> 0) line (row_starts U line width tab)"
proof -
  have "rows_ok U tab w line [0]" for w by (simp add: rows_ok_def)
  then show ?thesis
    using rows_loop_ok [of U tab _ line "[0]" 0 0 0 None]
    by (auto simp: row_starts_def row_fits_def split: option.splits)
qed

lemma row_starts_neq_Nil [simp]: "row_starts U line width tab \<noteq> []"
  using row_starts_ok by (auto simp: rows_ok_def)

lemma row_starts_last_fits:
  "0 < w \<Longrightarrow> row_fits U tab w line (last (row_starts U line (Some w) tab)) (length line)"
  using rows_loop_ok [of U tab w line "[0]" 0 0 0 None]
  by (auto simp: row_starts_def row_fits_def rows_ok_def)

section \<open>Row counts follow the text\<close>

definition count_line :: "unicode \<Rightarrow> wrap \<Rightarrow> rstring \<Rightarrow> nat" where
  "count_line U w l =
     (if w_width w = None then 1 else length (row_starts U (strip_lf l) (w_width w) (w_tab w)))"

definition wrap_ok :: "unicode \<Rightarrow> rstring \<Rightarrow> wrap \<Rightarrow> bool" where
  "wrap_ok U s w \<longleftrightarrow> w_counts w = map (count_line U w) (tlines s)
     \<and> (prefix_valid w \<longrightarrow> w_prefix w = prefix_sums 0 (w_counts w))"

lemma count_line_pos: "0 < count_line U w l"
  by (simp add: count_line_def)

lemma count_line_cong:
  "w_width w' = w_width w \<Longrightarrow> w_tab w' = w_tab w \<Longrightarrow> count_line U w' = count_line U w"
  by (rule ext) (simp add: count_line_def)

lemma map_nth_upt_take: "n \<le> length xs \<Longrightarrow> map ((!) xs) [m..<n] = drop m (take n xs)"
  by (rule nth_equalityI) auto

context rope_contract
begin

lemma wrap_count_text: "k < nlines r \<Longrightarrow> wrap_count U R w r k = count_line U w (tlines (to_string R r) ! k)"
  using clamp_line(2) [of k r]
  by (simp add: wrap_count_def count_line_def line_text_text text_line_def)

lemma map_wrap_count:
  "n \<le> nlines r \<Longrightarrow> map (wrap_count U R w r) [m..<n]
     = map (count_line U w) (drop m (take n (tlines (to_string R r))))"
proof -
  assume n: "n \<le> nlines r"
  have "map (wrap_count U R w r) [m..<n] = map (count_line U w) (map ((!) (tlines (to_string R r))) [m..<n])"
    using n by (simp add: wrap_count_text)
  then show ?thesis by (simp only: map_nth_upt_take [OF n])
qed

lemma wrap_rebuild_ok: "wrap_ok U (to_string R r) (wrap_rebuild U R r w)"
proof -
  have "count_line U (wrap_rebuild U R r w) = count_line U w"
    by (rule count_line_cong) (simp_all add: wrap_rebuild_def)
  then show ?thesis
    using map_wrap_count [of "nlines r" r U w 0] by (simp add: wrap_ok_def) (simp add: wrap_rebuild_def)
qed

lemma wrap_new_ok: "wrap_ok U (to_string R r) (wrap_new U R r width tab)"
  by (simp add: wrap_new_def wrap_rebuild_ok)

lemma wrap_set_width_ok:
  "wrap_ok U (to_string R r) w \<Longrightarrow> wrap_ok U (to_string R r) (wrap_set_width U R r width tab w)"
  by (simp add: wrap_set_width_def wrap_rebuild_ok)

lemma wrap_apply_ok:
  assumes w: "wrap_ok U s w"
    and agree: "lines_agree (first_line app) (last_line app) (line_delta app) (tlines s)
      (tlines (to_string R r))"
  obtains w' where "wrap_apply U R r app w = Some w'" "wrap_ok U (to_string R r) w'"
    "w_width w' = w_width w" "w_tab w' = w_tab w"
proof -
  let ?L = "tlines s" and ?L' = "tlines (to_string R r)" and ?c = "count_line U w"
  let ?lo = "first_line app" and ?hi = "last_line app" and ?d = "line_delta app"
  from agree have a: "int (length ?L') = int (length ?L) + ?d" "?lo \<le> ?hi" "?hi < length ?L'"
    "int ?lo \<le> int ?hi - ?d" "take ?lo ?L' = take ?lo ?L"
    "drop (Suc ?hi) ?L' = drop (nat (int (Suc ?hi) - ?d)) ?L"
    by (simp_all add: lines_agree_def)
  have n: "length (w_counts w) = length ?L" and counts: "w_counts w = map ?c ?L"
    using w by (simp_all add: wrap_ok_def)
  have lo: "?lo \<le> length ?L" using a by linarith
  define to where "to = nat (int ?hi - ?d + 1)"
  have to: "min (max (nat (max (max (int ?hi - ?d) (int ?lo - 1) + 1) 0)) ?lo) (length ?L) = to"
    using a unfolding to_def by linarith
  have to': "nat (int (Suc ?hi) - ?d) = to" by (simp add: to_def algebra_simps)
  have "min (?hi + 1) (nlines r) = Suc ?hi" using a(3) by simp
  then have fresh: "map (wrap_count U R w r) [?lo..<min (?hi + 1) (nlines r)]
      = map ?c (drop ?lo (take (Suc ?hi) ?L'))"
    using map_wrap_count [of "Suc ?hi" r U w ?lo] a(3) by simp
  have "take ?lo ?L' @ drop ?lo (take (Suc ?hi) ?L') = take (Suc ?hi) ?L'"
    using a(2) by (metis append_take_drop_id le_SucI min.absorb1 take_take)
  then have "take ?lo ?L @ drop ?lo (take (Suc ?hi) ?L') @ drop to ?L = ?L'"
    using a(5,6) to' by (metis append_assoc append_take_drop_id)
  then have new: "take ?lo (w_counts w) @ map ?c (drop ?lo (take (Suc ?hi) ?L')) @ drop to (w_counts w)
      = map ?c ?L'"
    unfolding counts by (metis drop_map map_append take_map)
  let ?w = "w\<lparr>w_counts := map ?c ?L', prefix_valid := False\<rparr>"
  have m: "min ?lo (length ?L) = ?lo" using lo by simp
  have "wrap_apply U R r app w = Some ?w"
    unfolding wrap_apply_def Let_def len_lines_text n to m fresh new using lo by simp
  moreover have "wrap_ok U (to_string R r) ?w"
    using count_line_cong [of ?w w U] by (simp add: wrap_ok_def)
  ultimately show ?thesis using that by simp
qed

end

section \<open>Finding a row\<close>

lemma length_prefix_sums [simp]: "length (prefix_sums acc cs) = Suc (length cs)"
  by (induction cs arbitrary: acc) auto

lemma prefix_sums_nth: "i \<le> length cs \<Longrightarrow> prefix_sums acc cs ! i = acc + sum_list (take i cs)"
proof (induction cs arbitrary: acc i)
  case (Cons c cs)
  then show ?case by (cases i) auto
qed simp

lemma prefix_sums_neq_Nil [simp]: "prefix_sums acc cs \<noteq> []"
  by (cases cs) auto

lemma last_prefix_sums: "last (prefix_sums acc cs) = acc + sum_list cs"
  by (simp add: last_conv_nth prefix_sums_nth)

lemma ensure_prefix_ok:
  assumes "wrap_ok U s w"
  shows "w_prefix (ensure_prefix w) = prefix_sums 0 (w_counts w)" "w_counts (ensure_prefix w) = w_counts w"
    "wrap_ok U s (ensure_prefix w)" "w_width (ensure_prefix w) = w_width w"
    "w_tab (ensure_prefix w) = w_tab w"
proof -
  have c: "count_line U (ensure_prefix w) = count_line U w"
    by (rule count_line_cong) (simp_all add: ensure_prefix_def)
  show "w_prefix (ensure_prefix w) = prefix_sums 0 (w_counts w)"
    "w_counts (ensure_prefix w) = w_counts w" "w_width (ensure_prefix w) = w_width w"
    "w_tab (ensure_prefix w) = w_tab w"
    using assms by (simp_all add: ensure_prefix_def wrap_ok_def)
  then show "wrap_ok U s (ensure_prefix w)"
    using assms c by (simp add: wrap_ok_def)
qed

definition row_start_of :: "nat list \<Rightarrow> nat \<Rightarrow> nat" where
  "row_start_of cs l = sum_list (take l cs)"

lemma row_start_of_Suc: "l < length cs \<Longrightarrow> row_start_of cs (Suc l) = row_start_of cs l + cs ! l"
  by (simp add: row_start_of_def take_Suc_conv_app_nth)

lemma row_start_of_mono: "i \<le> j \<Longrightarrow> row_start_of cs i \<le> row_start_of cs j"
proof -
  assume "i \<le> j"
  then obtain d where "j = i + d" using le_Suc_ex by blast
  then show ?thesis by (simp add: row_start_of_def take_add)
qed

lemma total_rows_ok:
  assumes "wrap_ok U s w"
  shows "fst (total_rows w) = sum_list (w_counts w)" "snd (total_rows w) = ensure_prefix w"
    "0 < sum_list (w_counts w)"
proof -
  have ne: "w_counts w \<noteq> []" using assms by (simp add: wrap_ok_def)
  then obtain c cs where "w_counts w = c # cs" by (meson list.exhaust)
  moreover have "\<forall>c \<in> set (w_counts w). 0 < c" using assms count_line_pos by (auto simp: wrap_ok_def)
  ultimately show pos: "0 < sum_list (w_counts w)" by simp
  show "fst (total_rows w) = sum_list (w_counts w)" "snd (total_rows w) = ensure_prefix w"
    using pos by (simp_all add: total_rows_def Let_def ensure_prefix_ok(1) [OF assms] last_prefix_sums)
qed

lemma skip_equal_stop:
  "\<not> (l + 1 < n \<and> prefix ! (l + 1) = row) \<Longrightarrow> skip_equal prefix n row l = l"
  by (subst skip_equal.simps) (rule if_not_P)

text \<open>The search lands on the line whose rows include the row.\<close>

lemma binary_search_rows:
  assumes pos: "\<forall>c \<in> set cs. 0 < c" and ne: "cs \<noteq> []" and row: "row < sum_list cs"
  defines "ps \<equiv> take (length cs) (prefix_sums 0 cs)"
  defines "l \<equiv> (case binary_search ps row of
      Inl l \<Rightarrow> skip_equal (prefix_sums 0 cs) (length cs) row l | Inr l \<Rightarrow> l - 1)"
  shows "l < length cs \<and> row_start_of cs l \<le> row \<and> row < row_start_of cs l + cs ! l"
proof -
  have ps: "length ps = length cs" "\<And>i. i < length cs \<Longrightarrow> ps ! i = row_start_of cs i"
    by (simp_all add: ps_def prefix_sums_nth row_start_of_def)
  have all: "row_start_of cs (length cs) = sum_list cs" by (simp add: row_start_of_def)
  show ?thesis
  proof (cases "position (\<lambda>y. y = row) ps")
    case (Some i)
    then have i: "i < length cs" "row_start_of cs i = row"
      using position_eq_Some_nth [OF Some] ps by auto
    have next_gt: "row < row_start_of cs (Suc i)"
      using i pos by (simp add: row_start_of_Suc)
    have "\<not> (i + 1 < length cs \<and> prefix_sums 0 cs ! (i + 1) = row)"
      using next_gt by (auto simp: prefix_sums_nth row_start_of_def)
    then have "l = i" by (simp add: l_def binary_search_def Some skip_equal_stop)
    then show ?thesis using i next_gt by (simp add: row_start_of_Suc)
  next
    case None
    let ?t = "length (takeWhile (\<lambda>y. y < row) ps)"
    have t: "?t \<le> length cs" using ps(1) length_takeWhile_le by metis
    have before: "row_start_of cs i < row" if "i < ?t" for i
    proof -
      have "takeWhile (\<lambda>y. y < row) ps ! i < row" using that nth_mem set_takeWhileD by metis
      then show ?thesis using that ps t by (simp add: takeWhile_nth)
    qed
    have notin: "row_start_of cs i \<noteq> row" if "i < length cs" for i
      using None that ps nth_mem [of i ps] by (auto simp: position_None)
    have "0 < ?t"
    proof (rule ccontr)
      assume "\<not> 0 < ?t"
      then have "\<not> ps ! 0 < row" using ne ps(1) nth_length_takeWhile [of "\<lambda>y. y < row" ps] by simp
      moreover have "ps ! 0 = 0" using ne ps(2) [of 0] by (simp add: row_start_of_def)
      ultimately have "row = 0" by simp
      then show False using notin [of 0] ne by (simp add: row_start_of_def)
    qed
    moreover have "row < row_start_of cs ?t"
    proof (cases "?t < length cs")
      case True
      then have "\<not> ps ! ?t < row" using nth_length_takeWhile ps(1) by metis
      then show ?thesis using True ps(2) notin [OF True] by simp
    next
      case False
      with t row all show ?thesis by simp
    qed
    moreover have leq: "l = ?t - 1" by (simp add: l_def binary_search_def None)
    moreover have "?t - 1 < length cs" "Suc (?t - 1) = ?t" using \<open>0 < ?t\<close> t by linarith+
    moreover from this have "row_start_of cs ?t = row_start_of cs (?t - 1) + cs ! (?t - 1)"
      using row_start_of_Suc [of "?t - 1" cs] by metis
    moreover have "row_start_of cs (?t - 1) < row" using \<open>0 < ?t\<close> by (intro before) linarith
    ultimately show ?thesis unfolding leq by (intro conjI) linarith+
  qed
qed

lemma line_at_row_ok:
  assumes w: "wrap_ok U s w" and row: "row < sum_list (w_counts w)"
  obtains line sub where "line_at_row row w = ((line, sub), ensure_prefix w)" "line < length (w_counts w)"
    "sub < w_counts w ! line" "row = row_start_of (w_counts w) line + sub"
proof -
  let ?cs = "w_counts w"
  have pos: "\<forall>c \<in> set ?cs. 0 < c" and ne: "?cs \<noteq> []" using w count_line_pos by (auto simp: wrap_ok_def)
  define l where "l = (case binary_search (take (length ?cs) (prefix_sums 0 ?cs)) row of
      Inl l \<Rightarrow> skip_equal (prefix_sums 0 ?cs) (length ?cs) row l | Inr l \<Rightarrow> l - 1)"
  have l: "l < length ?cs" "row_start_of ?cs l \<le> row" "row < row_start_of ?cs l + ?cs ! l"
    using binary_search_rows [OF pos ne row] unfolding l_def by blast+
  have m: "min l (length ?cs - 1) = l" using l(1) by simp
  have p: "prefix_sums 0 ?cs ! l = row_start_of ?cs l"
    using l(1) by (simp add: prefix_sums_nth row_start_of_def)
  have "line_at_row row w = ((l, row - row_start_of ?cs l), ensure_prefix w)"
    unfolding line_at_row_def Let_def ensure_prefix_ok(1,2) [OF w] l_def [symmetric] m p
    using ne by simp
  then show ?thesis using that [of l "row - row_start_of ?cs l"] l by simp
qed

lemma first_row_of_ok:
  "wrap_ok U s w \<Longrightarrow> line < length (w_counts w) \<Longrightarrow>
   first_row_of line w = (row_start_of (w_counts w) line, ensure_prefix w)"
  using ensure_prefix_ok [of U s w]
  by (simp add: first_row_of_def Let_def prefix_sums_nth row_start_of_def min_absorb1)

lemma row_line_unique:
  assumes "a + i = row" "b + j = row" "a = row_start_of cs l" "b = row_start_of cs m"
    "l < length cs" "m < length cs" "i < cs ! l" "j < cs ! m"
  shows "l = m \<and> i = j"
proof (rule ccontr)
  assume "\<not> ?thesis"
  moreover have "l = m \<Longrightarrow> i = j" using assms by simp
  ultimately have "l < m \<or> m < l" by linarith
  then show False
    using row_start_of_mono [of "Suc l" m cs] row_start_of_mono [of "Suc m" l cs] assms
    by (auto simp: row_start_of_Suc)
qed

section \<open>Locating a position and coming back\<close>

lemma rposition_last:
  assumes "P (xs ! 0)" "xs \<noteq> []"
  obtains i where "rposition P xs = Some i" "i < length xs" "P (xs ! i)"
    "\<forall>j. i < j \<and> j < length xs \<longrightarrow> \<not> P (xs ! j)"
proof -
  have "\<exists>x \<in> set (rev xs). P x" using assms by (metis hd_conv_nth hd_in_set set_rev)
  then obtain k where k: "position P (rev xs) = Some k" by (metis not_None_eq position_None)
  then have p: "k < length xs" "P (xs ! (length xs - Suc k))"
    "\<forall>j < k. \<not> P (xs ! (length xs - Suc j))"
    using position_Some [of P "rev xs" k] by (auto simp: rev_nth)
  have "\<not> P (xs ! j)" if "length xs - 1 - k < j" "j < length xs" for j
    using p(3) [rule_format, of "length xs - Suc j"] that by auto
  then show ?thesis
    using that [of "length xs - 1 - k"] p k by (simp add: rposition_def)
qed

definition visible_text :: "unicode \<Rightarrow> nat \<Rightarrow> rstring \<Rightarrow> bool" where
  "visible_text U tab s \<longleftrightarrow> (\<forall>c \<in> set s. c \<noteq> LF \<longrightarrow> (\<forall>col. 0 < char_width U c col tab))"

context rope_contract
begin

lemma locate_ok:
  assumes w: "wrap_ok U (to_string R r) w" and pos: "pos \<le> length (to_string R r)"
    and vis: "visible_text U (w_tab w) (to_string R r)"
  obtains row col where "locate U R r pos w = ((row, col), ensure_prefix w)"
    "row < sum_list (w_counts w)" "fst (wrap_position U R r row col w) = pos"
proof -
  define line where "line = line_of R r pos"
  define ltext where "ltext = line_text R r line"
  define index where "index = pos - line_start R r line"
  define starts where "starts = row_starts U ltext (w_width w) (w_tab w)"
  have line: "line < nlines r" unfolding line_def by (rule line_of_lt)
  have start_le: "line_start R r line \<le> pos" unfolding line_def by (rule line_start_of_le [OF pos])
  have len: "length (w_counts w) = nlines r" using w by (simp add: wrap_ok_def)
  have txeq: "ltext = strip_lf (tlines (to_string R r) ! line)"
    using clamp_line(2) [OF line] by (simp add: ltext_def line_text_text text_line_def)
  have ok: "rows_ok U (w_tab w) (case w_width w of Some w \<Rightarrow> w | None \<Rightarrow> 0) ltext starts"
    unfolding starts_def by (rule row_starts_ok)
  have ne: "starts \<noteq> []" and hd: "starts ! 0 = 0" and srt: "sorted_wrt (<) starts"
    and inb: "\<forall>s \<in> set starts. s = 0 \<or> s < length ltext"
    using ok by (auto simp: rows_ok_def hd_conv_nth)
  have count: "w_counts w ! line = length starts"
  proof -
    have "w_counts w ! line = count_line U w (tlines (to_string R r) ! line)"
      using w line by (simp add: wrap_ok_def)
    also have "\<dots> = length starts"
      unfolding count_line_def starts_def txeq by (simp add: row_starts_def)
    finally show ?thesis .
  qed
  have idx: "index \<le> length ltext" unfolding index_def ltext_def line_def by (rule index_in_line [OF pos])
  obtain sub where sub: "rposition (\<lambda>s. s \<le> index) starts = Some sub" "sub < length starts"
    "starts ! sub \<le> index" "\<forall>j. sub < j \<and> j < length starts \<longrightarrow> \<not> starts ! j \<le> index"
    using rposition_last [of "\<lambda>s. s \<le> index" starts] hd ne by (metis zero_le)
  define col where "col = display_col U (drop (starts ! sub) ltext) (index - starts ! sub) (w_tab w)"
  define row where "row = row_start_of (w_counts w) line + sub"
  have loc: "locate U R r pos w = ((row, col), ensure_prefix w)"
    unfolding locate_def Let_def line_def [symmetric] ltext_def [symmetric] index_def [symmetric]
      starts_def [symmetric] sub(1) first_row_of_ok [OF w line [folded len]]
    by (simp add: row_def col_def)
  have lt: "row < row_start_of (w_counts w) (Suc line)"
    using sub(2) line len count by (simp add: row_def row_start_of_Suc)
  also have "\<dots> \<le> row_start_of (w_counts w) (length (w_counts w))"
    using line len by (intro row_start_of_mono) simp
  also have "\<dots> = sum_list (w_counts w)" by (simp add: row_start_of_def)
  finally have row_lt: "row < sum_list (w_counts w)" .
  note ep = ensure_prefix_ok [OF w]
  obtain line' sub' where lr: "line_at_row row (ensure_prefix w) = ((line', sub'), ensure_prefix (ensure_prefix w))"
    "line' < length (w_counts w)" "sub' < w_counts w ! line'" "row = row_start_of (w_counts w) line' + sub'"
    using line_at_row_ok [OF ep(3)] row_lt ep(2) by metis
  have "line' = line \<and> sub' = sub"
    by (rule row_line_unique [OF lr(4) [symmetric] row_def [symmetric] refl refl lr(2)])
      (use line len lr(3) count sub(2) in simp_all)
  then have lr': "line_at_row row (ensure_prefix w) = ((line, sub), ensure_prefix (ensure_prefix w))"
    using lr(1) by simp
  define stop where "stop = (if sub + 1 < length starts then starts ! (sub + 1) else length ltext)"
  have stop: "index \<le> stop" "sub + 1 < length starts \<Longrightarrow> index < stop" "stop \<le> length ltext"
    using sub(2,4) idx inb by (auto simp: stop_def not_le)
      (metis Suc_eq_plus1 le_less_linear less_imp_le nth_mem not_less_zero zero_le)
  define row_text where "row_text = take (stop - starts ! sub) (drop (starts ! sub) ltext)"
  have vis_text: "\<forall>c col. c \<in> set ltext \<longrightarrow> 0 < char_width U c col (w_tab w)"
    using vis text_no_lf [OF line] txeq unfolding visible_text_def by (metis subsetD)
  have "set row_text \<subseteq> set ltext" unfolding row_text_def
    by (meson set_drop_subset set_take_subset subset_trans)
  moreover have "col = display_col U row_text (index - starts ! sub) (w_tab w)"
    using stop(1) by (simp add: col_def row_text_def display_col_cols min_absorb1)
  moreover have "index - starts ! sub \<le> length row_text"
    using stop idx by (simp add: row_text_def)
  ultimately have col: "index_at_col U row_text col (w_tab w) = index - starts ! sub"
    using index_at_col_display_col [of "index - starts ! sub" row_text U "w_tab w"] vis_text by auto
  have tot: "total_rows w = (sum_list (w_counts w), ensure_prefix w)"
    using total_rows_ok [OF w] by (metis prod.collapse)
  have m: "min row (sum_list (w_counts w) - 1) = row" "min sub (length starts - 1) = sub"
    using row_lt sub(2) by simp_all
  have nb: "\<not> (sub + 1 < length starts \<and> index - starts ! sub \<ge> stop - starts ! sub
      \<and> stop > starts ! sub)"
    using stop(2) sub(3) by auto
  have "fst (wrap_position U R r row col w)
      = line_start R r line + starts ! sub + (index - starts ! sub)"
    unfolding wrap_position_def Let_def tot prod.case m(1) lr' ltext_def [symmetric]
    by (simp only: ep starts_def [symmetric] ensure_prefix_ok [OF ep(3)] m(2) prod.case fst_conv
        stop_def [symmetric] row_text_def [symmetric] col nb if_False)
  also have "\<dots> = pos" using sub(3) start_le by (simp add: index_def)
  finally show ?thesis using that loc row_lt by blast
qed

end

end
