(* ===== verification/Find.thy ===== *)
theory Find
  imports Change Lines
begin

text \<open>
  Find and replace inside a document (\<open>throng-editor/src/find.rs\<close>): literal text, found line
  by line, left to right, matches never overlapping. The specification is \<open>occurs\<close>: where, in
  one line, the folded term stands, at word boundaries when asked for whole words.
\<close>

section \<open>The code\<close>

record query =
  q_term :: rstring
  case_sensitive :: bool
  whole_word :: bool

definition fold_char :: "unicode \<Rightarrow> rchar \<Rightarrow> rchar" where
  "fold_char U c = (case to_lowercase U c of [l] \<Rightarrow> l | _ \<Rightarrow> c)"

definition is_word :: "unicode \<Rightarrow> rchar option \<Rightarrow> bool" where
  "is_word U c = (case c of None \<Rightarrow> False | Some c \<Rightarrow> class_of U c = Word)"

text \<open>The test for whole words around a match at \<open>i\<close>.\<close>

definition word_boundary :: "unicode \<Rightarrow> nat \<Rightarrow> rstring \<Rightarrow> nat \<Rightarrow> bool" where
  "word_boundary U n raw i =
     (let bef = (if i = 0 then None else Some (raw ! (i - 1)));
          first = Some (raw ! i); lst = Some (raw ! (i + n - 1));
          aft = (if i + n < length raw \<and> raw ! (i + n) \<noteq> LF then Some (raw ! (i + n)) else None)
      in \<not> (is_word U bef \<and> is_word U first) \<and> \<not> (is_word U lst \<and> is_word U aft))"

text \<open>
  The scan of one line: \<open>hay\<close> is the (folded) line, \<open>raw\<close> the line as it is. The flag says
  the limit was reached.
\<close>

function scan_line ::
  "unicode \<Rightarrow> query \<Rightarrow> rstring \<Rightarrow> rstring \<Rightarrow> rstring \<Rightarrow> nat \<Rightarrow> nat \<Rightarrow> nat \<Rightarrow> (nat \<times> nat) list
   \<Rightarrow> (nat \<times> nat) list \<times> bool" where
  "scan_line U q needle hay raw start limit i out =
     (let n = length needle
      in if n > 0 \<and> i + n \<le> length hay then
           if hay ! i = needle ! 0 \<and> take n (drop i hay) = needle
              \<and> (\<not> whole_word q \<or> word_boundary U n raw i)
           then (let out = out @ [(start + i, start + i + n)]
                 in if length out \<ge> limit then (out, True)
                    else scan_line U q needle hay raw start limit (i + n) out)
           else scan_line U q needle hay raw start limit (i + 1) out
         else (out, False))"
  by pat_completeness auto
termination
  by (relation "measure (\<lambda>(U, q, needle, hay, raw, start, limit, i, out). length hay + 1 - i)")
    (auto simp: Let_def neq_Nil_conv)

declare scan_line.simps [simp del]

fun find_lines ::
  "unicode \<Rightarrow> 'r ropey \<Rightarrow> 'r \<Rightarrow> query \<Rightarrow> rstring \<Rightarrow> nat \<Rightarrow> nat list \<Rightarrow> (nat \<times> nat) list
   \<Rightarrow> (nat \<times> nat) list" where
  "find_lines U R r q needle limit [] out = out"
| "find_lines U R r q needle limit (index # rest) out =
     (let line = rope_line R r index; start = line_to_char R r index;
          hay = filter (\<lambda>c. c \<noteq> LF) line
      in if length hay < length needle then find_lines U R r q needle limit rest out
         else
           (let hay = (if case_sensitive q then hay else map (fold_char U) hay);
                raw = (if whole_word q then line else []);
                (out, full) = scan_line U q needle hay raw start limit 0 out
            in if full then out else find_lines U R r q needle limit rest out))"

definition find_all :: "unicode \<Rightarrow> 'r ropey \<Rightarrow> 'r \<Rightarrow> query \<Rightarrow> nat \<Rightarrow> (nat \<times> nat) list" where
  "find_all U R r q limit =
     (if q_term q = [] \<or> LF \<in> set (q_term q) then []
      else
        (let needle = (if case_sensitive q then q_term q else map (fold_char U) (q_term q))
         in find_lines U R r q needle limit [0..<len_lines R r] []))"

definition first_from :: "(nat \<times> nat) list \<Rightarrow> nat \<Rightarrow> nat option" where
  "first_from matches pos =
     (if matches = [] then None
      else Some (case position (\<lambda>m. fst m \<ge> pos) matches of Some i \<Rightarrow> i | None \<Rightarrow> 0))"

definition replace_all :: "'r ropey \<Rightarrow> 'r \<Rightarrow> (nat \<times> nat) list \<Rightarrow> rstring \<Rightarrow> transaction" where
  "replace_all R r matches replacement =
     tx_replace R r (map (\<lambda>(f, t). (f, t, replacement)) matches)"

section \<open>Matches in one line\<close>

definition occurs :: "unicode \<Rightarrow> query \<Rightarrow> rstring \<Rightarrow> rstring \<Rightarrow> rstring \<Rightarrow> nat \<Rightarrow> bool" where
  "occurs U q needle hay raw i \<longleftrightarrow> i + length needle \<le> length hay
     \<and> take (length needle) (drop i hay) = needle
     \<and> (whole_word q \<longrightarrow> word_boundary U (length needle) raw i)"

text \<open>
  What a list of matches in a line must be: in order, apart, each an occurrence at or after
  \<open>i\<close>, and (when the scan was not cut short) no occurrence at or after \<open>i\<close> missed but those
  that overlap a match.
\<close>

definition line_matches ::
  "unicode \<Rightarrow> query \<Rightarrow> rstring \<Rightarrow> rstring \<Rightarrow> rstring \<Rightarrow> nat \<Rightarrow> nat \<Rightarrow> (nat \<times> nat) list \<Rightarrow> bool
   \<Rightarrow> bool" where
  "line_matches U q needle hay raw start i ms full \<longleftrightarrow>
     sorted_wrt (\<lambda>a b. snd a \<le> fst b) ms
     \<and> (\<forall>m \<in> set ms. \<exists>j \<ge> i. m = (start + j, start + j + length needle) \<and> occurs U q needle hay raw j)
     \<and> (\<not> full \<longrightarrow> (\<forall>j \<ge> i. occurs U q needle hay raw j \<longrightarrow>
          (\<exists>m \<in> set ms. fst m < start + j + length needle \<and> start + j < snd m)))"

lemma scan_line_end:
  "\<not> (length needle > 0 \<and> i + length needle \<le> length hay) \<Longrightarrow>
   scan_line U q needle hay raw start limit i out = (out, False)"
  by (subst scan_line.simps) (simp only: Let_def if_False)

lemma take_drop_nth0: "0 < n \<Longrightarrow> i + n \<le> length xs \<Longrightarrow> take n (drop i xs) = ys \<Longrightarrow> xs ! i = ys ! 0"
  by auto

lemma scan_line_step:
  assumes "length needle > 0" "i + length needle \<le> length hay"
  shows "scan_line U q needle hay raw start limit i out =
     (if occurs U q needle hay raw i
      then (let out = out @ [(start + i, start + i + length needle)]
            in if length out \<ge> limit then (out, True)
               else scan_line U q needle hay raw start limit (i + length needle) out)
      else scan_line U q needle hay raw start limit (i + 1) out)"
proof -
  have "(hay ! i = needle ! 0 \<and> take (length needle) (drop i hay) = needle
      \<and> (\<not> whole_word q \<or> word_boundary U (length needle) raw i)) = occurs U q needle hay raw i"
    using assms take_drop_nth0 [of "length needle" i hay needle] by (auto simp: occurs_def)
  moreover have "length needle > 0 \<and> i + length needle \<le> length hay" using assms by simp
  ultimately show ?thesis
    by (subst scan_line.simps) (simp only: Let_def simp_thms if_True)
qed

lemma occurs_le: "occurs U q needle hay raw j \<Longrightarrow> j + length needle \<le> length hay"
  by (simp add: occurs_def)

lemma line_matches_skip:
  "\<not> occurs U q needle hay raw i \<Longrightarrow> line_matches U q needle hay raw start (Suc i) ms full \<Longrightarrow>
   line_matches U q needle hay raw start i ms full"
  unfolding line_matches_def by (metis Suc_leI le_SucI le_less Suc_leD)

lemma line_matches_hit:
  assumes o: "occurs U q needle hay raw i" and n: "length needle > 0"
    and ms: "line_matches U q needle hay raw start (i + length needle) ms full"
  shows "line_matches U q needle hay raw start i ((start + i, start + i + length needle) # ms) full"
proof -
  let ?m = "(start + i, start + i + length needle)"
  have after: "\<forall>m \<in> set ms. snd ?m \<le> fst m"
    using ms by (fastforce simp: line_matches_def)
  have "\<exists>m \<in> set (?m # ms). fst m < start + j + length needle \<and> start + j < snd m"
    if "\<not> full" "i \<le> j" "occurs U q needle hay raw j" for j
  proof (cases "i + length needle \<le> j")
    case True
    with that ms show ?thesis by (auto simp: line_matches_def)
  next
    case False
    with that n show ?thesis by auto
  qed
  moreover have "\<exists>j \<ge> i. m = (start + j, start + j + length needle) \<and> occurs U q needle hay raw j"
    if "m \<in> set (?m # ms)" for m
  proof (cases "m = ?m")
    case True
    with o show ?thesis by auto
  next
    case False
    with that ms obtain j where "j \<ge> i + length needle"
      "m = (start + j, start + j + length needle)" "occurs U q needle hay raw j"
      by (auto simp: line_matches_def)
    then show ?thesis using add_leD1 by blast
  qed
  ultimately show ?thesis
    using after ms by (simp add: line_matches_def)
qed

lemma scan_line_matches:
  assumes "length needle > 0"
  shows "\<exists>ms. fst (scan_line U q needle hay raw start limit i out) = out @ ms
    \<and> line_matches U q needle hay raw start i ms (snd (scan_line U q needle hay raw start limit i out))
    \<and> (snd (scan_line U q needle hay raw start limit i out) \<longrightarrow>
        limit \<le> length (out @ ms) \<and> length (out @ ms) \<le> max limit (Suc (length out)))
    \<and> (\<not> snd (scan_line U q needle hay raw start limit i out) \<longrightarrow> ms = [] \<or> length (out @ ms) < limit)"
  using assms
proof (induction U q needle hay raw start limit i out rule: scan_line.induct)
  case (1 U q needle hay raw start limit i out)
  show ?case
  proof (cases "length needle > 0 \<and> i + length needle \<le> length hay")
    case False
    then have "line_matches U q needle hay raw start i [] False"
      using "1.prems" by (auto simp: line_matches_def occurs_def)
    with False show ?thesis by (intro exI [of _ "[]"]) (simp add: scan_line_end)
  next
    case True
    note step = scan_line_step [OF True [THEN conjunct1] True [THEN conjunct2],
        of U q raw start limit out]
    let ?m = "(start + i, start + i + length needle)"
    show ?thesis
    proof (cases "occurs U q needle hay raw i")
      case o: True
      then have guard: "hay ! i = needle ! 0 \<and> take (length needle) (drop i hay) = needle
          \<and> (\<not> whole_word q \<or> word_boundary U (length needle) raw i)"
        using True take_drop_nth0 [of "length needle" i hay needle] by (auto simp: occurs_def)
      show ?thesis
      proof (cases "length (out @ [?m]) \<ge> limit")
        case full: True
        have "line_matches U q needle hay raw start (i + length needle) [] True"
          by (simp add: line_matches_def)
        from line_matches_hit [OF o True [THEN conjunct1] this] show ?thesis
          using o full by (intro exI [of _ "[?m]"]) (simp add: step)
      next
        case more: False
        obtain ms where ms:
          "fst (scan_line U q needle hay raw start limit (i + length needle) (out @ [?m])) = (out @ [?m]) @ ms"
          "line_matches U q needle hay raw start (i + length needle) ms
            (snd (scan_line U q needle hay raw start limit (i + length needle) (out @ [?m])))"
          "snd (scan_line U q needle hay raw start limit (i + length needle) (out @ [?m])) \<longrightarrow>
            limit \<le> length ((out @ [?m]) @ ms) \<and> length ((out @ [?m]) @ ms) \<le> max limit (Suc (length (out @ [?m])))"
          "\<not> snd (scan_line U q needle hay raw start limit (i + length needle) (out @ [?m])) \<longrightarrow>
            ms = [] \<or> length ((out @ [?m]) @ ms) < limit"
          using "1.IH"(1) [OF refl True guard refl more "1.prems"] by blast
        show ?thesis
          using line_matches_hit [OF o True [THEN conjunct1] ms(2)] ms(1,3,4) o more
          by (intro exI [of _ "?m # ms"]) (auto simp: step Let_def)
      qed
    next
      case o: False
      then have guard: "\<not> (hay ! i = needle ! 0 \<and> take (length needle) (drop i hay) = needle
          \<and> (\<not> whole_word q \<or> word_boundary U (length needle) raw i))"
        using True by (auto simp: occurs_def)
      show ?thesis
        using "1.IH"(2) [OF refl True guard "1.prems"] line_matches_skip [OF o] o
        unfolding step by (simp only: if_False Suc_eq_plus1 [symmetric]) blast
    qed
  qed
qed

section \<open>Matches in a document\<close>

definition hay_of :: "unicode \<Rightarrow> query \<Rightarrow> rstring \<Rightarrow> rstring" where
  "hay_of U q line = (if case_sensitive q then strip_lf line else map (fold_char U) (strip_lf line))"

definition raw_of :: "query \<Rightarrow> rstring \<Rightarrow> rstring" where
  "raw_of q line = (if whole_word q then line else [])"

definition needle_of :: "unicode \<Rightarrow> query \<Rightarrow> rstring" where
  "needle_of U q = (if case_sensitive q then q_term q else map (fold_char U) (q_term q))"

text \<open>The term stands at character \<open>j\<close> of line \<open>k\<close> of the text \<open>s\<close>.\<close>

definition occurs_at :: "unicode \<Rightarrow> query \<Rightarrow> rstring \<Rightarrow> nat \<Rightarrow> nat \<Rightarrow> bool" where
  "occurs_at U q s k j \<longleftrightarrow> k < length (tlines s)
     \<and> occurs U q (needle_of U q) (hay_of U q (tlines s ! k)) (raw_of q (tlines s ! k)) j"

text \<open>The matches reported for the lines from \<open>m\<close> on.\<close>

definition doc_matches :: "unicode \<Rightarrow> query \<Rightarrow> rstring \<Rightarrow> nat \<Rightarrow> (nat \<times> nat) list \<Rightarrow> bool \<Rightarrow> bool" where
  "doc_matches U q s m ms full \<longleftrightarrow>
     sorted_wrt (\<lambda>a b. snd a \<le> fst b) ms
     \<and> (\<forall>x \<in> set ms. \<exists>k \<ge> m. \<exists>j. occurs_at U q s k j
          \<and> x = (line_offset s k + j, line_offset s k + j + length (q_term q)))
     \<and> (\<not> full \<longrightarrow> (\<forall>k \<ge> m. \<forall>j. occurs_at U q s k j \<longrightarrow>
          (\<exists>x \<in> set ms. fst x < line_offset s k + j + length (q_term q) \<and> line_offset s k + j < snd x)))"

lemma length_needle_of [simp]: "length (needle_of U q) = length (q_term q)"
  by (simp add: needle_of_def)

lemma length_hay_of [simp]: "length (hay_of U q line) = length (strip_lf line)"
  by (simp add: hay_of_def)

lemma occurs_at_bound:
  "occurs_at U q s k j \<Longrightarrow> line_offset s k + j + length (q_term q) \<le> line_offset s (Suc k)"
  using length_strip_lf_le [of "tlines s ! k"]
  by (auto simp: occurs_at_def occurs_def line_offset_Suc)

lemma filter_lf_strip: "k < length (tlines s) \<Longrightarrow> filter (\<lambda>c. c \<noteq> LF) (tlines s ! k) = strip_lf (tlines s ! k)"
proof -
  assume "k < length (tlines s)"
  then have "LF \<notin> set (butlast (tlines s ! k))" by (rule tlines_nth_no_lf)
  then have b: "filter (\<lambda>c. c \<noteq> LF) (butlast (tlines s ! k)) = butlast (tlines s ! k)"
    by (auto simp: filter_id_conv)
  show ?thesis
  proof (cases "tlines s ! k" rule: rev_cases)
    case Nil
    then show ?thesis by (simp add: strip_lf_def)
  next
    case (snoc ys y)
    with b show ?thesis by (simp add: strip_lf_def)
  qed
qed

lemma find_lines_scan:
  assumes "rope_line R r m = line" "line_to_char R r m = start"
    and "filter (\<lambda>c. c \<noteq> LF) line = strip_lf line" "\<not> length (strip_lf line) < length needle"
    and scan: "scan_line U q needle (hay_of U q line) (raw_of q line) start limit 0 out = (o1, full1)"
  shows "find_lines U R r q needle limit (m # rest) out
    = (if full1 then o1 else find_lines U R r q needle limit rest o1)"
  using scan unfolding hay_of_def raw_of_def
  by (simp add: assms(1-4) Let_def split del: if_split cong del: if_weak_cong)

lemma doc_matches_skip:
  "(\<And>j. \<not> occurs_at U q s m j) \<Longrightarrow> doc_matches U q s (Suc m) ms full \<Longrightarrow> doc_matches U q s m ms full"
  unfolding doc_matches_def by (metis Suc_leD Suc_leI le_less)

lemma doc_matches_add:
  assumes l: "line_matches U q (needle_of U q) (hay_of U q (tlines s ! m)) (raw_of q (tlines s ! m))
      (line_offset s m) 0 ms1 full1"
    and m: "m < length (tlines s)" and d: "doc_matches U q s (Suc m) ms2 full" and f: "full1 \<longrightarrow> full"
  shows "doc_matches U q s m (ms1 @ ms2) full"
proof -
  have one: "\<exists>j. occurs_at U q s m j \<and> x = (line_offset s m + j, line_offset s m + j + length (q_term q))"
    if "x \<in> set ms1" for x
    using that l m by (auto simp: line_matches_def occurs_at_def)
  have "snd a \<le> fst b" if "a \<in> set ms1" "b \<in> set ms2" for a b
  proof -
    note ab = that
    obtain j where "occurs_at U q s m j" "snd a = line_offset s m + j + length (q_term q)"
      using one [OF ab(1)] by auto
    then have "snd a \<le> line_offset s (Suc m)" using occurs_at_bound by metis
    moreover obtain k where "k \<ge> Suc m" "line_offset s k \<le> fst b"
      using ab(2) d by (fastforce simp: doc_matches_def)
    ultimately show ?thesis using line_offset_mono [of "Suc m" k s] by linarith
  qed
  then have "sorted_wrt (\<lambda>a b. snd a \<le> fst b) (ms1 @ ms2)"
    using l d by (auto simp: sorted_wrt_append line_matches_def doc_matches_def)
  moreover have "\<exists>k \<ge> m. \<exists>j. occurs_at U q s k j
      \<and> x = (line_offset s k + j, line_offset s k + j + length (q_term q))" if "x \<in> set (ms1 @ ms2)" for x
  proof (cases "x \<in> set ms1")
    case True
    from one [OF this] show ?thesis by blast
  next
    case False
    with that have "x \<in> set ms2" by simp
    then obtain k j where "k \<ge> Suc m" "occurs_at U q s k j"
      "x = (line_offset s k + j, line_offset s k + j + length (q_term q))"
      using d unfolding doc_matches_def by blast
    then show ?thesis by (intro exI [of _ k]) auto
  qed
  moreover have "\<exists>x \<in> set (ms1 @ ms2). fst x < line_offset s k + j + length (q_term q) \<and> line_offset s k + j < snd x"
    if "\<not> full" "k \<ge> m" "occurs_at U q s k j" for k j
  proof (cases "k = m")
    case True
    with that l f show ?thesis by (auto simp: line_matches_def occurs_at_def)
  next
    case False
    with that have "k \<ge> Suc m" by simp
    with that d show ?thesis unfolding doc_matches_def by (metis UnCI set_append)
  qed
  ultimately show ?thesis by (simp add: doc_matches_def)
qed

context rope_contract
begin

lemma find_lines_spec:
  assumes "q_term q \<noteq> []" "m \<le> nlines r"
  shows "\<exists>ms full. find_lines U R r q (needle_of U q) limit [m..<nlines r] out = out @ ms
    \<and> doc_matches U q (to_string R r) m ms full
    \<and> (full \<longrightarrow> limit \<le> length (out @ ms) \<and> length (out @ ms) \<le> max limit (Suc (length out)))
    \<and> (\<not> full \<longrightarrow> ms = [] \<or> length (out @ ms) < limit)"
  using assms(2)
proof (induction arbitrary: out rule: inc_induct)
  case base
  have "doc_matches U q (to_string R r) (nlines r) [] False"
    by (auto simp: doc_matches_def occurs_at_def)
  then show ?case by (intro exI [of _ "[]"] exI [of _ False]) simp
next
  case (step m)
  let ?s = "to_string R r" and ?line = "tlines (to_string R r) ! m"
  have line: "rope_line R r m = ?line" "line_to_char R r m = line_offset ?s m"
    using step.hyps by simp_all
  have filt: "filter (\<lambda>c. c \<noteq> LF) ?line = strip_lf ?line"
    using filter_lf_strip step.hyps by blast
  have upt: "[m..<nlines r] = m # [Suc m..<nlines r]" using step.hyps by (simp add: upt_conv_Cons)
  show ?case
  proof (cases "length (strip_lf ?line) < length (q_term q)")
    case True
    then have "\<not> occurs_at U q ?s m j" for j by (auto simp: occurs_at_def occurs_def)
    moreover have "find_lines U R r q (needle_of U q) limit [m..<nlines r] out
        = find_lines U R r q (needle_of U q) limit [Suc m..<nlines r] out"
      using True by (simp add: upt line filt Let_def)
    ultimately show ?thesis using step.IH [of out] doc_matches_skip by metis
  next
    case False
    obtain o1 full1 where scan: "scan_line U q (needle_of U q) (hay_of U q ?line) (raw_of q ?line)
        (line_offset ?s m) limit 0 out = (o1, full1)" by fastforce
    obtain ms1 where ms1: "o1 = out @ ms1"
      "line_matches U q (needle_of U q) (hay_of U q ?line) (raw_of q ?line) (line_offset ?s m) 0 ms1 full1"
      "full1 \<longrightarrow> limit \<le> length (out @ ms1) \<and> length (out @ ms1) \<le> max limit (Suc (length out))"
      "\<not> full1 \<longrightarrow> ms1 = [] \<or> length (out @ ms1) < limit"
      using scan_line_matches [of "needle_of U q" U q "hay_of U q ?line" "raw_of q ?line"
          "line_offset ?s m" limit 0 out] assms(1) scan by auto
    have eq: "find_lines U R r q (needle_of U q) limit [m..<nlines r] out =
        (if full1 then o1 else find_lines U R r q (needle_of U q) limit [Suc m..<nlines r] o1)"
      unfolding upt using False by (intro find_lines_scan [OF line filt _ scan]) simp
    show ?thesis
    proof (cases full1)
      case True
      have "doc_matches U q ?s (Suc m) [] True" by (simp add: doc_matches_def)
      from doc_matches_add [OF ms1(2) step.hyps(2) this] True ms1 eq show ?thesis
        by (intro exI [of _ ms1] exI [of _ True]) auto
    next
      case False
      obtain ms2 full where ms2: "find_lines U R r q (needle_of U q) limit [Suc m..<nlines r] o1 = o1 @ ms2"
        "doc_matches U q ?s (Suc m) ms2 full"
        "full \<longrightarrow> limit \<le> length (o1 @ ms2) \<and> length (o1 @ ms2) \<le> max limit (Suc (length o1))"
        "\<not> full \<longrightarrow> ms2 = [] \<or> length (o1 @ ms2) < limit"
        using step.IH [of o1] by blast
      from doc_matches_add [OF ms1(2) step.hyps(2) ms2(2)] False ms1 ms2 eq show ?thesis
        by (intro exI [of _ "ms1 @ ms2"] exI [of _ full]) auto
    qed
  qed
qed

lemma find_all_spec:
  assumes "q_term q \<noteq> []" "LF \<notin> set (q_term q)"
  shows "\<exists>full. doc_matches U q (to_string R r) 0 (find_all U R r q limit) full
    \<and> length (find_all U R r q limit) \<le> max limit 1
    \<and> (full \<longrightarrow> limit \<le> length (find_all U R r q limit))"
proof -
  obtain ms full where "find_lines U R r q (needle_of U q) limit [0..<nlines r] [] = ms"
    "doc_matches U q (to_string R r) 0 ms full"
    "full \<longrightarrow> limit \<le> length ms \<and> length ms \<le> max limit 1" "\<not> full \<longrightarrow> ms = [] \<or> length ms < limit"
    using find_lines_spec [OF assms(1), of 0 r U limit "[]"] by auto
  moreover have "find_all U R r q limit = find_lines U R r q (needle_of U q) limit [0..<nlines r] []"
    using assms by (simp add: find_all_def needle_of_def)
  ultimately show ?thesis by (intro exI [of _ full]) auto
qed

lemma doc_matches_spans:
  assumes "doc_matches U q s m ms full"
  shows "spans_ok (length s) (map (\<lambda>(f, t). (f, t, rep)) ms)"
proof -
  have "f \<le> t \<and> t \<le> length s" if "(f, t) \<in> set ms" for f t
  proof -
    have "\<exists>k \<ge> m. \<exists>j. occurs_at U q s k j
        \<and> (f, t) = (line_offset s k + j, line_offset s k + j + length (q_term q))"
      using assms that unfolding doc_matches_def by blast
    then obtain k j where "occurs_at U q s k j" "f = line_offset s k + j"
      "t = line_offset s k + j + length (q_term q)" by blast
    then show ?thesis using occurs_at_bound [of U q s k j] line_offset_le [of s "Suc k"] by linarith
  qed
  moreover have "sorted_wrt spans_apart (map (\<lambda>(f, t). (f, t, rep)) ms)"
    using assms unfolding doc_matches_def sorted_wrt_map
    by (auto simp: spans_apart_def elim!: sorted_wrt_mono_rel [rotated])
  ultimately show ?thesis by (auto simp: spans_ok_def list_all_iff)
qed

end

end
