(* ===== verification/Commands.thy ===== *)
theory Commands
  imports Wrap Find
begin

text \<open>
  Editing and movement (\<open>throng-editor/src/commands.rs\<close>): what keys and menu items do to a
  document and a view's selection. Every edit is one transaction. A closure that counts its calls
  is a function of the range's index; \<open>Selection::new\<close> panics on no ranges, which is
  the value \<open>None\<close> of the commands that call it.
\<close>

section \<open>Data\<close>

record indent_style =
  tabs :: bool
  i_width :: nat

definition style_unit :: "indent_style \<Rightarrow> rstring" where
  "style_unit st = (if tabs st then [TAB] else replicate (max (i_width st) 1) SP)"

record edited =
  e_applied :: "applied option"
  e_selection :: selection

datatype move_unit = Char | AWord

datatype clip_mode = Plain | FullLine | Column

record clip =
  clip_text :: rstring
  clip_mode_of :: clip_mode

section \<open>Movement\<close>

function skip_class_fwd :: "unicode \<Rightarrow> 'r ropey \<Rightarrow> 'r \<Rightarrow> char_class \<Rightarrow> nat \<Rightarrow> nat" where
  "skip_class_fwd U R r k p =
     (if p < len_chars R r \<and> class_of U (char_at R r p) = k
      then skip_class_fwd U R r k (p + 1) else p)"
  by pat_completeness auto
termination
  by (relation "measure (\<lambda>(U, R, r, k, p). len_chars R r - p)") auto

declare skip_class_fwd.simps [simp del]

fun skip_class_bwd :: "unicode \<Rightarrow> 'r ropey \<Rightarrow> 'r \<Rightarrow> char_class \<Rightarrow> nat \<Rightarrow> nat" where
  "skip_class_bwd U R r k 0 = 0"
| "skip_class_bwd U R r k (Suc p) =
     (if class_of U (char_at R r p) = k then skip_class_bwd U R r k p else Suc p)"

definition step_word :: "unicode \<Rightarrow> 'r ropey \<Rightarrow> 'r \<Rightarrow> nat \<Rightarrow> bool \<Rightarrow> nat" where
  "step_word U R r pos forward =
     (let len = len_chars R r; p = min pos len
      in if forward then
           (if p \<ge> len then len
            else if class_of U (char_at R r p) = Newline then p + 1
            else
              (let p = skip_class_fwd U R r Space p
               in if p \<ge> len \<or> class_of U (char_at R r p) = Newline then p
                  else skip_class_fwd U R r (class_of U (char_at R r p)) p))
         else
           (if p = 0 then 0
            else if class_of U (char_at R r (p - 1)) = Newline then p - 1
            else
              (let p = skip_class_bwd U R r Space p
               in if p = 0 \<or> class_of U (char_at R r (p - 1)) = Newline then p
                  else skip_class_bwd U R r (class_of U (char_at R r (p - 1))) p)))"

definition move_horizontal ::
  "unicode \<Rightarrow> 'r ropey \<Rightarrow> 'r \<Rightarrow> selection \<Rightarrow> bool \<Rightarrow> move_unit \<Rightarrow> bool \<Rightarrow> selection" where
  "move_horizontal U R r sel forward unit ext =
     sel_transform (\<lambda>rg.
       if \<not> ext \<and> \<not> r_is_empty rg \<and> unit = Char
       then range_point (if forward then r_to rg else r_from rg)
       else put_head rg
         (case unit of
            Char \<Rightarrow> if forward then min (head rg + 1) (len_chars R r) else head rg - 1
          | AWord \<Rightarrow> step_word U R r (head rg) forward) ext) sel"

definition move_line_start :: "'r ropey \<Rightarrow> 'r \<Rightarrow> selection \<Rightarrow> bool \<Rightarrow> selection" where
  "move_line_start R r sel ext =
     sel_transform (\<lambda>rg.
       let line = line_of R r (head rg); start = line_start R r line; text = line_text R r line;
           indent = length (leading_whitespace text); first = start + indent
       in put_head rg (if head rg = first \<or> indent = length text then start else first) ext) sel"

definition move_line_end :: "'r ropey \<Rightarrow> 'r \<Rightarrow> selection \<Rightarrow> bool \<Rightarrow> selection" where
  "move_line_end R r sel ext =
     sel_transform (\<lambda>rg. put_head rg (line_end R r (line_of R r (head rg))) ext) sel"

definition move_doc_edge :: "'r ropey \<Rightarrow> 'r \<Rightarrow> selection \<Rightarrow> bool \<Rightarrow> bool \<Rightarrow> selection" where
  "move_doc_edge R r sel end ext =
     (let target = (if end then len_chars R r else 0)
      in sel_transform (\<lambda>rg. put_head rg target ext) sel)"

text \<open>One range of a vertical move; the wrap's prefix sums are computed as they are needed.\<close>

definition move_row ::
  "unicode \<Rightarrow> 'r ropey \<Rightarrow> 'r \<Rightarrow> nat \<Rightarrow> int \<Rightarrow> bool \<Rightarrow> rng \<Rightarrow> wrap \<Rightarrow> rng \<times> wrap" where
  "move_row U R r tot rows ext rg w =
     (let ((row, col), w) = locate U R r (head rg) w;
          g = (case goal rg of Some g \<Rightarrow> g | None \<Rightarrow> col);
          target = int row + rows;
          (h, w) = (if target < 0 then (0, w)
                    else if nat target \<ge> tot then (len_chars R r, w)
                    else wrap_position U R r (nat target) g w)
      in ((put_head rg h ext)\<lparr>goal := Some g\<rparr>, w))"

fun move_rows ::
  "unicode \<Rightarrow> 'r ropey \<Rightarrow> 'r \<Rightarrow> nat \<Rightarrow> int \<Rightarrow> bool \<Rightarrow> rng list \<Rightarrow> wrap \<Rightarrow> rng list \<times> wrap" where
  "move_rows U R r tot rows ext [] w = ([], w)"
| "move_rows U R r tot rows ext (rg # rgs) w =
     (let (rg', w) = move_row U R r tot rows ext rg w;
          (rgs', w) = move_rows U R r tot rows ext rgs w
      in (rg' # rgs', w))"

definition move_vertical ::
  "unicode \<Rightarrow> 'r ropey \<Rightarrow> 'r \<Rightarrow> wrap \<Rightarrow> selection \<Rightarrow> int \<Rightarrow> bool \<Rightarrow> selection \<times> wrap" where
  "move_vertical U R r w sel rows ext =
     (let (tot, w) = total_rows w;
          (rgs, w) = move_rows U R r tot rows ext (ranges sel) w
      in (sel_norm rgs (primary sel), w))"

definition select_all :: "'r ropey \<Rightarrow> 'r \<Rightarrow> selection" where
  "select_all R r = sel_single 0 (len_chars R r)"

definition word_at :: "unicode \<Rightarrow> 'r ropey \<Rightarrow> 'r \<Rightarrow> nat \<Rightarrow> rng" where
  "word_at U R r pos =
     (let len = len_chars R r
      in if len = 0 then range_point 0
         else if \<not> (pos < len \<and> class_of U (char_at R r pos) \<noteq> Newline) \<and> pos = 0
         then range_point pos
         else
           (let probe = (if pos < len \<and> class_of U (char_at R r pos) \<noteq> Newline then pos else pos - 1);
                kind = class_of U (char_at R r probe)
            in if kind = Newline then range_point pos
               else range_new (skip_class_bwd U R r kind probe)
                      (skip_class_fwd U R r kind (probe + 1))))"

definition line_range :: "'r ropey \<Rightarrow> 'r \<Rightarrow> nat \<Rightarrow> rng" where
  "line_range R r pos =
     (let line = line_of R r pos; start = line_start R r line;
          end = (if line + 1 < len_lines R r then line_to_char R r (line + 1) else len_chars R r)
      in range_new start end)"

definition column_rect ::
  "unicode \<Rightarrow> 'r ropey \<Rightarrow> 'r \<Rightarrow> nat \<Rightarrow> nat \<times> nat \<Rightarrow> nat \<times> nat \<Rightarrow> selection option" where
  "column_rect U R r tab anch hp =
     (let lst = len_lines R r - 1;
          a_line = min (fst anch) lst; h_line = min (fst hp) lst;
          lo = min a_line h_line; hi = max a_line h_line
      in sel_new (map (\<lambda>line.
           let text = line_text R r line; start = line_start R r line
           in range_new (start + index_at_col U text (snd anch) tab)
                (start + index_at_col U text (snd hp) tab)) [lo..<hi + 1]) (h_line - lo))"

section \<open>Editing\<close>

definition replace_each ::
  "'r ropey \<Rightarrow> selection \<Rightarrow> edit_kind \<Rightarrow> nat \<Rightarrow> (nat \<Rightarrow> rng \<Rightarrow> rstring \<times> nat) \<Rightarrow> 'r textdoc
   \<Rightarrow> (edited \<times> 'r textdoc) option" where
  "replace_each R sel kind now_ms f d =
     (let outs = map (\<lambda>(i, rg). (rg, f i rg)) (enumerate 0 (ranges sel));
          tx = tx_replace R (rope d) (map (\<lambda>(rg, text, off). (r_from rg, r_to rg, text)) outs)
      in case sel_new (map (\<lambda>(rg, text, off). range_point (tx_map tx (r_from rg) Before + off)) outs)
                (primary sel) of
           None \<Rightarrow> None
         | Some aft \<Rightarrow>
             (case doc_edit R tx sel aft kind now_ms d of (app, d') \<Rightarrow>
                Some (\<lparr>e_applied = app, e_selection = aft\<rparr>, d')))"

definition insert_text ::
  "'r ropey \<Rightarrow> selection \<Rightarrow> rstring \<Rightarrow> nat \<Rightarrow> 'r textdoc \<Rightarrow> (edited \<times> 'r textdoc) option" where
  "insert_text R sel text now_ms d =
     replace_each R sel (if length text = 1 \<and> LF \<notin> set text then Insert else Other) now_ms
       (\<lambda>_ _. (text, length text)) d"

definition bracket_pair :: "rchar option \<Rightarrow> rchar option \<Rightarrow> bool" where
  "bracket_pair prev next \<longleftrightarrow>
     (prev = Some (of_char (CHR ''{'')) \<and> next = Some (of_char (CHR ''}'')))
     \<or> (prev = Some (of_char (CHR ''['')) \<and> next = Some (of_char (CHR '']'')))
     \<or> (prev = Some (of_char (CHR ''('')) \<and> next = Some (of_char (CHR '')'')))"

definition newline_text :: "'r ropey \<Rightarrow> 'r \<Rightarrow> indent_style \<Rightarrow> rng \<Rightarrow> rstring \<times> nat" where
  "newline_text R r style rg =
     (let line = line_of R r (r_from rg); start = line_start R r line; text = line_text R r line;
          before_caret = take (r_from rg - start) text;
          indent = leading_whitespace before_caret;
          prev = (if r_from rg > start then Some (char_at R r (r_from rg - 1)) else None);
          next = (if r_to rg < len_chars R r then Some (char_at R r (r_to rg)) else None)
      in if bracket_pair prev next
         then (let inner = [LF] @ indent @ style_unit style
               in (inner @ [LF] @ indent, length inner))
         else (let text = [LF] @ indent in (text, length text)))"

definition insert_newline ::
  "'r ropey \<Rightarrow> selection \<Rightarrow> indent_style \<Rightarrow> nat \<Rightarrow> 'r textdoc \<Rightarrow> (edited \<times> 'r textdoc) option" where
  "insert_newline R sel style now_ms d =
     replace_each R sel Other now_ms (\<lambda>_ rg. newline_text R (rope d) style rg) d"

definition merge_span :: "(nat \<times> nat) list \<Rightarrow> nat \<times> nat \<Rightarrow> (nat \<times> nat) list" where
  "merge_span out s =
     (if out \<noteq> [] \<and> fst s < snd (last out)
      then butlast out @ [(fst (last out), max (snd (last out)) (snd s))]
      else out @ [s])"

definition pair_le :: "nat \<times> nat \<Rightarrow> nat \<times> nat \<Rightarrow> bool" where
  "pair_le a b \<longleftrightarrow> fst a < fst b \<or> (fst a = fst b \<and> snd a \<le> snd b)"

definition merged_spans :: "(nat \<times> nat) list \<Rightarrow> (nat \<times> nat) list" where
  "merged_spans spans = foldl merge_span [] (sort_by pair_le spans)"

definition delete_spans ::
  "'r ropey \<Rightarrow> selection \<Rightarrow> (nat \<times> nat) list \<Rightarrow> edit_kind \<Rightarrow> nat \<Rightarrow> 'r textdoc \<Rightarrow> edited \<times> 'r textdoc" where
  "delete_spans R sel spans kind now_ms d =
     (let spans = filter (\<lambda>(f, t). f < t) (merged_spans spans)
      in if spans = [] then (\<lparr>e_applied = None, e_selection = sel\<rparr>, d)
         else
           (let tx = tx_replace R (rope d) (map (\<lambda>(f, t). (f, t, [])) spans);
                aft = sel_transform (\<lambda>rg. range_point (tx_map tx (r_from rg) Before)) sel
            in case doc_edit R tx sel aft kind now_ms d of (app, d') \<Rightarrow>
                 (\<lparr>e_applied = app, e_selection = aft\<rparr>, d')))"

text \<open>What Backspace removes for one range: back to the previous indent stop in leading spaces.\<close>

definition backward_span :: "unicode \<Rightarrow> 'r ropey \<Rightarrow> 'r \<Rightarrow> move_unit \<Rightarrow> indent_style \<Rightarrow> rng \<Rightarrow> nat \<times> nat" where
  "backward_span U R r unit style rg =
     (if \<not> r_is_empty rg then (r_from rg, r_to rg)
      else
        (let hd = head rg;
             start = (case unit of
                AWord \<Rightarrow> step_word U R r hd False
              | Char \<Rightarrow>
                  (let line = line_of R r hd; line_start = line_start R r line;
                       bef = slice R r line_start hd
                   in if \<not> tabs style \<and> bef \<noteq> [] \<and> list_all (\<lambda>c. c = SP) bef
                      then (let col = length bef; width = max (i_width style) 1;
                                target = (col - 1) div width * width
                            in hd - (col - target))
                      else hd - 1))
         in (start, hd)))"

definition delete_backward ::
  "unicode \<Rightarrow> 'r ropey \<Rightarrow> selection \<Rightarrow> move_unit \<Rightarrow> indent_style \<Rightarrow> nat \<Rightarrow> 'r textdoc \<Rightarrow> edited \<times> 'r textdoc" where
  "delete_backward U R sel unit style now_ms d =
     delete_spans R sel (map (backward_span U R (rope d) unit style) (ranges sel)) Delete now_ms d"

definition forward_span :: "unicode \<Rightarrow> 'r ropey \<Rightarrow> 'r \<Rightarrow> move_unit \<Rightarrow> rng \<Rightarrow> nat \<times> nat" where
  "forward_span U R r unit rg =
     (if \<not> r_is_empty rg then (r_from rg, r_to rg)
      else (head rg, (case unit of
              Char \<Rightarrow> min (head rg + 1) (len_chars R r)
            | AWord \<Rightarrow> step_word U R r (head rg) True)))"

definition delete_forward ::
  "unicode \<Rightarrow> 'r ropey \<Rightarrow> selection \<Rightarrow> move_unit \<Rightarrow> nat \<Rightarrow> 'r textdoc \<Rightarrow> edited \<times> 'r textdoc" where
  "delete_forward U R sel unit now_ms d =
     delete_spans R sel (map (forward_span U R (rope d) unit) (ranges sel)) Delete now_ms d"

definition lines_of_range :: "'r ropey \<Rightarrow> 'r \<Rightarrow> rng \<Rightarrow> nat list" where
  "lines_of_range R r rg =
     (let first = line_of R r (r_from rg); lst = line_of R r (r_to rg);
          lst = (if lst > first \<and> r_to rg = line_start R r lst then lst - 1 else lst)
      in [first..<lst + 1])"

definition touched_lines :: "'r ropey \<Rightarrow> 'r \<Rightarrow> selection \<Rightarrow> nat list" where
  "touched_lines R r sel = remdups_adj (sort (concat (map (lines_of_range R r) (ranges sel))))"

definition indent_lines ::
  "'r ropey \<Rightarrow> selection \<Rightarrow> indent_style \<Rightarrow> nat \<Rightarrow> 'r textdoc \<Rightarrow> edited \<times> 'r textdoc" where
  "indent_lines R sel style now_ms d =
     (let r = rope d; lines_touched = touched_lines R r sel; many = length lines_touched > 1;
          edits = map (\<lambda>l. (line_start R r l, line_start R r l, style_unit style))
                    (filter (\<lambda>l. \<not> (many \<and> line_len R r l = 0)) lines_touched);
          tx = tx_replace R r edits;
          aft = sel_transform (\<lambda>rg.
            let keep_start = r_from rg = line_start R r (line_of R r (r_from rg)) \<and> \<not> r_is_empty rg;
                from = tx_map tx (r_from rg) (if keep_start then Before else After);
                to = max (tx_map tx (r_to rg) After) from
            in if anchor rg \<le> head rg then range_new from to else range_new to from) sel
      in case doc_edit R tx sel aft Other now_ms d of (app, d') \<Rightarrow>
           (\<lparr>e_applied = app, e_selection = aft\<rparr>, d'))"

definition insert_tab ::
  "unicode \<Rightarrow> 'r ropey \<Rightarrow> selection \<Rightarrow> indent_style \<Rightarrow> nat \<Rightarrow> 'r textdoc \<Rightarrow> (edited \<times> 'r textdoc) option" where
  "insert_tab U R sel style now_ms d =
     (if \<not> all_empty sel then Some (indent_lines R sel style now_ms d)
      else replace_each R sel Insert now_ms (\<lambda>_ rg.
        if tabs style then ([TAB], 1)
        else
          (let r = rope d; line = line_of R r (head rg); text = line_text R r line;
               col = display_col U text (head rg - line_start R r line) (i_width style);
               width = max (i_width style) 1; n = width - col mod width
           in (replicate n SP, n))) d)"

definition outdent_edit :: "'r ropey \<Rightarrow> 'r \<Rightarrow> indent_style \<Rightarrow> nat \<Rightarrow> (nat \<times> nat \<times> rstring) option" where
  "outdent_edit R r style l =
     (let at = line_start R r l; text = line_text R r l;
          n = (if starts_with [TAB] text then 1
               else length (takeWhile (\<lambda>c. c = SP) (take (max (i_width style) 1) text)))
      in if n > 0 then Some (at, at + n, []) else None)"

definition outdent_lines ::
  "'r ropey \<Rightarrow> selection \<Rightarrow> indent_style \<Rightarrow> nat \<Rightarrow> 'r textdoc \<Rightarrow> edited \<times> 'r textdoc" where
  "outdent_lines R sel style now_ms d =
     (let r = rope d;
          edits = List.map_filter (outdent_edit R r style) (touched_lines R r sel);
          tx = tx_replace R r edits;
          aft = sel_map tx sel
      in case doc_edit R tx sel aft Other now_ms d of (app, d') \<Rightarrow>
           (\<lparr>e_applied = app, e_selection = aft\<rparr>, d'))"

section \<open>Clipboard\<close>

definition whole_line_span :: "'r ropey \<Rightarrow> 'r \<Rightarrow> nat \<Rightarrow> nat \<times> nat" where
  "whole_line_span R r line =
     (let start = line_start R r line
      in if line + 1 < len_lines R r then (start, line_to_char R r (line + 1))
         else if line > 0 then (start - 1, len_chars R r)
         else (start, len_chars R r))"

text \<open>The first range on each line, with its line.\<close>

definition first_on_lines :: "'r ropey \<Rightarrow> 'r \<Rightarrow> rng list \<Rightarrow> nat list" where
  "first_on_lines R r rgs =
     foldl (\<lambda>seen rg. let line = line_of R r (head rg)
        in if line \<in> set seen then seen else seen @ [line]) [] rgs"

definition copy :: "'r ropey \<Rightarrow> 'r \<Rightarrow> selection \<Rightarrow> bool \<Rightarrow> clip" where
  "copy R r sel column =
     (if all_empty sel then
        \<lparr>clip_text = concat (map (\<lambda>line. line_text R r line @ [LF]) (first_on_lines R r (ranges sel))),
         clip_mode_of = FullLine\<rparr>
      else
        \<lparr>clip_text = join [LF] (map (\<lambda>rg.
            if r_is_empty rg then line_text R r (line_of R r (head rg))
            else slice R r (r_from rg) (r_to rg)) (ranges sel)),
         clip_mode_of = (if column \<and> length (ranges sel) > 1 then Column else Plain)\<rparr>)"

definition cut_span :: "'r ropey \<Rightarrow> 'r \<Rightarrow> rng \<Rightarrow> nat \<times> nat" where
  "cut_span R r rg =
     (if r_is_empty rg then whole_line_span R r (line_of R r (head rg)) else (r_from rg, r_to rg))"

definition cut :: "'r ropey \<Rightarrow> selection \<Rightarrow> bool \<Rightarrow> nat \<Rightarrow> 'r textdoc \<Rightarrow> clip \<times> edited \<times> 'r textdoc" where
  "cut R sel column now_ms d =
     (copy R (rope d) sel column,
      delete_spans R sel (map (cut_span R (rope d)) (ranges sel)) Other now_ms d)"

text \<open>The loop over the rows of a block: the edits, the carets and what goes past the end.\<close>

fun column_rows ::
  "unicode \<Rightarrow> 'r ropey \<Rightarrow> 'r \<Rightarrow> rchar \<Rightarrow> nat \<Rightarrow> nat \<Rightarrow> rstring list
   \<Rightarrow> (nat \<times> nat \<times> rstring) list \<times> (nat \<times> nat) list \<times> rstring
   \<Rightarrow> (nat \<times> nat \<times> rstring) list \<times> (nat \<times> nat) list \<times> rstring" where
  "column_rows U R r pad col line [] acc = acc"
| "column_rows U R r pad col line (row # rows) (edits, carets, appended) =
     column_rows U R r pad col (line + 1) rows
       (if line < len_lines R r then
          (let text = line_text R r line; width = display_col U text (length text) 4;
               start = line_start R r line
           in if width < col then
                (let padding = replicate (col - width) pad; at = line_end R r line
                 in (edits @ [(at, at, padding @ row)],
                     carets @ [(at, length padding + length row)], appended))
              else
                (let at = start + index_at_col U text col 4
                 in (edits @ [(at, at, row)], carets @ [(at, length row)], appended)))
        else (edits, carets, appended @ [LF] @ replicate col pad @ row))"

definition paste_column ::
  "unicode \<Rightarrow> 'r ropey \<Rightarrow> selection \<Rightarrow> clip \<Rightarrow> rchar \<Rightarrow> nat \<Rightarrow> 'r textdoc \<Rightarrow> (edited \<times> 'r textdoc) option" where
  "paste_column U R sel clip pad now_ms d =
     (let r = rope d; caret = head (primary_range sel);
          first_line = line_of R r caret; caret_text = line_text R r first_line;
          col = display_col U caret_text (caret - line_start R r first_line) 4;
          rows = split_on LF (clip_text clip);
          (edits, carets, appended) = column_rows U R r pad col first_line rows ([], [], []);
          end = len_chars R r;
          edits = (if appended \<noteq> [] then edits @ [(end, end, appended)] else edits);
          tx = tx_replace R r edits;
          rgs = map (\<lambda>(at, off). range_point (tx_map tx at Before + off)) carets;
          rgs = (if rgs = [] then [range_point (tx_map tx end After)] else rgs)
      in case sel_new rgs 0 of
           None \<Rightarrow> None
         | Some aft \<Rightarrow>
             (case doc_edit R tx sel aft Other now_ms d of (app, d') \<Rightarrow>
                Some (\<lparr>e_applied = app, e_selection = aft\<rparr>, d')))"

definition paste_lines ::
  "'r ropey \<Rightarrow> selection \<Rightarrow> rstring \<Rightarrow> nat \<Rightarrow> 'r textdoc \<Rightarrow> edited \<times> 'r textdoc" where
  "paste_lines R sel text now_ms d =
     (let r = rope d;
          text = (if ends_with [LF] text then text else text @ [LF]);
          edits = map (\<lambda>line. (line_start R r line, line_start R r line, text))
                    (first_on_lines R r (ranges sel));
          tx = tx_replace R r edits;
          aft = sel_transform (\<lambda>rg. range_point (tx_map tx (head rg) After)) sel
      in case doc_edit R tx sel aft Other now_ms d of (app, d') \<Rightarrow>
           (\<lparr>e_applied = app, e_selection = aft\<rparr>, d'))"

definition paste ::
  "unicode \<Rightarrow> 'r ropey \<Rightarrow> selection \<Rightarrow> clip \<Rightarrow> rchar \<Rightarrow> nat \<Rightarrow> 'r textdoc \<Rightarrow> (edited \<times> 'r textdoc) option" where
  "paste U R sel clip pad now_ms d =
     (if clip_mode_of clip = FullLine \<and> all_empty sel
      then Some (paste_lines R sel (clip_text clip) now_ms d)
      else if clip_mode_of clip = Column \<and> length (ranges sel) = 1 \<and> all_empty sel
      then paste_column U R sel clip pad now_ms d
      else
        (let rows = split_on LF (clip_text clip)
         in if length (ranges sel) > 1 \<and> length rows = length (ranges sel)
            then replace_each R sel Other now_ms (\<lambda>i _. (rows ! i, length (rows ! i))) d
            else replace_each R sel Other now_ms
                   (\<lambda>_ _. (clip_text clip, length (clip_text clip))) d))"


section \<open>Replacing every range\<close>

text \<open>
  Where each replacement ends up in the new text, walking the ranges in ascending order.
\<close>

fun spots :: "nat \<Rightarrow> nat \<Rightarrow> (nat \<times> nat \<times> rstring) list \<Rightarrow> nat list" where
  "spots out pos [] = []"
| "spots out pos ((f, t, ins) # es) =
     (out + (f - pos)) # spots (out + (f - pos) + length ins) t es"

definition span_sep :: "nat \<times> nat \<times> rstring \<Rightarrow> nat \<times> nat \<times> rstring \<Rightarrow> bool" where
  "span_sep a b \<longleftrightarrow> fst (snd a) < fst b \<or> (fst (snd a) = fst b \<and> fst a < fst (snd a))"

definition sep_pos :: "nat \<times> nat \<times> rstring \<Rightarrow> nat \<Rightarrow> bool" where
  "sep_pos a p \<longleftrightarrow> fst (snd a) < p \<or> (fst (snd a) = p \<and> fst a < fst (snd a))"

text \<open>Ascending edits: the shape of the edits made from a selection's ranges.\<close>

definition ascending :: "nat \<Rightarrow> (nat \<times> nat \<times> rstring) list \<Rightarrow> bool" where
  "ascending n es \<longleftrightarrow> sorted_wrt span_sep es \<and> (\<forall>(f, t, ins) \<in> set es. f \<le> t \<and> t \<le> n)"

lemma length_spots [simp]: "length (spots out pos es) = length es"
  by (induction out pos es rule: spots.induct) auto

lemma ascending_Cons:
  "ascending n (e # es) \<longleftrightarrow> (\<forall>x \<in> set es. span_sep e x) \<and> fst e \<le> fst (snd e)
     \<and> fst (snd e) \<le> n \<and> ascending n es"
  by (cases e) (auto simp: ascending_def)

lemma ascending_sort:
  "ascending n es \<Longrightarrow> sort_by edit_order es = rev es"
proof (induction es)
  case (Cons e es)
  have "\<not> edit_order e x" if "x \<in> set es" for x
    using Cons.prems that by (auto simp: ascending_Cons span_sep_def edit_order_def)
  then show ?case using Cons by (simp add: ascending_Cons insert_by_last)
qed simp

lemma ascending_spans_ok: "ascending n es \<Longrightarrow> spans_ok n es"
proof -
  assume a: "ascending n es"
  have "sorted_wrt spans_apart es"
    by (rule sorted_wrt_mono_rel [of _ span_sep]) (use a in \<open>auto simp: ascending_def span_sep_def spans_apart_def\<close>)
  with a show ?thesis by (auto simp: ascending_def spans_ok_def list_all_iff)
qed

lemma doc_matches_ascending:
  assumes "q_term q \<noteq> []" "doc_matches U q s m ms full"
    and "spans_ok n (map (\<lambda>(f, t). (f, t, rep)) ms)"
  shows "ascending n (map (\<lambda>(f, t). (f, t, rep)) ms)"
proof -
  have "\<exists>k j. a = (line_offset s k + j, line_offset s k + j + length (q_term q))" if "a \<in> set ms" for a
    using assms(2) that unfolding doc_matches_def by blast
  then have ne: "fst a < snd a" if "a \<in> set ms" for a
    using assms(1) that by fastforce
  have "sorted_wrt (\<lambda>a b. span_sep ((\<lambda>(f, t). (f, t, rep)) a) ((\<lambda>(f, t). (f, t, rep)) b)) ms"
    by (rule sorted_wrt_mono_rel [of _ "\<lambda>a b. snd a \<le> fst b"])
      (use assms(2) ne in \<open>force simp: span_sep_def doc_matches_def split_beta\<close>)+
  then show ?thesis
    using assms(3) by (auto simp: ascending_def sorted_wrt_map spans_ok_def list_all_iff)
qed

lemma ascending_spans_from:
  "ascending n es \<Longrightarrow> pos \<le> n \<Longrightarrow> (es \<noteq> [] \<longrightarrow> pos \<le> fst (hd es)) \<Longrightarrow> spans_from n pos es"
proof (induction es arbitrary: pos)
  case (Cons e es)
  obtain f t ins where e: "e = (f, t, ins)" by (cases e)
  have "es \<noteq> [] \<longrightarrow> t \<le> fst (hd es)"
    using Cons.prems(1) by (cases es) (auto simp: ascending_Cons span_sep_def e)
  then show ?case using Cons by (auto simp: ascending_Cons e)
qed simp

lemma map_over_edit:
  assumes "f \<le> t" "t \<le> length s" "sep_pos (f, t, ins) p"
  shows "foldl (change_map Before) p (List.map_filter (edit_text s) [(f, t, ins)])
    = p - (t - f) + length ins"
  using assms
  by (auto simp: edit_text_def map_filter_simps change_map_def Let_def removed_len_def inserted_len_def sep_pos_def)

lemma map_over_later:
  "\<forall>e \<in> set es. p < fst e \<Longrightarrow> foldl (change_map Before) p (List.map_filter (edit_text s) (rev es)) = p"
proof (induction es)
  case (Cons e es)
  obtain f t ins where e: "e = (f, t, ins)" by (cases e)
  have "foldl (change_map Before) p (List.map_filter (edit_text s) [e]) = p"
    using Cons.prems by (auto simp: e edit_text_def map_filter_simps change_map_def Let_def)
  then show ?case using Cons by (simp add: map_filter_append)
qed simp

text \<open>How far the edits before a position move it.\<close>

definition net :: "(nat \<times> nat \<times> rstring) list \<Rightarrow> int" where
  "net es = (\<Sum>(f, t, ins) \<leftarrow> es. int (length ins) - int (t - f))"

lemma net_simps [simp]: "net [] = 0" "net ((f, t, ins) # es) = int (length ins) - int (t - f) + net es"
  by (simp_all add: net_def)

lemma map_over_earlier:
  assumes "ascending (length s) pre" "\<forall>e \<in> set pre. sep_pos e p"
  shows "int (foldl (change_map Before) p (List.map_filter (edit_text s) (rev pre))) = int p + net pre
    \<and> (if pre = [] then p else fst (hd pre)) \<le> foldl (change_map Before) p (List.map_filter (edit_text s) (rev pre))"
  using assms
proof (induction pre)
  case (Cons e es)
  obtain f t ins where e: "e = (f, t, ins)" by (cases e)
  let ?q = "foldl (change_map Before) p (List.map_filter (edit_text s) (rev es))"
  have IH: "int ?q = int p + net es" "(if es = [] then p else fst (hd es)) \<le> ?q"
    using Cons by (simp_all add: ascending_Cons)
  have ft: "f \<le> t" "t \<le> length s" using Cons.prems(1) by (simp_all add: ascending_Cons e)
  have "sep_pos e ?q"
  proof (cases es)
    case Nil
    then show ?thesis using Cons.prems(2) by simp
  next
    case (Cons e' es')
    then have "span_sep e e'" "fst e' \<le> ?q" using Cons.prems(1) IH(2) by (simp_all add: ascending_Cons)
    then show ?thesis by (auto simp: sep_pos_def span_sep_def)
  qed
  then have sep: "sep_pos (f, t, ins) ?q" by (simp add: e)
  have "t \<le> ?q" using sep by (auto simp: sep_pos_def)
  then show ?case
    using map_over_edit [OF ft sep] IH(1) ft by (simp add: e map_filter_append)
qed simp

lemma spots_nth:
  "ascending n es \<Longrightarrow> (es \<noteq> [] \<longrightarrow> pos \<le> fst (hd es)) \<Longrightarrow> i < length es \<Longrightarrow>
   int (spots out pos es ! i) = int out + int (fst (es ! i)) - int pos + net (take i es)"
proof (induction out pos es arbitrary: i rule: spots.induct)
  case (2 out pos f t ins es)
  have le: "es \<noteq> [] \<longrightarrow> t \<le> fst (hd es)"
    using "2.prems"(1) by (cases es) (auto simp: ascending_Cons span_sep_def)
  show ?case
  proof (cases i)
    case 0
    then show ?thesis using "2.prems" by simp
  next
    case (Suc j)
    have "f \<le> t" "pos \<le> f" using "2.prems" by (simp_all add: ascending_Cons)
    then show ?thesis
      using "2.IH" [OF _ le, of j] "2.prems" Suc by (simp add: ascending_Cons)
  qed
qed simp

text \<open>Every replacement stands in the new text at its spot.\<close>

lemma splice_spots:
  "spans_from (length s) pos es \<Longrightarrow> i < length es \<Longrightarrow>
   spots out pos es ! i + length (snd (snd (es ! i))) \<le> out + length (splice s pos es)
   \<and> out \<le> spots out pos es ! i
   \<and> take (length (snd (snd (es ! i)))) (drop (spots out pos es ! i - out) (splice s pos es))
     = snd (snd (es ! i))"
proof (induction out pos es arbitrary: i rule: spots.induct)
  case (2 out pos f t ins es)
  have b: "pos \<le> f" "f \<le> length s" "spans_from (length s) t es" using "2.prems" by auto
  have l: "length (take (f - pos) (drop pos s)) = f - pos" using b by simp
  show ?case
  proof (cases i)
    case 0
    then show ?thesis using l by simp
  next
    case (Suc j)
    define m where "m = f - pos + length ins"
    have IH: "spots (out + m) t es ! j + length (snd (snd (es ! j))) \<le> out + m + length (splice s t es)"
      "out + m \<le> spots (out + m) t es ! j"
      "take (length (snd (snd (es ! j)))) (drop (spots (out + m) t es ! j - (out + m)) (splice s t es))
       = snd (snd (es ! j))"
      using "2.IH" [OF b(3), of j] "2.prems" Suc by (simp_all add: m_def add.assoc)
    have d: "drop (spots (out + m) t es ! j - out) (take (f - pos) (drop pos s) @ ins @ splice s t es)
      = drop (spots (out + m) t es ! j - (out + m)) (splice s t es)"
      using IH(2) l by (simp add: m_def add.assoc)
    show ?thesis using IH d l Suc by (simp add: m_def add.assoc)
  qed
qed simp

text \<open>Spots ascend, each after the replacement before it.\<close>

lemma spots_ge: "x \<in> set (spots out pos es) \<Longrightarrow> out \<le> x"
  by (induction out pos es rule: spots.induct) force+

lemma spots_sorted:
  "sorted_wrt (\<lambda>(x, e) (y, e'). x + length (snd (snd e)) \<le> y) (zip (spots out pos es) es)"
proof (induction out pos es rule: spots.induct)
  case (2 out pos f t ins es)
  have "out + (f - pos) + length ins \<le> x" if "(x, e) \<in> set (zip (spots (out + (f - pos) + length ins) t es) es)" for x e
    using that spots_ge set_zip_leftD by metis
  then show ?case using "2.IH" by auto
qed simp

lemma tx_map_spots:
  assumes asc: "ascending (length s) es" and i: "i < length es"
  shows "foldl (change_map Before) (fst (es ! i)) (List.map_filter (edit_text s) (rev es)) = spots 0 0 es ! i"
proof -
  let ?f = "fst (es ! i)"
  have split: "es = take i es @ es ! i # drop (Suc i) es" using i by (rule id_take_nth_drop)
  have srt: "sorted_wrt span_sep (take i es @ es ! i # drop (Suc i) es)"
    using asc split unfolding ascending_def by metis
  have el: "fst (es ! i) \<le> fst (snd (es ! i))" "fst (snd (es ! i)) \<le> length s"
    using asc i by (force simp: ascending_def dest: nth_mem)+
  have later: "\<forall>e \<in> set (drop (Suc i) es). ?f < fst e"
    using srt el(1) by (auto simp: sorted_wrt_append span_sep_def)
  have asc_pre: "ascending (length s) (take i es)"
    using asc by (auto simp: ascending_def sorted_wrt_take dest: in_set_takeD)
  have pre: "\<forall>e \<in> set (take i es). sep_pos e ?f"
    using srt by (auto simp: sorted_wrt_append sep_pos_def span_sep_def)
  have own: "foldl (change_map Before) ?f (List.map_filter (edit_text s) [es ! i]) = ?f"
    by (cases "es ! i") (auto simp: edit_text_def map_filter_simps change_map_def Let_def)
  have "rev es = rev (drop (Suc i) es) @ [es ! i] @ rev (take i es)"
    by (subst split) simp
  then have "foldl (change_map Before) ?f (List.map_filter (edit_text s) (rev es))
    = foldl (change_map Before) ?f (List.map_filter (edit_text s) (rev (take i es)))"
    by (simp only: map_filter_append foldl_append map_over_later [OF later] own)
  then show ?thesis
    using map_over_earlier [OF asc_pre pre] spots_nth [OF asc _ i, of 0 0] by simp
qed


section \<open>Commands that replace every range\<close>

text \<open>What every editing command leaves: a good document and a selection inside it.\<close>

definition edit_ok :: "'r ropey \<Rightarrow> edited \<times> 'r textdoc \<Rightarrow> bool" where
  "edit_ok R out \<longleftrightarrow> doc_inv R (snd out) \<and> sel_wf (e_selection (fst out))
     \<and> sel_within (length (doc_text R (snd out))) (e_selection (fst out))"

lemma sel_within_le:
  "sel_within n s \<Longrightarrow> rg \<in> set (ranges s) \<Longrightarrow> r_from rg \<le> n"
  "sel_within n s \<Longrightarrow> rg \<in> set (ranges s) \<Longrightarrow> r_to rg \<le> n"
  "sel_within n s \<Longrightarrow> rg \<in> set (ranges s) \<Longrightarrow> head rg \<le> n"
  "sel_within n s \<Longrightarrow> rg \<in> set (ranges s) \<Longrightarrow> anchor rg \<le> n"
  unfolding sel_within_def list_all_iff r_from_def r_to_def by fastforce+

lemma cut_spans_ok:
  assumes "\<And>rg. rg \<in> set rgs \<Longrightarrow> fst (g rg) \<le> snd (g rg) \<and> snd (g rg) \<le> n"
  shows "\<forall>(f, t) \<in> set (map g rgs). f \<le> t \<and> t \<le> n"
  using assms by (auto simp: split_beta)

lemma sel_transform_ok:
  assumes "sel_wf s" "\<And>rg. rg \<in> set (ranges s) \<Longrightarrow> r_to (f rg) \<le> n"
  shows "sel_wf (sel_transform f s)" "sel_within n (sel_transform f s)"
proof -
  have "map f (ranges s) \<noteq> []" using assms(1) by (simp add: sel_wf_def)
  then show "sel_wf (sel_transform f s)" unfolding sel_transform_def by (rule sel_norm_spec(1))
  show "sel_within n (sel_transform f s)"
    unfolding sel_transform_def using assms(2) by (intro sel_norm_within) auto
qed

text \<open>The edits \<open>replace_each\<close> makes, in the order of the ranges.\<close>

definition range_edits :: "(nat \<Rightarrow> rng \<Rightarrow> rstring \<times> nat) \<Rightarrow> rng list \<Rightarrow> (nat \<times> nat \<times> rstring) list" where
  "range_edits f rgs = map (\<lambda>(i, rg). (r_from rg, r_to rg, fst (f i rg))) (enumerate 0 rgs)"

lemma length_range_edits [simp]: "length (range_edits f rgs) = length rgs"
  by (simp add: range_edits_def)

lemma range_edits_nth:
  "i < length rgs \<Longrightarrow> range_edits f rgs ! i = (r_from (rgs ! i), r_to (rgs ! i), fst (f i (rgs ! i)))"
  by (simp add: range_edits_def nth_enumerate_eq)

lemma ascending_range_edits:
  assumes "sorted_wrt apart rgs" "\<forall>r \<in> set rgs. r_to r \<le> n"
  shows "ascending n (range_edits f rgs)"
proof -
  have "span_sep (range_edits f rgs ! i) (range_edits f rgs ! j)" if "i < j" "j < length rgs" for i j
  proof -
    have "apart (rgs ! i) (rgs ! j)" using assms(1) that by (simp add: sorted_wrt_nth_less)
    moreover have "i < length rgs" using that by simp
    ultimately show ?thesis
      using r_from_le_to [of "rgs ! i"] range_edits_nth [of i rgs f] range_edits_nth [OF that(2), of f]
      unfolding span_sep_def apart_def r_empty_iff by (simp only: fst_conv snd_conv) linarith
  qed
  then have "sorted_wrt span_sep (range_edits f rgs)" by (simp add: sorted_wrt_iff_nth_less)
  moreover have "\<forall>(f', t, ins) \<in> set (range_edits f rgs). f' \<le> t \<and> t \<le> n"
    using assms(2) by (auto simp: range_edits_def in_set_enumerate_eq)
  ultimately show ?thesis by (simp add: ascending_def)
qed

lemma inserts_no_cr_iff: "inserts_no_cr cs \<longleftrightarrow> (\<forall>c \<in> set cs. no_cr (inserted c))"
  by (induction cs) auto

context rope_contract
begin

lemma tx_replace_no_cr:
  assumes "spans_ok (length (to_string R r)) es" "\<forall>(f, t, ins) \<in> set es. no_cr ins"
  shows "inserts_no_cr (changes (tx_replace R r es))"
  using assms(2) unfolding tx_replace_changes [OF assms(1)] inserts_no_cr_iff
  by (auto simp: map_filter_def edit_text_def Let_def split: if_splits)

text \<open>An edit made of replacements keeps the document good; the text is the splice.\<close>

lemma doc_edit_replace:
  assumes "doc_inv R d" "spans_ok (length (doc_text R d)) es" "\<forall>(f, t, ins) \<in> set es. no_cr ins"
    and "doc_edit R (tx_replace R (rope d) es) bef aft kind now d = (app, d')"
  shows "doc_inv R d'" "doc_text R d' = splice (doc_text R d) 0 (rev (sort_by edit_order es))"
proof -
  have so: "spans_ok (length (to_string R (rope d))) es" using assms(2) by (simp add: doc_text_def)
  have fits: "tx_fits (changes (tx_replace R (rope d) es)) (doc_text R d)"
    using tx_replace_text(1) [OF so] by (simp add: doc_text_def)
  show "doc_inv R d'"
    using doc_edit_inv [OF assms(1) fits tx_replace_no_cr [OF so assms(3)]] assms(4) by (metis snd_conv)
  show "doc_text R d' = splice (doc_text R d) 0 (rev (sort_by edit_order es))"
    using doc_edit_text [OF fits] tx_replace_text(2) [OF so] assms(4) by (metis snd_conv doc_text_def)
qed

text \<open>Every position maps into the new text.\<close>

lemma tx_map_replace_le:
  assumes "spans_ok (length (doc_text R d)) es" "pos \<le> length (doc_text R d)"
    and "doc_edit R (tx_replace R (rope d) es) bef aft kind now d = (app, d')"
  shows "tx_map (tx_replace R (rope d) es) pos a \<le> length (doc_text R d')"
proof -
  have so: "spans_ok (length (to_string R (rope d))) es" using assms(1) by (simp add: doc_text_def)
  have fits: "tx_fits (changes (tx_replace R (rope d) es)) (doc_text R d)"
    using tx_replace_text(1) [OF so] by (simp add: doc_text_def)
  then show ?thesis
    using tx_map_bounds [OF fits assms(2)] doc_edit_text [OF fits] assms(3) by (metis snd_conv)
qed

lemma replace_each_spec:
  assumes inv: "doc_inv R d" and wf: "sel_wf sel" and within: "sel_within (length (doc_text R d)) sel"
    and clean: "\<forall>i < length (ranges sel). no_cr (fst (f i (ranges sel ! i)))
      \<and> snd (f i (ranges sel ! i)) \<le> length (fst (f i (ranges sel ! i)))"
  obtains e d' where "replace_each R sel kind now f d = Some (e, d')" "edit_ok R (e, d')"
    "doc_text R d' = splice (doc_text R d) 0 (range_edits f (ranges sel))"
    "e_selection e = sel_norm (map (\<lambda>i. range_point (spots 0 0 (range_edits f (ranges sel)) ! i
       + snd (f i (ranges sel ! i)))) [0..<length (ranges sel)]) (primary sel)"
proof -
  let ?rgs = "ranges sel" and ?s = "doc_text R d"
  let ?es = "range_edits f ?rgs"
  let ?tx = "tx_replace R (rope d) ?es"
  have asc: "ascending (length ?s) ?es"
    using ascending_range_edits wf within by (auto simp: sel_wf_def sel_within_def list_all_iff)
  note so = ascending_spans_ok [OF asc]
  have so': "spans_ok (length (to_string R (rope d))) ?es" using so by (simp add: doc_text_def)
  have srt: "rev (sort_by edit_order ?es) = ?es" using ascending_sort [OF asc] by simp
  let ?pts = "map (\<lambda>i. range_point (spots 0 0 ?es ! i + snd (f i (?rgs ! i)))) [0..<length ?rgs]"
  have ch: "changes ?tx = List.map_filter (edit_text ?s) (rev ?es)"
    using tx_replace_changes [OF so'] ascending_sort [OF asc] by (simp add: doc_text_def)
  have spot: "tx_map ?tx (r_from (?rgs ! i)) Before = spots 0 0 ?es ! i" if "i < length ?rgs" for i
    using tx_map_spots [OF asc, of i] that by (simp add: tx_map_def ch range_edits_nth)
  define outs where "outs = map (\<lambda>(i, rg). (rg, f i rg)) (enumerate 0 ?rgs)"
  have e1: "map (\<lambda>(rg, text, off). (r_from rg, r_to rg, text)) outs = ?es"
    by (auto simp: outs_def range_edits_def split_beta)
  have e2: "map (\<lambda>(rg, text, off). range_point (tx_map ?tx (r_from rg) Before + off)) outs = ?pts"
    by (rule nth_equalityI) (auto simp: outs_def nth_enumerate_eq spot split_beta)
  obtain app d' where ed: "doc_edit R ?tx sel (sel_norm ?pts (primary sel)) kind now d = (app, d')" by fastforce
  have ne: "?pts \<noteq> []" using wf by (simp add: sel_wf_def)
  have out: "replace_each R sel kind now f d
      = Some (\<lparr>e_applied = app, e_selection = sel_norm ?pts (primary sel)\<rparr>, d')"
    unfolding replace_each_def outs_def [symmetric] Let_def e1 e2 sel_new_def using ne ed by simp
  have cl: "\<forall>(f, t, ins) \<in> set ?es. no_cr ins"
    using clean by (auto simp: range_edits_def in_set_enumerate_eq)
  note dd = doc_edit_replace [OF inv so cl ed, unfolded srt]
  have "?pts ! i = range_point (spots 0 0 ?es ! i + snd (f i (?rgs ! i)))
      \<and> spots 0 0 ?es ! i + snd (f i (?rgs ! i)) \<le> length (doc_text R d')" if "i < length ?rgs" for i
  proof -
    have sf: "spans_from (length ?s) 0 ?es" by (rule ascending_spans_from [OF asc]) simp_all
    have "spots 0 0 ?es ! i + length (fst (f i (?rgs ! i))) \<le> length (doc_text R d')"
      using splice_spots [OF sf, of i 0] that by (simp add: dd(2) range_edits_nth)
    moreover have "snd (f i (?rgs ! i)) \<le> length (fst (f i (?rgs ! i)))" using clean that by blast
    ultimately show ?thesis using that by simp
  qed
  then have "\<forall>r \<in> set ?pts. r_to r \<le> length (doc_text R d')"
    by (auto simp: range_point_def)
  then have "edit_ok R (\<lparr>e_applied = app, e_selection = sel_norm ?pts (primary sel)\<rparr>, d')"
    using dd(1) sel_norm_within sel_norm_spec(1) [OF ne] by (simp add: edit_ok_def)
  with out dd(2) show ?thesis using that by simp
qed

end

section \<open>Deleting spans\<close>

text \<open>The characters that lie in a list of spans, and what is left of a text without them.\<close>

definition covered :: "(nat \<times> nat) list \<Rightarrow> nat set" where
  "covered spans = (\<Union>(f, t) \<in> set spans. {f..<t})"

definition keep_outside :: "rstring \<Rightarrow> nat set \<Rightarrow> rstring" where
  "keep_outside s A = map ((!) s) (filter (\<lambda>i. i \<notin> A) [0..<length s])"

definition span_before :: "nat \<times> nat \<Rightarrow> nat \<times> nat \<Rightarrow> bool" where
  "span_before a b \<longleftrightarrow> snd a \<le> fst b"

lemma covered_simps [simp]:
  "covered [] = {}" "covered (x # xs) = {fst x..<snd x} \<union> covered xs"
  "covered (xs @ ys) = covered xs \<union> covered ys"
  by (auto simp: covered_def)

lemma covered_filter [simp]: "covered (filter (\<lambda>(f, t). f < t) xs) = covered xs"
  unfolding covered_def by fastforce

lemma covered_mset: "mset xs = mset ys \<Longrightarrow> covered xs = covered ys"
  unfolding covered_def by (metis set_mset_mset)

lemma merge_span_step:
  assumes "sorted_wrt span_before out" "\<forall>x \<in> set out. fst x \<le> snd x \<and> snd x \<le> n \<and> fst x \<le> fst s"
    and "fst s \<le> snd s" "snd s \<le> n"
  shows "sorted_wrt span_before (merge_span out s)"
    and "\<forall>x \<in> set (merge_span out s). fst x \<le> snd x \<and> snd x \<le> n \<and> fst x \<le> fst s"
    and "covered (merge_span out s) = covered out \<union> {fst s..<snd s}"
proof -
  have "sorted_wrt span_before (merge_span out s)
    \<and> (\<forall>x \<in> set (merge_span out s). fst x \<le> snd x \<and> snd x \<le> n \<and> fst x \<le> fst s)
    \<and> covered (merge_span out s) = covered out \<union> {fst s..<snd s}"
  proof (cases out rule: rev_cases)
    case Nil
    with assms(3,4) show ?thesis by (simp add: merge_span_def)
  next
    case (snoc ys l)
    show ?thesis
    proof (cases "fst s < snd l")
      case True
      have m: "merge_span out s = ys @ [(fst l, max (snd l) (snd s))]"
        using True by (simp add: merge_span_def snoc)
      have "fst l \<le> fst s" using assms(2) snoc by simp
      then have "{fst l..<max (snd l) (snd s)} = {fst l..<snd l} \<union> {fst s..<snd s}"
        using True by auto
      then show ?thesis
        unfolding m using assms True snoc by (auto simp: sorted_wrt_append span_before_def)
    next
      case False
      have m: "merge_span out s = out @ [s]" using False by (simp add: merge_span_def snoc)
      have "snd x \<le> fst s" if "x \<in> set out" for x
        using that False assms(1,2) snoc by (force simp: sorted_wrt_append span_before_def)
      then show ?thesis unfolding m using assms by (auto simp: sorted_wrt_append span_before_def)
    qed
  qed
  then show "sorted_wrt span_before (merge_span out s)"
    "\<forall>x \<in> set (merge_span out s). fst x \<le> snd x \<and> snd x \<le> n \<and> fst x \<le> fst s"
    "covered (merge_span out s) = covered out \<union> {fst s..<snd s}" by blast+
qed

lemma foldl_merge_span:
  assumes "sorted_wrt span_before out" "\<forall>x \<in> set out. fst x \<le> snd x \<and> snd x \<le> n"
    and "\<forall>x \<in> set out. \<forall>y \<in> set spans. fst x \<le> fst y" "sorted_wrt pair_le spans"
    and "\<forall>x \<in> set spans. fst x \<le> snd x \<and> snd x \<le> n"
  shows "sorted_wrt span_before (foldl merge_span out spans)
    \<and> (\<forall>x \<in> set (foldl merge_span out spans). fst x \<le> snd x \<and> snd x \<le> n)
    \<and> covered (foldl merge_span out spans) = covered out \<union> covered spans"
  using assms
proof (induction spans arbitrary: out)
  case (Cons s spans)
  have pre: "\<forall>x \<in> set out. fst x \<le> snd x \<and> snd x \<le> n \<and> fst x \<le> fst s" "fst s \<le> snd s" "snd s \<le> n"
    using Cons.prems by auto
  note step = merge_span_step [OF Cons.prems(1) pre]
  have "\<forall>y \<in> set spans. fst s \<le> fst y" using Cons.prems(4) by (auto simp: pair_le_def)
  then have "\<forall>x \<in> set (merge_span out s). \<forall>y \<in> set spans. fst x \<le> fst y"
    using step(2) by (meson le_trans)
  then show ?case
    using Cons.IH [OF step(1)] step(2,3) Cons.prems(4,5) by auto
qed simp

lemma pair_le_sorted: "sorted_wrt pair_le (sort_by pair_le xs)"
  by (rule sorted_sort_by) (auto simp: pair_le_def)

lemma merged_spans_spec:
  assumes "\<forall>(f, t) \<in> set spans. f \<le> t \<and> t \<le> n"
  shows "sorted_wrt span_before (merged_spans spans)"
    and "\<forall>x \<in> set (merged_spans spans). fst x \<le> snd x \<and> snd x \<le> n"
    and "covered (merged_spans spans) = covered spans"
proof -
  have c: "covered (sort_by pair_le spans) = covered spans" by (rule covered_mset) simp
  have b: "\<forall>x \<in> set (sort_by pair_le spans). fst x \<le> snd x \<and> snd x \<le> n"
    using assms by auto
  have "sorted_wrt span_before (merged_spans spans)
    \<and> (\<forall>x \<in> set (merged_spans spans). fst x \<le> snd x \<and> snd x \<le> n)
    \<and> covered (merged_spans spans) = covered [] \<union> covered (sort_by pair_le spans)"
    unfolding merged_spans_def by (rule foldl_merge_span) (use pair_le_sorted b in simp_all)
  then show "sorted_wrt span_before (merged_spans spans)"
    "\<forall>x \<in> set (merged_spans spans). fst x \<le> snd x \<and> snd x \<le> n"
    "covered (merged_spans spans) = covered spans"
    using c by simp_all
qed

lemma splice_deletes:
  "spans_from (length s) pos (map (\<lambda>(f, t). (f, t, [])) spans) \<Longrightarrow>
   splice s pos (map (\<lambda>(f, t). (f, t, [])) spans)
     = map ((!) s) (filter (\<lambda>i. i \<notin> covered spans) [pos..<length s])"
proof (induction spans arbitrary: pos)
  case Nil
  then show ?case by (intro nth_equalityI) auto
next
  case (Cons x spans)
  obtain f t where x: "x = (f, t)" by (cases x)
  have b: "pos \<le> f" "f \<le> t" "t \<le> length s" and sf: "spans_from (length s) t (map (\<lambda>(f, t). (f, t, [])) spans)"
    using Cons.prems by (simp_all add: x)
  have ge: "t \<le> i" if "i \<in> covered spans" for i
  proof -
    have "spans_from n t (map (\<lambda>(f, t). (f, t, [])) ys) \<Longrightarrow> i \<in> covered ys \<Longrightarrow> t \<le> i" for n t ys
      by (induction ys arbitrary: t) fastforce+
    then show ?thesis using sf that by blast
  qed
  have u: "[pos..<length s] = [pos..<f] @ [f..<t] @ [t..<length s]"
    using upt_add_eq_append [of pos f "length s - f"] upt_add_eq_append [of f t "length s - t"] b by simp
  have p1: "filter (\<lambda>i. i \<notin> covered (x # spans)) [pos..<f] = [pos..<f]"
    using ge b by (auto simp: x filter_id_conv) (meson leD le_trans)
  have p2: "filter (\<lambda>i. i \<notin> covered (x # spans)) [f..<t] = []"
    by (auto simp: x)
  have p3: "filter (\<lambda>i. i \<notin> covered (x # spans)) [t..<length s] = filter (\<lambda>i. i \<notin> covered spans) [t..<length s]"
    by (rule filter_cong) (auto simp: x)
  have "take (f - pos) (drop pos s) = map ((!) s) [pos..<f]"
    using b by (intro nth_equalityI) auto
  then show ?case
    using Cons.IH [OF sf] unfolding u filter_append p1 p2 p3 by (simp add: x)
qed

lemma ascending_deletes:
  assumes "sorted_wrt span_before xs" "\<forall>x \<in> set xs. fst x < snd x \<and> snd x \<le> n"
  shows "ascending n (map (\<lambda>(f, t). (f, t, [])) xs)"
proof -
  have "sorted_wrt (\<lambda>a b. span_sep ((\<lambda>(f, t). (f, t, [])) a) ((\<lambda>(f, t). (f, t, [])) b)) xs"
    by (rule sorted_wrt_mono_rel [of _ span_before])
      (use assms in \<open>force simp: span_sep_def span_before_def split_beta\<close>)+
  then show ?thesis using assms(2) by (auto simp: ascending_def sorted_wrt_map)
qed

text \<open>Typed text stands at every spot, in order.\<close>

definition spots_hold :: "rstring \<Rightarrow> rstring \<Rightarrow> (nat \<times> nat \<times> rstring) list \<Rightarrow> nat list \<Rightarrow> bool" where
  "spots_hold ins s es ps \<longleftrightarrow> length ps = length es
     \<and> (\<forall>p \<in> set ps. take (length ins) (drop p (splice s 0 es)) = ins)
     \<and> sorted_wrt (\<lambda>p q. p + length ins \<le> q) ps"

lemma spots_hold_ranges:
  assumes "sorted_wrt apart (ranges sel)" "sel_within (length s) sel"
  shows "spots_hold ins s (map (\<lambda>rg. (r_from rg, r_to rg, ins)) (ranges sel))
    (spots 0 0 (map (\<lambda>rg. (r_from rg, r_to rg, ins)) (ranges sel)))"
proof -
  let ?es = "map (\<lambda>rg. (r_from rg, r_to rg, ins)) (ranges sel)"
  have es: "range_edits (\<lambda>_ _. (ins, length ins)) (ranges sel) = ?es"
    by (rule nth_equalityI) (simp_all add: range_edits_nth)
  have asc: "ascending (length s) ?es"
    using ascending_range_edits [OF assms(1), of "length s" "\<lambda>_ _. (ins, length ins)"] sel_within_le(2) [OF assms(2)] es
    by simp
  have sf: "spans_from (length s) 0 ?es" by (rule ascending_spans_from [OF asc]) simp_all
  have "take (length ins) (drop (spots 0 0 ?es ! i) (splice s 0 ?es)) = ins" if "i < length (ranges sel)" for i
    using splice_spots [OF sf, of i 0] that by simp
  moreover have "sorted_wrt (\<lambda>p q. p + length ins \<le> q) (spots 0 0 ?es)"
    using spots_sorted [of 0 0 ?es] by (simp add: sorted_wrt_iff_nth_less)
  ultimately show ?thesis by (auto simp: spots_hold_def in_set_conv_nth)
qed

context rope_contract
begin

lemma delete_spans_spec:
  assumes inv: "doc_inv R d" and wf: "sel_wf sel" and within: "sel_within (length (doc_text R d)) sel"
    and sp: "\<forall>(f, t) \<in> set spans. f \<le> t \<and> t \<le> length (doc_text R d)"
  shows "edit_ok R (delete_spans R sel spans kind now d)"
    and "doc_text R (snd (delete_spans R sel spans kind now d)) = keep_outside (doc_text R d) (covered spans)"
proof -
  let ?s = "doc_text R d" and ?xs = "filter (\<lambda>(f, t). f < t) (merged_spans spans)"
  let ?es = "map (\<lambda>(f, t). (f, t, [])) ?xs :: (nat \<times> nat \<times> rstring) list"
  note ms = merged_spans_spec [OF sp]
  have cov: "covered ?xs = covered spans" using ms(3) by simp
  have "edit_ok R (delete_spans R sel spans kind now d)
    \<and> doc_text R (snd (delete_spans R sel spans kind now d)) = keep_outside ?s (covered spans)"
  proof (cases "?xs = []")
    case True
    then have "covered spans = {}" using cov by simp
    then have "keep_outside ?s (covered spans) = ?s" by (simp add: keep_outside_def map_nth)
    with True inv wf within show ?thesis by (simp add: delete_spans_def edit_ok_def)
  next
    case False
    have asc: "ascending (length ?s) ?es"
      by (rule ascending_deletes) (use ms in \<open>auto simp: sorted_wrt_filter\<close>)
    note so = ascending_spans_ok [OF asc]
    let ?tx = "tx_replace R (rope d) ?es"
    let ?aft = "sel_transform (\<lambda>rg. range_point (tx_map ?tx (r_from rg) Before)) sel"
    obtain app d' where ed: "doc_edit R ?tx sel ?aft kind now d = (app, d')" by fastforce
    have out: "delete_spans R sel spans kind now d = (\<lparr>e_applied = app, e_selection = ?aft\<rparr>, d')"
      using False ed by (simp add: delete_spans_def Let_def)
    have cl: "\<forall>(f, t, ins) \<in> set ?es. no_cr ins" by (auto simp: no_cr_def)
    have dd: "doc_inv R d'" "doc_text R d' = splice ?s 0 ?es"
      using doc_edit_replace [OF inv so cl ed] ascending_sort [OF asc] by simp_all
    have sf: "spans_from (length ?s) 0 ?es" by (rule ascending_spans_from [OF asc]) simp_all
    have kept: "doc_text R d' = keep_outside ?s (covered spans)"
      using splice_deletes [OF sf] dd(2) cov by (simp add: keep_outside_def)
    have "r_from rg \<le> length ?s" if "rg \<in> set (ranges sel)" for rg
      using that within by (rule sel_within_le(1) [rotated])
    then have "\<forall>rg \<in> set (ranges sel). tx_map ?tx (r_from rg) Before \<le> length (doc_text R d')"
      using tx_map_replace_le [OF so _ ed] by blast
    then have "sel_within (length (doc_text R d')) ?aft"
      unfolding sel_transform_def by (intro sel_norm_within) (auto simp: range_point_def)
    moreover have "sel_wf ?aft"
      unfolding sel_transform_def using wf by (intro sel_norm_spec(1)) (simp add: sel_wf_def)
    ultimately show ?thesis using out dd(1) kept by (simp add: edit_ok_def)
  qed
  then show "edit_ok R (delete_spans R sel spans kind now d)"
    "doc_text R (snd (delete_spans R sel spans kind now d)) = keep_outside (doc_text R d) (covered spans)"
    by blast+
qed


text \<open>An edit followed by a selection whose ranges are images of positions.\<close>

lemma edit_then_ok:
  assumes inv: "doc_inv R d" and wf: "sel_wf sel" and so: "spans_ok (length (doc_text R d)) es"
    and cl: "\<forall>(f, t, ins) \<in> set es. no_cr ins"
    and ed: "doc_edit R (tx_replace R (rope d) es) sel (sel_transform f sel) kind now d = (app, d')"
    and f: "\<And>rg. rg \<in> set (ranges sel) \<Longrightarrow> \<exists>p \<le> length (doc_text R d). \<exists>q \<le> length (doc_text R d). \<exists>a b.
      r_to (f rg) \<le> max (tx_map (tx_replace R (rope d) es) p a) (tx_map (tx_replace R (rope d) es) q b)"
  shows "edit_ok R (\<lparr>e_applied = app, e_selection = sel_transform f sel\<rparr>, d')"
proof -
  have "r_to (f rg) \<le> length (doc_text R d')" if rg: "rg \<in> set (ranges sel)" for rg
  proof -
    obtain p q a b where "p \<le> length (doc_text R d)" "q \<le> length (doc_text R d)"
      "r_to (f rg) \<le> max (tx_map (tx_replace R (rope d) es) p a) (tx_map (tx_replace R (rope d) es) q b)"
      using f [OF rg] by blast
    then show ?thesis using tx_map_replace_le [OF so _ ed] by (meson le_trans max.boundedI)
  qed
  from sel_transform_ok [OF wf this] show ?thesis
    using doc_edit_replace(1) [OF inv so cl ed] by (simp add: edit_ok_def)
qed

lemma point_spans_ok:
  "\<forall>(f, t, ins) \<in> set es. f = t \<and> t \<le> n \<Longrightarrow> spans_ok n es"
proof -
  assume a: "\<forall>(f, t, ins) \<in> set es. f = t \<and> t \<le> n"
  then have "sorted_wrt spans_apart es"
    by (induction es) (auto simp: spans_apart_def)
  with a show ?thesis by (auto simp: spans_ok_def list_all_iff)
qed

lemma style_unit_no_cr [simp]: "no_cr (style_unit st)"
  by (auto simp: style_unit_def no_cr_def)

lemma replicate_no_cr [simp]: "no_cr (replicate n c) \<longleftrightarrow> n = 0 \<or> c \<noteq> CR"
  by (auto simp: no_cr_def)

lemma range_new_max_to:
  "r_to (if c then range_new a (max b a) else range_new (max b a) a) \<le> max a b"
  by simp

lemma indent_lines_ok:
  assumes "doc_inv R d" "sel_wf sel" "sel_within (length (doc_text R d)) sel"
  shows "edit_ok R (indent_lines R sel style now d)"
proof -
  let ?r = "rope d" and ?touched = "touched_lines R (rope d) sel"
  define es where "es = map (\<lambda>l. (line_start R ?r l, line_start R ?r l, style_unit style))
    (filter (\<lambda>l. \<not> (length ?touched > 1 \<and> line_len R ?r l = 0)) ?touched)"
  define tx where "tx = tx_replace R ?r es"
  define f where "f = (\<lambda>rg.
    let keep_start = r_from rg = line_start R ?r (line_of R ?r (r_from rg)) \<and> \<not> r_is_empty rg;
        from = tx_map tx (r_from rg) (if keep_start then Before else After);
        to = max (tx_map tx (r_to rg) After) from
    in if anchor rg \<le> head rg then range_new from to else range_new to from)"
  obtain app d' where ed: "doc_edit R tx sel (sel_transform f sel) Other now d = (app, d')" by fastforce
  have out: "indent_lines R sel style now d = (\<lparr>e_applied = app, e_selection = sel_transform f sel\<rparr>, d')"
    using ed unfolding indent_lines_def Let_def tx_def es_def f_def by (simp only: prod.case)
  have so: "spans_ok (length (doc_text R d)) es"
    by (rule point_spans_ok) (auto simp: es_def doc_text_def line_start_le)
  have cl: "\<forall>(f, t, ins) \<in> set es. no_cr ins" by (auto simp: es_def)
  show ?thesis unfolding out
  proof (rule edit_then_ok [OF assms(1,2) so cl])
    show "doc_edit R (tx_replace R ?r es) sel (sel_transform f sel) Other now d = (app, d')"
      using ed by (simp add: tx_def)
    fix rg assume "rg \<in> set (ranges sel)"
    then have "r_from rg \<le> length (doc_text R d)" "r_to rg \<le> length (doc_text R d)"
      using sel_within_le [OF assms(3)] by blast+
    moreover have "\<exists>a. r_to (f rg) \<le> max (tx_map tx (r_from rg) a) (tx_map tx (r_to rg) After)"
      unfolding f_def Let_def
      using range_new_max_to by blast
    ultimately show "\<exists>p \<le> length (doc_text R d). \<exists>q \<le> length (doc_text R d). \<exists>a b.
      r_to (f rg) \<le> max (tx_map (tx_replace R ?r es) p a) (tx_map (tx_replace R ?r es) q b)"
      unfolding tx_def by blast
  qed
qed

lemma line_end_le_start:
  assumes "l < m" "m < nlines r"
  shows "line_end R r l \<le> line_start R r m"
proof -
  have l: "l < nlines r" using assms by simp
  have "line_end R r l \<le> line_offset (to_string R r) l + length (tlines (to_string R r) ! l)"
    using clamp_line(2) [OF l]
    by (simp add: line_end_text line_start_text line_text_text text_line_def length_strip_lf_le)
  also have "\<dots> = line_offset (to_string R r) (Suc l)" by (simp add: line_offset_Suc [OF l])
  also have "\<dots> \<le> line_offset (to_string R r) m" using assms(1) by (simp add: line_offset_mono)
  also have "\<dots> = line_start R r m" using clamp_line(2) [OF assms(2)] by (simp add: line_start_text)
  finally show ?thesis .
qed

lemma sorted_distinct_remdups_adj: "sorted (xs :: nat list) \<Longrightarrow> distinct (remdups_adj xs)"
proof (induction xs rule: remdups_adj.induct)
  case (3 x y xs)
  then show ?case by (cases "x = y") (auto simp: remdups_adj_set)
qed simp_all

lemma touched_lines_sorted: "sorted_wrt (<) (touched_lines R r sel)"
  unfolding touched_lines_def
  by (simp add: strict_sorted_iff sorted_distinct_remdups_adj)

lemma lines_of_range_lt: "l \<in> set (lines_of_range R r rg) \<Longrightarrow> l < nlines r"
  using line_of_lt [of r "r_to rg"] by (auto simp: lines_of_range_def Let_def split: if_splits)

lemma touched_lines_lt: "l \<in> set (touched_lines R r sel) \<Longrightarrow> l < nlines r"
  using lines_of_range_lt by (auto simp: touched_lines_def)

end

lemma sorted_wrt_map_filter:
  "sorted_wrt P xs \<Longrightarrow> (\<And>x y a b. x \<in> set xs \<Longrightarrow> y \<in> set xs \<Longrightarrow> P x y \<Longrightarrow> f x = Some a \<Longrightarrow> f y = Some b \<Longrightarrow> Q a b) \<Longrightarrow>
   sorted_wrt Q (List.map_filter f xs)"
proof (induction xs)
  case (Cons x xs)
  have "sorted_wrt Q (List.map_filter f xs)" by (rule Cons.IH) (use Cons.prems in auto)
  moreover have "Q a b" if "f x = Some a" "b \<in> set (List.map_filter f xs)" for a b
  proof -
    note ab = that
    obtain y where "y \<in> set xs" "f y = Some b" using ab(2) by (auto simp: map_filter_def)
    with Cons.prems ab(1) show ?thesis by (meson list.set_intros sorted_wrt.simps(2))
  qed
  ultimately show ?case by (auto simp: map_filter_simps split: option.split)
qed (simp add: map_filter_simps)

context rope_contract
begin

lemma outdent_edit_Some:
  assumes "outdent_edit R r style l = Some e"
  shows "fst e = line_start R r l" "fst e \<le> fst (snd e)" "fst (snd e) \<le> line_end R r l" "snd (snd e) = []"
proof -
  define n where "n = (if starts_with [TAB] (line_text R r l) then 1
    else length (takeWhile (\<lambda>c. c = SP) (take (max (i_width style) 1) (line_text R r l))))"
  have e: "e = (line_start R r l, line_start R r l + n, [])"
    using assms by (auto simp: outdent_edit_def n_def Let_def split: if_splits)
  have "n \<le> length (line_text R r l)"
  proof (cases "starts_with [TAB] (line_text R r l)")
    case True
    then show ?thesis by (auto simp: n_def starts_with_iff)
  next
    case False
    have "n \<le> length (take (max (i_width style) 1) (line_text R r l))"
      using False by (simp add: n_def length_takeWhile_le del: length_take)
    then show ?thesis by simp
  qed
  then show "fst e = line_start R r l" "fst e \<le> fst (snd e)" "fst (snd e) \<le> line_end R r l" "snd (snd e) = []"
    by (simp_all add: e line_end_text)
qed

lemma outdent_spans_ok:
  "spans_ok (length (to_string R r)) (List.map_filter (outdent_edit R r style) (touched_lines R r sel))"
proof -
  have "sorted_wrt spans_apart (List.map_filter (outdent_edit R r style) (touched_lines R r sel))"
  proof (rule sorted_wrt_map_filter [OF touched_lines_sorted])
    fix x y a b
    assume "y \<in> set (touched_lines R r sel)" "x < y" "outdent_edit R r style x = Some a"
      "outdent_edit R r style y = Some b"
    then show "spans_apart a b"
      using outdent_edit_Some [of r style x a] outdent_edit_Some(1) [of r style y b]
        line_end_le_start [of x y r] touched_lines_lt [of y r sel]
      by (simp add: spans_apart_def)
  qed
  moreover have "fst e \<le> fst (snd e) \<and> fst (snd e) \<le> length (to_string R r)"
    if "e \<in> set (List.map_filter (outdent_edit R r style) (touched_lines R r sel))" for e
  proof -
    note e = that
    obtain l where "outdent_edit R r style l = Some e" using e by (auto simp: map_filter_def)
    then show ?thesis using outdent_edit_Some(2,3) [of r style l e] line_end_le [of r l] by linarith
  qed
  ultimately show ?thesis by (auto simp: spans_ok_def list_all_iff)
qed

lemma range_map_to:
  "r_to (range_map tx rg) = (if r_is_empty rg then tx_map tx (head rg) After
     else max (tx_map tx (r_to rg) Before) (tx_map tx (r_from rg) After))"
  by (auto simp: range_map_def Let_def r_to_def)

lemma outdent_lines_ok:
  assumes "doc_inv R d" "sel_wf sel" "sel_within (length (doc_text R d)) sel"
  shows "edit_ok R (outdent_lines R sel style now d)"
proof -
  define es where "es = List.map_filter (outdent_edit R (rope d) style) (touched_lines R (rope d) sel)"
  define tx where "tx = tx_replace R (rope d) es"
  obtain app d' where ed: "doc_edit R tx sel (sel_transform (range_map tx) sel) Other now d = (app, d')" by fastforce
  have out: "outdent_lines R sel style now d = (\<lparr>e_applied = app, e_selection = sel_transform (range_map tx) sel\<rparr>, d')"
    using ed unfolding outdent_lines_def Let_def tx_def es_def sel_map_def by (simp only: prod.case)
  have so: "spans_ok (length (doc_text R d)) es"
    using outdent_spans_ok by (simp add: es_def doc_text_def)
  have cl: "\<forall>(f, t, ins) \<in> set es. no_cr ins"
  proof
    fix e assume "e \<in> set es"
    then obtain l where "outdent_edit R (rope d) style l = Some e" by (auto simp: es_def map_filter_def)
    then have "snd (snd e) = []" by (rule outdent_edit_Some(4))
    then show "case e of (f, t, ins) \<Rightarrow> no_cr ins" by (simp add: split_beta no_cr_def)
  qed
  show ?thesis unfolding out
  proof (rule edit_then_ok [OF assms(1,2) so cl])
    show "doc_edit R (tx_replace R (rope d) es) sel (sel_transform (range_map tx) sel) Other now d = (app, d')"
      using ed by (simp add: tx_def)
    fix rg assume rg: "rg \<in> set (ranges sel)"
    have "\<exists>p \<in> {r_from rg, r_to rg, head rg}. \<exists>q \<in> {r_from rg, r_to rg, head rg}. \<exists>a b.
        r_to (range_map tx rg) \<le> max (tx_map tx p a) (tx_map tx q b)"
    proof (cases "r_is_empty rg")
      case True
      then have "r_to (range_map tx rg) \<le> max (tx_map tx (head rg) After) (tx_map tx (head rg) After)"
        by (simp add: range_map_to)
      then show ?thesis by blast
    next
      case False
      then have "r_to (range_map tx rg) \<le> max (tx_map tx (r_to rg) Before) (tx_map tx (r_from rg) After)"
        by (simp add: range_map_to)
      then show ?thesis by blast
    qed
    then obtain p q a b where "p \<in> {r_from rg, r_to rg, head rg}" "q \<in> {r_from rg, r_to rg, head rg}"
      "r_to (range_map tx rg) \<le> max (tx_map tx p a) (tx_map tx q b)" by blast
    moreover from this have "p \<le> length (doc_text R d)" "q \<le> length (doc_text R d)"
      using sel_within_le [OF assms(3) rg] by auto
    ultimately show "\<exists>p \<le> length (doc_text R d). \<exists>q \<le> length (doc_text R d). \<exists>a b.
      r_to (range_map tx rg) \<le> max (tx_map (tx_replace R (rope d) es) p a) (tx_map (tx_replace R (rope d) es) q b)"
      unfolding tx_def by blast
  qed
qed

lemma paste_lines_ok:
  assumes "doc_inv R d" "sel_wf sel" "sel_within (length (doc_text R d)) sel" "no_cr text"
  shows "edit_ok R (paste_lines R sel text now d)"
proof -
  define es where "es = map (\<lambda>line. (line_start R (rope d) line, line_start R (rope d) line,
    if ends_with [LF] text then text else text @ [LF])) (first_on_lines R (rope d) (ranges sel))"
  define tx where "tx = tx_replace R (rope d) es"
  define f where "f = (\<lambda>rg :: rng. range_point (tx_map tx (head rg) After))"
  obtain app d' where ed: "doc_edit R tx sel (sel_transform f sel) Other now d = (app, d')" by fastforce
  have out: "paste_lines R sel text now d = (\<lparr>e_applied = app, e_selection = sel_transform f sel\<rparr>, d')"
    using ed unfolding paste_lines_def Let_def tx_def es_def f_def by (simp only: prod.case)
  have so: "spans_ok (length (doc_text R d)) es"
    by (rule point_spans_ok) (auto simp: es_def doc_text_def line_start_le)
  have cl: "\<forall>(f, t, ins) \<in> set es. no_cr ins" using assms(4) by (auto simp: es_def no_cr_def)
  show ?thesis unfolding out
  proof (rule edit_then_ok [OF assms(1,2) so cl])
    show "doc_edit R (tx_replace R (rope d) es) sel (sel_transform f sel) Other now d = (app, d')"
      using ed by (simp add: tx_def)
    fix rg assume "rg \<in> set (ranges sel)"
    then have "head rg \<le> length (doc_text R d)" using sel_within_le [OF assms(3)] by blast
    then show "\<exists>p \<le> length (doc_text R d). \<exists>q \<le> length (doc_text R d). \<exists>a b.
      r_to (f rg) \<le> max (tx_map (tx_replace R (rope d) es) p a) (tx_map (tx_replace R (rope d) es) q b)"
      unfolding f_def tx_def range_point_def by (intro exI [of _ "head rg"] conjI exI [of _ After]) auto
  qed
qed


lemma doc_within [simp]: "to_string R (rope d) = doc_text R d"
  by (simp add: doc_text_def)

lemma insert_text_spec:
  assumes "doc_inv R d" "sel_wf sel" "sel_within (length (doc_text R d)) sel" "no_cr text"
  obtains e d' where "insert_text R sel text now d = Some (e, d')" "edit_ok R (e, d')"
    "doc_text R d' = splice (doc_text R d) 0 (map (\<lambda>rg. (r_from rg, r_to rg, text)) (ranges sel))"
    "e_selection e = sel_norm (map (\<lambda>p. range_point (p + length text))
       (spots 0 0 (map (\<lambda>rg. (r_from rg, r_to rg, text)) (ranges sel)))) (primary sel)"
proof -
  let ?f = "\<lambda>(_ :: nat) (_ :: rng). (text, length text)"
  have es: "range_edits ?f (ranges sel) = map (\<lambda>rg. (r_from rg, r_to rg, text)) (ranges sel)"
    by (rule nth_equalityI) (simp_all add: range_edits_nth)
  let ?es = "map (\<lambda>rg. (r_from rg, r_to rg, text)) (ranges sel)"
  let ?kind = "if length text = 1 \<and> LF \<notin> set text then Insert else Other"
  have pts: "map (\<lambda>i. range_point (spots 0 0 ?es ! i + length text)) [0..<length (ranges sel)]
     = map (\<lambda>p. range_point (p + length text)) (spots 0 0 ?es)"
    by (rule nth_equalityI) simp_all
  have cl: "\<forall>i < length (ranges sel). no_cr (fst (?f i (ranges sel ! i)))
      \<and> snd (?f i (ranges sel ! i)) \<le> length (fst (?f i (ranges sel ! i)))" using assms(4) by simp
  obtain e d' where ed: "replace_each R sel ?kind now ?f d = Some (e, d')" "edit_ok R (e, d')"
    "doc_text R d' = splice (doc_text R d) 0 ?es"
    "e_selection e = sel_norm (map (\<lambda>i. range_point (spots 0 0 ?es ! i + length text)) [0..<length (ranges sel)])
       (primary sel)"
    by (rule replace_each_spec [OF assms(1-3) cl, of ?kind now, unfolded es snd_conv])
  show ?thesis
    by (rule that [of e d']) (use ed pts in \<open>simp_all add: insert_text_def\<close>)
qed

lemma leading_whitespace_no_cr: "no_cr (leading_whitespace line)"
  by (auto simp: leading_whitespace_def no_cr_def dest: set_takeWhileD)

lemma newline_text_ok:
  "no_cr (fst (newline_text R r style rg)) \<and> snd (newline_text R r style rg) \<le> length (fst (newline_text R r style rg))"
  by (simp add: newline_text_def Let_def leading_whitespace_no_cr no_cr_def [of "[LF]"]
      no_cr_def [of "LF # _"] leading_whitespace_no_cr [unfolded no_cr_def] style_unit_no_cr [unfolded no_cr_def])

lemma insert_newline_ok:
  assumes "doc_inv R d" "sel_wf sel" "sel_within (length (doc_text R d)) sel"
  obtains out where "insert_newline R sel style now d = Some out" "edit_ok R out"
proof -
  have cl: "\<forall>i < length (ranges sel). no_cr (fst (newline_text R (rope d) style (ranges sel ! i)))
      \<and> snd (newline_text R (rope d) style (ranges sel ! i)) \<le> length (fst (newline_text R (rope d) style (ranges sel ! i)))"
    using newline_text_ok by blast
  show ?thesis
    by (rule replace_each_spec [OF assms, where f = "\<lambda>_ rg. newline_text R (rope d) style rg", OF cl])
      (rule that, simp_all only: insert_newline_def)
qed

lemma insert_tab_ok:
  assumes "doc_inv R d" "sel_wf sel" "sel_within (length (doc_text R d)) sel"
  obtains out where "insert_tab U R sel style now d = Some out" "edit_ok R out"
proof (cases "all_empty sel")
  case False
  then show ?thesis using that indent_lines_ok [OF assms] by (simp add: insert_tab_def)
next
  case True
  let ?f = "\<lambda>(_ :: nat) rg. if tabs style then ([TAB], 1)
        else
          (let r = rope d; line = line_of R r (head rg); text = line_text R r line;
               col = display_col U text (head rg - line_start R r line) (i_width style);
               width = max (i_width style) 1; n = width - col mod width
           in (replicate n SP, n))"
  have cl: "\<forall>i < length (ranges sel). no_cr (fst (?f i (ranges sel ! i)))
      \<and> snd (?f i (ranges sel ! i)) \<le> length (fst (?f i (ranges sel ! i)))"
    by (simp add: Let_def no_cr_def)
  have "insert_tab U R sel style now d = replace_each R sel Insert now ?f d"
    using True by (simp only: insert_tab_def not_True_eq_False if_False)
  then show ?thesis
    using replace_each_spec [OF assms, where f = ?f, OF cl, of Insert now] that by metis
qed

lemma skip_class_bwd_le: "skip_class_bwd U R r k p \<le> p"
  by (induction p) (auto simp: le_SucI)

lemma skip_class_fwd_bounds:
  "p \<le> length (to_string R r) \<Longrightarrow> p \<le> skip_class_fwd U R r k p \<and> skip_class_fwd U R r k p \<le> length (to_string R r)"
proof (induction "length (to_string R r) - p" arbitrary: p rule: less_induct)
  case less
  show ?case
  proof (cases "p < length (to_string R r) \<and> class_of U (char_at R r p) = k")
    case True
    have "skip_class_fwd U R r k p = skip_class_fwd U R r k (p + 1)"
      by (subst skip_class_fwd.simps) (use True in \<open>simp only: len_chars_text simp_thms if_True\<close>)
    moreover have "p < length (to_string R r)" using True by (rule conjunct1)
    moreover from this have "p + 1 \<le> skip_class_fwd U R r k (p + 1)
        \<and> skip_class_fwd U R r k (p + 1) \<le> length (to_string R r)"
      using less.hyps [of "p + 1"] by simp
    ultimately show ?thesis by linarith
  next
    case False
    then have "skip_class_fwd U R r k p = p"
      by (subst skip_class_fwd.simps) (simp only: len_chars_text if_False)
    then show ?thesis using less.prems by simp
  qed
qed

lemma step_word_bounds:
  assumes "pos \<le> length (to_string R r)"
  shows "step_word U R r pos False \<le> pos" "pos \<le> step_word U R r pos True"
    "step_word U R r pos True \<le> length (to_string R r)"
proof -
  show "step_word U R r pos False \<le> pos"
  proof -
    have "skip_class_bwd U R r Space pos \<le> pos" "skip_class_bwd U R r k (skip_class_bwd U R r Space pos) \<le> pos" for k
      using skip_class_bwd_le le_trans by blast+
    then show ?thesis using assms by (auto simp: step_word_def Let_def min_absorb1)
  qed
  have s: "pos \<le> skip_class_fwd U R r Space pos" "skip_class_fwd U R r Space pos \<le> length (to_string R r)"
    using skip_class_fwd_bounds [OF assms] by simp_all
  have t: "skip_class_fwd U R r Space pos \<le> skip_class_fwd U R r k (skip_class_fwd U R r Space pos)"
    "skip_class_fwd U R r k (skip_class_fwd U R r Space pos) \<le> length (to_string R r)" for k
    using skip_class_fwd_bounds [OF s(2)] by simp_all
  show "pos \<le> step_word U R r pos True"
    using assms s t(1) le_trans [OF s(1)] by (simp add: step_word_def Let_def min_absorb1)
  show "step_word U R r pos True \<le> length (to_string R r)"
    using assms s t by (simp add: step_word_def Let_def min_absorb1)
qed

lemma range_span_ok:
  "sel_within n sel \<Longrightarrow> rg \<in> set (ranges sel) \<Longrightarrow> r_from rg \<le> r_to rg \<and> r_to rg \<le> n"
  using sel_within_le by simp

lemma backward_span_ok:
  assumes "sel_within (length (doc_text R d)) sel" "rg \<in> set (ranges sel)"
  shows "fst (backward_span U R (rope d) unit style rg) \<le> snd (backward_span U R (rope d) unit style rg)
    \<and> snd (backward_span U R (rope d) unit style rg) \<le> length (doc_text R d)"
  using sel_within_le [OF assms] step_word_bounds(1) [of "head rg" "rope d" U]
  by (cases unit) (simp_all add: backward_span_def Let_def)

lemma forward_span_ok:
  assumes "sel_within (length (doc_text R d)) sel" "rg \<in> set (ranges sel)"
  shows "fst (forward_span U R (rope d) unit rg) \<le> snd (forward_span U R (rope d) unit rg)
    \<and> snd (forward_span U R (rope d) unit rg) \<le> length (doc_text R d)"
  using sel_within_le [OF assms] step_word_bounds(2,3) [of "head rg" "rope d" U]
  by (cases unit) (simp_all add: forward_span_def Let_def)

lemma whole_line_span_ok:
  "l < nlines r \<Longrightarrow> fst (whole_line_span R r l) \<le> snd (whole_line_span R r l)
    \<and> snd (whole_line_span R r l) \<le> length (to_string R r)"
  using line_start_le [of r l] line_offset_mono [of l "Suc l" "to_string R r"] clamp_line(2) [of l r]
  by (auto simp: whole_line_span_def Let_def line_start_text intro: le_trans [OF diff_le_self])

lemma cut_span_ok:
  assumes "sel_within (length (doc_text R d)) sel" "rg \<in> set (ranges sel)"
  shows "fst (cut_span R (rope d) rg) \<le> snd (cut_span R (rope d) rg)
    \<and> snd (cut_span R (rope d) rg) \<le> length (doc_text R d)"
  using sel_within_le [OF assms] whole_line_span_ok [of "line_of R (rope d) (head rg)" "rope d"]
    line_of_lt [of "rope d" "head rg"]
  by (simp add: cut_span_def)

end

section \<open>Pasting a block\<close>

text \<open>Mapping across insertions only, from the last to the first.\<close>

lemma map_insertions:
  "\<forall>c \<in> set cs. removed c = [] \<Longrightarrow> sorted_wrt (\<lambda>a b. ch_at b \<le> ch_at a) cs \<Longrightarrow>
   foldl (change_map Before) p cs
     \<le> p + sum_list (map (length \<circ> inserted) (filter (\<lambda>c. ch_at c < p) cs))"
proof (induction cs arbitrary: p)
  case (Cons c cs)
  show ?case
  proof (cases "ch_at c < p")
    case True
    then have m: "change_map Before p c = p + length (inserted c)"
      using Cons.prems(1) by (simp add: change_map_def removed_len_def inserted_len_def)
    have low: "\<forall>x \<in> set cs. ch_at x < p" using Cons.prems(2) True by auto
    then have "filter (\<lambda>x. ch_at x < p + length (inserted c)) cs = cs" "filter (\<lambda>x. ch_at x < p) cs = cs"
      by (auto simp: filter_id_conv)
    then show ?thesis
      using Cons.IH [of "p + length (inserted c)"] Cons.prems True by (simp add: m)
  next
    case False
    then have "change_map Before p c = p"
      using Cons.prems(1) by (auto simp: change_map_def removed_len_def inserted_len_def Let_def)
    then show ?thesis using Cons.IH [of p] Cons.prems False by simp
  qed
qed simp

lemma length_tx_text_insertions:
  "\<forall>c \<in> set cs. removed c = [] \<Longrightarrow> tx_fits cs s \<Longrightarrow>
   length (tx_text cs s) = length s + sum_list (map (length \<circ> inserted) cs)"
  by (induction cs arbitrary: s) (auto simp: length_change_text removed_len_def inserted_len_def)

lemma sum_filter_plus:
  fixes h :: "'a \<Rightarrow> nat"
  shows "x \<in> set xs \<Longrightarrow> \<not> P x \<Longrightarrow> sum_list (map h (filter P xs)) + h x \<le> sum_list (map h xs)"
proof (induction xs)
  case (Cons y ys)
  show ?case
  proof (cases "x = y")
    case True
    have "sum_list (map h (filter P ys)) \<le> sum_list (map h ys)" by (induction ys) auto
    then show ?thesis using Cons.prems True by simp
  next
    case False
    then show ?thesis using Cons by auto
  qed
qed simp

text \<open>The loop puts each row's caret at an insertion of its own, inside the document.\<close>

definition rows_placed :: "nat \<Rightarrow> (nat \<times> nat \<times> rstring) list \<Rightarrow> (nat \<times> nat) list \<Rightarrow> rstring \<Rightarrow> bool" where
  "rows_placed n edits carets appended \<longleftrightarrow>
     (\<forall>(f, t, ins) \<in> set edits. f = t \<and> t \<le> n \<and> no_cr ins)
     \<and> (\<forall>(at, off) \<in> set carets. \<exists>ins. (at, at, ins) \<in> set edits \<and> off = length ins) \<and> no_cr appended"

context rope_contract
begin

lemma column_rows_placed:
  assumes "rows_placed (length (to_string R r)) edits carets appended" "pad \<noteq> CR" "\<forall>row \<in> set rows. no_cr row"
    and "column_rows U R r pad col line rows (edits, carets, appended) = (edits', carets', appended')"
  shows "rows_placed (length (to_string R r)) edits' carets' appended'"
  using assms
proof (induction rows arbitrary: line edits carets appended)
  case (Cons row rows)
  have row: "no_cr row" using Cons.prems(3) by simp
  have at: "line_start R r line + index_at_col U (line_text R r line) col 4 \<le> length (to_string R r)"
    using index_at_col_le [of U "line_text R r line" col 4] line_end_le [of r line]
    by (simp add: line_end_text)
  have keep: "rows_placed (length (to_string R r)) (edits @ [(a, a, ins)]) (carets @ [(a, length ins)]) appended"
    if "a \<le> length (to_string R r)" "no_cr ins" for a ins
    using Cons.prems(1) that by (fastforce simp: rows_placed_def)
  have app: "rows_placed (length (to_string R r)) edits carets (appended @ [LF] @ replicate col pad @ row)"
    using Cons.prems(1,2) row by (simp add: rows_placed_def no_cr_def [of "[LF]"] no_cr_def [of "LF # _"])
      (simp add: no_cr_def)
  show ?case
  proof (cases "line < len_lines R r")
    case out: False
    then show ?thesis using Cons.IH [OF app Cons.prems(2)] Cons.prems(3,4) by (simp del: len_lines_text)
  next
    case inside: True
    show ?thesis
    proof (cases "display_col U (line_text R r line) (length (line_text R r line)) 4 < col")
      case True
      let ?pad = "replicate (col - display_col U (line_text R r line) (length (line_text R r line)) 4) pad"
      have "no_cr (?pad @ row)" using Cons.prems(2) row by simp
      from Cons.IH [OF keep [OF line_end_le this] Cons.prems(2)] show ?thesis
        using Cons.prems(3,4) True inside by (simp add: Let_def del: len_lines_text)
    next
      case False
      from Cons.IH [OF keep [OF at row] Cons.prems(2)] show ?thesis
        using Cons.prems(3,4) False inside by (simp add: Let_def del: len_lines_text)
    qed
  qed
qed simp

lemma insertion_caret:
  assumes so: "spans_ok (length (doc_text R d)) es" and pt: "\<forall>(f, t, ins) \<in> set es. f = t"
    and at: "(at, at, ins) \<in> set es"
    and ed: "doc_edit R (tx_replace R (rope d) es) bef aft kind now d = (app, d')"
  shows "tx_map (tx_replace R (rope d) es) at Before + length ins \<le> length (doc_text R d')"
proof -
  let ?s = "doc_text R d" and ?cs = "changes (tx_replace R (rope d) es)"
  have so': "spans_ok (length (to_string R (rope d))) es" using so by simp
  have fits: "tx_fits ?cs ?s" using tx_replace_text(1) [OF so'] by simp
  have cs: "?cs = List.map_filter (edit_text ?s) (sort_by edit_order es)"
    using tx_replace_changes [OF so'] by simp
  have rem: "\<forall>c \<in> set ?cs. removed c = []"
    using pt unfolding cs by (fastforce simp: map_filter_def edit_text_def Let_def split: if_splits)
  have srt: "sorted_wrt (\<lambda>a b. ch_at b \<le> ch_at a) ?cs"
    unfolding cs
    by (rule sorted_wrt_map_filter [OF sorted_edits])
      (auto simp: edit_text_def edit_order_def Let_def split: if_splits prod.splits)
  have len: "length (doc_text R d') = length ?s + sum_list (map (length \<circ> inserted) ?cs)"
    using doc_edit_text [OF fits, of bef aft kind now] ed length_tx_text_insertions [OF rem fits] by simp
  have "at \<le> length ?s" using so at by (auto simp: spans_ok_def list_all_iff)
  moreover have "tx_map (tx_replace R (rope d) es) at Before
      \<le> at + sum_list (map (length \<circ> inserted) (filter (\<lambda>c. ch_at c < at) ?cs))"
    using map_insertions [OF rem srt] by (simp add: tx_map_def)
  moreover have "sum_list (map (length \<circ> inserted) (filter (\<lambda>c. ch_at c < at) ?cs)) + length ins
      \<le> sum_list (map (length \<circ> inserted) ?cs)"
  proof (cases "ins = []")
    case True
    have "sum_list (map h (filter P xs)) \<le> sum_list (map h xs)" for h :: "change \<Rightarrow> nat" and P xs
      by (induction xs) auto
    then show ?thesis by (simp add: True)
  next
    case False
    then have "edit_text ?s (at, at, ins) = Some \<lparr>ch_at = at, removed = [], inserted = ins\<rparr>"
      by (simp add: edit_text_def)
    then have "\<lparr>ch_at = at, removed = [], inserted = ins\<rparr> \<in> set ?cs"
      using at unfolding cs by (force simp: map_filter_def)
    from sum_filter_plus [OF this, of "\<lambda>c. ch_at c < at" "length \<circ> inserted"] show ?thesis by simp
  qed
  ultimately show ?thesis using len by linarith
qed

lemma split_rows_no_cr: "no_cr text \<Longrightarrow> row \<in> set (split_on LF text) \<Longrightarrow> no_cr row"
  using split_on_subset [of row LF "text" CR] by (auto simp: no_cr_def)

lemma paste_column_ok:
  assumes "doc_inv R d" "sel_wf sel" "no_cr (clip_text clip)" "pad \<noteq> CR"
  obtains out where "paste_column U R sel clip pad now d = Some out" "edit_ok R out"
proof -
  let ?r = "rope d"
  define first where "first = line_of R ?r (head (primary_range sel))"
  define col where "col = display_col U (line_text R ?r first) (head (primary_range sel) - line_start R ?r first) 4"
  obtain edits carets appended where loop:
    "column_rows U R ?r pad col first (split_on LF (clip_text clip)) ([], [], []) = (edits, carets, appended)"
    by (metis prod_cases3)
  have rows: "\<forall>row \<in> set (split_on LF (clip_text clip)). no_cr row"
    using split_rows_no_cr [OF assms(3)] by blast
  have "rows_placed (length (to_string R ?r)) [] [] []" by (simp add: rows_placed_def no_cr_def)
  from column_rows_placed [OF this assms(4) rows loop]
  have placed: "rows_placed (length (doc_text R d)) edits carets appended" by simp
  define es where "es = (if appended \<noteq> [] then edits @ [(len_chars R ?r, len_chars R ?r, appended)] else edits)"
  define tx where "tx = tx_replace R ?r es"
  define pts where "pts = map (\<lambda>(at, off). range_point (tx_map tx at Before + off)) carets"
  define rgs where "rgs = (if pts = [] then [range_point (tx_map tx (len_chars R ?r) After)] else pts)"
  obtain app d' where ed: "doc_edit R tx sel (sel_norm rgs 0) Other now d = (app, d')" by fastforce
  have ne: "rgs \<noteq> []" by (simp add: rgs_def)
  have out: "paste_column U R sel clip pad now d
      = Some (\<lparr>e_applied = app, e_selection = sel_norm rgs 0\<rparr>, d')"
    using ed ne unfolding paste_column_def Let_def first_def [symmetric] col_def [symmetric] loop prod.case
      es_def [symmetric] tx_def [symmetric] pts_def [symmetric] rgs_def [symmetric] sel_new_def by simp
  have pts_es: "\<forall>(f, t, ins) \<in> set es. f = t \<and> t \<le> length (doc_text R d)"
    using placed by (auto simp: es_def rows_placed_def)
  have so: "spans_ok (length (doc_text R d)) es" by (rule point_spans_ok [OF pts_es])
  have cl: "\<forall>(f, t, ins) \<in> set es. no_cr ins" using placed by (auto simp: es_def rows_placed_def)
  note ed' = ed [unfolded tx_def]
  have "\<forall>rg \<in> set rgs. r_to rg \<le> length (doc_text R d')"
  proof (cases "pts = []")
    case True
    then show ?thesis
      using tx_map_replace_le [OF so _ ed', of "length (doc_text R d)" After]
      by (simp add: rgs_def tx_def range_point_def)
  next
    case False
    have "tx_map tx at Before + off \<le> length (doc_text R d')" if "(at, off) \<in> set carets" for at off
    proof -
      obtain ins where "(at, at, ins) \<in> set edits" "off = length ins"
        using placed \<open>(at, off) \<in> set carets\<close> by (auto simp: rows_placed_def)
      then show ?thesis
        using insertion_caret [OF so _ _ ed', of at ins] pts_es by (fastforce simp: es_def tx_def)
    qed
    then show ?thesis using False by (auto simp: rgs_def pts_def range_point_def)
  qed
  then have "edit_ok R (\<lparr>e_applied = app, e_selection = sel_norm rgs 0\<rparr>, d')"
    using doc_edit_replace(1) [OF assms(1) so cl ed'] sel_norm_within sel_norm_spec(1) [OF ne]
    by (simp add: edit_ok_def)
  then show ?thesis using that out by blast
qed

lemma paste_ok:
  assumes "doc_inv R d" "sel_wf sel" "sel_within (length (doc_text R d)) sel" "no_cr (clip_text clip)" "pad \<noteq> CR"
  obtains out where "paste U R sel clip pad now d = Some out" "edit_ok R out"
proof -
  let ?rows = "split_on LF (clip_text clip)"
  consider (full) "clip_mode_of clip = FullLine" "all_empty sel"
    | (column) "\<not> (clip_mode_of clip = FullLine \<and> all_empty sel)"
        "clip_mode_of clip = Column \<and> length (ranges sel) = 1 \<and> all_empty sel"
    | (rows) "\<not> (clip_mode_of clip = FullLine \<and> all_empty sel)"
        "\<not> (clip_mode_of clip = Column \<and> length (ranges sel) = 1 \<and> all_empty sel)"
        "length (ranges sel) > 1 \<and> length ?rows = length (ranges sel)"
    | (plain) "\<not> (clip_mode_of clip = FullLine \<and> all_empty sel)"
        "\<not> (clip_mode_of clip = Column \<and> length (ranges sel) = 1 \<and> all_empty sel)"
        "\<not> (length (ranges sel) > 1 \<and> length ?rows = length (ranges sel))"
    by blast
  then show ?thesis
  proof cases
    case full
    then show ?thesis
      using that paste_lines_ok [OF assms(1-4)] by (simp add: paste_def)
  next
    case column
    then have "paste U R sel clip pad now d = paste_column U R sel clip pad now d"
      by (simp only: paste_def if_False simp_thms if_True)
    then show ?thesis using paste_column_ok [OF assms(1,2,4,5)] that by metis
  next
    case rows
    have eq: "paste U R sel clip pad now d
        = replace_each R sel Other now (\<lambda>i _. (?rows ! i, length (?rows ! i))) d"
      unfolding paste_def Let_def if_not_P [OF rows(1)] if_not_P [OF rows(2)] if_P [OF rows(3)] ..
    have cl: "\<forall>i < length (ranges sel). no_cr (fst ((\<lambda>i _. (?rows ! i, length (?rows ! i))) i (ranges sel ! i)))
      \<and> snd ((\<lambda>i _. (?rows ! i, length (?rows ! i))) i (ranges sel ! i))
        \<le> length (fst ((\<lambda>i _. (?rows ! i, length (?rows ! i))) i (ranges sel ! i)))"
      using split_rows_no_cr [OF assms(4)] rows(3) by simp
    show ?thesis
      unfolding eq by (rule replace_each_spec [OF assms(1-3) cl]) (rule that, simp_all add: eq)
  next
    case plain
    have eq: "paste U R sel clip pad now d
        = replace_each R sel Other now (\<lambda>_ _. (clip_text clip, length (clip_text clip))) d"
      unfolding paste_def Let_def if_not_P [OF plain(1)] if_not_P [OF plain(2)] if_not_P [OF plain(3)] ..
    have cl: "\<forall>i < length (ranges sel). no_cr (fst ((\<lambda>_ _. (clip_text clip, length (clip_text clip))) i (ranges sel ! i)))
      \<and> snd ((\<lambda>_ _. (clip_text clip, length (clip_text clip))) i (ranges sel ! i))
        \<le> length (fst ((\<lambda>_ _. (clip_text clip, length (clip_text clip))) i (ranges sel ! i)))"
      using assms(4) by simp
    show ?thesis
      unfolding eq by (rule replace_each_spec [OF assms(1-3) cl]) (rule that, simp_all add: eq)
  qed
qed

end

section \<open>Movement stays in the document\<close>

text \<open>What every movement leaves: a selection inside the document.\<close>

definition move_ok :: "nat \<Rightarrow> selection \<Rightarrow> bool" where
  "move_ok n sel \<longleftrightarrow> sel_wf sel \<and> sel_within n sel"

lemma put_head_to: "anchor rg \<le> n \<Longrightarrow> h \<le> n \<Longrightarrow> r_to (put_head rg h ext) \<le> n"
  by (simp add: put_head_def r_to_def range_point_def range_new_def)

lemma put_head_move_ok:
  assumes "sel_wf sel" "sel_within n sel" "\<And>rg. rg \<in> set (ranges sel) \<Longrightarrow> h rg \<le> n"
  shows "move_ok n (sel_transform (\<lambda>rg. put_head rg (h rg) ext) sel)"
  unfolding move_ok_def using assms sel_within_le(4) [OF assms(2)]
  by (intro conjI sel_transform_ok [OF assms(1)] put_head_to) auto

context rope_contract
begin

lemma wrap_position_le: "fst (wrap_position U R r row col w) \<le> length (to_string R r)"
proof -
  obtain tot w1 where tot: "total_rows w = (tot, w1)" by fastforce
  obtain line sub w2 where lr: "line_at_row (min row (tot - 1)) w1 = ((line, sub), w2)"
    by (metis prod.exhaust_sel)
  define ltext where "ltext = line_text R r line"
  define starts where "starts = row_starts U ltext (w_width w2) (w_tab w2)"
  define k where "k = min sub (length starts - 1)"
  define start where "start = starts ! k"
  define stop where "stop = (if k + 1 < length starts then starts ! (k + 1) else length ltext)"
  define i0 where "i0 = index_at_col U (take (stop - start) (drop start ltext)) col (w_tab w2)"
  define i1 where "i1 = (if k + 1 < length starts \<and> i0 \<ge> stop - start \<and> stop > start then stop - start - 1 else i0)"
  have "fst (wrap_position U R r row col w) = line_start R r line + start + i1"
    unfolding wrap_position_def Let_def tot lr prod.case ltext_def [symmetric] starts_def [symmetric]
      k_def [symmetric] start_def [symmetric] stop_def [symmetric] i0_def [symmetric] i1_def [symmetric] fst_conv ..
  moreover have "start + i1 \<le> length ltext"
  proof -
    have ok: "rows_ok U (w_tab w2) (case w_width w2 of Some w \<Rightarrow> w | None \<Rightarrow> 0) ltext starts"
      unfolding starts_def by (rule row_starts_ok)
    have ne: "starts \<noteq> []" by (simp add: starts_def)
    then have "k < length starts" by (cases starts) (auto simp: k_def)
    then have start_le: "start \<le> length ltext" using ok unfolding rows_ok_def start_def by (metis less_imp_le nth_mem zero_le)
    have "i0 \<le> length (take (stop - start) (drop start ltext))"
      unfolding i0_def by (rule index_at_col_le)
    then have "i0 \<le> length ltext - start" by simp
    moreover have "i1 \<le> i0" by (auto simp: i1_def)
    ultimately show ?thesis using start_le by linarith
  qed
  ultimately show ?thesis using line_end_le [of r line] by (simp add: line_end_text ltext_def)
qed

lemma move_row_ok:
  assumes "r_to rg \<le> length (to_string R r)"
  shows "r_to (fst (move_row U R r tot rows ext rg w)) \<le> length (to_string R r)"
proof -
  obtain row col w1 where loc: "locate U R r (head rg) w = ((row, col), w1)" by (metis prod.exhaust_sel)
  define g where "g = (case goal rg of Some g \<Rightarrow> g | None \<Rightarrow> col)"
  obtain h w2 where h: "(if int row + rows < 0 then (0, w1)
                    else if nat (int row + rows) \<ge> tot then (len_chars R r, w1)
                    else wrap_position U R r (nat (int row + rows)) g w1) = (h, w2)" by fastforce
  have "h \<le> length (to_string R r)"
    using h wrap_position_le [of U r "nat (int row + rows)" g w1] by (auto split: if_splits)
  moreover have "anchor rg \<le> length (to_string R r)" using assms by (simp add: r_to_def)
  moreover have "r_to ((put_head rg h ext)\<lparr>goal := Some g\<rparr>) = r_to (put_head rg h ext)" by (simp add: r_to_def)
  moreover have "fst (move_row U R r tot rows ext rg w) = (put_head rg h ext)\<lparr>goal := Some g\<rparr>"
    unfolding move_row_def Let_def loc prod.case g_def [symmetric] h by simp
  ultimately show ?thesis using put_head_to by metis
qed

lemma move_rows_ok:
  "\<forall>rg \<in> set rgs. r_to rg \<le> length (to_string R r) \<Longrightarrow>
   length (fst (move_rows U R r tot rows ext rgs w)) = length rgs
   \<and> (\<forall>rg \<in> set (fst (move_rows U R r tot rows ext rgs w)). r_to rg \<le> length (to_string R r))"
proof (induction rgs arbitrary: w)
  case (Cons rg rgs)
  obtain rg' w1 where a: "move_row U R r tot rows ext rg w = (rg', w1)" by fastforce
  obtain rgs' w2 where b: "move_rows U R r tot rows ext rgs w1 = (rgs', w2)" by fastforce
  show ?case
    using Cons.IH [of w1] Cons.prems move_row_ok [of rg r U tot rows ext w] a b by (simp add: Let_def)
qed simp

lemma move_vertical_ok:
  assumes "sel_wf sel" "sel_within (length (to_string R r)) sel"
  shows "move_ok (length (to_string R r)) (fst (move_vertical U R r w sel rows ext))"
proof -
  obtain tot w1 where tot: "total_rows w = (tot, w1)" by fastforce
  obtain rgs w2 where m: "move_rows U R r tot rows ext (ranges sel) w1 = (rgs, w2)" by fastforce
  have "length rgs = length (ranges sel) \<and> (\<forall>rg \<in> set rgs. r_to rg \<le> length (to_string R r))"
    using move_rows_ok [of "ranges sel" r U tot rows ext w1] assms(2) m by (simp add: sel_within_def list_all_iff)
  moreover from this have "rgs \<noteq> []" using assms(1) by (auto simp: sel_wf_def)
  ultimately show ?thesis
    using sel_norm_spec(1) sel_norm_within by (simp add: move_vertical_def tot m move_ok_def)
qed

lemma first_nonblank_le:
  "line_start R r l + length (leading_whitespace (line_text R r l)) \<le> length (to_string R r)"
proof -
  have "length (leading_whitespace (line_text R r l)) \<le> length (line_text R r l)"
    by (simp add: leading_whitespace_def length_takeWhile_le)
  then show ?thesis using line_end_le [of r l] by (simp add: line_end_text)
qed

lemma moves_ok:
  assumes "sel_wf sel" "sel_within (length (to_string R r)) sel"
  shows "move_ok (length (to_string R r)) (move_horizontal U R r sel forward unit ext)"
    and "move_ok (length (to_string R r)) (move_line_start R r sel ext)"
    and "move_ok (length (to_string R r)) (move_line_end R r sel ext)"
    and "move_ok (length (to_string R r)) (move_doc_edge R r sel to_end ext)"
    and "move_ok (length (to_string R r)) (select_all R r)"
proof -
  let ?n = "length (to_string R r)"
  show "move_ok ?n (move_line_start R r sel ext)"
    unfolding move_line_start_def Let_def
    by (rule put_head_move_ok [OF assms]) (use first_nonblank_le line_start_le in auto)
  show "move_ok ?n (move_line_end R r sel ext)"
    unfolding move_line_end_def by (rule put_head_move_ok [OF assms]) (rule line_end_le)
  show "move_ok ?n (move_doc_edge R r sel to_end ext)"
    unfolding move_doc_edge_def Let_def by (rule put_head_move_ok [OF assms]) simp
  show "move_ok ?n (select_all R r)"
    by (simp add: select_all_def sel_single_def move_ok_def sel_wf_def sel_within_def)
  have "r_to (if \<not> ext \<and> \<not> r_is_empty rg \<and> unit = Char
       then range_point (if forward then r_to rg else r_from rg)
       else put_head rg
         (case unit of
            Char \<Rightarrow> if forward then min (head rg + 1) (len_chars R r) else head rg - 1
          | AWord \<Rightarrow> step_word U R r (head rg) forward) ext) \<le> ?n" if "rg \<in> set (ranges sel)" for rg
  proof -
    note b = sel_within_le [OF assms(2) that]
    have "r_to (range_point (if forward then r_to rg else r_from rg)) \<le> ?n"
      using b by (simp add: range_point_def)
    moreover have "(case unit of
            Char \<Rightarrow> if forward then min (head rg + 1) (len_chars R r) else head rg - 1
          | AWord \<Rightarrow> step_word U R r (head rg) forward) \<le> ?n"
      using b(3) step_word_bounds [OF b(3), of U] by (cases unit; cases forward) simp_all
    ultimately show ?thesis using put_head_to [OF b(4)] by simp
  qed
  note f = this
  show "move_ok ?n (move_horizontal U R r sel forward unit ext)"
    unfolding move_horizontal_def move_ok_def by (rule conjI; rule sel_transform_ok [OF assms(1) f])
qed

end

section \<open>A block pasted past the last line\<close>

text \<open>
  The rows that go past the end are one insertion at the end of the document. When the block's
  last row on an existing line also goes there, both edits are at one position, and
  \<open>Transaction::replace\<close> applies them in the order given: the row, then the appended lines
  in front of it.
\<close>

lemma index_at_col_from_total:
  "cols U tab col line \<le> target \<Longrightarrow> index_at_col_from U target tab i col line = i + length line"
proof (induction line arbitrary: i col)
  case (Cons c cs)
  have "col + char_width U c col tab \<le> cols U tab (col + char_width U c col tab) cs" by (rule cols_ge)
  then show ?case using Cons by (simp add: Let_def)
qed simp

lemma index_at_col_total: "index_at_col U line (display_col U line (length line) tab) tab = length line"
  by (simp add: index_at_col_def display_col_cols index_at_col_from_total)

context rope_contract
begin

lemma paste_column_two_rows:
  assumes inv: "doc_inv R d" and one: "tlines (doc_text R d) = [doc_text R d]" "LF \<notin> set (doc_text R d)"
    and clip: "clip_text clip = row @ [LF] @ row'" "LF \<notin> set row" "LF \<notin> set row'"
    and clean: "no_cr row" "no_cr row'" "pad \<noteq> CR"
    and caret: "sel = sel_point (length (doc_text R d))"
  obtains out where "paste_column U R sel clip pad now d = Some out"
    "doc_text R (snd out) = doc_text R d @ [LF]
       @ replicate (display_col U (doc_text R d) (length (doc_text R d)) 4) pad @ row' @ row"
proof -
  let ?r = "rope d" and ?s = "doc_text R d"
  let ?n = "length ?s" and ?col = "display_col U (doc_text R d) (length (doc_text R d)) 4"
  let ?app = "[LF] @ replicate ?col pad @ row'"
  let ?es = "[(?n, ?n, row), (?n, ?n, ?app)]"
  have hd: "head (primary_range sel) = ?n"
    by (simp add: caret sel_point_def primary_range_def range_point_def range_new_def)
  have l0: "line_of R ?r ?n = 0" using line_of_lt [of ?r ?n] one(1) by simp
  have ls: "line_start R ?r 0 = 0" by (simp add: line_start_text)
  have lt: "line_text R ?r 0 = ?s" using one by (simp add: line_text_text text_line_def strip_lf_def)
      (metis last_in_set)
  have ll: "len_lines R ?r = 1" using one(1) by simp
  have rows: "split_on LF (clip_text clip) = [row, row']"
    using split_on_append [OF clip(2), of row'] split_on_no [OF clip(3)] by (simp add: clip(1))
  have loop: "column_rows U R ?r pad ?col 0 [row, row'] ([], [], []) = ([(?n, ?n, row)], [(?n, length row)], ?app)"
    by (simp add: ll lt ls index_at_col_total Let_def del: len_lines_text)
  let ?tx = "tx_replace R ?r ?es"
  let ?rgs = "[range_point (tx_map ?tx ?n Before + length row)]"
  obtain app d' where ed: "doc_edit R ?tx sel (sel_norm ?rgs 0) Other now d = (app, d')" by fastforce
  have out: "paste_column U R sel clip pad now d = Some (\<lparr>e_applied = app, e_selection = sel_norm ?rgs 0\<rparr>, d')"
    using ed by (simp add: paste_column_def hd l0 ls lt rows loop sel_new_def Let_def del: column_rows.simps)
  have so: "spans_ok (length (doc_text R d)) ?es" by (simp add: spans_ok_def spans_apart_def)
  have cl: "\<forall>(f, t, ins) \<in> set ?es. no_cr ins" using clean by (simp add: no_cr_def)
  have "sort_by edit_order ?es = ?es" by (simp add: edit_order_def)
  then have "doc_text R d' = ?s @ ?app @ row"
    using doc_edit_replace(2) [OF inv so cl ed] by simp
  with out that show ?thesis by simp
qed

end

end
