(* ===== verification/Paths.thy ===== *)
theory Paths
  imports Prelude "HOL-Library.Sublist"
begin

text \<open>
  Path identity and naming rules (\<open>throng-core/src/paths.rs\<close>). A path is its text (the code
  compares \<open>to_string_lossy\<close>); Unicode normalisation and lower-casing of strings are a parameter,
  the record \<open>folding\<close>, with what the proofs need of them in the locale \<open>path_folding\<close>.
  \<open>Path::components\<close> and \<open>PathBuf::push\<close> are those of a Unix host.
\<close>

section \<open>The code\<close>

abbreviation SLASH :: rchar where "SLASH \<equiv> 47"
abbreviation BACKSLASH :: rchar where "BACKSLASH \<equiv> 92"
abbreviation DOT :: rchar where "DOT \<equiv> 46"

type_synonym path = rstring

record path_rules =
  case_insensitive :: bool
  unicode_insensitive :: bool
  windows_names :: bool

definition LINUX :: path_rules where
  "LINUX = \<lparr>case_insensitive = False, unicode_insensitive = False, windows_names = False\<rparr>"

definition MACOS :: path_rules where
  "MACOS = \<lparr>case_insensitive = True, unicode_insensitive = True, windows_names = False\<rparr>"

definition WINDOWS :: path_rules where
  "WINDOWS = \<lparr>case_insensitive = True, unicode_insensitive = False, windows_names = True\<rparr>"

record folding =
  nfc :: "rstring \<Rightarrow> rstring"
  str_lowercase :: "rstring \<Rightarrow> rstring"

definition push_segment :: "rstring list \<Rightarrow> rstring \<Rightarrow> rstring list" where
  "push_segment segs s =
     (if s = [] \<or> s = [DOT] then segs
      else if s = [DOT, DOT] then butlast segs
      else segs @ [s])"

definition unified :: "path_rules \<Rightarrow> path \<Rightarrow> rstring" where
  "unified rules p = (if windows_names rules then map (\<lambda>c. if c = BACKSLASH then SLASH else c) p else p)"

definition path_segments :: "rstring \<Rightarrow> rstring list" where
  "path_segments s = foldl push_segment [] (split_on SLASH s)"

definition normal_form :: "folding \<Rightarrow> path_rules \<Rightarrow> rstring \<Rightarrow> rstring" where
  "normal_form F rules k =
     (let k = (if unicode_insensitive rules then nfc F k else k)
      in if case_insensitive rules then str_lowercase F k else k)"

definition key :: "folding \<Rightarrow> path_rules \<Rightarrow> path \<Rightarrow> rstring" where
  "key F rules p =
     (let u = unified rules p; k = join [SLASH] (path_segments u);
          k = (if starts_with [SLASH] u then SLASH # k else k)
      in normal_form F rules k)"

definition same_path :: "folding \<Rightarrow> path_rules \<Rightarrow> path \<Rightarrow> path \<Rightarrow> bool" where
  "same_path F rules a b \<longleftrightarrow> key F rules a = key F rules b"

definition is_within :: "folding \<Rightarrow> path_rules \<Rightarrow> path \<Rightarrow> path \<Rightarrow> bool" where
  "is_within F rules ancestor p =
     (let a = key F rules ancestor; p = key F rules p
      in if a = [] \<or> p = [] then False
         else if a = p then True
         else starts_with (if ends_with [SLASH] a then a else a @ [SLASH]) p)"

definition overlaps :: "folding \<Rightarrow> path_rules \<Rightarrow> path \<Rightarrow> path \<Rightarrow> bool" where
  "overlaps F rules a b \<longleftrightarrow> is_within F rules a b \<or> is_within F rules b a"

definition RESERVED :: "string list" where
  "RESERVED = [''CON'', ''PRN'', ''AUX'', ''NUL'', ''COM1'', ''COM2'', ''COM3'', ''COM4'', ''COM5'',
     ''COM6'', ''COM7'', ''COM8'', ''COM9'', ''LPT1'', ''LPT2'', ''LPT3'', ''LPT4'', ''LPT5'',
     ''LPT6'', ''LPT7'', ''LPT8'', ''LPT9'']"

text \<open>The messages of \<open>invalid_name_reason\<close>.\<close>

datatype name_error = NameEmpty | NameDots | NameSlash | NameWindowsChar | NameTrailing | NameReserved

definition windows_forbidden :: "rchar \<Rightarrow> bool" where
  "windows_forbidden c \<longleftrightarrow> c \<in> {92, 58, 42, 63, 34, 60, 62, 124} \<or> c < 32"

definition invalid_name_reason :: "path_rules \<Rightarrow> rstring \<Rightarrow> name_error option" where
  "invalid_name_reason rules name =
     (if name = [] then Some NameEmpty
      else if name = [DOT] \<or> name = [DOT, DOT] then Some NameDots
      else if SLASH \<in> set name \<or> 0 \<in> set name then Some NameSlash
      else if windows_names rules then
        (if list_ex windows_forbidden name then Some NameWindowsChar
         else if ends_with [DOT] name \<or> ends_with [SP] name then Some NameTrailing
         else if map to_ascii_upper (hd (split_on DOT name)) \<in> set (map lit RESERVED)
         then Some NameReserved
         else None)
      else None)"

definition transfer_allowed :: "folding \<Rightarrow> path_rules \<Rightarrow> path \<Rightarrow> path \<Rightarrow> bool" where
  "transfer_allowed F rules source destination_dir \<longleftrightarrow> \<not> is_within F rules source destination_dir"

text \<open>On a Unix host a path's components are its segments; \<open>..\<close> takes one off.\<close>

definition normal_components :: "path \<Rightarrow> rstring list" where
  "normal_components p = path_segments p"

definition relative_to :: "folding \<Rightarrow> path_rules \<Rightarrow> path \<Rightarrow> path \<Rightarrow> rstring option" where
  "relative_to F rules root p =
     (if \<not> is_within F rules root p then None
      else Some (join [SLASH] (drop (length (normal_components root)) (normal_components p))))"

text \<open>\<open>str::rfind\<close> of a dot: what stands before it, and from it on.\<close>

definition split_extension :: "rstring \<Rightarrow> rstring \<times> rstring" where
  "split_extension name =
     (case position (\<lambda>c. c = DOT) (rev name) of
        None \<Rightarrow> (name, [])
      | Some j \<Rightarrow>
          (let i = length name - 1 - j
           in if i = 0 then (name, []) else (take i name, drop i name)))"

definition copy_candidate :: "rstring \<Rightarrow> rstring \<Rightarrow> nat \<Rightarrow> rstring" where
  "copy_candidate stem ext n =
     (if n = 1 then stem @ lit '' copy'' @ ext else stem @ lit '' copy '' @ show_nat n @ ext)"

text \<open>The search counts in a \<open>u32\<close>; past its end the addition overflows, the value \<open>None\<close>.\<close>

function copy_search :: "rstring \<Rightarrow> rstring \<Rightarrow> (rstring \<Rightarrow> bool) \<Rightarrow> nat \<Rightarrow> rstring option" where
  "copy_search stem ext ex n =
     (if \<not> ex (copy_candidate stem ext n) then Some (copy_candidate stem ext n)
      else if n + 1 < 2 ^ 32 then copy_search stem ext ex (n + 1) else None)"
  by pat_completeness auto
termination
  by (relation "measure (\<lambda>(stem, ext, ex, n). 2 ^ 32 - n)") auto

declare copy_search.simps [simp del]

definition copy_name :: "rstring \<Rightarrow> (rstring \<Rightarrow> bool) \<Rightarrow> rstring option" where
  "copy_name name ex =
     (if \<not> ex name then Some name
      else (case split_extension name of (stem, ext) \<Rightarrow> copy_search stem ext ex 1))"

definition path_push :: "path \<Rightarrow> rstring \<Rightarrow> path" where
  "path_push p s =
     (if starts_with [SLASH] s then s
      else if p = [] \<or> ends_with [SLASH] p then p @ s
      else p @ [SLASH] @ s)"

definition join_relative :: "path \<Rightarrow> rstring \<Rightarrow> path" where
  "join_relative root rel = foldl path_push root (filter (\<lambda>s. s \<noteq> []) (split_on SLASH rel))"

section \<open>Segments\<close>

definition plain_segment :: "rstring \<Rightarrow> bool" where
  "plain_segment s \<longleftrightarrow> s \<noteq> [] \<and> s \<noteq> [DOT] \<and> s \<noteq> [DOT, DOT] \<and> SLASH \<notin> set s"

lemma starts_with_Cons: "starts_with [c] s \<longleftrightarrow> s \<noteq> [] \<and> hd s = c"
  by (cases s) (auto simp: starts_with_def)

lemma split_on_app: "split_on c (p @ c # s) = split_on c p @ split_on c s"
proof (induction p)
  case (Cons x p)
  then show ?case by (cases "split_on c p") auto
qed simp

lemma split_on_join_app:
  "xs \<noteq> [] \<Longrightarrow> \<forall>x \<in> set xs. c \<notin> set x \<Longrightarrow> split_on c (join [c] xs @ c # r) = xs @ split_on c r"
  by (simp add: split_on_app split_on_join)

lemma join_append: "xs \<noteq> [] \<Longrightarrow> ys \<noteq> [] \<Longrightarrow> join sep (xs @ ys) = join sep xs @ sep @ join sep ys"
  by (induction xs rule: induct_list012) (auto simp: join_Cons neq_Nil_conv)

lemma push_segment_plain:
  "\<forall>x \<in> set segs. plain_segment x \<Longrightarrow> SLASH \<notin> set s \<Longrightarrow> \<forall>x \<in> set (push_segment segs s). plain_segment x"
  by (auto simp: push_segment_def plain_segment_def dest: in_set_butlastD)

lemma foldl_push_plain:
  "\<forall>x \<in> set segs. plain_segment x \<Longrightarrow> \<forall>s \<in> set ss. SLASH \<notin> set s \<Longrightarrow>
   \<forall>x \<in> set (foldl push_segment segs ss). plain_segment x"
proof (induction ss arbitrary: segs)
  case (Cons s ss)
  have "\<forall>x \<in> set (push_segment segs s). plain_segment x"
    by (rule push_segment_plain) (use Cons.prems in simp_all)
  from Cons.IH [OF this] Cons.prems(2) show ?case by simp
qed simp

lemma path_segments_plain: "x \<in> set (path_segments s) \<Longrightarrow> plain_segment x"
proof -
  have "\<forall>x \<in> set (foldl push_segment [] (split_on SLASH s)). plain_segment x"
    by (rule foldl_push_plain) (simp_all add: split_on_pieces)
  then show "x \<in> set (path_segments s) \<Longrightarrow> plain_segment x" by (simp add: path_segments_def)
qed

lemma join_ends:
  "\<forall>x \<in> set xs. c \<notin> set x \<and> x \<noteq> [] \<Longrightarrow> xs \<noteq> [] \<Longrightarrow> join [c] xs \<noteq> [] \<and> last (join [c] xs) \<noteq> c"
proof (induction xs rule: induct_list012)
  case (2 x)
  then show ?case using last_in_set [of x] by auto
qed auto

lemma path_segments_push:
  assumes "SLASH \<notin> set s" "s \<noteq> []"
  shows "path_segments (path_push p s) = push_segment (path_segments p) s"
proof -
  have ns: "\<not> starts_with [SLASH] s" using assms by (cases s) (auto simp: starts_with_def)
  consider "p = []" | q where "p = q @ [SLASH]" | "p \<noteq> []" "\<not> ends_with [SLASH] p"
    by (metis ends_with_iff)
  then show ?thesis
  proof cases
    case 1
    then show ?thesis
      using ns assms by (simp add: path_push_def path_segments_def split_on_no) (simp add: push_segment_def)
  next
    case (2 q)
    have "path_segments p = path_segments q"
      using split_on_app [of SLASH q "[]"] by (simp add: 2 path_segments_def push_segment_def)
    moreover have "ends_with [SLASH] p" using 2 by (auto simp: ends_with_iff)
    ultimately show ?thesis
      using ns assms split_on_app [of SLASH q s]
      by (simp add: path_push_def 2) (simp add: path_segments_def split_on_no)
  next
    case 3
    then show ?thesis
      using ns assms split_on_app [of SLASH p s]
      by (simp add: path_push_def path_segments_def split_on_no)
  qed
qed

lemma path_push_absolute:
  "\<not> starts_with [SLASH] s \<Longrightarrow> starts_with [SLASH] p \<Longrightarrow> starts_with [SLASH] (path_push p s)"
  by (auto simp: path_push_def starts_with_iff)

lemma foldl_path_push:
  "\<forall>s \<in> set ss. plain_segment s \<Longrightarrow> starts_with [SLASH] p \<Longrightarrow>
   path_segments (foldl path_push p ss) = path_segments p @ ss \<and> starts_with [SLASH] (foldl path_push p ss)"
proof (induction ss arbitrary: p)
  case (Cons s ss)
  have s: "SLASH \<notin> set s" "s \<noteq> []" "s \<noteq> [DOT]" "s \<noteq> [DOT, DOT]"
    using Cons.prems(1) by (simp_all add: plain_segment_def)
  then have "\<not> starts_with [SLASH] s" by (cases s) (auto simp: starts_with_def)
  from Cons.IH [OF _ path_push_absolute [OF this Cons.prems(2)]] show ?case
    using Cons.prems(1) s by (simp add: path_segments_push push_segment_def)
qed simp

lemma join_relative_segments:
  assumes "\<forall>s \<in> set ss. plain_segment s" "starts_with [SLASH] root"
  shows "path_segments (join_relative root (join [SLASH] ss)) = path_segments root @ ss
    \<and> starts_with [SLASH] (join_relative root (join [SLASH] ss))"
proof (cases "ss = []")
  case True
  then show ?thesis using assms by (simp add: join_relative_def)
next
  case False
  have "split_on SLASH (join [SLASH] ss) = ss"
    using assms(1) False by (auto simp: plain_segment_def intro!: split_on_join)
  moreover have "filter (\<lambda>s. s \<noteq> []) ss = ss"
    using assms(1) by (auto simp: plain_segment_def filter_id_conv)
  ultimately show ?thesis using foldl_path_push [OF assms] by (simp add: join_relative_def)
qed

section \<open>Containment is a prefix of segments\<close>

text \<open>The names on the way to a path, as they are compared.\<close>

definition folded_segments :: "folding \<Rightarrow> path_rules \<Rightarrow> path \<Rightarrow> rstring list" where
  "folded_segments F rules p = map (normal_form F rules) (path_segments (unified rules p))"

text \<open>
  What the code relies on: the folding works segment by segment. Neither NFC nor lower-casing
  makes, moves or joins a slash or empties a name.
\<close>

locale path_folding =
  fixes F :: folding and rules :: path_rules
  assumes normal_slash: "normal_form F rules (a @ SLASH # b) = normal_form F rules a @ SLASH # normal_form F rules b"
    and normal_Nil: "normal_form F rules s = [] \<longleftrightarrow> s = []"
    and normal_no_slash: "SLASH \<notin> set s \<Longrightarrow> SLASH \<notin> set (normal_form F rules s)"
begin

lemma normal_join: "normal_form F rules (join [SLASH] ss) = join [SLASH] (map (normal_form F rules) ss)"
  by (induction ss rule: induct_list012) (simp_all add: normal_Nil normal_slash)

abbreviation segs :: "path \<Rightarrow> rstring list" where
  "segs \<equiv> folded_segments F rules"

lemma segs_no_slash: "x \<in> set (segs p) \<Longrightarrow> SLASH \<notin> set x \<and> x \<noteq> []"
  using path_segments_plain by (auto simp: folded_segments_def plain_segment_def normal_Nil normal_no_slash)

lemma key_absolute: "starts_with [SLASH] (unified rules p) \<Longrightarrow> key F rules p = SLASH # join [SLASH] (segs p)"
  using normal_slash [of "[]"] by (simp add: key_def folded_segments_def normal_join normal_Nil Let_def)

lemma segs_join_ends: "segs p \<noteq> [] \<Longrightarrow> join [SLASH] (segs p) \<noteq> [] \<and> last (join [SLASH] (segs p)) \<noteq> SLASH"
  using segs_no_slash by (intro join_ends) blast+

lemma is_within_iff:
  assumes "starts_with [SLASH] (unified rules a)" "starts_with [SLASH] (unified rules p)"
  shows "is_within F rules a p \<longleftrightarrow> prefix (segs a) (segs p)"
proof (cases "segs a = []")
  case True
  then show ?thesis
    by (simp add: is_within_def key_absolute [OF assms(1)] key_absolute [OF assms(2)] Let_def
        ends_with_iff starts_with_iff)
next
  case False
  let ?j = "join [SLASH] :: rstring list \<Rightarrow> rstring"
  note na = segs_no_slash [of _ a] and np = segs_no_slash [of _ p]
  have e: "\<not> ends_with [SLASH] (SLASH # ?j (segs a))"
  proof
    assume "ends_with [SLASH] (SLASH # ?j (segs a))"
    then have "last (SLASH # ?j (segs a)) = SLASH" by (metis ends_with_iff last_snoc)
    then show False using segs_join_ends [OF False] by simp
  qed
  have eq: "?j (segs a) = ?j (segs p) \<longleftrightarrow> segs a = segs p"
  proof
    assume j: "?j (segs a) = ?j (segs p)"
    have "segs p \<noteq> []" using j segs_join_ends [OF False] by auto
    then show "segs a = segs p"
      using j split_on_join [of "segs a" SLASH] split_on_join [of "segs p" SLASH] False na np by metis
  qed simp
  have st: "starts_with ((SLASH # ?j (segs a)) @ [SLASH]) (SLASH # ?j (segs p)) \<longleftrightarrow> strict_prefix (segs a) (segs p)"
  proof
    assume "starts_with ((SLASH # ?j (segs a)) @ [SLASH]) (SLASH # ?j (segs p))"
    then obtain r where r: "?j (segs p) = ?j (segs a) @ SLASH # r" by (auto simp: starts_with_iff)
    have "segs p \<noteq> []" using r by (cases "segs p") auto
    then have "segs p = split_on SLASH (?j (segs p))" using split_on_join [of "segs p" SLASH] np by metis
    also have "\<dots> = segs a @ split_on SLASH r" unfolding r using na False by (intro split_on_join_app) auto
    finally show "strict_prefix (segs a) (segs p)"
      by (metis append_self_conv prefixI split_on_neq_Nil strict_prefixI)
  next
    assume "strict_prefix (segs a) (segs p)"
    then obtain zs where z: "segs p = segs a @ zs" "zs \<noteq> []" by (auto simp: strict_prefix_def prefix_def)
    then show "starts_with ((SLASH # ?j (segs a)) @ [SLASH]) (SLASH # ?j (segs p))"
      using False by (auto simp: starts_with_iff join_append)
  qed
  show ?thesis
    using e eq st
    by (simp add: is_within_def key_absolute [OF assms(1)] key_absolute [OF assms(2)] Let_def)
      (auto simp: strict_prefix_def)
qed

lemma is_within_trans:
  assumes "starts_with [SLASH] (unified rules a)" "starts_with [SLASH] (unified rules b)"
    "starts_with [SLASH] (unified rules c)"
  shows "is_within F rules a b \<Longrightarrow> is_within F rules b c \<Longrightarrow> is_within F rules a c"
  unfolding is_within_iff [OF assms(1,2)] is_within_iff [OF assms(2,3)] is_within_iff [OF assms(1,3)]
  by (rule prefix_order.trans)

lemma is_within_refl: "starts_with [SLASH] (unified rules a) \<Longrightarrow> is_within F rules a a"
  by (simp add: is_within_iff)

lemma same_path_iff:
  assumes "starts_with [SLASH] (unified rules a)" "starts_with [SLASH] (unified rules b)"
  shows "same_path F rules a b \<longleftrightarrow> is_within F rules a b \<and> is_within F rules b a"
proof
  assume "same_path F rules a b"
  then have "key F rules a = key F rules b" by (simp add: same_path_def)
  moreover have "key F rules a \<noteq> []" by (simp add: key_absolute [OF assms(1)])
  ultimately show "is_within F rules a b \<and> is_within F rules b a" by (simp add: is_within_def Let_def)
next
  assume "is_within F rules a b \<and> is_within F rules b a"
  then have "segs a = segs b" using assms by (simp add: is_within_iff prefix_order.antisym)
  then show "same_path F rules a b"
    by (simp add: same_path_def key_absolute [OF assms(1)] key_absolute [OF assms(2)])
qed

end

text \<open>The foldings of the three systems, with ASCII tables for the closed examples.\<close>

definition ascii_folding :: folding where
  "ascii_folding = \<lparr>nfc = (\<lambda>s. s), str_lowercase = map to_ascii_lower\<rparr>"

lemma to_ascii_lower_slash [simp]: "to_ascii_lower c = SLASH \<longleftrightarrow> c = SLASH"
  by (auto simp: to_ascii_lower_def is_ascii_upper_def)

lemma ascii_path_folding: "path_folding ascii_folding rules"
  by unfold_locales (auto simp: normal_form_def ascii_folding_def image_iff Let_def)

interpretation linux: path_folding F LINUX for F
  by unfold_locales (auto simp: normal_form_def LINUX_def)

interpretation ascii: path_folding ascii_folding rules for rules
  by (rule ascii_path_folding)

section \<open>Relative paths\<close>

lemma linux_segments: "folded_segments F LINUX p = path_segments p"
proof -
  have "normal_form F LINUX = (\<lambda>s. s)" by (rule ext) (simp add: normal_form_def LINUX_def)
  then show ?thesis by (simp add: folded_segments_def unified_def LINUX_def)
qed

lemma linux_unified [simp]: "unified LINUX p = p"
  by (simp add: unified_def LINUX_def)

lemma relative_join_segments:
  assumes "starts_with [SLASH] root" "starts_with [SLASH] p" "relative_to F LINUX root p = Some rel"
  shows "path_segments (join_relative root rel) = path_segments p"
    and "starts_with [SLASH] (join_relative root rel)"
proof -
  have "prefix (path_segments root) (path_segments p)"
    using assms linux.is_within_iff [of root p F] by (simp add: relative_to_def linux_segments split: if_splits)
  then obtain zs where z: "path_segments p = path_segments root @ zs" by (auto simp: prefix_def)
  have rel: "rel = join [SLASH] zs"
    using assms(3) z by (simp add: relative_to_def normal_components_def split: if_splits)
  have "\<forall>s \<in> set zs. plain_segment s" using path_segments_plain [of _ p] z by auto
  from join_relative_segments [OF this assms(1)] show "path_segments (join_relative root rel) = path_segments p"
    "starts_with [SLASH] (join_relative root rel)" by (simp_all add: rel z)
qed

section \<open>Names for copies\<close>

lemma copy_candidate_inject:
  "0 < m \<Longrightarrow> 0 < n \<Longrightarrow> copy_candidate stem ext m = copy_candidate stem ext n \<Longrightarrow> m = n"
  by (auto simp: copy_candidate_def split: if_splits)

lemma copy_search_spec:
  assumes "n < 2 ^ 32"
  shows "case copy_search stem ext ex n of
      Some c \<Rightarrow> \<exists>k \<ge> n. c = copy_candidate stem ext k \<and> \<not> ex c \<and> (\<forall>j. n \<le> j \<and> j < k \<longrightarrow> ex (copy_candidate stem ext j))
    | None \<Rightarrow> \<forall>j. n \<le> j \<and> j < 2 ^ 32 \<longrightarrow> ex (copy_candidate stem ext j)"
  using assms
proof (induction stem ext ex n rule: copy_search.induct)
  case (1 stem ext ex n)
  have split: "P n \<Longrightarrow> (\<forall>j. n + 1 \<le> j \<and> j < k \<longrightarrow> P j) \<Longrightarrow> (\<forall>j. n \<le> j \<and> j < k \<longrightarrow> P j)" for P k
    by (metis Suc_eq_plus1 Suc_leI le_neq_implies_less)
  show ?case
  proof (cases "ex (copy_candidate stem ext n)")
    case False
    then have "copy_search stem ext ex n = Some (copy_candidate stem ext n)"
      by (subst copy_search.simps) simp
    then show ?thesis using False by (auto intro: exI [of _ n])
  next
    case True
    show ?thesis
    proof (cases "n + 1 < 2 ^ 32")
      case more: True
      then have eq: "copy_search stem ext ex n = copy_search stem ext ex (n + 1)"
        using True by (subst copy_search.simps) simp
      have IH: "case copy_search stem ext ex (n + 1) of
          Some c \<Rightarrow> \<exists>k \<ge> n + 1. c = copy_candidate stem ext k \<and> \<not> ex c \<and> (\<forall>j. n + 1 \<le> j \<and> j < k \<longrightarrow> ex (copy_candidate stem ext j))
        | None \<Rightarrow> \<forall>j. n + 1 \<le> j \<and> j < 2 ^ 32 \<longrightarrow> ex (copy_candidate stem ext j)"
        using "1.IH" True more by blast
      show ?thesis
      proof (cases "copy_search stem ext ex (n + 1)")
        case None
        then show ?thesis
          using IH eq split [of "\<lambda>j. ex (copy_candidate stem ext j)" "2 ^ 32"] True by simp
      next
        case (Some c)
        then obtain k where "k \<ge> n + 1" "c = copy_candidate stem ext k" "\<not> ex c"
          "\<forall>j. n + 1 \<le> j \<and> j < k \<longrightarrow> ex (copy_candidate stem ext j)" using IH by auto
        then show ?thesis
          unfolding eq Some using split [of "\<lambda>j. ex (copy_candidate stem ext j)" k] True
          by (auto intro!: exI [of _ k])
      qed
    next
      case False
      then have n: "n + 1 = 2 ^ 32" using "1.prems" by linarith
      have "copy_search stem ext ex n = None"
        using True False by (subst copy_search.simps) simp
      moreover have "j = n" if "n \<le> j" "j < 2 ^ 32" for j using that n by linarith
      ultimately show ?thesis using True by auto
    qed
  qed
qed

text \<open>Fewer taken names than numbers: the search ends with a free one.\<close>

lemma copy_name_fresh:
  assumes "finite {s. ex s}" "card {s. ex s} < 2 ^ 32 - 1"
  obtains c where "copy_name name ex = Some c" "\<not> ex c"
proof (cases "ex name")
  case False
  then show ?thesis using that by (simp add: copy_name_def)
next
  case True
  obtain stem ext where se: "split_extension name = (stem, ext)" by fastforce
  have eq: "copy_name name ex = copy_search stem ext ex 1" using True by (simp add: copy_name_def se)
  show ?thesis
  proof (cases "copy_search stem ext ex 1")
    case None
    then have all: "\<forall>j. 1 \<le> j \<and> j < 2 ^ 32 \<longrightarrow> ex (copy_candidate stem ext j)"
      using copy_search_spec [where n = 1 and stem = stem and ext = ext and ex = ex] by simp
    have "card (copy_candidate stem ext ` {1..<2 ^ 32}) = card {1..<(2::nat) ^ 32}"
      by (rule card_image) (auto simp: inj_on_def intro: copy_candidate_inject)
    moreover have "copy_candidate stem ext ` {1..<2 ^ 32} \<subseteq> {s. ex s}" using all by auto
    ultimately have "card {1..<(2::nat) ^ 32} \<le> card {s. ex s}" using card_mono [OF assms(1)] by metis
    then have "2 ^ 32 - 1 \<le> card {s. ex s}" by (simp only: card_atLeastLessThan)
    then show ?thesis using assms(2) by linarith
  next
    case (Some c)
    then show ?thesis using copy_search_spec [where n = 1 and stem = stem and ext = ext and ex = ex] that eq by auto
  qed
qed

end
