(* ===== verification/Terminal.thy ===== *)
theory Terminal
  imports Paths
begin

text \<open>
  Terminal rules (\<open>throng-core/src/terminal.rs\<close>): what a terminal panel remembers, where a shell
  starts, and the text forms of argument lists. Directory tests are a parameter.
\<close>

section \<open>The code\<close>

record terminal_config =
  t_shell :: "rstring option"
  t_args :: "rstring list"
  t_cwd :: "path option"
  startup_command :: "rstring option"
  remember_directory :: "bool option"
  last_directory :: "path option"
  remember_command :: bool
  running_cmd :: "rstring option"
  run_as_admin :: bool

definition terminal_default :: terminal_config where
  "terminal_default = \<lparr>t_shell = None, t_args = [], t_cwd = None, startup_command = None,
     remember_directory = None, last_directory = None, remember_command = False,
     running_cmd = None, run_as_admin = False\<rparr>"

definition observe :: "rstring option \<Rightarrow> terminal_config \<Rightarrow> bool \<times> terminal_config" where
  "observe running c =
     (let running = (if remember_command c then running else None)
      in if running_cmd c = running then (False, c) else (True, c\<lparr>running_cmd := running\<rparr>))"

definition capture :: "terminal_config \<Rightarrow> bool \<times> terminal_config" where
  "capture c =
     (let c' = c\<lparr>running_cmd := None\<rparr>
      in case running_cmd c of
           Some command \<Rightarrow>
             if remember_command c then (True, c'\<lparr>startup_command := Some command\<rparr>) else (True, c')
         | None \<Rightarrow> (False, c'))"

definition MAX_REMEMBERED_COMMAND :: nat where "MAX_REMEMBERED_COMMAND = 2048"

record shell_child =
  pid :: nat
  started :: nat
  argv :: "rstring list"

definition by_newest :: "shell_child \<Rightarrow> shell_child \<Rightarrow> bool" where
  "by_newest a b \<longleftrightarrow> started b < started a \<or> (started b = started a \<and> pid b \<le> pid a)"

definition newest_command :: "rstring list \<Rightarrow> shell_child list \<Rightarrow> shell_child option" where
  "newest_command shell children =
     find (\<lambda>c. argv c \<noteq> [] \<and> argv c \<noteq> shell) (sort_by by_newest children)"

definition memorable :: "rstring \<Rightarrow> rstring option" where
  "memorable command =
     (if trim command \<noteq> [] \<and> length command \<le> MAX_REMEMBERED_COMMAND \<and> \<not> list_ex is_control command
      then Some command else None)"

abbreviation QUOTE :: rchar where "QUOTE \<equiv> 39"
abbreviation DQUOTE :: rchar where "DQUOTE \<equiv> 34"

definition plain_char :: "rchar \<Rightarrow> bool" where
  "plain_char c \<longleftrightarrow> is_ascii_alphanumeric c \<or> c \<in> set (lit ''_@%+=:,./-'')"

text \<open>\<open>str::replace\<close> of one character.\<close>

definition replace_char :: "rchar \<Rightarrow> rstring \<Rightarrow> rstring \<Rightarrow> rstring" where
  "replace_char c by s = concat (map (\<lambda>x. if x = c then by else [x]) s)"

definition shell_quote :: "rstring \<Rightarrow> rstring" where
  "shell_quote word =
     (if word \<noteq> [] \<and> list_all plain_char word then word
      else [QUOTE] @ replace_char QUOTE [QUOTE, BACKSLASH, QUOTE, QUOTE] word @ [QUOTE])"

definition running_command :: "rstring list \<Rightarrow> shell_child list \<Rightarrow> rstring option" where
  "running_command shell_argv children =
     (case newest_command shell_argv children of
        None \<Rightarrow> None
      | Some child \<Rightarrow> memorable (join [SP] (map shell_quote (argv child))))"

definition running_command_line :: "rstring \<Rightarrow> shell_child list \<Rightarrow> rstring option" where
  "running_command_line shell_line children =
     (case newest_command [shell_line] children of
        None \<Rightarrow> None
      | Some child \<Rightarrow> memorable (trim (join [SP] (argv child))))"

definition start_directory ::
  "folding \<Rightarrow> terminal_config \<Rightarrow> path \<Rightarrow> bool \<Rightarrow> path_rules \<Rightarrow> (path \<Rightarrow> bool) \<Rightarrow> path" where
  "start_directory F c root remember_default rules is_dir =
     (let remember = (case remember_directory c of Some b \<Rightarrow> b | None \<Rightarrow> remember_default);
          remembered = (case last_directory c of Some dr \<Rightarrow> if remember then [dr] else [] | None \<Rightarrow> []);
          asked = (case t_cwd c of Some dr \<Rightarrow> [dr] | None \<Rightarrow> [])
      in case find (\<lambda>dr. is_within F rules root dr \<and> is_dir dr) (remembered @ asked) of
           Some dr \<Rightarrow> dr | None \<Rightarrow> root)"

text \<open>The reader of \<open>split_args\<close>: its state is the words so far, the current one, whether one
  has started, and the open quote.\<close>

fun split_args_from ::
  "rstring list \<Rightarrow> rstring \<Rightarrow> bool \<Rightarrow> rchar option \<Rightarrow> rstring \<Rightarrow> rstring list" where
  "split_args_from out cur st q [] = (if st then out @ [cur] else out)"
| "split_args_from out cur st (Some q) (c # cs) =
     (if c = q then split_args_from out cur st None cs
      else if q = DQUOTE \<and> c = BACKSLASH then
        (case cs of n # cs' \<Rightarrow> split_args_from out (cur @ [n]) True (Some q) cs'
         | [] \<Rightarrow> split_args_from out cur True (Some q) [])
      else split_args_from out (cur @ [c]) st (Some q) cs)"
| "split_args_from out cur st None (c # cs) =
     (if c = BACKSLASH then
        (case cs of n # cs' \<Rightarrow> split_args_from out (cur @ [n]) True None cs'
         | [] \<Rightarrow> split_args_from out cur True None [])
      else if c = QUOTE \<or> c = DQUOTE then split_args_from out cur True (Some c) cs
      else if is_whitespace c then
        (if st then split_args_from (out @ [cur]) [] False None cs
         else split_args_from out cur st None cs)
      else split_args_from out (cur @ [c]) True None cs)"

definition split_args :: "rstring \<Rightarrow> rstring list" where
  "split_args s = split_args_from [] [] False None s"

definition needs_quotes :: "rchar \<Rightarrow> bool" where
  "needs_quotes c \<longleftrightarrow> is_whitespace c \<or> c \<in> {QUOTE, DQUOTE, BACKSLASH}"

definition quote_arg :: "rstring \<Rightarrow> rstring" where
  "quote_arg a =
     (if a \<noteq> [] \<and> \<not> list_ex needs_quotes a then a
      else [QUOTE] @ replace_char QUOTE [QUOTE, DQUOTE, QUOTE, DQUOTE, QUOTE] a @ [QUOTE])"

definition join_args :: "rstring list \<Rightarrow> rstring" where
  "join_args args = join [SP] (map quote_arg args)"

record shell_info =
  si_id :: rstring
  si_label :: rstring
  si_program :: path
  si_args :: "rstring list"

record exit_status =
  es_code :: "int option"
  user_killed :: bool

definition should_surface_exit :: "exit_status \<Rightarrow> bool" where
  "should_surface_exit st \<longleftrightarrow> \<not> user_killed st \<and> es_code st \<noteq> Some 0"

record terminal_identity =
  ti_project :: "rstring option"
  ti_tab :: "rstring option"
  ti_panel :: "rstring option"
  ti_shell :: "rstring option"

definition show_int :: "int \<Rightarrow> rstring" where
  "show_int i = (if i < 0 then 45 # show_nat (nat (- i)) else show_nat (nat i))"

text \<open>A part of an identity that has something to show.\<close>

definition shown_part :: "rstring option \<Rightarrow> rstring list" where
  "shown_part p = (case p of None \<Rightarrow> [] | Some s \<Rightarrow> if trim s = [] then [] else [trim s])"

definition exit_notice :: "int option \<Rightarrow> terminal_identity \<Rightarrow> rstring" where
  "exit_notice c idn =
     (let code_text = (case c of None \<Rightarrow> [8212] | Some i \<Rightarrow> show_int i);
          head = lit ''Terminal exited (code '' @ code_text @ lit '')'';
          place = concat (map shown_part [ti_project idn, ti_tab idn, ti_panel idn]);
          suffix = join [SP, 8250, SP] place;
          suffix = (case shown_part (ti_shell idn) of
              [] \<Rightarrow> suffix
            | s # _ \<Rightarrow> (if suffix = [] then [] else suffix @ [SP]) @ lit ''('' @ s @ lit '')'')
      in if suffix = [] then head else head @ [SP, 8212, SP] @ suffix)"

datatype owner_close_action = KeepRunning | CloseIdle

definition owner_close :: "bool \<Rightarrow> owner_close_action" where
  "owner_close busy = (if busy then KeepRunning else CloseIdle)"

datatype close_choice = LeaveRunning | TerminateAll | CancelClose

definition is_private_env_var :: "rstring \<Rightarrow> bool" where
  "is_private_env_var name \<longleftrightarrow> starts_with (lit ''THRONG_'') name"

section \<open>Arguments read back as they were\<close>

lemma replace_char_simps [simp]:
  "replace_char q z [] = []" "replace_char q z (c # s) = (if c = q then z else [c]) @ replace_char q z s"
  by (simp_all add: replace_char_def)

lemma split_quoted:
  "split_args_from out cur True (Some QUOTE)
     (replace_char QUOTE [QUOTE, DQUOTE, QUOTE, DQUOTE, QUOTE] a @ QUOTE # rest)
   = split_args_from out (cur @ a) True None rest"
proof (induction a arbitrary: cur)
  case (Cons c a)
  show ?case using Cons.IH [of "cur @ [c]"] by (cases "c = QUOTE") simp_all
qed simp

lemma split_plain:
  "\<not> list_ex needs_quotes a \<Longrightarrow>
   split_args_from out cur st None (a @ rest) = split_args_from out (cur @ a) (st \<or> a \<noteq> []) None rest"
proof (induction a arbitrary: cur st)
  case (Cons c a)
  then show ?case by (simp add: needs_quotes_def)
qed simp

lemma split_quote_arg:
  "split_args_from out [] False None (quote_arg a @ rest) = split_args_from out a True None rest"
  using split_quoted [of out "[]" a rest] split_plain [of a out "[]" False rest]
  by (auto simp: quote_arg_def is_whitespace_def)

lemma join_args_Cons2: "join_args (a # b # as) = quote_arg a @ SP # join_args (b # as)"
  by (simp add: join_args_def)

lemma split_join_from: "split_args_from out [] False None (join_args as) = out @ as"
proof (induction as arbitrary: out rule: induct_list012)
  case 1
  then show ?case by (simp add: join_args_def)
next
  case (2 a)
  then show ?case using split_quote_arg [of out a "[]"] by (simp add: join_args_def)
next
  case (3 a b as)
  then show ?case
    using split_quote_arg [of out a "SP # join_args (b # as)"]
    by (simp add: join_args_Cons2) (simp add: is_whitespace_def)
qed

section \<open>A remembered command typed back\<close>

text \<open>
  The specification: the fragment of POSIX word splitting the quoting relies on. Blanks separate
  words; between single quotes every character stands for itself; a backslash quotes the next
  character. Any other character a shell gives a meaning to is outside the fragment (\<open>None\<close>).
\<close>

fun posix_words :: "rstring list \<Rightarrow> rstring \<Rightarrow> bool \<Rightarrow> bool \<Rightarrow> rstring \<Rightarrow> rstring list option" where
  "posix_words out cur st True [] = None"
| "posix_words out cur st False [] = Some (if st then out @ [cur] else out)"
| "posix_words out cur st True (c # cs) =
     (if c = QUOTE then posix_words out cur True False cs else posix_words out (cur @ [c]) True True cs)"
| "posix_words out cur st False (c # cs) =
     (if c = QUOTE then posix_words out cur True True cs
      else if c = BACKSLASH then
        (case cs of n # cs' \<Rightarrow> posix_words out (cur @ [n]) True False cs' | [] \<Rightarrow> None)
      else if c = SP then
        (if st then posix_words (out @ [cur]) [] False False cs else posix_words out cur st False cs)
      else if plain_char c then posix_words out (cur @ [c]) True False cs
      else None)"

lemma posix_quoted:
  "posix_words out cur True True (replace_char QUOTE [QUOTE, BACKSLASH, QUOTE, QUOTE] w @ QUOTE # rest)
   = posix_words out (cur @ w) True False rest"
proof (induction w arbitrary: cur)
  case (Cons c w)
  show ?case using Cons.IH [of "cur @ [c]"] by (cases "c = QUOTE") simp_all
qed simp

lemma plain_char_neq: "plain_char c \<Longrightarrow> c \<noteq> QUOTE \<and> c \<noteq> BACKSLASH \<and> c \<noteq> SP"
  by (auto simp: plain_char_def is_ascii_alphanumeric_def is_ascii_digit_def is_ascii_upper_def
      is_ascii_lower_def)

lemma posix_plain:
  "list_all plain_char w \<Longrightarrow>
   posix_words out cur st False (w @ rest) = posix_words out (cur @ w) (st \<or> w \<noteq> []) False rest"
proof (induction w arbitrary: cur st)
  case (Cons c w)
  then show ?case using plain_char_neq [of c] by simp
qed simp

lemma posix_shell_quote:
  "posix_words out [] False False (shell_quote w @ rest) = posix_words out w True False rest"
  using posix_quoted [of out "[]" w rest] posix_plain [of w out "[]" False rest]
  by (auto simp: shell_quote_def)

lemma posix_words_join: "posix_words out [] False False (join [SP] (map shell_quote ws)) = Some (out @ ws)"
proof (induction ws arbitrary: out rule: induct_list012)
  case (2 w)
  then show ?case using posix_shell_quote [of out w "[]"] by simp
next
  case (3 w w' ws)
  then show ?case using posix_shell_quote [of out w "SP # join [SP] (map shell_quote (w' # ws))"] by simp
qed simp

lemma by_newest_sorted: "sorted_wrt by_newest (sort_by by_newest xs)"
  by (rule sorted_sort_by) (auto simp: by_newest_def)

lemma newest_command_Some:
  assumes "newest_command shell children = Some c"
  shows "c \<in> set children" "argv c \<noteq> []" "argv c \<noteq> shell"
    and "\<And>c'. c' \<in> set children \<Longrightarrow> argv c' \<noteq> [] \<Longrightarrow> argv c' \<noteq> shell \<Longrightarrow> by_newest c c'"
proof -
  let ?s = "sort_by by_newest children"
  obtain i where i: "i < length ?s" "c = ?s ! i" "argv c \<noteq> []" "argv c \<noteq> shell"
    "\<forall>j < i. \<not> (argv (?s ! j) \<noteq> [] \<and> argv (?s ! j) \<noteq> shell)"
    using assms unfolding newest_command_def find_Some_iff by auto
  show "c \<in> set children" using i nth_mem by (metis set_sort_by)
  show "argv c \<noteq> []" "argv c \<noteq> shell" by (rule i)+
  fix c' assume c': "c' \<in> set children" "argv c' \<noteq> []" "argv c' \<noteq> shell"
  then obtain j where j: "j < length ?s" "c' = ?s ! j" by (metis in_set_conv_nth set_sort_by)
  with i(5) c' have "i \<le> j" by (meson not_le)
  show "by_newest c c'"
  proof (cases "i = j")
    case True
    then show ?thesis using i j by (simp add: by_newest_def)
  next
    case False
    with \<open>i \<le> j\<close> show ?thesis
      using by_newest_sorted [of children] i j by (simp add: sorted_wrt_iff_nth_less)
  qed
qed

section \<open>Where a shell starts\<close>

lemma start_directory_cases:
  "start_directory F c root dflt rules is_dir = root
   \<or> (is_within F rules root (start_directory F c root dflt rules is_dir)
      \<and> is_dir (start_directory F c root dflt rules is_dir))"
  by (auto simp: start_directory_def Let_def find_Some_iff find_None_iff split: option.split)

end
