(* ===== verification/OrdMap.thy ===== *)
theory OrdMap
  imports Prelude
begin

text \<open>
  \<open>BTreeMap\<close>: entries in ascending order of their keys, one per key. What the clients rely on
  is the locale \<open>store\<close>, an interface of lookup, insertion and removal under an invariant;
  the model of the standard library's map satisfies it.
\<close>

section \<open>The interface\<close>

locale store =
  fixes lookup :: "'m \<Rightarrow> 'k \<Rightarrow> 'v option"
    and ins :: "'k \<Rightarrow> 'v \<Rightarrow> 'm \<Rightarrow> 'm"
    and del :: "'k \<Rightarrow> 'm \<Rightarrow> 'm"
    and invar :: "'m \<Rightarrow> bool"
  assumes lookup_ins: "invar m \<Longrightarrow> lookup (ins k v m) = (lookup m)(k \<mapsto> v)"
    and lookup_del: "invar m \<Longrightarrow> lookup (del k m) = (lookup m)(k := None)"
    and invar_ins: "invar m \<Longrightarrow> invar (ins k v m)"
    and invar_del: "invar m \<Longrightarrow> invar (del k m)"
begin

lemma dom_ins: "invar m \<Longrightarrow> dom (lookup (ins k v m)) = insert k (dom (lookup m))"
  by (simp add: lookup_ins)

lemma dom_del: "invar m \<Longrightarrow> dom (lookup (del k m)) = dom (lookup m) - {k}"
  by (simp add: lookup_del)

lemma invar_del_all: "invar m \<Longrightarrow> invar (fold del ks m)"
  by (induction ks arbitrary: m) (simp_all add: invar_del)

lemma dom_del_all: "invar m \<Longrightarrow> dom (lookup (fold del ks m)) = dom (lookup m) - set ks"
proof (induction ks arbitrary: m)
  case (Cons k ks)
  then show ?case by (auto simp: invar_del dom_del)
qed simp

lemma lookup_del_all: "invar m \<Longrightarrow> k \<notin> set ks \<Longrightarrow> lookup (fold del ks m) k = lookup m k"
proof (induction ks arbitrary: m)
  case (Cons k' ks)
  then show ?case by (simp add: invar_del lookup_del)
qed simp

end

section \<open>The map\<close>

fun bt_insert :: "'k::linorder \<Rightarrow> 'v \<Rightarrow> ('k \<times> 'v) list \<Rightarrow> ('k \<times> 'v) list" where
  "bt_insert k v [] = [(k, v)]"
| "bt_insert k v ((k', v') # m) =
     (if k < k' then (k, v) # (k', v') # m
      else if k = k' then (k, v) # m
      else (k', v') # bt_insert k v m)"

definition bt_remove :: "'k \<Rightarrow> ('k \<times> 'v) list \<Rightarrow> ('k \<times> 'v) list" where
  "bt_remove k m = filter (\<lambda>e. fst e \<noteq> k) m"

definition bt_inv :: "('k::linorder \<times> 'v) list \<Rightarrow> bool" where
  "bt_inv m \<longleftrightarrow> sorted_wrt (<) (map fst m)"

lemma bt_inv_Nil [simp]: "bt_inv []"
  by (simp add: bt_inv_def)

lemma fst_bt_insert: "fst ` set (bt_insert k v m) = insert k (fst ` set m)"
  by (induction k v m rule: bt_insert.induct) auto

lemma map_of_bt_insert: "map_of (bt_insert k v m) = (map_of m)(k \<mapsto> v)"
  by (induction k v m rule: bt_insert.induct) (auto simp: fun_eq_iff)

lemma bt_inv_insert: "bt_inv m \<Longrightarrow> bt_inv (bt_insert k v m)"
proof (induction k v m rule: bt_insert.induct)
  case (2 k v k' v' m)
  have "set (map fst (bt_insert k v m)) = insert k (set (map fst m))"
    using fst_bt_insert [of k v m] by simp
  with 2 show ?case by (auto simp: bt_inv_def)
qed (simp add: bt_inv_def)

lemma map_of_bt_remove: "map_of (bt_remove k m) = (map_of m)(k := None)"
  by (induction m) (auto simp: bt_remove_def fun_eq_iff)

lemma bt_inv_remove: "bt_inv m \<Longrightarrow> bt_inv (bt_remove k m)"
  by (auto simp: bt_inv_def bt_remove_def sorted_wrt_map intro: sorted_wrt_filter)

interpretation bt: store map_of bt_insert bt_remove bt_inv
  by unfold_locales (simp_all add: map_of_bt_insert map_of_bt_remove bt_inv_insert bt_inv_remove)

lemma bt_inv_distinct: "bt_inv m \<Longrightarrow> distinct (map fst m)"
  by (simp add: bt_inv_def strict_sorted_iff)

lemma bt_inv_map_values: "map fst m' = map fst m \<Longrightarrow> bt_inv m' \<longleftrightarrow> bt_inv m"
  by (simp add: bt_inv_def)

lemma bt_mem: "bt_inv m \<Longrightarrow> (k, v) \<in> set m \<longleftrightarrow> map_of m k = Some v"
  by (metis bt_inv_distinct map_of_eq_Some_iff)

lemma bt_keys: "fst ` set m = dom (map_of m)"
  by (simp add: dom_map_of_conv_image_fst)

end
