(* ===== verification/Workspace.thy ===== *)
theory Workspace
  imports Terminal OrdMap Complex_Main
begin

text \<open>
  The docking workspace (\<open>throng-core/src/workspace.rs\<close>): a project's tabs, each with a split tree
  whose leaves hold panels, and the records of the panels. Identities are numbers (UUIDs in the
  code); an operation that makes a fresh one takes it as an argument. A split's share is a finite
  single-precision number, given by its rational value, or not finite. The stored form is read by
  \<open>serde_json\<close>, a parameter.
\<close>

section \<open>Data\<close>

type_synonym ident = nat

definition LAYOUT_SCHEMA_VERSION :: nat where "LAYOUT_SCHEMA_VERSION = 1"

datatype f32 = Finite rat | NotFinite

text \<open>The single-precision values of \<open>0.05\<close> and \<open>1.0 - 0.05\<close>.\<close>

definition MIN_FRACTION :: rat where "MIN_FRACTION = 13421773 / 2 ^ 28"
definition MAX_FRACTION :: rat where "MAX_FRACTION = 15938355 / 2 ^ 24"

datatype axis = Horizontal | Vertical

datatype split_tree =
  Leaf "ident list" nat
| Split axis f32 split_tree split_tree

datatype placement = Stack | Right | Below | Left | Above

record history_entry =
  he_path :: path
  he_scroll :: nat

record preview_config =
  pv_path :: path
  pv_history :: "history_entry list"
  pv_at :: nat

record search_config =
  sc_term :: rstring
  sc_case_sensitive :: bool
  sc_whole_word :: bool
  sc_scope :: rstring
  sc_replace :: bool
  sc_replacement :: rstring
  sc_group_by_folder :: bool

record editor_config =
  ed_path :: "path option"

record mirror_config =
  mi_project :: ident
  mi_panel :: ident

datatype panel_kind =
  Untyped
| Terminal terminal_config
| Editor editor_config
| Search search_config
| Preview preview_config
| Mirror mirror_config

record panel =
  p_id :: ident
  origin_project :: ident
  p_title :: rstring
  p_title_is_custom :: bool
  p_kind :: panel_kind

record tab =
  tab_id :: ident
  tab_title :: rstring
  tab_title_is_custom :: bool
  t_root :: split_tree
  active_panel :: "ident option"

record layout =
  l_version :: nat
  l_tabs :: "tab list"
  active_tab :: "ident option"
  panels :: "(ident \<times> panel) list"
  away :: "ident list"

datatype layout_error =
  Parse rstring
| NewerVersion nat
| MissingPanel ident
| DuplicatePanel ident
| EmptyTab

section \<open>Preview history\<close>

definition preview_new :: "path \<Rightarrow> preview_config" where
  "preview_new p = \<lparr>pv_path = p, pv_history = [], pv_at = 0\<rparr>"

text \<open>The history's current entry names the file shown.\<close>

definition at_shown :: "preview_config \<Rightarrow> bool" where
  "at_shown c \<longleftrightarrow> pv_at c < length (pv_history c) \<and> he_path (pv_history c ! pv_at c) = pv_path c"

definition preview_started :: "preview_config \<Rightarrow> preview_config" where
  "preview_started c =
     (if at_shown c then c
      else c\<lparr>pv_history := [\<lparr>he_path = pv_path c, he_scroll = 0\<rparr>], pv_at := 0\<rparr>)"

definition preview_cap :: "nat \<Rightarrow> preview_config \<Rightarrow> preview_config" where
  "preview_cap n c =
     (let excess = length (pv_history c) - max n 1;
          dr = min excess (pv_at c);
          pos = pv_at c - dr
      in c\<lparr>pv_history := take (max (max n 1) (pos + 1)) (drop dr (pv_history c)), pv_at := pos\<rparr>)"

definition set_scroll :: "nat \<Rightarrow> nat \<Rightarrow> history_entry list \<Rightarrow> history_entry list" where
  "set_scroll i scroll es = es[i := (es ! i)\<lparr>he_scroll := scroll\<rparr>]"

definition preview_open :: "path \<Rightarrow> nat \<Rightarrow> nat \<Rightarrow> preview_config \<Rightarrow> preview_config" where
  "preview_open p scroll n c =
     (let c = preview_started c;
          h = take (pv_at c + 1) (set_scroll (pv_at c) scroll (pv_history c)) @ [\<lparr>he_path = p, he_scroll = 0\<rparr>]
      in preview_cap n (c\<lparr>pv_history := h, pv_path := p, pv_at := length h - 1\<rparr>))"

definition preview_step :: "nat \<Rightarrow> nat \<Rightarrow> preview_config \<Rightarrow> history_entry option \<times> preview_config" where
  "preview_step scroll to c =
     (let h = set_scroll (pv_at c) scroll (pv_history c); entry = h ! to
      in (Some entry, c\<lparr>pv_history := h, pv_at := to, pv_path := he_path entry\<rparr>))"

definition preview_back :: "nat \<Rightarrow> preview_config \<Rightarrow> history_entry option \<times> preview_config" where
  "preview_back scroll c =
     (let c = preview_started c
      in if pv_at c = 0 then (None, c) else preview_step scroll (pv_at c - 1) c)"

definition preview_forward :: "nat \<Rightarrow> preview_config \<Rightarrow> history_entry option \<times> preview_config" where
  "preview_forward scroll c =
     (let c = preview_started c; nxt = pv_at c + 1
      in if nxt < length (pv_history c) then preview_step scroll nxt c else (None, c))"

definition can_back :: "preview_config \<Rightarrow> bool" where
  "can_back c \<longleftrightarrow> pv_at c > 0 \<and> at_shown c"

definition can_forward :: "preview_config \<Rightarrow> bool" where
  "can_forward c \<longleftrightarrow> pv_at c + 1 < length (pv_history c) \<and> at_shown c"

definition preview_rebase :: "(path \<Rightarrow> path option) \<Rightarrow> preview_config \<Rightarrow> preview_config" where
  "preview_rebase rebased c =
     (let follow = (\<lambda>p. case rebased p of Some q \<Rightarrow> q | None \<Rightarrow> p)
      in c\<lparr>pv_path := follow (pv_path c),
           pv_history := map (\<lambda>e. e\<lparr>he_path := follow (he_path e)\<rparr>) (pv_history c)\<rparr>)"

section \<open>Split trees\<close>

definition leaf :: "ident \<Rightarrow> split_tree" where
  "leaf p = Leaf [p] 0"

fun tree_panels :: "split_tree \<Rightarrow> ident list" where
  "tree_panels (Leaf ps a) = ps"
| "tree_panels (Split ax fr f s) = tree_panels f @ tree_panels s"

fun tree_contains :: "ident \<Rightarrow> split_tree \<Rightarrow> bool" where
  "tree_contains p (Leaf ps a) = (p \<in> set ps)"
| "tree_contains p (Split ax fr f s) = (tree_contains p f \<or> tree_contains p s)"

fun tree_is_empty :: "split_tree \<Rightarrow> bool" where
  "tree_is_empty (Leaf ps a) = (ps = [])"
| "tree_is_empty (Split ax fr f s) = False"

definition clamp_fraction :: "f32 \<Rightarrow> f32" where
  "clamp_fraction fr =
     (let x = (case fr of NotFinite \<Rightarrow> 1 / 2 | Finite q \<Rightarrow> q)
      in Finite (max MIN_FRACTION (min MAX_FRACTION x)))"

fun normalize :: "split_tree \<Rightarrow> split_tree" where
  "normalize (Leaf ps a) = Leaf ps (if a \<ge> length ps then length ps - 1 else a)"
| "normalize (Split ax fr f s) =
     (let f = normalize f; s = normalize s
      in if tree_is_empty f then s
         else if tree_is_empty s then f
         else Split ax (clamp_fraction fr) f s)"

fun remove_inner :: "ident \<Rightarrow> split_tree \<Rightarrow> bool \<times> split_tree" where
  "remove_inner p (Leaf ps a) =
     (case position (\<lambda>x. x = p) ps of
        None \<Rightarrow> (False, Leaf ps a)
      | Some i \<Rightarrow>
          (let ps' = remove_at i ps
           in (True, Leaf ps' (if a \<ge> length ps' then length ps' - 1
                               else if i < a then a - 1 else a))))"
| "remove_inner p (Split ax fr f s) =
     (case remove_inner p f of
        (True, f') \<Rightarrow> (True, Split ax fr f' s)
      | (False, f') \<Rightarrow> (case remove_inner p s of (found, s') \<Rightarrow> (found, Split ax fr f' s')))"

definition tree_remove :: "ident \<Rightarrow> split_tree \<Rightarrow> bool \<times> split_tree" where
  "tree_remove p t = (case remove_inner p t of (found, t') \<Rightarrow> (found, normalize t'))"

text \<open>The split a placement other than \<open>Stack\<close> makes of a leaf.\<close>

definition split_beside :: "ident \<Rightarrow> placement \<Rightarrow> split_tree \<Rightarrow> split_tree" where
  "split_beside new pl existing =
     (let half = Finite (1 / 2)
      in case pl of
           Right \<Rightarrow> Split Horizontal half existing (leaf new)
         | Left \<Rightarrow> Split Horizontal half (leaf new) existing
         | Below \<Rightarrow> Split Vertical half existing (leaf new)
         | Above \<Rightarrow> Split Vertical half (leaf new) existing
         | Stack \<Rightarrow> existing)"

fun tree_insert :: "ident \<Rightarrow> ident \<Rightarrow> placement \<Rightarrow> split_tree \<Rightarrow> bool \<times> split_tree" where
  "tree_insert anc new pl (Leaf ps a) =
     (case position (\<lambda>x. x = anc) ps of
        None \<Rightarrow> (False, Leaf ps a)
      | Some i \<Rightarrow>
          if pl = Stack then (True, Leaf (insert_at (i + 1) new ps) (i + 1))
          else (True, split_beside new pl (Leaf ps a)))"
| "tree_insert anc new pl (Split ax fr f s) =
     (case tree_insert anc new pl f of
        (True, f') \<Rightarrow> (True, Split ax fr f' s)
      | (False, f') \<Rightarrow> (case tree_insert anc new pl s of (found, s') \<Rightarrow> (found, Split ax fr f' s')))"

fun tree_activate :: "ident \<Rightarrow> split_tree \<Rightarrow> bool \<times> split_tree" where
  "tree_activate p (Leaf ps a) =
     (case position (\<lambda>x. x = p) ps of Some i \<Rightarrow> (True, Leaf ps i) | None \<Rightarrow> (False, Leaf ps a))"
| "tree_activate p (Split ax fr f s) =
     (case tree_activate p f of
        (True, f') \<Rightarrow> (True, Split ax fr f' s)
      | (False, f') \<Rightarrow> (case tree_activate p s of (found, s') \<Rightarrow> (found, Split ax fr f' s')))"

section \<open>Layouts: reading and checking\<close>

fun check_panels :: "(ident \<times> panel) list \<Rightarrow> ident list \<Rightarrow> ident list \<Rightarrow> layout_error + ident list" where
  "check_panels recs seen [] = Inr seen"
| "check_panels recs seen (p # ps) =
     (if p \<in> set seen then Inl (DuplicatePanel p)
      else if map_of recs p = None then Inl (MissingPanel p)
      else check_panels recs (p # seen) ps)"

fun check_tabs :: "(ident \<times> panel) list \<Rightarrow> ident list \<Rightarrow> tab list \<Rightarrow> layout_error + ident list" where
  "check_tabs recs seen [] = Inr seen"
| "check_tabs recs seen (t # ts) =
     (if tree_panels (t_root t) = [] then Inl EmptyTab
      else (case check_panels recs seen (tree_panels (t_root t)) of
              Inl e \<Rightarrow> Inl e
            | Inr seen \<Rightarrow> check_tabs recs seen ts))"

definition check :: "layout \<Rightarrow> layout_error option" where
  "check l = (case check_tabs (panels l) [] (l_tabs l) of Inl e \<Rightarrow> Some e | Inr _ \<Rightarrow> None)"

text \<open>What \<open>serde_json\<close> reads: its error, or the version (when there is one) and the layout.\<close>

type_synonym layout_reader = "rstring \<Rightarrow> rstring + (nat option \<times> (rstring + layout))"

definition from_json :: "layout_reader \<Rightarrow> rstring \<Rightarrow> layout_error + layout" where
  "from_json J doc =
     (case J doc of
        Inl e \<Rightarrow> Inl (Parse e)
      | Inr (v, value) \<Rightarrow>
          (let version = (case v of None \<Rightarrow> 0 | Some n \<Rightarrow> n) mod 2 ^ 32
           in if version > LAYOUT_SCHEMA_VERSION then Inl (NewerVersion version)
              else (case value of
                      Inl e \<Rightarrow> Inl (Parse e)
                    | Inr l \<Rightarrow> (case check l of Some e \<Rightarrow> Inl e | None \<Rightarrow> Inr l))))"

definition live_panels :: "layout \<Rightarrow> ident list" where
  "live_panels l = concat (map (tree_panels \<circ> t_root) (l_tabs l))"

definition prune_orphans :: "layout \<Rightarrow> panel list \<times> layout" where
  "prune_orphans l =
     (let l = l\<lparr>away := filter (\<lambda>i. map_of (panels l) i \<noteq> None) (away l)\<rparr>;
          live = live_panels l @ away l;
          orphans = filter (\<lambda>i. i \<notin> set live) (map fst (panels l))
      in (List.map_filter (map_of (panels l)) orphans,
          l\<lparr>panels := fold bt_remove orphans (panels l)\<rparr>))"

definition tab_by_id :: "ident \<Rightarrow> layout \<Rightarrow> tab option" where
  "tab_by_id i l = find (\<lambda>t. tab_id t = i) (l_tabs l)"

text \<open>\<open>tab_mut\<close>: change the first tab with an id.\<close>

fun update_first :: "('a \<Rightarrow> bool) \<Rightarrow> ('a \<Rightarrow> 'a) \<Rightarrow> 'a list \<Rightarrow> 'a list" where
  "update_first P f [] = []"
| "update_first P f (x # xs) = (if P x then f x # xs else x # update_first P f xs)"

definition tab_mut :: "ident \<Rightarrow> (tab \<Rightarrow> tab) \<Rightarrow> layout \<Rightarrow> layout" where
  "tab_mut i f l = l\<lparr>l_tabs := update_first (\<lambda>t. tab_id t = i) f (l_tabs l)\<rparr>"

definition shown_tab :: "layout \<Rightarrow> tab option" where
  "shown_tab l =
     (case active_tab l of
        None \<Rightarrow> (case l_tabs l of [] \<Rightarrow> None | t # _ \<Rightarrow> Some t)
      | Some i \<Rightarrow>
          (case tab_by_id i l of
             Some t \<Rightarrow> Some t
           | None \<Rightarrow> (case l_tabs l of [] \<Rightarrow> None | t # _ \<Rightarrow> Some t)))"

definition tab_of :: "ident \<Rightarrow> layout \<Rightarrow> ident option" where
  "tab_of p l = map_option tab_id (find (\<lambda>t. tree_contains p (t_root t)) (l_tabs l))"

definition numbered :: "rstring \<Rightarrow> rstring \<Rightarrow> nat option" where
  "numbered pre title =
     (case strip_prefix pre title of
        None \<Rightarrow> None
      | Some r \<Rightarrow> (case strip_prefix [SP] r of None \<Rightarrow> None | Some d \<Rightarrow> parse_u64 d))"

definition next_numbered :: "rstring \<Rightarrow> rstring list \<Rightarrow> rstring" where
  "next_numbered pre taken =
     pre @ [SP] @ show_nat (first_unused (List.map_filter (numbered pre) taken) 1)"

definition next_panel_title :: "layout \<Rightarrow> rstring" where
  "next_panel_title l = next_numbered (lit ''Panel'') (map (p_title \<circ> snd) (panels l))"

definition next_tab_title :: "layout \<Rightarrow> rstring" where
  "next_tab_title l = next_numbered (lit ''Tab'') (map tab_title (l_tabs l))"

section \<open>Layouts: operations\<close>

definition new_panel :: "ident \<Rightarrow> ident \<Rightarrow> panel_kind \<Rightarrow> layout \<Rightarrow> layout" where
  "new_panel npid project kind l =
     l\<lparr>panels := bt_insert npid
        \<lparr>p_id = npid, origin_project = project, p_title = next_panel_title l,
         p_title_is_custom = False, p_kind = kind\<rparr> (panels l)\<rparr>"

text \<open>A tab of its own for a panel, made active.\<close>

definition push_tab :: "ident \<Rightarrow> ident \<Rightarrow> layout \<Rightarrow> layout" where
  "push_tab tid p l =
     l\<lparr>l_tabs := l_tabs l @ [\<lparr>tab_id = tid, tab_title = next_tab_title l, tab_title_is_custom = False,
                           t_root = leaf p, active_panel = Some p\<rparr>],
       active_tab := Some tid\<rparr>"

definition add_tab :: "ident \<Rightarrow> ident \<Rightarrow> ident \<Rightarrow> panel_kind \<Rightarrow> layout \<Rightarrow> layout" where
  "add_tab npid tid project kind l = push_tab tid npid (new_panel npid project kind l)"

definition new_default :: "ident \<Rightarrow> ident \<Rightarrow> ident \<Rightarrow> layout" where
  "new_default npid tid project =
     add_tab npid tid project Untyped
       \<lparr>l_version = LAYOUT_SCHEMA_VERSION, l_tabs = [], active_tab = None, panels = [], away = []\<rparr>"

text \<open>The panel new ones go beside: the shown tab's active panel, else its first.\<close>

definition focus_anchor :: "layout \<Rightarrow> ident option" where
  "focus_anchor l =
     (case shown_tab l of
        None \<Rightarrow> None
      | Some t \<Rightarrow>
          (case active_panel t of
             Some p \<Rightarrow> Some p
           | None \<Rightarrow> (case tree_panels (t_root t) of [] \<Rightarrow> None | p # _ \<Rightarrow> Some p)))"

definition in_some_tab :: "layout \<Rightarrow> ident option \<Rightarrow> ident option" where
  "in_some_tab l anc = (case anc of None \<Rightarrow> None | Some a \<Rightarrow> if tab_of a l \<noteq> None then Some a else None)"

definition place :: "ident \<Rightarrow> ident \<Rightarrow> ident option \<Rightarrow> placement \<Rightarrow> layout \<Rightarrow> layout" where
  "place tid p anc pl l =
     (let anc = (case in_some_tab l anc of Some a \<Rightarrow> Some a | None \<Rightarrow> in_some_tab l (focus_anchor l))
      in case anc of
           None \<Rightarrow> push_tab tid p l
         | Some a \<Rightarrow>
             (case tab_of a l of
                None \<Rightarrow> l
              | Some i \<Rightarrow>
                  (tab_mut i (\<lambda>t. t\<lparr>t_root := snd (tree_insert a p pl (t_root t)), active_panel := Some p\<rparr>) l)
                    \<lparr>active_tab := Some i\<rparr>))"

definition add_panel ::
  "ident \<Rightarrow> ident \<Rightarrow> ident \<Rightarrow> ident option \<Rightarrow> placement \<Rightarrow> panel_kind \<Rightarrow> layout \<Rightarrow> layout" where
  "add_panel npid tid project anc pl kind l =
     (let anc = (case anc of Some a \<Rightarrow> Some a | None \<Rightarrow> focus_anchor l)
      in if in_some_tab l anc = None then add_tab npid tid project kind l
         else place tid npid anc pl (new_panel npid project kind l))"

definition close_tab_inner :: "ident \<Rightarrow> layout \<Rightarrow> layout" where
  "close_tab_inner tid l =
     (case position (\<lambda>t. tab_id t = tid) (l_tabs l) of
        None \<Rightarrow> l
      | Some index \<Rightarrow>
          (let ts = remove_at index (l_tabs l); nxt = (if index > 0 then index - 1 else 0)
           in l\<lparr>l_tabs := ts,
                active_tab := (if active_tab l = Some tid \<or> active_tab l = None
                               then (if nxt < length ts then Some (tab_id (ts ! nxt)) else None)
                               else active_tab l)\<rparr>))"

definition detach :: "ident \<Rightarrow> layout \<Rightarrow> bool \<times> layout" where
  "detach p l =
     (case tab_of p l of
        None \<Rightarrow> (False, l)
      | Some tid \<Rightarrow>
          (case tab_by_id tid l of
             None \<Rightarrow> (False, l)
           | Some t \<Rightarrow>
               (let order = tree_panels (t_root t)
                in case position (\<lambda>x. x = p) order of
                     None \<Rightarrow> (False, l)
                   | Some index \<Rightarrow>
                       (let t1 = t\<lparr>t_root := snd (tree_remove p (t_root t))\<rparr>
                        in if tree_panels (t_root t1) = [] then
                             (True, close_tab_inner tid (tab_mut tid (\<lambda>_. t1) l))
                           else if active_panel t1 = Some p \<or> active_panel t1 = None then
                             (let nxt = (if index > 0 then order ! (index - 1) else order ! 1)
                              in (True, tab_mut tid (\<lambda>_. t1\<lparr>active_panel := Some nxt,
                                    t_root := snd (tree_activate nxt (t_root t1))\<rparr>) l))
                           else (True, tab_mut tid (\<lambda>_. t1) l)))))"

definition remove_panel :: "ident \<Rightarrow> layout \<Rightarrow> panel option \<times> layout" where
  "remove_panel p l =
     (case detach p l of
        (found, l') \<Rightarrow>
          if \<not> found \<and> p \<notin> set (away l') then (None, l')
          else (map_of (panels l') p,
                l'\<lparr>away := filter (\<lambda>x. x \<noteq> p) (away l'), panels := bt_remove p (panels l')\<rparr>))"

definition send_away :: "ident \<Rightarrow> layout \<Rightarrow> bool \<times> layout" where
  "send_away p l =
     (case detach p l of
        (False, l') \<Rightarrow> (False, l')
      | (True, l') \<Rightarrow> (True, l'\<lparr>away := away l' @ [p]\<rparr>))"

definition is_away :: "ident \<Rightarrow> layout \<Rightarrow> bool" where
  "is_away p l \<longleftrightarrow> p \<in> set (away l)"

definition bring_back :: "ident \<Rightarrow> ident \<Rightarrow> layout \<Rightarrow> bool \<times> layout" where
  "bring_back tid p l =
     (case position (\<lambda>x. x = p) (away l) of
        None \<Rightarrow> (False, l)
      | Some i \<Rightarrow> (True, place tid p None Stack (l\<lparr>away := remove_at i (away l)\<rparr>)))"

definition close_tab :: "ident \<Rightarrow> layout \<Rightarrow> panel list \<times> layout" where
  "close_tab tid l =
     (case tab_by_id tid l of
        None \<Rightarrow> ([], l)
      | Some t \<Rightarrow>
          (let ids = tree_panels (t_root t); l' = close_tab_inner tid l
           in (List.map_filter (map_of (panels l')) ids,
               l'\<lparr>panels := fold bt_remove ids (panels l')\<rparr>)))"

definition focus_panel :: "ident \<Rightarrow> layout \<Rightarrow> bool \<times> layout" where
  "focus_panel p l =
     (case tab_of p l of
        None \<Rightarrow> (False, l)
      | Some i \<Rightarrow>
          (True, (tab_mut i (\<lambda>t. t\<lparr>active_panel := Some p, t_root := snd (tree_activate p (t_root t))\<rparr>) l)
                   \<lparr>active_tab := Some i\<rparr>))"

text \<open>\<open>get_mut\<close> on a record.\<close>

definition panel_mut :: "ident \<Rightarrow> (panel \<Rightarrow> panel) \<Rightarrow> layout \<Rightarrow> layout" where
  "panel_mut i f l = l\<lparr>panels := map (\<lambda>(k, p). (k, if k = i then f p else p)) (panels l)\<rparr>"

definition rename_panel :: "ident \<Rightarrow> rstring \<Rightarrow> layout \<Rightarrow> bool \<times> layout" where
  "rename_panel p title l =
     (let title = trim title
      in if map_of (panels l) p = None then (False, l)
         else if title = [] then
           (True, panel_mut p (\<lambda>r. r\<lparr>p_title := next_panel_title l, p_title_is_custom := False\<rparr>) l)
         else (True, panel_mut p (\<lambda>r. r\<lparr>p_title := title, p_title_is_custom := True\<rparr>) l))"

definition rename_tab :: "ident \<Rightarrow> rstring \<Rightarrow> layout \<Rightarrow> bool \<times> layout" where
  "rename_tab tid title l =
     (let title = trim title
      in if tab_by_id tid l = None then (False, l)
         else if title = [] then
           (True, tab_mut tid (\<lambda>t. t\<lparr>tab_title := next_tab_title l, tab_title_is_custom := False\<rparr>) l)
         else (True, tab_mut tid (\<lambda>t. t\<lparr>tab_title := title, tab_title_is_custom := True\<rparr>) l))"

definition set_kind :: "ident \<Rightarrow> panel_kind \<Rightarrow> layout \<Rightarrow> bool \<times> layout" where
  "set_kind p kind l =
     (if map_of (panels l) p = None then (False, l)
      else (True, panel_mut p (\<lambda>r. r\<lparr>p_kind := kind\<rparr>) l))"

definition move_tab :: "ident \<Rightarrow> nat \<Rightarrow> layout \<Rightarrow> layout" where
  "move_tab tid to l =
     (case position (\<lambda>t. tab_id t = tid) (l_tabs l) of
        None \<Rightarrow> l
      | Some from \<Rightarrow>
          (let t = l_tabs l ! from; ts = remove_at from (l_tabs l)
           in l\<lparr>l_tabs := insert_at (min to (length ts)) t ts\<rparr>))"

definition mirrors_of :: "ident \<Rightarrow> ident option \<Rightarrow> layout \<Rightarrow> ident list" where
  "mirrors_of project p l =
     map p_id (filter (\<lambda>r. case p_kind r of
         Mirror m \<Rightarrow> mi_project m = project \<and> (case p of None \<Rightarrow> True | Some x \<Rightarrow> x = mi_panel m)
       | _ \<Rightarrow> False) (map snd (panels l)))"

definition terminal_panels :: "layout \<Rightarrow> (panel \<times> terminal_config) list" where
  "terminal_panels l =
     List.map_filter (\<lambda>r. case p_kind r of Terminal cfg \<Rightarrow> Some (r, cfg) | _ \<Rightarrow> None) (map snd (panels l))"

end
