(* ===== verification/LayoutInv.thy ===== *)
theory LayoutInv
  imports Workspace
begin

text \<open>
  What a workspace layout keeps: well-formed trees, one place for every panel, a record for each.
  Every operation of \<open>Workspace\<close> keeps it, and reading a stored layout refuses one that does not.
\<close>

section \<open>Trees stay well formed\<close>

fun fraction_ok :: "f32 \<Rightarrow> bool" where
  "fraction_ok (Finite q) = (MIN_FRACTION \<le> q \<and> q \<le> MAX_FRACTION)"
| "fraction_ok NotFinite = False"

text \<open>No empty leaf, every leaf shows one of its panels, no side too small.\<close>

fun tree_ok :: "split_tree \<Rightarrow> bool" where
  "tree_ok (Leaf ps a) = (a < length ps)"
| "tree_ok (Split ax fr f s) = (fraction_ok fr \<and> tree_ok f \<and> tree_ok s)"

lemma fraction_bounds: "MIN_FRACTION \<le> 1 / 2" "1 / 2 \<le> MAX_FRACTION" "MIN_FRACTION \<le> MAX_FRACTION"
  by (simp_all add: MIN_FRACTION_def MAX_FRACTION_def)

lemma fraction_doubled [simp]: "MIN_FRACTION * 2 \<le> 1" "1 \<le> MAX_FRACTION * 2"
  by (simp_all add: MIN_FRACTION_def MAX_FRACTION_def)

lemma fraction_ok_half [simp]: "fraction_ok (Finite (1 / 2))"
  by (simp add: MIN_FRACTION_def MAX_FRACTION_def)

lemma fraction_ok_clamp [simp]: "fraction_ok (clamp_fraction fr)"
  using fraction_bounds(3) by (simp add: clamp_fraction_def Let_def)

lemma tree_contains_iff [simp]: "tree_contains p t \<longleftrightarrow> p \<in> set (tree_panels t)"
  by (induction t) auto

lemma tree_ok_panels: "tree_ok t \<Longrightarrow> tree_panels t \<noteq> []"
  by (induction t) auto

lemma tree_panels_normalize [simp]: "tree_panels (normalize t) = tree_panels t"
proof (induction t)
  case (Split ax fr f s)
  have e: "tree_is_empty u \<Longrightarrow> tree_panels u = []" for u by (cases u) auto
  show ?case
    using Split.IH e [of "normalize f"] e [of "normalize s"] by (auto simp: Let_def)
qed simp

lemma normalize_ok: "if tree_panels t = [] then normalize t = Leaf [] 0 else tree_ok (normalize t)"
proof (induction t)
  case (Leaf ps a)
  then show ?case by (cases ps) auto
next
  case (Split ax fr f s)
  have e: "tree_ok u \<Longrightarrow> \<not> tree_is_empty u" for u by (cases u) auto
  show ?case
    using Split.IH e [of "normalize f"] e [of "normalize s"]
    by (cases "tree_panels f = []"; cases "tree_panels s = []") (auto simp: Let_def)
qed

lemma remove1_position: "position (\<lambda>x. x = p) xs = Some i \<Longrightarrow> remove_at i xs = remove1 p xs"
proof (induction xs arbitrary: i)
  case (Cons x xs)
  then show ?case by (cases i) (auto simp: remove_at_def split: if_splits)
qed simp

lemma position_mem: "position (\<lambda>x. x = p) xs = None \<longleftrightarrow> p \<notin> set xs"
  by (auto simp: position_None)

lemma remove_inner_spec:
  "fst (remove_inner p t) = (p \<in> set (tree_panels t))
   \<and> tree_panels (snd (remove_inner p t)) = remove1 p (tree_panels t)"
proof (induction t)
  case (Leaf ps a)
  then show ?case
    by (auto simp: Let_def remove1_position remove1_idem position_mem split: option.split dest: position_eq_Some_nth)
next
  case (Split ax fr f s)
  then show ?case by (auto simp: remove1_append remove1_idem split: prod.splits bool.splits)
qed

lemma tree_remove_spec:
  "fst (tree_remove p t) = (p \<in> set (tree_panels t))"
  "tree_panels (snd (tree_remove p t)) = remove1 p (tree_panels t)"
  "remove1 p (tree_panels t) \<noteq> [] \<Longrightarrow> tree_ok (snd (tree_remove p t))"
  using remove_inner_spec [of p t] normalize_ok [of "snd (remove_inner p t)"]
  by (auto simp: tree_remove_def split_beta)

lemma tree_insert_spec:
  "fst (tree_insert anc new pl t) = (anc \<in> set (tree_panels t))
   \<and> (tree_ok t \<longrightarrow> tree_ok (snd (tree_insert anc new pl t)))
   \<and> (if anc \<in> set (tree_panels t)
      then mset (tree_panels (snd (tree_insert anc new pl t))) = add_mset new (mset (tree_panels t))
      else snd (tree_insert anc new pl t) = t)"
proof (induction t)
  case (Leaf ps a)
  show ?case
  proof (cases "position (\<lambda>x. x = anc) ps")
    case None
    then have "anc \<notin> set ps" using position_mem by metis
    with None show ?thesis by simp
  next
    case (Some i)
    then have i: "i < length ps" "anc \<in> set ps"
      using position_eq_Some_nth [OF Some] nth_mem by auto
    have m: "mset (insert_at j new ps) = add_mset new (mset ps)" for j
      unfolding insert_at_def by (metis append_take_drop_id mset.simps(2) mset_append union_mset_add_mset_right)
    show ?thesis
      using Some i m by (cases pl) (auto simp: split_beside_def leaf_def length_insert_at Let_def)
  qed
next
  case (Split ax fr f s)
  then show ?case by (auto split: prod.splits bool.splits if_splits)
qed

lemma tree_activate_spec:
  "fst (tree_activate p t) = (p \<in> set (tree_panels t))
   \<and> tree_panels (snd (tree_activate p t)) = tree_panels t
   \<and> (tree_ok t \<longrightarrow> tree_ok (snd (tree_activate p t)))"
proof (induction t)
  case (Leaf ps a)
  then show ?case
    using position_mem [of p ps] position_eq_Some_nth [of "\<lambda>x. x = p" ps]
    by (auto split: option.split dest: nth_mem)
next
  case (Split ax fr f s)
  then show ?case by (auto split: prod.splits bool.splits)
qed

section \<open>The invariant of a layout\<close>

definition tab_ok :: "tab \<Rightarrow> bool" where
  "tab_ok t \<longleftrightarrow> tree_ok (t_root t)
     \<and> (case active_panel t of None \<Rightarrow> True | Some p \<Rightarrow> p \<in> set (tree_panels (t_root t)))"

definition tabs_ok :: "layout \<Rightarrow> bool" where
  "tabs_ok l \<longleftrightarrow> list_all tab_ok (l_tabs l) \<and> distinct (map tab_id (l_tabs l))
     \<and> (case active_tab l of None \<Rightarrow> l_tabs l = [] | Some i \<Rightarrow> i \<in> tab_id ` set (l_tabs l))"

definition records_ok :: "layout \<Rightarrow> bool" where
  "records_ok l \<longleftrightarrow> bt_inv (panels l) \<and> (\<forall>(k, r) \<in> set (panels l). p_id r = k)"

text \<open>
  Every panel is in one place: one leaf of one tab, or away. Every one has its record, every record
  its panel.
\<close>

definition layout_ok :: "layout \<Rightarrow> bool" where
  "layout_ok l \<longleftrightarrow> records_ok l \<and> tabs_ok l \<and> distinct (live_panels l @ away l)
     \<and> set (live_panels l @ away l) = dom (map_of (panels l))"

lemma update_first_split:
  "\<forall>x \<in> set xs. \<not> P x \<Longrightarrow> P y \<Longrightarrow> update_first P f (xs @ y # ys) = xs @ f y # ys"
  by (induction xs) auto

lemma find_split:
  "find P zs = Some y \<Longrightarrow> \<exists>xs ys. zs = xs @ y # ys \<and> P y \<and> (\<forall>x \<in> set xs. \<not> P x)"
proof (induction zs)
  case (Cons z zs)
  show ?case
  proof (cases "P z")
    case True
    with Cons.prems show ?thesis by (intro exI [of _ "[]"] exI [of _ zs]) auto
  next
    case False
    with Cons obtain xs ys where "zs = xs @ y # ys" "P y" "\<forall>x \<in> set xs. \<not> P x" by auto
    with False show ?thesis by (intro exI [of _ "z # xs"] exI [of _ ys]) auto
  qed
qed simp

lemma position_split: "\<forall>x \<in> set xs. \<not> P x \<Longrightarrow> P y \<Longrightarrow> position P (xs @ y # ys) = Some (length xs)"
  by (induction xs) auto

text \<open>A tab singled out by its id.\<close>

lemma tab_by_id_split:
  assumes "tabs_ok l" "tab_by_id i l = Some t"
  obtains xs ys where "l_tabs l = xs @ t # ys" "tab_id t = i" "tab_ok t"
    "\<And>f. tab_mut i f l = l\<lparr>l_tabs := xs @ f t # ys\<rparr>" "i \<notin> tab_id ` set (xs @ ys)"
proof -
  obtain xs ys where x: "l_tabs l = xs @ t # ys" "tab_id t = i" "\<forall>x \<in> set xs. tab_id x \<noteq> i"
    using find_split [of "\<lambda>t. tab_id t = i" "l_tabs l" t] assms(2) by (auto simp: tab_by_id_def)
  have "tab_mut i f l = l\<lparr>l_tabs := xs @ f t # ys\<rparr>" for f
    using x by (simp add: tab_mut_def update_first_split)
  moreover have "tab_ok t" "i \<notin> tab_id ` set (xs @ ys)"
    using assms(1) x by (auto simp: tabs_ok_def)
  ultimately show ?thesis using that x by blast
qed

lemma tab_by_id_in: "tabs_ok l \<Longrightarrow> t \<in> set (l_tabs l) \<Longrightarrow> tab_by_id (tab_id t) l = Some t"
proof -
  assume a: "tabs_ok l" "t \<in> set (l_tabs l)"
  have "distinct (map tab_id ts) \<Longrightarrow> t \<in> set ts \<Longrightarrow> find (\<lambda>u. tab_id u = tab_id t) ts = Some t" for ts
    by (induction ts) (auto simp: image_iff)
  with a show ?thesis by (simp add: tabs_ok_def tab_by_id_def)
qed

lemma tab_of_Some:
  assumes "tabs_ok l" "tab_of p l = Some i"
  obtains t where "tab_by_id i l = Some t" "p \<in> set (tree_panels (t_root t))"
proof -
  obtain t where t: "find (\<lambda>t. p \<in> set (tree_panels (t_root t))) (l_tabs l) = Some t" "i = tab_id t"
    using assms(2) by (auto simp: tab_of_def)
  then have "t \<in> set (l_tabs l)" "p \<in> set (tree_panels (t_root t))"
    by (auto simp: find_Some_iff)
  then show ?thesis using that tab_by_id_in [OF assms(1)] t(2) by blast
qed

lemma tab_of_None: "tab_of p l = None \<longleftrightarrow> p \<notin> set (live_panels l)"
  by (auto simp: tab_of_def find_None_iff live_panels_def)

text \<open>Replacing a tab by a good one of the same id.\<close>

lemma tabs_ok_replace:
  assumes "tabs_ok l" "l_tabs l = xs @ t # ys" "tab_ok t'" "tab_id t' = tab_id t"
    and "act = active_tab l \<or> act = Some (tab_id t)"
  shows "tabs_ok (l\<lparr>l_tabs := xs @ t' # ys, active_tab := act\<rparr>)"
proof (cases "active_tab l")
  case None
  then show ?thesis using assms by (simp add: tabs_ok_def)
next
  case (Some j)
  then show ?thesis using assms by (auto simp: tabs_ok_def)
qed

lemma live_panels_split:
  "l_tabs l = xs @ t # ys \<Longrightarrow> mset (live_panels l) = mset (tree_panels (t_root t)) + mset (live_panels (l\<lparr>l_tabs := xs @ ys\<rparr>))"
  by (simp add: live_panels_def)

lemma close_tab_inner_ok:
  assumes "tabs_ok l" "l_tabs l = xs @ t # ys"
  shows "tabs_ok (close_tab_inner (tab_id t) l)" "l_tabs (close_tab_inner (tab_id t) l) = xs @ ys"
    "panels (close_tab_inner (tab_id t) l) = panels l" "away (close_tab_inner (tab_id t) l) = away l"
proof -
  have "position (\<lambda>u. tab_id u = tab_id t) (l_tabs l) = Some (length xs)"
    unfolding assms(2) by (rule position_split) (use assms in \<open>auto simp: tabs_ok_def rev_image_eqI\<close>)
  then have c: "close_tab_inner (tab_id t) l = l\<lparr>l_tabs := xs @ ys,
      active_tab := (if active_tab l = Some (tab_id t) \<or> active_tab l = None
                     then (let nxt = (if length xs > 0 then length xs - 1 else 0)
                           in if nxt < length (xs @ ys) then Some (tab_id ((xs @ ys) ! nxt)) else None)
                     else active_tab l)\<rparr>"
    using assms(2) by (simp add: close_tab_inner_def remove_at_def Let_def)
  then show "l_tabs (close_tab_inner (tab_id t) l) = xs @ ys"
    "panels (close_tab_inner (tab_id t) l) = panels l" "away (close_tab_inner (tab_id t) l) = away l"
    by simp_all
  let ?n = "if length xs > 0 then length xs - 1 else 0"
  have n: "?n < length (xs @ ys) \<longleftrightarrow> xs @ ys \<noteq> []" by (cases xs) auto
  have m: "xs @ ys \<noteq> [] \<Longrightarrow> tab_id ((xs @ ys) ! ?n) \<in> tab_id ` set (xs @ ys)"
    using n nth_mem by blast
  show "tabs_ok (close_tab_inner (tab_id t) l)"
    unfolding c using assms n m by (cases "active_tab l") (auto simp: tabs_ok_def Let_def)
qed

text \<open>Taking a panel out of its tab.\<close>

lemma detach_absent: "p \<notin> set (live_panels l) \<Longrightarrow> detach p l = (False, l)"
  by (simp add: detach_def tab_of_None [symmetric])

lemma position_before:
  assumes "position (\<lambda>x. x = p) order = Some i" "remove1 p order \<noteq> []"
  shows "(if i > 0 then order ! (i - 1) else order ! 1) \<in> set (remove1 p order)"
proof (cases i)
  case 0
  then obtain rest where r: "order = p # rest" using assms(1) by (cases order) (auto split: if_splits)
  then show ?thesis using assms(2) 0 by (cases rest) auto
next
  case (Suc j)
  then have "order ! j \<noteq> p" "j < length order" using assms(1) by (auto simp: position_Some)
  then show ?thesis using Suc by (metis diff_Suc_1 in_set_remove1 nth_mem zero_less_Suc)
qed

lemma detach_ok:
  assumes ok: "tabs_ok l" and p: "p \<in> set (live_panels l)"
  obtains l' where "detach p l = (True, l')" "tabs_ok l'" "panels l' = panels l" "away l' = away l"
    "mset (live_panels l) = add_mset p (mset (live_panels l'))"
proof -
  obtain i where i: "tab_of p l = Some i" using p tab_of_None by fastforce
  obtain t where t: "tab_by_id i l = Some t" "p \<in> set (tree_panels (t_root t))"
    by (rule tab_of_Some [OF ok i])
  obtain xs ys where x: "l_tabs l = xs @ t # ys" "tab_id t = i" "tab_ok t"
    "\<And>f. tab_mut i f l = l\<lparr>l_tabs := xs @ f t # ys\<rparr>" "i \<notin> tab_id ` set (xs @ ys)"
    by (rule tab_by_id_split [OF ok t(1)]) blast
  obtain k where k: "position (\<lambda>x. x = p) (tree_panels (t_root t)) = Some k"
    using t(2) position_eq_in by metis
  let ?order = "tree_panels (t_root t)"
  define t1 where "t1 = t\<lparr>t_root := snd (tree_remove p (t_root t))\<rparr>"
  have t1: "tree_panels (t_root t1) = remove1 p ?order" "tab_id t1 = i" "active_panel t1 = active_panel t"
    by (simp_all add: t1_def tree_remove_spec x(2))
  have msl: "mset ?order = add_mset p (mset (remove1 p ?order))" using t(2) by simp
  define nxt where "nxt = (if k > 0 then ?order ! (k - 1) else ?order ! 1)"
  define t2 where "t2 = t1\<lparr>active_panel := Some nxt, t_root := snd (tree_activate nxt (t_root t1))\<rparr>"
  have live: "mset (live_panels l) = add_mset p (mset (live_panels (l\<lparr>l_tabs := xs @ t' # ys\<rparr>)))"
    if "tree_panels (t_root t') = remove1 p ?order" for t'
    using that msl by (simp add: live_panels_def x(1))
  consider (empty) "remove1 p ?order = []"
    | (focus) "remove1 p ?order \<noteq> []" "active_panel t1 = Some p \<or> active_panel t1 = None"
    | (keep) "remove1 p ?order \<noteq> []" "active_panel t1 \<noteq> Some p" "active_panel t1 \<noteq> None" by blast
  then show ?thesis
  proof cases
    case empty
    let ?l1 = "l\<lparr>l_tabs := xs @ t1 # ys\<rparr>"
    have pos: "position (\<lambda>u. tab_id u = i) (xs @ z # ys) = Some (length xs)" if "tab_id z = i" for z
      by (rule position_split) (use x(5) that in \<open>metis image_eqI UnI1 set_append\<close>)+
    have same: "close_tab_inner i ?l1 = close_tab_inner i l"
      using pos [OF t1(2)] pos [OF x(2)] x(1) by (simp add: close_tab_inner_def remove_at_def Let_def)
    have d: "detach p l = (True, close_tab_inner i l)"
      using i t(1) k empty t1(1) x(4) same by (simp add: detach_def Let_def t1_def [symmetric])
    note c = close_tab_inner_ok [OF ok x(1), unfolded x(2)]
    have "mset (live_panels l) = add_mset p (mset (live_panels (close_tab_inner i l)))"
      using live_panels_split [OF x(1)] msl empty c(2) by (simp add: live_panels_def)
    then show ?thesis using that [OF d] c by blast
  next
    case focus
    have d: "detach p l = (True, l\<lparr>l_tabs := xs @ t2 # ys\<rparr>)"
      using i t(1) k focus t1(1) x(4)
      by (simp add: detach_def Let_def t1_def [symmetric] t2_def nxt_def)
    have "nxt \<in> set (remove1 p ?order)" unfolding nxt_def by (rule position_before [OF k focus(1)])
    then have "tab_ok t2"
      using focus(1) tree_remove_spec(3) [of p "t_root t"] t1(1) tree_activate_spec [of nxt "t_root t1"]
      by (simp add: tab_ok_def t2_def) (simp add: t1_def)
    moreover have "tab_id t2 = tab_id t" by (simp add: t2_def t1(2) x(2))
    ultimately have "tabs_ok (l\<lparr>l_tabs := xs @ t2 # ys\<rparr>)"
      using tabs_ok_replace [OF ok x(1), of t2 "active_tab l"] by simp
    moreover have "tree_panels (t_root t2) = remove1 p ?order"
      using tree_activate_spec [of nxt "t_root t1"] t1(1) by (simp add: t2_def)
    ultimately show ?thesis using that [OF d] live [of t2] by simp
  next
    case keep
    obtain q' where q': "active_panel t1 = Some q'" using keep(3) by blast
    then have d: "detach p l = (True, l\<lparr>l_tabs := xs @ t1 # ys\<rparr>)"
      using i t(1) k keep(1,2) t1(1) x(4) by (simp add: detach_def Let_def t1_def [symmetric])
    obtain q where "active_panel t = Some q" "q \<noteq> p" using keep t1(3) by auto
    then have "tab_ok t1"
      using x(3) keep(1) tree_remove_spec(2,3) [of p "t_root t"] by (simp add: tab_ok_def t1_def)
    then have "tabs_ok (l\<lparr>l_tabs := xs @ t1 # ys\<rparr>)"
      using tabs_ok_replace [OF ok x(1), of t1 "active_tab l"] t1(2) x(2) by simp
    then show ?thesis using that [OF d] live [of t1] t1(1) by simp
  qed
qed

text \<open>Putting a panel into a tab.\<close>

lemma push_tab_ok:
  assumes "tabs_ok l" "tid \<notin> tab_id ` set (l_tabs l)"
  shows "tabs_ok (push_tab tid p l)" "panels (push_tab tid p l) = panels l" "away (push_tab tid p l) = away l"
    "mset (live_panels (push_tab tid p l)) = add_mset p (mset (live_panels l))"
  using assms by (auto simp: push_tab_def tabs_ok_def tab_ok_def leaf_def live_panels_def)

lemma tabs_ok_eq: "tabs_ok l \<Longrightarrow> l_tabs l' = l_tabs l \<Longrightarrow> active_tab l' = active_tab l \<Longrightarrow> tabs_ok l'"
  unfolding tabs_ok_def by (elim conjE, intro conjI, simp_all only:)

lemma in_some_tab_Some: "in_some_tab l anc = Some a \<Longrightarrow> \<exists>i. tab_of a l = Some i"
  by (auto simp: in_some_tab_def split: option.splits if_splits)

lemma place_ok:
  assumes ok: "tabs_ok l" and tid: "tid \<notin> tab_id ` set (l_tabs l)"
  shows "tabs_ok (place tid p anc pl l) \<and> panels (place tid p anc pl l) = panels l
    \<and> away (place tid p anc pl l) = away l
    \<and> mset (live_panels (place tid p anc pl l)) = add_mset p (mset (live_panels l))"
proof -
  define anc' where "anc' = (case in_some_tab l anc of Some a \<Rightarrow> Some a | None \<Rightarrow> in_some_tab l (focus_anchor l))"
  show ?thesis
  proof (cases anc')
    case None
    then have "place tid p anc pl l = push_tab tid p l" by (simp add: place_def anc'_def [symmetric])
    then show ?thesis using push_tab_ok [OF ok tid] by simp
  next
    case (Some a)
    then obtain i where i: "tab_of a l = Some i"
      using in_some_tab_Some by (auto simp: anc'_def split: option.splits)
    obtain t where t: "tab_by_id i l = Some t" "a \<in> set (tree_panels (t_root t))"
      by (rule tab_of_Some [OF ok i])
    obtain xs ys where x: "l_tabs l = xs @ t # ys" "tab_id t = i" "tab_ok t"
      "\<And>f. tab_mut i f l = l\<lparr>l_tabs := xs @ f t # ys\<rparr>" "i \<notin> tab_id ` set (xs @ ys)"
      by (rule tab_by_id_split [OF ok t(1)]) blast
    define t' where "t' = t\<lparr>t_root := snd (tree_insert a p pl (t_root t)), active_panel := Some p\<rparr>"
    have eq: "place tid p anc pl l = l\<lparr>l_tabs := xs @ t' # ys, active_tab := Some i\<rparr>"
      using Some i x(4) by (simp add: place_def anc'_def [symmetric] t'_def)
    have ms: "mset (tree_panels (t_root t')) = add_mset p (mset (tree_panels (t_root t)))"
      using tree_insert_spec [of a p pl "t_root t"] t(2) by (simp add: t'_def)
    then have "p \<in> set (tree_panels (t_root t'))" by (metis set_mset_mset union_single_eq_member add_mset_add_single)
    moreover have "tree_ok (t_root t')"
      using tree_insert_spec [of a p pl "t_root t"] x(3) by (simp add: t'_def tab_ok_def)
    ultimately have "tab_ok t'" by (simp add: tab_ok_def) (simp add: t'_def)
    then have "tabs_ok (l\<lparr>l_tabs := xs @ t' # ys, active_tab := Some i\<rparr>)"
      using tabs_ok_replace [OF ok x(1), of t' "Some i"] x(2) by (simp add: t'_def)
    then show ?thesis using eq ms by (simp add: live_panels_def x(1))
  qed
qed

section \<open>Every operation keeps the invariant\<close>

lemma layout_ok_mset:
  assumes "records_ok l" "tabs_ok l" "mset (live_panels l @ away l) = mset ps" "distinct ps"
    "set ps = dom (map_of (panels l))"
  shows "layout_ok l"
proof -
  have "distinct (live_panels l @ away l)" using mset_eq_imp_distinct_iff [OF assms(3)] assms(4) by blast
  moreover have "set (live_panels l @ away l) = dom (map_of (panels l))"
    using mset_eq_setD [OF assms(3)] assms(5) by (rule trans)
  ultimately show ?thesis unfolding layout_ok_def using assms(1,2) by blast
qed

lemma layout_okD:
  assumes "layout_ok l"
  shows "records_ok l" "tabs_ok l" "distinct (live_panels l @ away l)"
    "set (live_panels l @ away l) = dom (map_of (panels l))"
  using assms by (simp_all only: layout_ok_def)

lemma records_ok_eq: "records_ok l \<Longrightarrow> panels l' = panels l \<Longrightarrow> records_ok l'"
  by (simp add: records_ok_def)

lemma live_panels_update [simp]:
  "live_panels (l\<lparr>away := a\<rparr>) = live_panels l" "live_panels (l\<lparr>panels := m\<rparr>) = live_panels l"
  by (simp_all add: live_panels_def)

text \<open>What stands in the tabs and away may be shuffled, the records may change in place.\<close>

lemma layout_ok_shuffle:
  assumes "layout_ok l" "records_ok l'" "tabs_ok l'" "dom (map_of (panels l')) = dom (map_of (panels l))"
    "mset (live_panels l') + mset (away l') = mset (live_panels l) + mset (away l)"
  shows "layout_ok l'"
  by (rule layout_ok_mset [where ps = "live_panels l @ away l"])
    (use layout_okD [OF assms(1)] assms(2-5) in \<open>simp_all only: mset_append\<close>)

lemma layout_ok_new:
  assumes "layout_ok l" "i \<notin> dom (map_of (panels l))" "records_ok l'" "tabs_ok l'"
    "dom (map_of (panels l')) = insert i (dom (map_of (panels l)))"
    "mset (live_panels l') + mset (away l') = add_mset i (mset (live_panels l) + mset (away l))"
  shows "layout_ok l'"
proof (rule layout_ok_mset [where ps = "i # live_panels l @ away l"])
  note l = layout_okD [OF assms(1)]
  show "distinct (i # live_panels l @ away l)" using l(3) assms(2) by (simp add: l(4) [symmetric])
  show "set (i # live_panels l @ away l) = dom (map_of (panels l'))"
    by (simp only: list.set l(4) assms(5))
  show "mset (live_panels l' @ away l') = mset (i # live_panels l @ away l)"
    using assms(6) by (simp only: mset_append mset.simps)
qed (fact assms(3,4))+

lemma layout_ok_drop:
  assumes "layout_ok l" "tabs_ok l'" "panels l' = fold bt_remove ps (panels l)"
    "mset (live_panels l) + mset (away l) = mset ps + (mset (live_panels l') + mset (away l'))"
  shows "layout_ok l'"
proof (rule layout_ok_mset [where ps = "live_panels l' @ away l'"])
  note l = layout_okD [OF assms(1)]
  have m: "mset (live_panels l @ away l) = mset (ps @ live_panels l' @ away l')"
    using assms(4) by simp
  have d: "distinct (ps @ live_panels l' @ away l')"
    using l(3) mset_eq_imp_distinct_iff [OF m] by blast
  then show "distinct (live_panels l' @ away l')" by simp
  have s: "set ps \<union> set (live_panels l' @ away l') = dom (map_of (panels l))"
    using mset_eq_setD [OF m] l(4) by simp
  have inv: "bt_inv (panels l)" using l(1) by (simp add: records_ok_def)
  have "dom (map_of (panels l')) = dom (map_of (panels l)) - set ps"
    unfolding assms(3) by (rule bt.dom_del_all [OF inv])
  then show "set (live_panels l' @ away l') = dom (map_of (panels l'))" using s d by auto
  have "set (bt_remove k m) \<subseteq> set m" for k and m :: "(ident \<times> panel) list" by (auto simp: bt_remove_def)
  then have sub: "set (fold bt_remove ks m) \<subseteq> set m" for ks and m :: "(ident \<times> panel) list"
    by (induction ks arbitrary: m) (simp, metis fold_simps(2) subset_trans)
  show "records_ok l'" unfolding records_ok_def assms(3)
    using bt.invar_del_all [OF inv] sub [of ps "panels l"] l(1) by (auto simp: records_ok_def)
qed (rule assms refl)+

lemma records_ok_insert:
  assumes "records_ok l" "p_id r = k" "panels l' = bt_insert k r (panels l)"
  shows "records_ok l'"
proof -
  have s: "set (bt_insert k r m) \<subseteq> insert (k, r) (set m)" for m :: "(ident \<times> panel) list"
    by (induction k r m rule: bt_insert.induct) auto
  show ?thesis using s [of "panels l"] assms by (auto simp: records_ok_def bt.invar_ins)
qed

lemma new_panel_simps [simp]:
  "l_tabs (new_panel i j k l) = l_tabs l" "active_tab (new_panel i j k l) = active_tab l"
  "away (new_panel i j k l) = away l" "live_panels (new_panel i j k l) = live_panels l"
  "tabs_ok (new_panel i j k l) = tabs_ok l"
  "tab_of p (new_panel i j k l) = tab_of p l"
  by (simp_all add: new_panel_def live_panels_def tabs_ok_def tab_of_def cong: option.case_cong)

lemma new_panel_dom:
  assumes "records_ok l"
  shows "dom (map_of (panels (new_panel i j k l))) = insert i (dom (map_of (panels l)))"
    and "records_ok (new_panel i j k l)"
proof -
  have "bt_inv (panels l)" using assms by (simp add: records_ok_def)
  then show "dom (map_of (panels (new_panel i j k l))) = insert i (dom (map_of (panels l)))"
    by (simp add: new_panel_def bt.dom_ins)
  show "records_ok (new_panel i j k l)"
    by (rule records_ok_insert [OF assms, of "\<lparr>p_id = i, origin_project = j, p_title = next_panel_title l,
         p_title_is_custom = False, p_kind = k\<rparr>" i]) (simp_all add: new_panel_def)
qed

lemma add_tab_ok:
  assumes ok: "layout_ok l" and i: "i \<notin> dom (map_of (panels l))" and tid: "tid \<notin> tab_id ` set (l_tabs l)"
  shows "layout_ok (add_tab i tid project kind l)"
proof -
  let ?l = "new_panel i project kind l"
  note l = layout_okD [OF ok]
  have "tabs_ok ?l" "tid \<notin> tab_id ` set (l_tabs ?l)" using l(2) tid by simp_all
  note p = push_tab_ok [OF this, of i]
  show ?thesis unfolding add_tab_def
  proof (rule layout_ok_new [OF ok i])
    show "records_ok (push_tab tid i ?l)" by (rule records_ok_eq [OF new_panel_dom(2) [OF l(1)] p(2)])
  qed (simp_all only: p new_panel_dom(1) [OF l(1)] new_panel_simps union_mset_add_mset_left)
qed

lemma add_panel_ok:
  assumes ok: "layout_ok l" and i: "i \<notin> dom (map_of (panels l))" and tid: "tid \<notin> tab_id ` set (l_tabs l)"
  shows "layout_ok (add_panel i tid project anc pl kind l)"
proof -
  let ?l = "new_panel i project kind l"
  note l = layout_okD [OF ok]
  have "tabs_ok ?l" "tid \<notin> tab_id ` set (l_tabs ?l)" using l(2) tid by simp_all
  note pl = place_ok [OF this]
  have "layout_ok (place tid i a pl ?l)" for a
  proof (rule layout_ok_new [OF ok i])
    note p = pl [of i a pl]
    show "records_ok (place tid i a pl ?l)"
      by (rule records_ok_eq [OF new_panel_dom(2) [OF l(1)]]) (simp only: p)
  qed (simp_all only: pl new_panel_dom(1) [OF l(1)] new_panel_simps union_mset_add_mset_left)
  then show ?thesis using add_tab_ok [OF assms] by (simp only: add_panel_def Let_def if_True split: if_split) blast
qed

text \<open>A panel of a layout is in a tab or away, not both.\<close>

lemma layout_ok_where:
  assumes "layout_ok l"
  shows "map_of (panels l) p = None \<longleftrightarrow> p \<notin> set (live_panels l) \<and> p \<notin> set (away l)"
    and "p \<in> set (live_panels l) \<Longrightarrow> p \<notin> set (away l)"
proof -
  show "map_of (panels l) p = None \<longleftrightarrow> p \<notin> set (live_panels l) \<and> p \<notin> set (away l)"
    using layout_okD(4) [OF assms] by (simp add: set_eq_iff domIff) (metis option.exhaust option.distinct(1))
  show "p \<in> set (live_panels l) \<Longrightarrow> p \<notin> set (away l)" using layout_okD(3) [OF assms] by auto
qed

lemma filter_absent: "p \<notin> set xs \<Longrightarrow> filter (\<lambda>x. x \<noteq> p) xs = xs"
  by (induction xs) auto

lemma mset_filter_distinct: "distinct xs \<Longrightarrow> p \<in> set xs \<Longrightarrow> mset xs = add_mset p (mset (filter (\<lambda>x. x \<noteq> p) xs))"
proof (induction xs)
  case (Cons x xs)
  then show ?case by (cases "x = p") (simp_all add: filter_absent)
qed simp

lemma remove_panel_live:
  assumes ok: "layout_ok l" and p: "p \<in> set (live_panels l)"
  shows "fst (remove_panel p l) = map_of (panels l) p" "layout_ok (snd (remove_panel p l))"
    "panels (snd (remove_panel p l)) = bt_remove p (panels l)"
proof -
  obtain l' where d: "detach p l = (True, l')" "tabs_ok l'" "panels l' = panels l" "away l' = away l"
    "mset (live_panels l) = add_mset p (mset (live_panels l'))"
    by (rule detach_ok [OF layout_okD(2) [OF ok] p])
  have f: "filter (\<lambda>x. x \<noteq> p) (away l') = away l'"
    unfolding d(4) by (rule filter_absent [OF layout_ok_where(2) [OF ok p]])
  define k where "k = l'\<lparr>away := away l', panels := bt_remove p (panels l)\<rparr>"
  have r: "remove_panel p l = (map_of (panels l) p, k)" using d(1,3) f by (simp add: remove_panel_def k_def)
  have "tabs_ok k" by (rule tabs_ok_eq [OF d(2)]) (simp_all add: k_def)
  then have "layout_ok k"
    by (rule layout_ok_drop [OF ok, where ps = "[p]"]) (simp_all add: k_def d(4,5))
  then show "fst (remove_panel p l) = map_of (panels l) p" "layout_ok (snd (remove_panel p l))"
    "panels (snd (remove_panel p l)) = bt_remove p (panels l)" by (simp_all add: r) (simp add: k_def)
qed

lemma remove_panel_away:
  assumes ok: "layout_ok l" and p: "p \<in> set (away l)"
  shows "fst (remove_panel p l) = map_of (panels l) p" "layout_ok (snd (remove_panel p l))"
    "panels (snd (remove_panel p l)) = bt_remove p (panels l)"
proof -
  have n: "p \<notin> set (live_panels l)" using layout_ok_where(2) [OF ok] p by blast
  define aw where "aw = filter (\<lambda>x. x \<noteq> p) (away l)"
  define k where "k = l\<lparr>away := aw, panels := bt_remove p (panels l)\<rparr>"
  have r: "remove_panel p l = (map_of (panels l) p, k)"
    using detach_absent [OF n] p by (simp add: remove_panel_def k_def aw_def)
  have "distinct (away l)" using layout_okD(3) [OF ok] by simp
  note m = mset_filter_distinct [OF this p, folded aw_def]
  have "tabs_ok k" by (rule tabs_ok_eq [OF layout_okD(2) [OF ok]]) (simp_all add: k_def)
  then have "layout_ok k"
    by (rule layout_ok_drop [OF ok, where ps = "[p]"]) (simp_all add: k_def m)
  then show "fst (remove_panel p l) = map_of (panels l) p" "layout_ok (snd (remove_panel p l))"
    "panels (snd (remove_panel p l)) = bt_remove p (panels l)" by (simp_all add: r) (simp add: k_def)
qed

lemma remove_panel_unknown:
  "p \<notin> set (live_panels l) \<Longrightarrow> p \<notin> set (away l) \<Longrightarrow> remove_panel p l = (None, l)"
  by (simp add: remove_panel_def detach_absent)

lemma remove_panel_ok:
  assumes ok: "layout_ok l"
  shows "layout_ok (snd (remove_panel p l))" "fst (remove_panel p l) = map_of (panels l) p"
    "p \<notin> dom (map_of (panels (snd (remove_panel p l))))"
proof -
  consider "p \<in> set (live_panels l)" | "p \<in> set (away l)"
    | "p \<notin> set (live_panels l)" "p \<notin> set (away l)" by blast
  then have "layout_ok (snd (remove_panel p l)) \<and> fst (remove_panel p l) = map_of (panels l) p
    \<and> p \<notin> dom (map_of (panels (snd (remove_panel p l))))"
  proof cases
    case 1
    then show ?thesis by (simp add: remove_panel_live [OF ok] map_of_bt_remove)
  next
    case 2
    then show ?thesis by (simp add: remove_panel_away [OF ok] map_of_bt_remove)
  next
    case 3
    then show ?thesis using layout_ok_where(1) [OF ok, of p] ok by (simp add: remove_panel_unknown domIff)
  qed
  then show "layout_ok (snd (remove_panel p l))" "fst (remove_panel p l) = map_of (panels l) p"
    "p \<notin> dom (map_of (panels (snd (remove_panel p l))))" by blast+
qed

lemma send_away_ok:
  assumes ok: "layout_ok l"
  shows "layout_ok (snd (send_away p l)) \<and> panels (snd (send_away p l)) = panels l
    \<and> (fst (send_away p l) \<longleftrightarrow> p \<in> set (live_panels l))"
proof (cases "p \<in> set (live_panels l)")
  case True
  obtain l' where d: "detach p l = (True, l')" "tabs_ok l'" "panels l' = panels l" "away l' = away l"
    "mset (live_panels l) = add_mset p (mset (live_panels l'))"
    by (rule detach_ok [OF layout_okD(2) [OF ok] True])
  define k where "k = l'\<lparr>away := away l' @ [p]\<rparr>"
  have s: "send_away p l = (True, k)" using d(1) by (simp add: send_away_def k_def)
  have "tabs_ok k" by (rule tabs_ok_eq [OF d(2)]) (simp_all add: k_def)
  moreover have "records_ok k" by (rule records_ok_eq [OF layout_okD(1) [OF ok]]) (simp add: k_def d(3))
  ultimately have "layout_ok k"
    by (intro layout_ok_shuffle [OF ok]) (simp_all add: k_def d(3-5))
  then show ?thesis using True by (simp add: s) (simp add: k_def d(3))
next
  case False
  then show ?thesis using ok by (simp add: send_away_def detach_absent)
qed

lemma bring_back_ok:
  assumes ok: "layout_ok l" and tid: "tid \<notin> tab_id ` set (l_tabs l)"
  shows "layout_ok (snd (bring_back tid p l)) \<and> panels (snd (bring_back tid p l)) = panels l
    \<and> (p \<in> set (away l) \<longrightarrow> fst (bring_back tid p l) \<and> p \<in> set (live_panels (snd (bring_back tid p l))))"
proof (cases "position (\<lambda>x. x = p) (away l)")
  case None
  then show ?thesis using ok position_mem [of p "away l"] by (simp add: bring_back_def)
next
  case (Some i)
  then have pa: "p \<in> set (away l)" using position_mem [of p "away l"] by fastforce
  define l0 where "l0 = l\<lparr>away := remove1 p (away l)\<rparr>"
  have "tabs_ok l0" by (rule tabs_ok_eq [OF layout_okD(2) [OF ok]]) (simp_all add: l0_def)
  moreover have "tid \<notin> tab_id ` set (l_tabs l0)" using tid by (simp add: l0_def)
  ultimately have p: "tabs_ok (place tid p None Stack l0) \<and> panels (place tid p None Stack l0) = panels l0
      \<and> away (place tid p None Stack l0) = away l0
      \<and> mset (live_panels (place tid p None Stack l0)) = add_mset p (mset (live_panels l0))"
    by (rule place_ok)
  define k where "k = place tid p None Stack l0"
  note p = p [folded k_def]
  have k: "panels k = panels l" "away k = remove1 p (away l)"
    "mset (live_panels k) = add_mset p (mset (live_panels l))"
    using p by (simp_all add: l0_def live_panels_def)
  have eq: "bring_back tid p l = (True, k)"
    using Some by (simp add: bring_back_def remove1_position k_def l0_def)
  obtain aw where aw: "away k = aw" and m: "mset (away l) = add_mset p (mset aw)"
    using k(2) pa by simp
  have "records_ok k" by (rule records_ok_eq [OF layout_okD(1) [OF ok] k(1)])
  then have "layout_ok k"
    by (rule layout_ok_shuffle [OF ok _ conjunct1 [OF p]]) (simp_all add: k(1,3) aw m)
  moreover have "p \<in> set (live_panels k)" using k(3) by (metis union_single_eq_member set_mset_mset)
  ultimately show ?thesis using eq k(1) by simp
qed

lemma layout_ok_records:
  "layout_ok l \<Longrightarrow> records_ok l' \<Longrightarrow> l_tabs l' = l_tabs l \<Longrightarrow> active_tab l' = active_tab l \<Longrightarrow> away l' = away l \<Longrightarrow>
   dom (map_of (panels l')) = dom (map_of (panels l)) \<Longrightarrow> layout_ok l'"
  by (rule layout_ok_shuffle) (simp_all add: live_panels_def tabs_ok_eq [OF layout_okD(2)])

lemma layout_ok_tabs:
  "layout_ok l \<Longrightarrow> tabs_ok l' \<Longrightarrow> panels l' = panels l \<Longrightarrow> away l' = away l \<Longrightarrow>
   mset (live_panels l') = mset (live_panels l) \<Longrightarrow> layout_ok l'"
  by (rule layout_ok_shuffle) (simp_all add: records_ok_eq [OF layout_okD(1)])

lemma close_tab_ok:
  assumes ok: "layout_ok l"
  shows "layout_ok (snd (close_tab tid l))"
proof (cases "tab_by_id tid l")
  case None
  then show ?thesis using ok by (simp add: close_tab_def)
next
  case (Some t)
  obtain xs ys where x: "l_tabs l = xs @ t # ys" "tab_id t = tid"
    by (rule tab_by_id_split [OF layout_okD(2) [OF ok] Some])
  note c = close_tab_inner_ok [OF layout_okD(2) [OF ok] x(1), unfolded x(2)]
  define k where "k = close_tab_inner tid l\<lparr>panels := fold bt_remove (tree_panels (t_root t)) (panels l)\<rparr>"
  have s: "snd (close_tab tid l) = k" using Some c(3) by (simp add: close_tab_def k_def Let_def)
  have "tabs_ok k" by (rule tabs_ok_eq [OF c(1)]) (simp_all add: k_def)
  moreover have "mset (live_panels l) = mset (tree_panels (t_root t)) + mset (live_panels k)"
    unfolding live_panels_split [OF x(1)] by (simp add: k_def c(2) live_panels_def)
  ultimately have "layout_ok k"
    by (intro layout_ok_drop [OF ok, where ps = "tree_panels (t_root t)"]) (simp_all add: k_def c(4))
  then show ?thesis by (simp only: s)
qed

lemma focus_panel_ok:
  assumes ok: "layout_ok l"
  shows "layout_ok (snd (focus_panel p l)) \<and> panels (snd (focus_panel p l)) = panels l
    \<and> (fst (focus_panel p l) \<longleftrightarrow> p \<in> set (live_panels l))"
proof (cases "tab_of p l")
  case None
  then show ?thesis using ok tab_of_None [of p l] by (simp add: focus_panel_def)
next
  case (Some i)
  obtain t where t: "tab_by_id i l = Some t" "p \<in> set (tree_panels (t_root t))"
    by (rule tab_of_Some [OF layout_okD(2) [OF ok] Some])
  obtain xs ys where x: "l_tabs l = xs @ t # ys" "tab_id t = i" "tab_ok t"
    "\<And>f. tab_mut i f l = l\<lparr>l_tabs := xs @ f t # ys\<rparr>" "i \<notin> tab_id ` set (xs @ ys)"
    by (rule tab_by_id_split [OF layout_okD(2) [OF ok] t(1)]) blast
  define t' where "t' = t\<lparr>active_panel := Some p, t_root := snd (tree_activate p (t_root t))\<rparr>"
  define k where "k = l\<lparr>l_tabs := xs @ t' # ys, active_tab := Some i\<rparr>"
  have f: "focus_panel p l = (True, k)" using Some by (simp add: focus_panel_def x(4) t'_def k_def)
  have a: "tree_panels (t_root t') = tree_panels (t_root t)" "tree_ok (t_root t')"
    using tree_activate_spec [of p "t_root t"] x(3) by (simp_all add: t'_def tab_ok_def)
  then have "tab_ok t'" using t(2) by (simp add: tab_ok_def) (simp add: t'_def)
  then have "tabs_ok k"
    unfolding k_def by (rule tabs_ok_replace [OF layout_okD(2) [OF ok] x(1)]) (simp_all add: t'_def x(2))
  moreover have lp: "live_panels k = live_panels l" by (simp add: live_panels_def k_def x(1) a(1))
  ultimately have "layout_ok k" by (intro layout_ok_tabs [OF ok]) (simp_all add: k_def)
  then show ?thesis using f t(2) by (simp add: k_def live_panels_def x(1))
qed

lemma records_ok_panel_mut:
  assumes "records_ok l" "\<And>r. p_id (f r) = p_id r"
  shows "records_ok (panel_mut p f l)"
    "dom (map_of (panels (panel_mut p f l))) = dom (map_of (panels l))"
proof -
  have k: "map fst (panels (panel_mut p f l)) = map fst (panels l)"
    by (induction "panels l") (auto simp: panel_mut_def)
  then show "dom (map_of (panels (panel_mut p f l))) = dom (map_of (panels l))"
    by (metis dom_map_of_conv_image_fst set_map)
  have "bt_inv (panels (panel_mut p f l))"
    using assms(1) bt_inv_map_values [OF k] by (simp add: records_ok_def)
  then show "records_ok (panel_mut p f l)"
    using assms by (auto simp: records_ok_def panel_mut_def)
qed

lemma panel_mut_ok:
  assumes "layout_ok l" "\<And>r. p_id (f r) = p_id r"
  shows "layout_ok (panel_mut p f l)"
  using assms records_ok_panel_mut [OF layout_okD(1) [OF assms(1)], of f p]
  by (intro layout_ok_records [OF assms(1)]) (simp_all add: panel_mut_def)

lemma rename_panel_ok: "layout_ok l \<Longrightarrow> layout_ok (snd (rename_panel p title l))"
  by (simp add: rename_panel_def Let_def panel_mut_ok)

lemma set_kind_ok: "layout_ok l \<Longrightarrow> layout_ok (snd (set_kind p kind l))"
  by (simp add: set_kind_def panel_mut_ok)

text \<open>Changing a tab's title.\<close>

lemma tab_mut_title_ok:
  assumes ok: "layout_ok l"
    and f: "\<And>t. tab_id (f t) = tab_id t \<and> t_root (f t) = t_root t \<and> active_panel (f t) = active_panel t"
  shows "layout_ok (tab_mut tid f l)"
proof (cases "tab_by_id tid l")
  case None
  have "find P zs = None \<Longrightarrow> update_first P f zs = zs" for P zs
    by (induction zs) (auto split: if_splits)
  then have "tab_mut tid f l = l" using None by (simp add: tab_mut_def tab_by_id_def)
  then show ?thesis using ok by simp
next
  case (Some t)
  obtain xs ys where x: "l_tabs l = xs @ t # ys" "tab_id t = tid" "tab_ok t"
    "\<And>f. tab_mut tid f l = l\<lparr>l_tabs := xs @ f t # ys\<rparr>" "tid \<notin> tab_id ` set (xs @ ys)"
    by (rule tab_by_id_split [OF layout_okD(2) [OF ok] Some]) blast
  have "tabs_ok (l\<lparr>l_tabs := xs @ f t # ys, active_tab := active_tab l\<rparr>)"
    by (rule tabs_ok_replace [OF layout_okD(2) [OF ok] x(1)]) (use x(3) f in \<open>simp_all add: tab_ok_def cong: option.case_cong\<close>)
  then have "tabs_ok (tab_mut tid f l)" by (simp add: x(4))
  then show ?thesis
    by (rule layout_ok_tabs [OF ok]) (simp_all add: x(4) live_panels_def x(1) f)
qed

lemma rename_tab_ok: "layout_ok l \<Longrightarrow> layout_ok (snd (rename_tab tid title l))"
  by (simp add: rename_tab_def Let_def tab_mut_title_ok)

lemma tabs_ok_permute:
  assumes "tabs_ok l" "mset ts = mset (l_tabs l)"
  shows "tabs_ok (l\<lparr>l_tabs := ts\<rparr>)"
proof -
  have s: "set ts = set (l_tabs l)" by (rule mset_eq_setD [OF assms(2)])
  have "mset (map tab_id ts) = mset (map tab_id (l_tabs l))" using assms(2) by simp
  then have "distinct (map tab_id ts)"
    using assms(1) mset_eq_imp_distinct_iff [of "map tab_id ts" "map tab_id (l_tabs l)"] by (simp add: tabs_ok_def)
  moreover have "ts = [] \<longleftrightarrow> l_tabs l = []" using s by auto
  ultimately show ?thesis using assms(1) s by (simp add: tabs_ok_def list_all_iff cong: option.case_cong)
qed

lemma move_tab_permutes: "mset (l_tabs (move_tab tid to l)) = mset (l_tabs l)"
proof (cases "position (\<lambda>t. tab_id t = tid) (l_tabs l)")
  case (Some i)
  then have i: "i < length (l_tabs l)" by (auto simp: position_Some)
  have ins: "mset (insert_at j x zs) = add_mset x (mset zs)" for j x and zs :: "tab list"
    unfolding insert_at_def
    by (metis append_take_drop_id mset.simps(2) mset_append union_mset_add_mset_right)
  have "mset (l_tabs l) = add_mset (l_tabs l ! i) (mset (remove_at i (l_tabs l)))"
    unfolding remove_at_def by (subst id_take_nth_drop [OF i]) simp
  then show ?thesis using Some by (simp add: move_tab_def ins Let_def)
qed (simp add: move_tab_def)

lemma move_tab_ok:
  assumes ok: "layout_ok l"
  shows "layout_ok (move_tab tid to l)"
proof -
  have m: "move_tab tid to l = l\<lparr>l_tabs := l_tabs (move_tab tid to l)\<rparr>"
    by (simp add: move_tab_def Let_def split: option.split)
  note p = move_tab_permutes [of tid to l]
  have live: "mset (concat (map f zs)) = \<Sum>\<^sub># (image_mset (mset \<circ> f) (mset zs))" for f :: "tab \<Rightarrow> ident list" and zs
    by (induction zs) auto
  have "tabs_ok (move_tab tid to l)" by (subst m) (rule tabs_ok_permute [OF layout_okD(2) [OF ok] p])
  moreover have "panels (move_tab tid to l) = panels l" "away (move_tab tid to l) = away l"
    by (subst m, simp)+
  moreover have "mset (live_panels (move_tab tid to l)) = mset (live_panels l)"
    unfolding live_panels_def live p ..
  ultimately show ?thesis by (rule layout_ok_tabs [OF ok])
qed

section \<open>Layouts a session can reach\<close>

text \<open>
  One operation. A new panel or tab gets an identity no panel or tab of the layout has (the code
  draws a random UUID).
\<close>

inductive layout_step :: "layout \<Rightarrow> layout \<Rightarrow> bool" where
  tab_added: "p \<notin> dom (map_of (panels l)) \<Longrightarrow> tid \<notin> tab_id ` set (l_tabs l) \<Longrightarrow>
    layout_step l (add_tab p tid project kind l)"
| panel_added: "p \<notin> dom (map_of (panels l)) \<Longrightarrow> tid \<notin> tab_id ` set (l_tabs l) \<Longrightarrow>
    layout_step l (add_panel p tid project anc pl kind l)"
| panel_removed: "layout_step l (snd (remove_panel p l))"
| panel_sent_away: "layout_step l (snd (send_away p l))"
| panel_brought_back: "tid \<notin> tab_id ` set (l_tabs l) \<Longrightarrow> layout_step l (snd (bring_back tid p l))"
| tab_closed: "layout_step l (snd (close_tab tid l))"
| panel_focused: "layout_step l (snd (focus_panel p l))"
| panel_renamed: "layout_step l (snd (rename_panel p title l))"
| tab_renamed: "layout_step l (snd (rename_tab tid title l))"
| kind_set: "layout_step l (snd (set_kind p kind l))"
| tab_moved: "layout_step l (move_tab tid to l)"

inductive layout_reachable :: "layout \<Rightarrow> bool" where
  fresh: "layout_reachable (new_default p tid project)"
| step: "layout_reachable l \<Longrightarrow> layout_step l l' \<Longrightarrow> layout_reachable l'"

lemma layout_step_ok: "layout_step l l' \<Longrightarrow> layout_ok l \<Longrightarrow> layout_ok l'"
  by (induction rule: layout_step.induct)
    (blast intro: add_tab_ok add_panel_ok remove_panel_ok close_tab_ok rename_panel_ok rename_tab_ok
       set_kind_ok move_tab_ok dest: send_away_ok bring_back_ok focus_panel_ok)+

lemma new_default_ok: "layout_ok (new_default p tid project)"
  unfolding new_default_def
  by (rule add_tab_ok) (simp_all add: layout_ok_def records_ok_def tabs_ok_def live_panels_def)

lemma layout_reachable_ok: "layout_reachable l \<Longrightarrow> layout_ok l"
  by (induction rule: layout_reachable.induct) (blast intro: new_default_ok layout_step_ok)+

section \<open>What the check of a stored layout accepts\<close>

lemma check_panels_Inr:
  "check_panels recs seen ps = Inr seen' \<longleftrightarrow>
     distinct ps \<and> set ps \<inter> set seen = {} \<and> set ps \<subseteq> dom (map_of recs) \<and> seen' = rev ps @ seen"
proof (induction ps arbitrary: seen)
  case (Cons p ps)
  then show ?case by (auto simp: domIff)
qed auto

lemma check_tabs_Inr:
  "(\<exists>seen'. check_tabs recs seen ts = Inr seen') \<longleftrightarrow>
     (\<forall>t \<in> set ts. tree_panels (t_root t) \<noteq> []) \<and>
     (let ps = concat (map (tree_panels \<circ> t_root) ts)
      in distinct ps \<and> set ps \<inter> set seen = {} \<and> set ps \<subseteq> dom (map_of recs))"
proof (induction ts arbitrary: seen)
  case (Cons t ts)
  show ?case
  proof (cases "check_panels recs seen (tree_panels (t_root t))")
    case (Inl e)
    then have "\<nexists>seen'. check_panels recs seen (tree_panels (t_root t)) = Inr seen'" by simp
    then have "\<not> (distinct (tree_panels (t_root t)) \<and> set (tree_panels (t_root t)) \<inter> set seen = {}
       \<and> set (tree_panels (t_root t)) \<subseteq> dom (map_of recs))"
      unfolding check_panels_Inr by blast
    then show ?thesis using Inl by (auto simp: Let_def)
  next
    case (Inr seen')
    then have p: "distinct (tree_panels (t_root t))" "set (tree_panels (t_root t)) \<inter> set seen = {}"
      "set (tree_panels (t_root t)) \<subseteq> dom (map_of recs)" "seen' = rev (tree_panels (t_root t)) @ seen"
      unfolding check_panels_Inr by blast+
    show ?thesis using Inr p(1-3) Cons.IH [of seen'] unfolding p(4) by (auto simp: Let_def)
  qed
qed (simp add: Let_def)

lemma check_None_iff:
  "check l = None \<longleftrightarrow> (\<forall>t \<in> set (l_tabs l). tree_panels (t_root t) \<noteq> [])
     \<and> distinct (live_panels l) \<and> set (live_panels l) \<subseteq> dom (map_of (panels l))"
proof -
  have "check l = None \<longleftrightarrow> (\<exists>seen'. check_tabs (panels l) [] (l_tabs l) = Inr seen')"
    by (auto simp: check_def split: sum.split)
  then show ?thesis unfolding check_tabs_Inr by (simp add: Let_def live_panels_def)
qed

lemma layout_ok_check: "layout_ok l \<Longrightarrow> check l = None"
  unfolding check_None_iff
proof (intro conjI ballI)
  assume l: "layout_ok l"
  show "distinct (live_panels l)" using layout_okD(3) [OF l] by simp
  show "set (live_panels l) \<subseteq> dom (map_of (panels l))" unfolding layout_okD(4) [OF l, symmetric] by simp
  fix t assume "t \<in> set (l_tabs l)"
  then have "tree_ok (t_root t)" using layout_okD(2) [OF l] by (simp add: tabs_ok_def list_all_iff tab_ok_def)
  then show "tree_panels (t_root t) \<noteq> []" by (rule tree_ok_panels)
qed

lemma from_json_ok_iff:
  "from_json J doc = Inr l \<longleftrightarrow>
     (\<exists>v. J doc = Inr (v, Inr l) \<and> (case v of None \<Rightarrow> 0 | Some n \<Rightarrow> n) mod 2 ^ 32 \<le> LAYOUT_SCHEMA_VERSION
        \<and> check l = None)"
proof (cases "J doc")
  case (Inl e)
  then show ?thesis by (simp add: from_json_def)
next
  case (Inr w)
  obtain v body where w: "w = (v, body)" by (cases w)
  define version where "version = (case v of None \<Rightarrow> 0 | Some n \<Rightarrow> n) mod (2 ^ 32 :: nat)"
  have "from_json J doc = (if version > LAYOUT_SCHEMA_VERSION then Inl (NewerVersion version)
    else case body of Inl e \<Rightarrow> Inl (Parse e) | Inr l \<Rightarrow> (case check l of Some e \<Rightarrow> Inl e | None \<Rightarrow> Inr l))"
    by (simp only: from_json_def Inr w sum.case prod.case Let_def version_def)
  moreover have "(\<exists>v'. J doc = Inr (v', Inr l) \<and> (case v' of None \<Rightarrow> 0 | Some n \<Rightarrow> n) mod 2 ^ 32 \<le> LAYOUT_SCHEMA_VERSION
     \<and> check l = None) \<longleftrightarrow> body = Inr l \<and> version \<le> LAYOUT_SCHEMA_VERSION \<and> check l = None"
    by (simp only: Inr w version_def sum.inject prod.inject) blast
  ultimately show ?thesis by (simp split: sum.split option.split) auto
qed

lemma check_panels_error: "check_panels recs seen ps = Inl e \<Longrightarrow> e \<noteq> NewerVersion n"
  by (induction ps arbitrary: seen) (auto split: if_splits)

lemma check_tabs_error: "check_tabs recs seen ts = Inl e \<Longrightarrow> e \<noteq> NewerVersion n"
  by (induction ts arbitrary: seen) (auto split: if_splits sum.splits dest: check_panels_error)

lemma check_not_newer: "check l \<noteq> Some (NewerVersion n)"
  using check_tabs_error [of "panels l" "[]" "l_tabs l" _ n] by (auto simp: check_def split: sum.split)

lemma from_json_newer_iff:
  "from_json J doc = Inl (NewerVersion n) \<longleftrightarrow>
     (\<exists>v body. J doc = Inr (Some v, body) \<and> n = v mod 2 ^ 32 \<and> n > LAYOUT_SCHEMA_VERSION)"
proof (cases "J doc")
  case (Inl e)
  then show ?thesis by (simp add: from_json_def)
next
  case (Inr w)
  obtain v body where w: "w = (v, body)" by (cases w)
  define version where "version = (case v of None \<Rightarrow> 0 | Some n \<Rightarrow> n) mod (2 ^ 32 :: nat)"
  have "from_json J doc = (if version > LAYOUT_SCHEMA_VERSION then Inl (NewerVersion version)
    else case body of Inl e \<Rightarrow> Inl (Parse e) | Inr l \<Rightarrow> (case check l of Some e \<Rightarrow> Inl e | None \<Rightarrow> Inr l))"
    by (simp only: from_json_def Inr w sum.case prod.case Let_def version_def)
  then have "from_json J doc = Inl (NewerVersion n) \<longleftrightarrow> n = version \<and> version > LAYOUT_SCHEMA_VERSION"
    using check_not_newer [of _ n] by (auto split: sum.splits option.splits)
  moreover have "\<not> 0 > LAYOUT_SCHEMA_VERSION" by simp
  ultimately show ?thesis
    by (cases v) (auto simp only: Inr w version_def sum.inject prod.inject option.case mod_0)
qed

text \<open>Pruning leaves no record without a place, and no place without a record.\<close>

lemma prune_orphans_spec:
  assumes "bt_inv (panels l)"
  shows "live_panels (snd (prune_orphans l)) = live_panels l"
    and "dom (map_of (panels (snd (prune_orphans l)))) = dom (map_of (panels l)) \<inter> set (live_panels l @ away l)"
    and "away (snd (prune_orphans l)) = filter (\<lambda>i. i \<in> dom (map_of (panels l))) (away l)"
proof -
  define aw where "aw = filter (\<lambda>i. map_of (panels l) i \<noteq> None) (away l)"
  define orphans where "orphans = filter (\<lambda>i. i \<notin> set (live_panels l @ aw)) (map fst (panels l))"
  have s: "snd (prune_orphans l) = l\<lparr>away := aw, panels := fold bt_remove orphans (panels l)\<rparr>"
    by (simp add: prune_orphans_def Let_def aw_def orphans_def)
  show "live_panels (snd (prune_orphans l)) = live_panels l" by (simp add: s live_panels_def)
  have "set orphans = dom (map_of (panels l)) - set (live_panels l @ aw)"
    using bt_keys [of "panels l"] by (auto simp: orphans_def)
  then show "dom (map_of (panels (snd (prune_orphans l)))) = dom (map_of (panels l)) \<inter> set (live_panels l @ away l)"
    unfolding s using bt.dom_del_all [OF assms, of orphans] by (auto simp: aw_def)
  show "away (snd (prune_orphans l)) = filter (\<lambda>i. i \<in> dom (map_of (panels l))) (away l)"
    by (simp add: s aw_def domIff)
qed

section \<open>A preview's history\<close>

lemma preview_started_shown: "at_shown (preview_started c)"
  by (simp add: preview_started_def at_shown_def)

lemma preview_started_id: "at_shown c \<Longrightarrow> preview_started c = c"
  by (simp add: preview_started_def)

lemma preview_started_path [simp]: "pv_path (preview_started c) = pv_path c"
  by (simp add: preview_started_def)

lemma set_scroll_simps [simp]:
  "length (set_scroll i n h) = length h"
  "i < length h \<Longrightarrow> he_path (set_scroll i n h ! j) = he_path (h ! j)"
  by (auto simp: set_scroll_def nth_list_update)

text \<open>Opening a file appends it after the shown entry; the oldest go when there are too many.\<close>

lemma preview_open_spec:
  assumes "n \<ge> 1" and s_def: "s = preview_started c"
  shows "pv_history (preview_open p scroll n c) =
      drop (pv_at s + 2 - n) (take (pv_at s + 1) (set_scroll (pv_at s) scroll (pv_history s)) @ [\<lparr>he_path = p, he_scroll = 0\<rparr>])"
    and "pv_at (preview_open p scroll n c) = length (pv_history (preview_open p scroll n c)) - 1"
    and "pv_path (preview_open p scroll n c) = p"
proof -
  have a: "pv_at s < length (pv_history s)" using preview_started_shown [of c] by (simp add: s_def at_shown_def)
  have m: "max n (Suc 0) = n" using assms(1) by simp
  have q: "min (pv_at s + 2 - n) (pv_at s + 1) = pv_at s + 2 - n" using assms(1) by simp
  show h: "pv_history (preview_open p scroll n c) =
      drop (pv_at s + 2 - n) (take (pv_at s + 1) (set_scroll (pv_at s) scroll (pv_history s)) @ [\<lparr>he_path = p, he_scroll = 0\<rparr>])"
    using a q m assms(1)
    by (simp add: preview_open_def preview_cap_def Let_def s_def [symmetric] min_absorb1 Suc_leI)
  show "pv_at (preview_open p scroll n c) = length (pv_history (preview_open p scroll n c)) - 1"
    unfolding h using a q m assms(1)
    by (simp add: preview_open_def preview_cap_def Let_def s_def [symmetric] min_absorb1 Suc_leI)
  show "pv_path (preview_open p scroll n c) = p"
    by (simp add: preview_open_def preview_cap_def Let_def)
qed

lemma preview_open_bound: "n \<ge> 1 \<Longrightarrow> length (pv_history (preview_open p scroll n c)) \<le> n"
  using preview_open_spec(1) [of n "preview_started c" c p scroll] by simp

lemma preview_open_tail:
  assumes n: "n \<ge> 2"
  shows "\<exists>h. pv_history (preview_open p scroll n c) = h @ [\<lparr>he_path = pv_path c, he_scroll = scroll\<rparr>, \<lparr>he_path = p, he_scroll = 0\<rparr>]"
proof -
  define s where "s = preview_started c"
  let ?S = "set_scroll (pv_at s) scroll (pv_history s)"
  have sh: "pv_at s < length (pv_history s)" "he_path (pv_history s ! pv_at s) = pv_path c"
    using preview_started_shown [of c] by (simp_all add: s_def at_shown_def)
  have "take (Suc (pv_at s)) ?S = take (pv_at s) ?S @ [?S ! pv_at s]"
    by (rule take_Suc_conv_app_nth) (use sh in simp)
  moreover have "?S ! pv_at s = \<lparr>he_path = pv_path c, he_scroll = scroll\<rparr>"
    using sh by (simp add: set_scroll_def)
  ultimately have e: "take (pv_at s + 1) ?S @ [\<lparr>he_path = p, he_scroll = 0\<rparr>] =
    take (pv_at s) ?S @ [\<lparr>he_path = pv_path c, he_scroll = scroll\<rparr>, \<lparr>he_path = p, he_scroll = 0\<rparr>]" by simp
  have "n \<ge> 1" using n by simp
  note o = preview_open_spec(1) [OF this s_def, of p scroll, unfolded e]
  show ?thesis unfolding o using n sh(1) by (intro exI) (simp add: drop_append)
qed

lemma preview_open_back:
  assumes n: "n \<ge> 2"
  shows "fst (preview_back left (preview_open p scroll n c)) = Some \<lparr>he_path = pv_path c, he_scroll = scroll\<rparr>"
    and "pv_path (snd (preview_back left (preview_open p scroll n c))) = pv_path c"
    and "fst (preview_forward again (snd (preview_back left (preview_open p scroll n c)))) =
      Some \<lparr>he_path = p, he_scroll = left\<rparr>"
proof -
  define o' where "o' = preview_open p scroll n c"
  obtain h where h: "pv_history o' = h @ [\<lparr>he_path = pv_path c, he_scroll = scroll\<rparr>, \<lparr>he_path = p, he_scroll = 0\<rparr>]"
    using preview_open_tail [OF n] unfolding o'_def by blast
  have at: "pv_at o' = Suc (length h)" "pv_path o' = p"
    using preview_open_spec(2,3) [OF _ refl, of n p scroll c] n h by (simp_all add: o'_def)
  have s: "preview_started o' = o'"
    by (rule preview_started_id) (simp add: at_shown_def h at nth_append)
  define b where "b = snd (preview_back left o')"
  have b: "preview_back left o' = (Some \<lparr>he_path = pv_path c, he_scroll = scroll\<rparr>, b)"
    "pv_history b = h @ [\<lparr>he_path = pv_path c, he_scroll = scroll\<rparr>, \<lparr>he_path = p, he_scroll = left\<rparr>]"
    "pv_at b = length h" "pv_path b = pv_path c"
    by (simp_all add: b_def preview_back_def s preview_step_def Let_def at h set_scroll_def nth_append list_update_append)
  have sb: "preview_started b = b" by (rule preview_started_id) (simp add: at_shown_def b nth_append)
  have "fst (preview_forward again b) = Some \<lparr>he_path = p, he_scroll = left\<rparr>"
    by (simp add: preview_forward_def sb Let_def b preview_step_def set_scroll_def nth_append list_update_append)
  then show "fst (preview_back left (preview_open p scroll n c)) = Some \<lparr>he_path = pv_path c, he_scroll = scroll\<rparr>"
    "pv_path (snd (preview_back left (preview_open p scroll n c))) = pv_path c"
    "fst (preview_forward again (snd (preview_back left (preview_open p scroll n c)))) =
      Some \<lparr>he_path = p, he_scroll = left\<rparr>"
    using b by (simp_all add: o'_def [symmetric] b_def [symmetric])
qed
end
