(* ===== verification/Utf.thy ===== *)
theory Utf
  imports Prelude "HOL-Library.Word"
begin

text \<open>
  The standard library's text encodings: a string's UTF-8 bytes, \<open>std::str::from_utf8\<close> and its
  \<open>valid_up_to\<close>, and \<open>encode_utf16\<close>. Decoding undoes encoding, and accepts nothing else.
\<close>

type_synonym byte = "8 word"

definition is_scalar :: "rchar \<Rightarrow> bool" where
  "is_scalar c \<longleftrightarrow> c < 0xD800 \<or> (0xE000 \<le> c \<and> c < 0x110000)"

abbreviation is_str :: "rstring \<Rightarrow> bool" where
  "is_str s \<equiv> list_all is_scalar s"

definition to_byte :: "nat \<Rightarrow> byte" where
  "to_byte n = of_nat n"

definition cont_byte :: "nat \<Rightarrow> byte" where
  "cont_byte n = to_byte (0x80 + n mod 64)"

definition utf8_char :: "rchar \<Rightarrow> byte list" where
  "utf8_char c =
     (if c < 0x80 then [to_byte c]
      else if c < 0x800 then [to_byte (0xC0 + c div 64), cont_byte c]
      else if c < 0x10000 then [to_byte (0xE0 + c div 4096), cont_byte (c div 64), cont_byte c]
      else [to_byte (0xF0 + c div 262144), cont_byte (c div 4096), cont_byte (c div 64), cont_byte c])"

definition utf8 :: "rstring \<Rightarrow> byte list" where
  "utf8 s = concat (map utf8_char s)"

definition is_cont :: "byte \<Rightarrow> bool" where
  "is_cont b \<longleftrightarrow> 0x80 \<le> unat b \<and> unat b < 0xC0"

definition cont_val :: "byte \<Rightarrow> nat" where
  "cont_val b = unat b - 0x80"

text \<open>The character a byte sequence starts with, and what follows it.\<close>

fun utf8_next :: "byte list \<Rightarrow> (rchar \<times> byte list) option" where
  "utf8_next [] = None"
| "utf8_next (a # bs) =
     (if unat a < 0x80 then Some (unat a, bs)
      else if 0xC2 \<le> unat a \<and> unat a < 0xE0 then
        (case bs of
           b # r \<Rightarrow> if is_cont b then Some ((unat a - 0xC0) * 64 + cont_val b, r) else None
         | [] \<Rightarrow> None)
      else if 0xE0 \<le> unat a \<and> unat a < 0xF0 then
        (case bs of
           b # c # r \<Rightarrow>
             (let v = (unat a - 0xE0) * 4096 + cont_val b * 64 + cont_val c
              in if is_cont b \<and> is_cont c \<and> 0x800 \<le> v \<and> is_scalar v then Some (v, r) else None)
         | _ \<Rightarrow> None)
      else if 0xF0 \<le> unat a \<and> unat a < 0xF5 then
        (case bs of
           b # c # d # r \<Rightarrow>
             (let v = (unat a - 0xF0) * 262144 + cont_val b * 4096 + cont_val c * 64 + cont_val d
              in if is_cont b \<and> is_cont c \<and> is_cont d \<and> 0x10000 \<le> v \<and> is_scalar v then Some (v, r) else None)
         | _ \<Rightarrow> None)
      else None)"

lemma unat_to_byte [simp]: "n < 256 \<Longrightarrow> unat (to_byte n) = n"
  by (simp add: to_byte_def unat_of_nat)

lemma unat_byte: "unat (b :: byte) < 256"
proof -
  have "unat b < 2 ^ LENGTH(8)" by (rule unsigned_less)
  then show ?thesis by simp
qed

lemma to_byte_unat [simp]: "to_byte (unat b) = b"
  by (simp add: to_byte_def)

lemma unat_cont_byte [simp]: "unat (cont_byte n) = 0x80 + n mod 64"
  unfolding cont_byte_def by (rule unat_to_byte) simp

lemma is_cont_byte [simp]: "is_cont (cont_byte n)"
  by (simp add: is_cont_def)

lemma cont_val_byte [simp]: "cont_val (cont_byte n) = n mod 64"
  by (simp add: cont_val_def)

lemma six_bits: "k < 64 \<Longrightarrow> (h * 64 + k) div 64 = h" "k < 64 \<Longrightarrow> (h * 64 + k) mod 64 = (k :: nat)"
  by simp_all

lemma six_bits2:
  assumes "k < 64" "k' < 64"
  shows "((h * 64 + k) * 64 + k') div 4096 = (h :: nat)"
  using div_mult2_eq [of "(h * 64 + k) * 64 + k'" 64 64] assms by (simp add: six_bits)

lemma six_bits3:
  assumes "k < 64" "k' < 64" "k'' < 64"
  shows "(((h * 64 + k) * 64 + k') * 64 + k'') div 262144 = (h :: nat)"
  using div_mult2_eq [of "((h * 64 + k) * 64 + k') * 64 + k''" 64 4096] assms
  by (simp add: six_bits six_bits2 del: distrib_left_numeral distrib_right_numeral)

lemma six_bits_split2: "c div 4096 * 4096 + c div 64 mod 64 * 64 + c mod 64 = (c :: nat)"
proof -
  have "c = ((c div 64) div 64 * 64 + c div 64 mod 64) * 64 + c mod 64" by simp
  also have "(c div 64) div 64 = c div 4096" by (simp add: div_mult2_eq [symmetric])
  finally show ?thesis by (simp add: distrib_right)
qed

lemma six_bits_split3: "c div 262144 * 262144 + c div 4096 mod 64 * 4096 + c div 64 mod 64 * 64 + c mod 64 = (c :: nat)"
proof -
  have "c div 64 div 4096 = c div 262144" "c div 64 div 64 = c div 4096" by (simp_all add: div_mult2_eq [symmetric])
  then have "c div 64 = c div 262144 * 4096 + c div 4096 mod 64 * 64 + c div 64 mod 64"
    using six_bits_split2 [of "c div 64"] by simp
  then have "c = (c div 262144 * 4096 + c div 4096 mod 64 * 64 + c div 64 mod 64) * 64 + c mod 64"
    by (metis div_mult_mod_eq)
  then show ?thesis by (simp add: distrib_right)
qed

lemma utf8_next_char: "is_scalar c \<Longrightarrow> utf8_next (utf8_char c @ r) = Some (c, r)"
proof -
  assume s: "is_scalar c"
  then have lt: "c < 0x110000" by (auto simp: is_scalar_def)
  consider (one) "c < 0x80" | (two) "0x80 \<le> c" "c < 0x800" | (three) "0x800 \<le> c" "c < 0x10000"
    | (four) "0x10000 \<le> c" by linarith
  then show ?thesis
  proof cases
    case one
    then show ?thesis by (simp add: utf8_char_def unat_to_byte)
  next
    case two
    have "2 \<le> c div 64" "c div 64 < 32"
      using two div_le_mono [of 128 c 64] less_mult_imp_div_less [of c 32 64] by simp_all
    moreover have "unat (to_byte (0xC0 + c div 64)) = 0xC0 + c div 64" using two by simp
    ultimately show ?thesis using two by (simp add: utf8_char_def)
  next
    case three
    have h: "c div 4096 < 16" using three less_mult_imp_div_less [of c 16 4096] by simp
    then have "unat (to_byte (0xE0 + c div 4096)) = 0xE0 + c div 4096" by simp
    then show ?thesis using three s h six_bits_split2 [of c] by (simp add: utf8_char_def)
  next
    case four
    have h: "c div 262144 < 5" using lt less_mult_imp_div_less [of c 5 262144] by simp
    then have "unat (to_byte (0xF0 + c div 262144)) = 0xF0 + c div 262144" by simp
    then show ?thesis using four s h six_bits_split3 [of c] by (simp add: utf8_char_def)
  qed
qed


lemma utf8_next_Some: "utf8_next bs = Some (c, r) \<Longrightarrow> is_scalar c \<and> bs = utf8_char c @ r"
proof (cases bs)
  case (Cons a ds)
  assume n: "utf8_next bs = Some (c, r)"
  have m: "is_cont b \<Longrightarrow> \<exists>k < 64. b = to_byte (0x80 + k) \<and> cont_val b = k" for b
    by (intro exI [of _ "cont_val b"]) (auto simp: is_cont_def cont_val_def)
  consider (one) "unat a < 0x80" | (two) "0xC2 \<le> unat a" "unat a < 0xE0" | (three) "0xE0 \<le> unat a" "unat a < 0xF0"
    | (four) "0xF0 \<le> unat a" "unat a < 0xF5" | (bad) "0x80 \<le> unat a" "unat a < 0xC2 \<or> 0xF5 \<le> unat a" by linarith
  then show ?thesis
  proof cases
    case one
    then show ?thesis using n Cons by (auto simp: utf8_char_def is_scalar_def)
  next
    case two
    then obtain b where b: "ds = b # r" "is_cont b" "c = (unat a - 0xC0) * 64 + cont_val b"
      using n Cons by (auto split: list.splits if_splits)
    obtain k where k: "k < 64" "b = to_byte (0x80 + k)" "cont_val b = k" using m [OF b(2)] by blast
    have "c div 64 = unat a - 0xC0" "c mod 64 = k" "\<not> c < 128" "c < 2048" using b(3) k two by simp_all
    then show ?thesis using two b(1,2) k Cons by (simp add: utf8_char_def is_scalar_def cont_byte_def)
  next
    case three
    then obtain b b' where b: "ds = b # b' # r" "is_cont b" "is_cont b'" "0x800 \<le> c" "is_scalar c"
      "c = (unat a - 0xE0) * 4096 + cont_val b * 64 + cont_val b'"
      using n Cons by (auto simp: Let_def split: list.splits if_splits)
    obtain k where k: "k < 64" "b = to_byte (0x80 + k)" "cont_val b = k" using m [OF b(2)] by blast
    obtain k' where k': "k' < 64" "b' = to_byte (0x80 + k')" "cont_val b' = k'" using m [OF b(3)] by blast
    define h where "h = unat a - 0xE0"
    have h: "h < 16" "unat a = 0xE0 + h" "c = (h * 64 + k) * 64 + k'"
      using b(6) k(3) k'(3) three by (simp_all add: h_def)
    have lt: "c < 0x10000" using h k(1) k'(1) by simp
    have "c div 4096 = h" "c div 64 = h * 64 + k" "c mod 64 = k'"
      unfolding h(3) using k(1) k'(1) six_bits2 [OF k(1) k'(1), of h] by (simp_all only: six_bits)
    then have "utf8_char c = [to_byte (0xE0 + h), to_byte (0x80 + k), to_byte (0x80 + k')]"
      using b(4) lt k(1) by (simp add: utf8_char_def cont_byte_def)
    moreover have "a = to_byte (0xE0 + h)" unfolding h(2) [symmetric] by simp
    ultimately show ?thesis using b(1,5) k(2) k'(2) Cons by simp
  next
    case four
    then obtain b b' b'' where b: "ds = b # b' # b'' # r" "is_cont b" "is_cont b'" "is_cont b''" "0x10000 \<le> c" "is_scalar c"
      "c = (unat a - 0xF0) * 262144 + cont_val b * 4096 + cont_val b' * 64 + cont_val b''"
      using n Cons by (auto simp: Let_def split: list.splits if_splits)
    obtain k where k: "k < 64" "b = to_byte (0x80 + k)" "cont_val b = k" using m [OF b(2)] by blast
    obtain k' where k': "k' < 64" "b' = to_byte (0x80 + k')" "cont_val b' = k'" using m [OF b(3)] by blast
    obtain k'' where k'': "k'' < 64" "b'' = to_byte (0x80 + k'')" "cont_val b'' = k''" using m [OF b(4)] by blast
    define h where "h = unat a - 0xF0"
    have h: "unat a = 0xF0 + h" "c = ((h * 64 + k) * 64 + k') * 64 + k''"
      using b(7) k(3) k'(3) k''(3) four by (simp_all add: h_def)
    have "c div 262144 = h" unfolding h(2) by (rule six_bits3 [OF k(1) k'(1) k''(1)])
    moreover have "c div 4096 = h * 64 + k" unfolding h(2) by (rule six_bits2 [OF k'(1) k''(1)])
    moreover have "c div 64 = (h * 64 + k) * 64 + k'" "c mod 64 = k''"
      unfolding h(2) using k''(1) by (simp_all only: six_bits)
    ultimately have "c div 262144 = h" "c div 4096 mod 64 = k" "c div 64 mod 64 = k'" "c mod 64 = k''"
      using k(1) k'(1) by (simp_all only: six_bits)
    then have "utf8_char c = [to_byte (0xF0 + h), to_byte (0x80 + k), to_byte (0x80 + k'), to_byte (0x80 + k'')]"
      using b(5) by (simp add: utf8_char_def cont_byte_def)
    moreover have "a = to_byte (0xF0 + h)" unfolding h(1) [symmetric] by simp
    ultimately show ?thesis using b(1,6) k(2) k'(2) k''(2) Cons by simp
  next
    case bad
    then show ?thesis using n Cons by (auto split: if_splits)
  qed
qed simp

lemma utf8_char_neq_Nil [simp]: "utf8_char c \<noteq> []"
  by (simp add: utf8_char_def)

text \<open>\<open>str::from_utf8\<close>: the string, or how many bytes are valid.\<close>

function from_utf8_at :: "nat \<Rightarrow> byte list \<Rightarrow> nat + rstring" where
  "from_utf8_at n bs =
     (if bs = [] then Inr []
      else (case utf8_next bs of
              None \<Rightarrow> Inl n
            | Some (c, r) \<Rightarrow> (case from_utf8_at (n + len_utf8 c) r of Inl e \<Rightarrow> Inl e | Inr s \<Rightarrow> Inr (c # s))))"
  by pat_completeness auto
termination
proof (relation "measure (length \<circ> snd)")
  fix n bs c r p
  assume "bs \<noteq> []" "utf8_next bs = Some p" "(c, r) = p"
  then have "bs = utf8_char c @ r" using utf8_next_Some by auto
  then show "((n + len_utf8 c, r), n, bs) \<in> measure (length \<circ> snd)" by simp
qed simp

declare from_utf8_at.simps [simp del]

definition from_utf8 :: "byte list \<Rightarrow> nat + rstring" where
  "from_utf8 bs = from_utf8_at 0 bs"

lemma length_utf8_char: "is_scalar c \<Longrightarrow> length (utf8_char c) = len_utf8 c"
  by (simp add: utf8_char_def len_utf8_def)

lemma from_utf8_at_encoded: "is_str s \<Longrightarrow> from_utf8_at n (utf8 s) = Inr s"
proof (induction s arbitrary: n)
  case (Cons c s)
  then show ?case by (subst from_utf8_at.simps) (simp add: utf8_def utf8_next_char)
qed (simp add: utf8_def from_utf8_at.simps)

lemma from_utf8_encoded: "is_str s \<Longrightarrow> from_utf8 (utf8 s) = Inr s"
  by (simp add: from_utf8_def from_utf8_at_encoded)

lemma from_utf8_at_Inr: "from_utf8_at n bs = Inr s \<Longrightarrow> is_str s \<and> utf8 s = bs"
proof (induction n bs arbitrary: s rule: from_utf8_at.induct)
  case (1 n bs)
  show ?case
  proof (cases "bs = []")
    case True
    then show ?thesis using "1.prems" by (simp add: utf8_def from_utf8_at.simps)
  next
    case False
    with "1.prems" obtain c r s' where n: "utf8_next bs = Some (c, r)"
      "from_utf8_at (n + len_utf8 c) r = Inr s'" "s = c # s'"
      by (subst (asm) from_utf8_at.simps) (auto split: option.splits prod.splits sum.splits)
    then show ?thesis using "1.IH" [OF False n(1) refl n(2)] utf8_next_Some [OF n(1)] by (simp add: utf8_def)
  qed
qed

lemma from_utf8_Inr: "from_utf8 bs = Inr s \<Longrightarrow> is_str s \<and> utf8 s = bs"
  unfolding from_utf8_def by (rule from_utf8_at_Inr)

section \<open>UTF-16\<close>

definition utf16_units :: "rchar \<Rightarrow> nat list" where
  "utf16_units c =
     (if c < 0x10000 then [c]
      else [0xD800 + (c - 0x10000) div 1024, 0xDC00 + (c - 0x10000) mod 1024])"

definition encode_utf16 :: "rstring \<Rightarrow> nat list" where
  "encode_utf16 s = concat (map utf16_units s)"

text \<open>\<open>to_le_bytes\<close> and \<open>to_be_bytes\<close> of a unit.\<close>

definition le_bytes :: "nat \<Rightarrow> byte list" where
  "le_bytes u = [to_byte (u mod 256), to_byte (u div 256)]"

definition be_bytes :: "nat \<Rightarrow> byte list" where
  "be_bytes u = [to_byte (u div 256), to_byte (u mod 256)]"

end
