(* ===== verification/TextCodec.thy ===== *)
theory TextCodec
  imports Utf OrdMap
begin

text \<open>
  Byte-exact text round trips (\<open>throng-core/src/text.rs\<close>). The UTF-16 decoder of \<open>encoding_rs\<close> and
  the diff of \<open>similar\<close> are parameters. The lines of a string are split at ASCII characters, so the
  model splits characters where the code splits bytes.
\<close>

datatype encoding = Utf8 bool | Utf16Le | Utf16Be

datatype line_ending = Lf | CrLf | Cr

datatype decode_error = Binary | InvalidUtf8 nat | InvalidUtf16

type_synonym text_lines = "(rstring \<times> line_ending option) list"

record text_format =
  tf_encoding :: encoding
  tf_eol :: line_ending
  tf_mixed :: "text_lines option"

record decoded =
  d_text :: rstring
  d_format :: text_format

fun encoding_label :: "encoding \<Rightarrow> rstring" where
  "encoding_label (Utf8 False) = lit ''UTF-8''"
| "encoding_label (Utf8 True) = lit ''UTF-8 with BOM''"
| "encoding_label Utf16Le = lit ''UTF-16 LE''"
| "encoding_label Utf16Be = lit ''UTF-16 BE''"

fun eol_str :: "line_ending \<Rightarrow> rstring" where
  "eol_str Lf = [LF]"
| "eol_str CrLf = [CR, LF]"
| "eol_str Cr = [CR]"

fun eol_label :: "line_ending \<Rightarrow> rstring" where
  "eol_label Lf = lit ''LF''"
| "eol_label CrLf = lit ''CRLF''"
| "eol_label Cr = lit ''CR''"

definition new_document :: "line_ending \<Rightarrow> text_format" where
  "new_document e = \<lparr>tf_encoding = Utf8 False, tf_eol = e, tf_mixed = None\<rparr>"

definition describe :: "text_format \<Rightarrow> rstring" where
  "describe f =
     (let e = (if tf_mixed f \<noteq> None then lit ''Mixed ('' @ eol_label (tf_eol f) @ lit '')'' else eol_label (tf_eol f))
      in encoding_label (tf_encoding f) @ [SP, 0xB7, SP] @ e)"

definition BINARY_SNIFF_BYTES :: nat where "BINARY_SNIFF_BYTES = 8 * 1024"

section \<open>Lines and their terminators\<close>

fun split_lines_from :: "rstring \<Rightarrow> rstring \<Rightarrow> text_lines" where
  "split_lines_from acc [] = (if acc = [] then [] else [(acc, None)])"
| "split_lines_from acc (c # cs) =
     (if c = LF then (acc, Some Lf) # split_lines_from [] cs
      else if c = CR then
        (case cs of
           d # ds \<Rightarrow> if d = LF then (acc, Some CrLf) # split_lines_from [] ds
                     else (acc, Some Cr) # split_lines_from [] cs
         | [] \<Rightarrow> (acc, Some Cr) # split_lines_from [] cs)
      else split_lines_from (acc @ [c]) cs)"

definition split_lines :: "rstring \<Rightarrow> text_lines" where
  "split_lines raw = split_lines_from [] raw"

definition count_eol :: "line_ending \<Rightarrow> text_lines \<Rightarrow> nat" where
  "count_eol e ls = count_list (map snd ls) (Some e)"

definition classify :: "text_lines \<Rightarrow> line_ending \<Rightarrow> line_ending \<times> bool" where
  "classify ls default_eol =
     (let lf = count_eol Lf ls; crlf = count_eol CrLf ls; cr = count_eol Cr ls;
          kinds = length (filter (\<lambda>n. n > 0) [lf, crlf, cr]);
          dominant = (if kinds = 0 then default_eol
                      else if lf \<ge> crlf \<and> lf \<ge> cr then Lf
                      else if crlf \<ge> cr then CrLf else Cr)
      in (dominant, kinds > 1))"

section \<open>Decoding\<close>

type_synonym utf16_decoder = "encoding \<Rightarrow> byte list \<Rightarrow> rstring option"

definition decode_utf8 :: "byte list \<Rightarrow> nat \<Rightarrow> decode_error + rstring" where
  "decode_utf8 bs base =
     (case from_utf8 bs of Inr s \<Rightarrow> Inr s | Inl valid \<Rightarrow> Inl (InvalidUtf8 (base + valid)))"

definition decode_utf16 :: "utf16_decoder \<Rightarrow> encoding \<Rightarrow> byte list \<Rightarrow> decode_error + rstring" where
  "decode_utf16 U e bs =
     (if length bs mod 2 \<noteq> 0 then Inl InvalidUtf16
      else (case U e bs of Some s \<Rightarrow> Inr s | None \<Rightarrow> Inl InvalidUtf16))"

text \<open>The encoding the bytes start with, and the raw text.\<close>

definition read_raw :: "utf16_decoder \<Rightarrow> byte list \<Rightarrow> decode_error + encoding \<times> rstring" where
  "read_raw U bs =
     (case strip_prefix [0xEF, 0xBB, 0xBF] bs of
        Some rest \<Rightarrow> (case decode_utf8 rest 3 of Inl e \<Rightarrow> Inl e | Inr s \<Rightarrow> Inr (Utf8 True, s))
      | None \<Rightarrow>
     (case strip_prefix [0xFF, 0xFE] bs of
        Some rest \<Rightarrow> (case decode_utf16 U Utf16Le rest of Inl e \<Rightarrow> Inl e | Inr s \<Rightarrow> Inr (Utf16Le, s))
      | None \<Rightarrow>
     (case strip_prefix [0xFE, 0xFF] bs of
        Some rest \<Rightarrow> (case decode_utf16 U Utf16Be rest of Inl e \<Rightarrow> Inl e | Inr s \<Rightarrow> Inr (Utf16Be, s))
      | None \<Rightarrow>
          (if 0 \<in> set (take BINARY_SNIFF_BYTES bs) then Inl Binary
           else (case decode_utf8 bs 0 of Inl e \<Rightarrow> Inl e | Inr s \<Rightarrow> Inr (Utf8 False, s))))))"

definition lf_text :: "text_lines \<Rightarrow> rstring" where
  "lf_text ls = concat (map (\<lambda>(content, e). if e \<noteq> None then content @ [LF] else content) ls)"

definition decode :: "utf16_decoder \<Rightarrow> byte list \<Rightarrow> line_ending \<Rightarrow> decode_error + decoded" where
  "decode U bs default_eol =
     (case read_raw U bs of
        Inl e \<Rightarrow> Inl e
      | Inr (enc, raw) \<Rightarrow>
          (let ls = split_lines raw
           in case classify ls default_eol of
                (e, mixed) \<Rightarrow>
                  Inr \<lparr>d_text = lf_text ls,
                       d_format = \<lparr>tf_encoding = enc, tf_eol = e, tf_mixed = (if mixed then Some ls else None)\<rparr>\<rparr>))"

section \<open>Encoding\<close>

text \<open>An operation of the diff: a run of lines both sides share, or anything else.\<close>

datatype diff_op = DiffEqual nat nat nat | DiffOther

type_synonym diff = "rstring list \<Rightarrow> rstring list \<Rightarrow> diff_op list"

definition new_lines :: "rstring \<Rightarrow> rstring list" where
  "new_lines s =
     (let parts = split_on LF s;
          parts = (if ends_with [LF] s then butlast parts else parts)
      in if s = [] then [] else parts)"

fun keep_endings :: "text_lines \<Rightarrow> diff_op list \<Rightarrow> line_ending list \<Rightarrow> line_ending list" where
  "keep_endings orig [] es = es"
| "keep_endings orig (DiffOther # ops) es = keep_endings orig ops es"
| "keep_endings orig (DiffEqual old new n # ops) es =
     keep_endings orig ops
       (fold (\<lambda>k es. case snd (orig ! (old + k)) of Some e \<Rightarrow> es[new + k := e] | None \<Rightarrow> es) [0..<n] es)"

fun join_lines :: "bool \<Rightarrow> rstring list \<Rightarrow> line_ending list \<Rightarrow> rstring" where
  "join_lines ends [] es = []"
| "join_lines ends (l # ls) es =
     l @ (if ls \<noteq> [] \<or> ends then eol_str (hd es) else []) @ join_lines ends ls (tl es)"

definition encode_raw :: "encoding \<Rightarrow> rstring \<Rightarrow> byte list" where
  "encode_raw e s =
     (case e of
        Utf8 bom \<Rightarrow> (if bom then [0xEF, 0xBB, 0xBF] else []) @ utf8 s
      | Utf16Le \<Rightarrow> [0xFF, 0xFE] @ concat (map le_bytes (encode_utf16 s))
      | Utf16Be \<Rightarrow> [0xFE, 0xFF] @ concat (map be_bytes (encode_utf16 s)))"

definition encode :: "diff \<Rightarrow> rstring \<Rightarrow> text_format \<Rightarrow> byte list" where
  "encode D s f =
     (let ls = new_lines s;
          es = replicate (length ls) (tf_eol f);
          es = (case tf_mixed f of
                  None \<Rightarrow> es
                | Some orig \<Rightarrow> keep_endings orig (D (map fst orig) ls) es)
      in encode_raw (tf_encoding f) (join_lines (ends_with [LF] s) ls es))"

section \<open>Indentation\<close>

datatype indent = Tabs | Spaces nat

fun indent_unit :: "indent \<Rightarrow> rstring" where
  "indent_unit Tabs = [TAB]"
| "indent_unit (Spaces n) = replicate n SP"

text \<open>\<open>str::lines\<close>.\<close>

definition str_lines :: "rstring \<Rightarrow> rstring list" where
  "str_lines s =
     (let parts = split_on LF s;
          strip = (\<lambda>p. if ends_with [CR] p then butlast p else p)
      in map strip (butlast parts) @ (if last parts = [] then [] else [last parts]))"

definition INSPECTED :: nat where "INSPECTED = 20"

definition count_width :: "nat \<Rightarrow> (nat \<times> nat) list \<Rightarrow> (nat \<times> nat) list" where
  "count_width w m = bt_insert w ((case map_of m w of None \<Rightarrow> 0 | Some n \<Rightarrow> n) + 1) m"

text \<open>The sampled lines in order: \<open>None\<close> when one starts with a tab.\<close>

fun sample_widths :: "rstring list \<Rightarrow> (nat \<times> nat) list \<Rightarrow> (nat \<times> nat) list option" where
  "sample_widths [] m = Some m"
| "sample_widths (l # ls) m =
     (let pre = take INSPECTED l
      in case pre of
           [] \<Rightarrow> sample_widths ls m
         | c # _ \<Rightarrow>
             if c = TAB then None
             else if \<not> is_whitespace c then sample_widths ls m
             else (let spaces = length (takeWhile (\<lambda>c. c = SP) pre);
                       indeterminate = (spaces = length pre \<and> length l > INSPECTED)
                   in sample_widths ls (if spaces > 0 \<and> \<not> indeterminate then count_width spaces m else m)))"

definition best_width :: "(nat \<times> nat) list \<Rightarrow> (nat \<times> nat) option" where
  "best_width m =
     fold (\<lambda>(w, n) best. case best of
             Some (bw, bn) \<Rightarrow> if bn \<ge> n then best else Some (w, n)
           | None \<Rightarrow> Some (w, n)) m None"

definition infer_indent :: "rstring \<Rightarrow> indent option" where
  "infer_indent s =
     (let ls = str_lines s;
          total = length ls;
          sample = max 1 (min 100 ((total + 9) div 10))
      in case sample_widths (take sample ls) [] of
           None \<Rightarrow> Some Tabs
         | Some counts \<Rightarrow> map_option (\<lambda>(w, _). Spaces w) (best_width counts))"

section \<open>Reading and writing back\<close>

text \<open>What the lines stood for, and the lines a text has: only the last may lack a terminator.\<close>

definition joined_raw :: "text_lines \<Rightarrow> rstring" where
  "joined_raw ls = concat (map (\<lambda>(c, e). c @ (case e of None \<Rightarrow> [] | Some e \<Rightarrow> eol_str e)) ls)"

fun lines_ok :: "text_lines \<Rightarrow> bool" where
  "lines_ok [] = True"
| "lines_ok ((c, Some e) # ls) = (LF \<notin> set c \<and> lines_ok ls)"
| "lines_ok ((c, None) # ls) = (LF \<notin> set c \<and> c \<noteq> [] \<and> ls = [])"

definition terminated :: "text_lines \<Rightarrow> bool" where
  "terminated ls \<longleftrightarrow> ls \<noteq> [] \<and> snd (last ls) \<noteq> None"

lemma split_lines_from_ok: "LF \<notin> set acc \<Longrightarrow> lines_ok (split_lines_from acc s)"
  by (induction acc s rule: split_lines_from.induct) (auto split: list.split)

lemma joined_raw_split_lines_from: "joined_raw (split_lines_from acc s) = acc @ s"
  by (induction acc s rule: split_lines_from.induct) (auto simp: joined_raw_def split: list.split)

lemma split_lines_ok: "lines_ok (split_lines s)"
  by (simp add: split_lines_def split_lines_from_ok)

lemma joined_raw_split_lines: "joined_raw (split_lines s) = s"
  by (simp add: split_lines_def joined_raw_split_lines_from)

lemma lf_text_simps [simp]:
  "lf_text [] = []" "lf_text ((c, None) # ls) = c @ lf_text ls"
  "lf_text ((c, Some e) # ls) = c @ LF # lf_text ls"
  by (simp_all add: lf_text_def)

lemma split_on_lf_text:
  "lines_ok ls \<Longrightarrow> split_on LF (lf_text ls) = map fst ls @ (if ls = [] \<or> terminated ls then [[]] else [])"
proof (induction ls rule: lines_ok.induct)
  case (2 c e ls)
  then show ?case by (auto simp: split_on_append terminated_def)
next
  case (3 c ls)
  then show ?case by (simp add: split_on_no terminated_def)
qed simp

lemma ends_with_single: "ends_with [c] s \<longleftrightarrow> s \<noteq> [] \<and> last s = c"
  by (auto simp: ends_with_iff) (metis append_butlast_last_id)

lemma lf_text_Nil: "lines_ok ls \<Longrightarrow> lf_text ls = [] \<longleftrightarrow> ls = []"
  by (induction ls rule: lines_ok.induct) auto

lemma lf_text_terminated: "lines_ok ls \<Longrightarrow> ends_with [LF] (lf_text ls) \<longleftrightarrow> terminated ls"
proof (induction ls rule: lines_ok.induct)
  case (2 c e ls)
  then show ?case by (cases "ls = []") (auto simp: ends_with_single terminated_def lf_text_Nil)
next
  case (3 c ls)
  then have "last c \<in> set c" by simp
  moreover have "LF \<notin> set c" using 3 by simp
  ultimately have "last c \<noteq> LF" by metis
  with 3 show ?case by (simp add: ends_with_single terminated_def)
qed (simp add: ends_with_single terminated_def)

lemma new_lines_lf_text: "lines_ok ls \<Longrightarrow> new_lines (lf_text ls) = map fst ls"
  using split_on_lf_text [of ls] lf_text_terminated [of ls] lf_text_Nil [of ls]
  by (auto simp: new_lines_def Let_def)

definition endings_fit :: "text_lines \<Rightarrow> line_ending list \<Rightarrow> bool" where
  "endings_fit ls es \<longleftrightarrow> length es = length ls \<and> (\<forall>i < length ls. \<forall>e. snd (ls ! i) = Some e \<longrightarrow> es ! i = e)"

lemma join_lines_fit: "lines_ok ls \<Longrightarrow> endings_fit ls es \<Longrightarrow> join_lines (terminated ls) (map fst ls) es = joined_raw ls"
proof (induction ls arbitrary: es rule: lines_ok.induct)
  case (2 c e ls)
  then obtain es' where es: "es = e # es'"
    by (cases es) (auto simp: endings_fit_def)
  have "endings_fit ls es'"
    using 2(3) unfolding es endings_fit_def by (auto dest: spec [of _ "Suc _"])
  then have "join_lines (terminated ls) (map fst ls) es' = joined_raw ls" using 2 by simp
  then show ?case by (cases "ls = []") (simp_all add: es terminated_def joined_raw_def)
qed (simp_all add: joined_raw_def terminated_def)

text \<open>Keeping each line's own ending.\<close>

lemma fold_endings:
  "length (fold (\<lambda>k es. case snd (orig ! k) of Some e \<Rightarrow> es[k := e] | None \<Rightarrow> es) [0..<n] es) = length es \<and>
   (n \<le> length es \<longrightarrow>
     (\<forall>i < n. \<forall>e. snd (orig ! i) = Some e \<longrightarrow>
        fold (\<lambda>k es. case snd (orig ! k) of Some e \<Rightarrow> es[k := e] | None \<Rightarrow> es) [0..<n] es ! i = e))"
proof (induction n)
  case (Suc n)
  then show ?case by (auto simp: nth_list_update less_Suc_eq split: option.splits)
qed simp

lemma keep_endings_same:
  "length es = length ls \<Longrightarrow> endings_fit ls (keep_endings ls [DiffEqual 0 0 (length ls)] es)"
  using fold_endings [of ls "length ls" es] unfolding endings_fit_def keep_endings.simps add_0 by simp

lemma count_list_pos: "count_list xs x > 0 \<longleftrightarrow> x \<in> set xs"
  by (metis count_list_0_iff neq0_conv)

lemma classify_uniform:
  assumes "classify ls d = (e, False)"
  shows "endings_fit ls (replicate (length ls) e)"
proof -
  have u: "x = e" if x: "Some x \<in> snd ` set ls" for x
  proof -
    have "count_eol x ls > 0" using x by (simp add: count_eol_def count_list_pos)
    then show ?thesis using assms by (cases x) (auto simp: classify_def Let_def split: if_splits)
  qed
  show ?thesis unfolding endings_fit_def
    using u by (auto simp: image_iff) (metis nth_mem snd_conv surjective_pairing)
qed

section \<open>Round trips\<close>

text \<open>
  What the code relies on: the UTF-16 decoder is exact (it refuses what is not valid), and the diff
  of a sequence with itself keeps all of it.
\<close>

definition utf16_exact :: "utf16_decoder \<Rightarrow> bool" where
  "utf16_exact U \<longleftrightarrow>
     (\<forall>bs s. U Utf16Le bs = Some s \<longrightarrow> bs = concat (map le_bytes (encode_utf16 s))) \<and>
     (\<forall>bs s. U Utf16Be bs = Some s \<longrightarrow> bs = concat (map be_bytes (encode_utf16 s)))"

definition diff_reflexive :: "diff \<Rightarrow> bool" where
  "diff_reflexive D \<longleftrightarrow> (\<forall>xs. xs \<noteq> [] \<longrightarrow> D xs xs = [DiffEqual 0 0 (length xs)])"

lemma decode_utf8_exact: "decode_utf8 bs n = Inr s \<Longrightarrow> utf8 s = bs"
  using from_utf8_Inr [of bs s] by (simp add: decode_utf8_def split: sum.splits)

lemma decode_utf16_exact: "decode_utf16 U e bs = Inr s \<Longrightarrow> U e bs = Some s"
  by (simp add: decode_utf16_def split: if_splits option.splits)

lemma read_raw_cases:
  assumes "read_raw U bs = Inr (e, s)"
  obtains rest where "e = Utf8 True" "bs = [0xEF, 0xBB, 0xBF] @ rest" "decode_utf8 rest 3 = Inr s"
  | rest where "e = Utf16Le" "bs = [0xFF, 0xFE] @ rest" "decode_utf16 U Utf16Le rest = Inr s"
  | rest where "e = Utf16Be" "bs = [0xFE, 0xFF] @ rest" "decode_utf16 U Utf16Be rest = Inr s"
  | "e = Utf8 False" "decode_utf8 bs 0 = Inr s" "0 \<notin> set (take BINARY_SNIFF_BYTES bs)"
proof (cases "strip_prefix [0xEF, 0xBB, 0xBF] bs")
  case (Some rest)
  then show ?thesis using that(1) assms by (simp add: read_raw_def strip_prefix_Some split: sum.splits)
next
  case u8: None
  show ?thesis
  proof (cases "strip_prefix [0xFF, 0xFE] bs")
    case (Some rest)
    then show ?thesis using that(2) assms u8 by (simp add: read_raw_def strip_prefix_Some split: sum.splits)
  next
    case le: None
    show ?thesis
    proof (cases "strip_prefix [0xFE, 0xFF] bs")
      case (Some rest)
      then show ?thesis using that(3) assms u8 le by (simp add: read_raw_def strip_prefix_Some split: sum.splits)
    next
      case None
      then show ?thesis using that(4) assms u8 le by (simp add: read_raw_def split: sum.splits if_splits)
    qed
  qed
qed

lemma read_raw_exact:
  assumes "utf16_exact U" "read_raw U bs = Inr (e, s)"
  shows "encode_raw e s = bs"
proof (rule read_raw_cases [OF assms(2)])
  fix rest assume "e = Utf8 True" "bs = [0xEF, 0xBB, 0xBF] @ rest" "decode_utf8 rest 3 = Inr s"
  then show ?thesis using decode_utf8_exact [of rest 3 s] by (simp add: encode_raw_def)
next
  fix rest assume "e = Utf16Le" "bs = [0xFF, 0xFE] @ rest" "decode_utf16 U Utf16Le rest = Inr s"
  then show ?thesis using assms(1) decode_utf16_exact [of U Utf16Le rest s] by (simp add: encode_raw_def utf16_exact_def)
next
  fix rest assume "e = Utf16Be" "bs = [0xFE, 0xFF] @ rest" "decode_utf16 U Utf16Be rest = Inr s"
  then show ?thesis using assms(1) decode_utf16_exact [of U Utf16Be rest s] by (simp add: encode_raw_def utf16_exact_def)
next
  assume "e = Utf8 False" "decode_utf8 bs 0 = Inr s"
  then show ?thesis using decode_utf8_exact [of bs 0 s] by (simp add: encode_raw_def)
qed

lemma encode_lf_text:
  assumes D: "diff_reflexive D" and c: "classify (split_lines raw) d = (e, mixed)"
  shows "encode D (lf_text (split_lines raw)) \<lparr>tf_encoding = enc, tf_eol = e, tf_mixed = (if mixed then Some (split_lines raw) else None)\<rparr>
    = encode_raw enc raw"
proof -
  let ?ls = "split_lines raw"
  note ok = split_lines_ok [of raw]
  let ?es = "replicate (length ?ls) e"
  let ?es' = "if mixed then keep_endings ?ls (D (map fst ?ls) (map fst ?ls)) ?es else ?es"
  have "endings_fit ?ls ?es'"
  proof (cases mixed)
    case True
    then have "?ls \<noteq> []" using c by (auto simp: classify_def count_eol_def Let_def)
    then show ?thesis using D True keep_endings_same [of ?es ?ls] by (simp add: diff_reflexive_def)
  next
    case False
    then show ?thesis using classify_uniform c by simp
  qed
  then have "join_lines (terminated ?ls) (map fst ?ls) ?es' = raw"
    using join_lines_fit [OF ok] joined_raw_split_lines by simp
  then show ?thesis
    by (cases mixed) (simp_all add: encode_def Let_def new_lines_lf_text [OF ok] lf_text_terminated [OF ok])
qed

lemma decode_encode:
  assumes "utf16_exact U" "diff_reflexive D" "decode U bs d = Inr doc"
  shows "encode D (d_text doc) (d_format doc) = bs"
proof -
  obtain enc raw where r: "read_raw U bs = Inr (enc, raw)"
    using assms(3) by (auto simp: decode_def split: sum.splits)
  obtain e mixed where c: "classify (split_lines raw) d = (e, mixed)" by fastforce
  have "d_text doc = lf_text (split_lines raw)"
    "d_format doc = \<lparr>tf_encoding = enc, tf_eol = e, tf_mixed = (if mixed then Some (split_lines raw) else None)\<rparr>"
    using assms(3) r c by (auto simp: decode_def Let_def)
  then show ?thesis using encode_lf_text [OF assms(2) c] read_raw_exact [OF assms(1) r] by simp
qed

text \<open>The text held for editing has no carriage return and no bytes are lost on the way in.\<close>

lemma split_lines_from_no_CR: "CR \<notin> set acc \<Longrightarrow> list_all (\<lambda>x. CR \<notin> set (fst x)) (split_lines_from acc s)"
  by (induction acc s rule: split_lines_from.induct) (auto split: list.split)

lemma decode_normalised:
  assumes "decode U bs d = Inr doc"
  shows "CR \<notin> set (d_text doc)"
proof -
  obtain raw where t: "d_text doc = lf_text (split_lines raw)"
    using assms by (auto simp: decode_def Let_def split: sum.splits prod.splits)
  have "CR \<notin> set c" if "(c, e) \<in> set (split_lines raw)" for c e
    using split_lines_from_no_CR [of "[]" raw] that by (auto simp: split_lines_def list_all_iff)
  then show ?thesis unfolding t lf_text_def by (fastforce split: if_splits)
qed

section \<open>Writing and reading again\<close>

text \<open>
  A text without carriage returns written with one ending throughout reads back the same, unless it
  starts with a byte order mark the encoding does not account for or has a NUL where the reader
  looks for binary content.
\<close>

definition with_ending :: "line_ending \<Rightarrow> text_lines \<Rightarrow> text_lines" where
  "with_ending e ls = map (\<lambda>(c, t). (c, map_option (\<lambda>_. e) t)) ls"

lemma with_ending_simps:
  "with_ending e [] = []" "with_ending e ((c, None) # ls) = (c, None) # with_ending e ls"
  "with_ending e ((c, Some t) # ls) = (c, Some e) # with_ending e ls"
  by (simp_all add: with_ending_def)

lemma with_ending_ok:
  "lines_ok ls \<Longrightarrow> lines_ok (with_ending e ls)" "map fst (with_ending e ls) = map fst ls"
  "lf_text (with_ending e ls) = lf_text ls" "terminated (with_ending e ls) = terminated ls"
proof -
  show "lines_ok ls \<Longrightarrow> lines_ok (with_ending e ls)"
    by (induction ls rule: lines_ok.induct) (simp_all add: with_ending_simps)
  show "map fst (with_ending e ls) = map fst ls" by (simp add: with_ending_def case_prod_unfold)
  show "lf_text (with_ending e ls) = lf_text ls"
  proof (induction ls)
    case (Cons l ls)
    then show ?case by (cases l; cases "snd l") (auto simp: with_ending_simps)
  qed (simp add: with_ending_simps)
  show "terminated (with_ending e ls) = terminated ls"
    by (cases ls rule: rev_cases) (auto simp: with_ending_def terminated_def case_prod_unfold)
qed

lemma split_lines_plain:
  "CR \<notin> set s \<Longrightarrow> LF \<notin> set s \<Longrightarrow> split_lines_from acc (s @ r) = split_lines_from (acc @ s) r"
  by (induction s arbitrary: acc) auto

lemma joined_raw_Cons:
  "joined_raw ((c, t) # ls) = c @ (case t of None \<Rightarrow> [] | Some e \<Rightarrow> eol_str e) @ joined_raw ls"
  by (simp add: joined_raw_def)

lemma split_joined_uniform:
  assumes "lines_ok ls" "\<forall>(c, t) \<in> set ls. CR \<notin> set c"
  shows "split_lines_from [] (joined_raw (with_ending e ls)) = with_ending e ls"
  using assms
proof (induction ls rule: lines_ok.induct)
  case 1
  then show ?case by (simp add: with_ending_simps joined_raw_def)
next
  case (2 c t ls)
  let ?rest = "joined_raw (with_ending e ls)"
  have ih: "split_lines_from [] ?rest = with_ending e ls" using 2 by simp
  have "split_lines_from c (eol_str e @ ?rest) = (c, Some e) # split_lines_from [] ?rest"
  proof (cases e)
    case Cr
    have "?rest = [] \<or> hd ?rest \<noteq> LF"
    proof (cases ls)
      case (Cons l ls')
      obtain d t' where l: "l = (d, t')" by fastforce
      have "LF \<notin> set d" "t' = None \<Longrightarrow> d \<noteq> []" using 2(2) Cons l by (cases t'; auto)+
      then show ?thesis using Cons l Cr
        by (cases d; cases t') (auto simp: with_ending_simps joined_raw_Cons joined_raw_def)
    qed (simp add: with_ending_simps joined_raw_def)
    then show ?thesis using Cr by (cases ?rest) auto
  qed auto
  then show ?case
    using 2 ih by (simp add: with_ending_simps joined_raw_Cons split_lines_plain)
next
  case (3 c ls)
  then show ?case
    using split_lines_plain [of c "[]" "[]"] by (simp add: with_ending_simps joined_raw_def)
qed

lemma split_lines_no_CR: "CR \<notin> set s \<Longrightarrow> CR \<notin> set acc \<Longrightarrow> \<forall>(c, t) \<in> set (split_lines_from acc s). CR \<notin> set c \<and> t \<in> {None, Some Lf}"
  by (induction acc s rule: split_lines_from.induct) (auto split: list.split)

lemma lf_text_split: "CR \<notin> set s \<Longrightarrow> lf_text (split_lines s) = s"
proof -
  assume "CR \<notin> set s"
  then have "\<forall>(c, t) \<in> set (split_lines s). t \<in> {None, Some Lf}"
    using split_lines_no_CR [of s "[]"] by (auto simp: split_lines_def)
  moreover have "\<forall>(c, t) \<in> set ls. t \<in> {None, Some Lf} \<Longrightarrow> lf_text ls = joined_raw ls" for ls
    by (induction ls) (auto simp: joined_raw_Cons joined_raw_def)
  ultimately show ?thesis using joined_raw_split_lines by simp
qed

lemma encode_uniform:
  assumes "CR \<notin> set s"
  shows "encode D s \<lparr>tf_encoding = enc, tf_eol = e, tf_mixed = None\<rparr>
    = encode_raw enc (joined_raw (with_ending e (split_lines s)))"
proof -
  let ?ls = "with_ending e (split_lines s)"
  have ok: "lines_ok ?ls" using split_lines_ok with_ending_ok(1) by simp
  have t: "lf_text ?ls = s" using with_ending_ok(3) lf_text_split [OF assms] by simp
  have "\<And>i t. i < length ?ls \<Longrightarrow> snd (?ls ! i) = Some t \<Longrightarrow> t = e"
    by (auto simp: with_ending_def case_prod_unfold)
  then have "endings_fit ?ls (replicate (length ?ls) e)" by (auto simp: endings_fit_def)
  then show ?thesis
    using join_lines_fit [OF ok] new_lines_lf_text [OF ok] lf_text_terminated [OF ok] t
    by (simp add: encode_def Let_def)
qed

lemma utf8_prefix_char:
  assumes "is_str s" "s \<noteq> []" "utf8_next (utf8 s) = x"
  shows "x = Some (hd s, utf8 (tl s))"
  using assms utf8_next_char by (cases s) (auto simp: utf8_def)

lemma utf8_no_zero: "is_str s \<Longrightarrow> 0 \<notin> set s \<Longrightarrow> 0 \<notin> set (utf8 s)"
proof -
  have "0 \<notin> set (utf8_char c)" if "is_scalar c" "c \<noteq> 0" for c
  proof -
    have z: "to_byte n = 0 \<longleftrightarrow> n mod 256 = 0" for n
      by (simp add: to_byte_def word_of_nat_eq_0_iff dvd_eq_mod_eq_0)
    have "cont_byte n \<noteq> 0" for n unfolding cont_byte_def z by presburger
    moreover have "c < 0x110000" using that by (auto simp: is_scalar_def)
    then have "c div 64 < 0x20 \<or> c \<ge> 0x800" "c div 4096 < 0x10 \<or> c \<ge> 0x10000" "c div 262144 \<le> 4" by auto
    ultimately show ?thesis using that(2)
      unfolding utf8_char_def by (auto simp: z)
  qed
  then show "is_str s \<Longrightarrow> 0 \<notin> set s \<Longrightarrow> ?thesis"
    by (induction s) (auto simp: utf8_def)
qed

lemma read_raw_encoded:
  assumes "is_str s" "bom \<or> 0 \<notin> set s \<and> (s = [] \<or> hd s \<noteq> 0xFEFF)"
  shows "read_raw U (encode_raw (Utf8 bom) s) = Inr (Utf8 bom, s)"
proof (cases bom)
  case True
  then show ?thesis using assms(1) by (simp add: read_raw_def encode_raw_def decode_utf8_def from_utf8_encoded)
next
  case False
  have "strip_prefix [0xEF, 0xBB, 0xBF] (utf8 s) = None"
  proof (rule ccontr)
    assume "\<not> ?thesis"
    then obtain r where r: "utf8 s = [0xEF, 0xBB, 0xBF] @ r" by (auto simp: strip_prefix_Some)
    then have "s \<noteq> []" by (auto simp: utf8_def)
    moreover have "utf8_next (utf8 s) = Some (0xFEFF, r)"
      unfolding r by (simp add: is_cont_def cont_val_def is_scalar_def)
    ultimately show False using utf8_prefix_char [OF assms(1)] assms(2) False by fastforce
  qed
  moreover have "strip_prefix [0xFF, 0xFE] (utf8 s) = None" "strip_prefix [0xFE, 0xFF] (utf8 s) = None"
  proof -
    have "utf8 s \<noteq> b # r" if "b = 0xFF \<or> b = 0xFE" for b r
    proof
      assume e: "utf8 s = b # r"
      then have "s \<noteq> []" by (auto simp: utf8_def)
      moreover have "utf8_next (utf8 s) = None" unfolding e using that by auto
      ultimately show False using utf8_prefix_char [OF assms(1)] by fastforce
    qed
    then show "strip_prefix [0xFF, 0xFE] (utf8 s) = None" "strip_prefix [0xFE, 0xFF] (utf8 s) = None"
      by (auto simp: strip_prefix_Some simp flip: not_Some_eq)
  qed
  moreover have "0 \<notin> set (take BINARY_SNIFF_BYTES (utf8 s))"
    using utf8_no_zero assms False by (meson in_set_takeD)
  ultimately show ?thesis
    using False assms(1) unfolding read_raw_def
    by (simp add: encode_raw_def decode_utf8_def from_utf8_encoded)
qed

lemma encode_decode_uniform:
  assumes "is_str s" "CR \<notin> set s" "bom \<or> 0 \<notin> set s \<and> (s = [] \<or> hd s \<noteq> 0xFEFF)"
  shows "\<exists>f. decode U (encode D s \<lparr>tf_encoding = Utf8 bom, tf_eol = e, tf_mixed = None\<rparr>) d
    = Inr \<lparr>d_text = s, d_format = f\<rparr>"
proof -
  let ?ls = "with_ending e (split_lines s)"
  let ?raw = "joined_raw ?ls"
  have nc: "\<forall>(c, t) \<in> set (split_lines s). CR \<notin> set c"
    using split_lines_no_CR [OF assms(2), of "[]"] by (auto simp: split_lines_def)
  have chars: "set (joined_raw (with_ending e ls)) \<subseteq> set (joined_raw ls) \<union> {CR, LF}" for ls
  proof (induction ls)
    case (Cons l ls)
    then show ?case by (cases l; cases "snd l"; cases e) (auto simp: with_ending_simps joined_raw_Cons)
  qed (auto simp: with_ending_simps)
  have first: "joined_raw (with_ending e ls) = [] \<and> joined_raw ls = [] \<or> hd (joined_raw (with_ending e ls)) \<in> {CR, LF}
      \<or> hd (joined_raw (with_ending e ls)) = hd (joined_raw ls) \<and> joined_raw ls \<noteq> []" if "lines_ok ls" for ls
  proof (cases ls)
    case (Cons l ls')
    obtain c t where "l = (c, t)" by fastforce
    then show ?thesis using Cons that
      by (cases t; cases c; cases e) (auto simp: with_ending_simps joined_raw_Cons)
  qed (simp add: with_ending_simps joined_raw_def)
  have sub: "set ?raw \<subseteq> set s \<union> {CR, LF}"
    using chars [of "split_lines s"] by (simp add: joined_raw_split_lines)
  have "is_str ?raw" using assms(1) sub by (auto simp: list_all_iff is_scalar_def)
  moreover have "bom \<or> 0 \<notin> set ?raw \<and> (?raw = [] \<or> hd ?raw \<noteq> 0xFEFF)"
    using assms(3) sub first [OF split_lines_ok [of s]] by (auto simp: joined_raw_split_lines)
  ultimately have "read_raw U (encode_raw (Utf8 bom) ?raw) = Inr (Utf8 bom, ?raw)" by (rule read_raw_encoded)
  moreover have "lf_text (split_lines ?raw) = s"
    using split_joined_uniform [OF split_lines_ok nc] with_ending_ok(3) [of e "split_lines s"] lf_text_split [OF assms(2)]
    by (simp add: split_lines_def)
  ultimately show ?thesis
    unfolding encode_uniform [OF assms(2)] by (simp add: decode_def Let_def split: prod.split)
qed

end
