(* ===== verification/Project.thy ===== *)
theory Project
  imports Paths Utf
begin

text \<open>
  Projects (\<open>throng-core/src/project.rs\<close>): a name, a colour and a root folder no other project's
  overlaps, and the book of them in display order with at most one active. Times are milliseconds;
  a project's fresh identity is an argument. \<open>Path::is_absolute\<close> is the host's, a parameter.
\<close>

type_synonym project_id = nat

record colour =
  c_r :: byte
  c_g :: byte
  c_b :: byte

record project =
  pr_id :: project_id
  pr_name :: rstring
  pr_colour :: colour
  pr_root :: path
  hidden_paths :: "rstring list"
  created_at :: int
  updated_at :: int

record project_input =
  in_name :: rstring
  in_colour :: rstring
  in_root :: path

datatype project_error =
  EmptyName
| NameTooLong
| InvalidColour rstring
| EmptyRoot
| RootNotAbsolute
| FolderConflict rstring path
| NotFound

datatype project_field = NameField | ColourField | RootField

definition MAX_NAME_LENGTH :: nat where "MAX_NAME_LENGTH = 120"

fun error_field :: "project_error \<Rightarrow> project_field" where
  "error_field EmptyName = NameField"
| "error_field NameTooLong = NameField"
| "error_field (InvalidColour s) = ColourField"
| "error_field EmptyRoot = RootField"
| "error_field RootNotAbsolute = RootField"
| "error_field (FolderConflict n r) = RootField"
| "error_field NotFound = NameField"

section \<open>Colours\<close>

text \<open>\<open>char::to_digit(16)\<close> of a byte read as a character.\<close>

definition hex_digit :: "byte \<Rightarrow> byte option" where
  "hex_digit b =
     (let c = unat b
      in if is_ascii_digit c then Some (to_byte (c - 48))
         else if 97 \<le> c \<and> c \<le> 102 then Some (to_byte (c - 87))
         else if 65 \<le> c \<and> c \<le> 70 then Some (to_byte (c - 55))
         else None)"

definition hex_digits :: "byte list \<Rightarrow> byte list option" where
  "hex_digits bs = those (map hex_digit bs)"

definition colour_parse :: "rstring \<Rightarrow> project_error + colour" where
  "colour_parse s =
     (case strip_prefix [35] (trim s) of
        None \<Rightarrow> Inl (InvalidColour s)
      | Some hex \<Rightarrow>
          (let bytes = utf8 hex
           in if length bytes = 3 \<or> length bytes = 6 then
                (case hex_digits bytes of
                   Some [r, g, b] \<Rightarrow> Inr \<lparr>c_r = r * 17, c_g = g * 17, c_b = b * 17\<rparr>
                 | Some [r, r', g, g', b, b'] \<Rightarrow>
                     Inr \<lparr>c_r = r * 16 + r', c_g = g * 16 + g', c_b = b * 16 + b'\<rparr>
                 | _ \<Rightarrow> Inl (InvalidColour s))
              else Inl (InvalidColour s)))"

text \<open>\<open>{:02x}\<close>.\<close>

definition hex_char :: "nat \<Rightarrow> rchar" where
  "hex_char n = (if n < 10 then 48 + n else 87 + n)"

definition show_hex2 :: "byte \<Rightarrow> rstring" where
  "show_hex2 b = [hex_char (unat b div 16), hex_char (unat b mod 16)]"

definition to_hex :: "colour \<Rightarrow> rstring" where
  "to_hex c = [35] @ show_hex2 (c_r c) @ show_hex2 (c_g c) @ show_hex2 (c_b c)"

definition PALETTE :: "rstring list" where
  "PALETTE = map lit [''#6aa3ff'', ''#4cc38a'', ''#f5a524'', ''#e5484d'', ''#8e4ec6'', ''#12a594'',
     ''#f76b15'', ''#d6409f'', ''#978365'', ''#0090ff'']"

section \<open>Validation\<close>

record valid_input =
  v_name :: rstring
  v_colour :: colour
  v_root :: path

definition validate_input :: "(path \<Rightarrow> bool) \<Rightarrow> project_input \<Rightarrow> project_error + valid_input" where
  "validate_input is_absolute i =
     (let name = trim (in_name i)
      in if name = [] then Inl EmptyName
         else if length name > MAX_NAME_LENGTH then Inl NameTooLong
         else (case colour_parse (in_colour i) of
                 Inl e \<Rightarrow> Inl e
               | Inr colour \<Rightarrow>
                   (let rt = trim (in_root i)
                    in if rt = [] then Inl EmptyRoot
                       else if \<not> is_absolute rt then Inl RootNotAbsolute
                       else Inr \<lparr>v_name = name, v_colour = colour, v_root = rt\<rparr>)))"

fun assert_folder_exclusive ::
  "folding \<Rightarrow> path_rules \<Rightarrow> path \<Rightarrow> project list \<Rightarrow> project_id option \<Rightarrow> project_error option" where
  "assert_folder_exclusive F rules candidate [] self_id = None"
| "assert_folder_exclusive F rules candidate (p # ps) self_id =
     (if Some (pr_id p) = self_id then assert_folder_exclusive F rules candidate ps self_id
      else if overlaps F rules candidate (pr_root p) then Some (FolderConflict (pr_name p) (pr_root p))
      else assert_folder_exclusive F rules candidate ps self_id)"

section \<open>The book\<close>

record project_book =
  projects :: "project list"
  active :: "project_id option"

definition book_new :: "project list \<Rightarrow> project_id option \<Rightarrow> project_book" where
  "book_new ps act =
     \<lparr>projects = ps,
      active = (case act of None \<Rightarrow> None | Some i \<Rightarrow> if (\<exists>p \<in> set ps. pr_id p = i) then Some i else None)\<rparr>"

definition book_get :: "project_id \<Rightarrow> project_book \<Rightarrow> project option" where
  "book_get i b = find (\<lambda>p. pr_id p = i) (projects b)"

definition book_active :: "project_book \<Rightarrow> project option" where
  "book_active b = (case active b of None \<Rightarrow> None | Some i \<Rightarrow> book_get i b)"

definition book_create ::
  "(path \<Rightarrow> bool) \<Rightarrow> folding \<Rightarrow> path_rules \<Rightarrow> project_id \<Rightarrow> project_input \<Rightarrow> int \<Rightarrow> project_book
     \<Rightarrow> (project_error + project) \<times> project_book" where
  "book_create is_absolute F rules fresh i now b =
     (case validate_input is_absolute i of
        Inl e \<Rightarrow> (Inl e, b)
      | Inr v \<Rightarrow>
          (case assert_folder_exclusive F rules (v_root v) (projects b) None of
             Some e \<Rightarrow> (Inl e, b)
           | None \<Rightarrow>
               (let p = \<lparr>pr_id = fresh, pr_name = v_name v, pr_colour = v_colour v, pr_root = v_root v,
                         hidden_paths = [], created_at = now, updated_at = now\<rparr>
                in (Inr p, b\<lparr>projects := projects b @ [p],
                             active := (if active b = None then Some fresh else active b)\<rparr>))))"

text \<open>\<open>iter_mut().find(..)\<close> and a change of what it finds.\<close>

fun change_project :: "project_id \<Rightarrow> (project \<Rightarrow> project) \<Rightarrow> project list \<Rightarrow> project list" where
  "change_project i f [] = []"
| "change_project i f (p # ps) = (if pr_id p = i then f p # ps else p # change_project i f ps)"

definition book_update ::
  "(path \<Rightarrow> bool) \<Rightarrow> folding \<Rightarrow> path_rules \<Rightarrow> project_id \<Rightarrow> project_input \<Rightarrow> int \<Rightarrow> project_book
     \<Rightarrow> (project_error + project) \<times> project_book" where
  "book_update is_absolute F rules i inp now b =
     (case validate_input is_absolute inp of
        Inl e \<Rightarrow> (Inl e, b)
      | Inr v \<Rightarrow>
          (case assert_folder_exclusive F rules (v_root v) (projects b) (Some i) of
             Some e \<Rightarrow> (Inl e, b)
           | None \<Rightarrow>
               (case book_get i b of
                  None \<Rightarrow> (Inl NotFound, b)
                | Some p \<Rightarrow>
                    (let f = (\<lambda>p. p\<lparr>pr_name := v_name v, pr_colour := v_colour v, pr_root := v_root v, updated_at := now\<rparr>)
                     in (Inr (f p), b\<lparr>projects := change_project i f (projects b)\<rparr>)))))"

text \<open>The non-empty paths, each once, in the order given.\<close>

definition seen_paths :: "rstring list \<Rightarrow> rstring list" where
  "seen_paths hidden = fold (\<lambda>p seen. if p \<noteq> [] \<and> p \<notin> set seen then seen @ [p] else seen) hidden []"

definition set_hidden :: "project_id \<Rightarrow> rstring list \<Rightarrow> int \<Rightarrow> project_book \<Rightarrow> project_error option \<times> project_book" where
  "set_hidden i hidden now b =
     (if book_get i b = None then (Some NotFound, b)
      else (None, b\<lparr>projects := change_project i (\<lambda>p. p\<lparr>hidden_paths := seen_paths hidden, updated_at := now\<rparr>) (projects b)\<rparr>))"

definition set_active :: "project_id \<Rightarrow> project_book \<Rightarrow> project_error option \<times> project_book" where
  "set_active i b = (if book_get i b = None then (Some NotFound, b) else (None, b\<lparr>active := Some i\<rparr>))"

definition book_delete :: "project_id \<Rightarrow> project_book \<Rightarrow> (project_error + project) \<times> project_book" where
  "book_delete i b =
     (case position (\<lambda>p. pr_id p = i) (projects b) of
        None \<Rightarrow> (Inl NotFound, b)
      | Some index \<Rightarrow>
          (let ps = remove_at index (projects b)
           in (Inr (projects b ! index),
               b\<lparr>projects := ps,
                 active := (if active b = Some i then (case ps of [] \<Rightarrow> None | p # _ \<Rightarrow> Some (pr_id p)) else active b)\<rparr>)))"

definition reorder :: "project_id \<Rightarrow> nat \<Rightarrow> project_book \<Rightarrow> project_error option \<times> project_book" where
  "reorder i to b =
     (case position (\<lambda>p. pr_id p = i) (projects b) of
        None \<Rightarrow> (Some NotFound, b)
      | Some from \<Rightarrow>
          (let p = projects b ! from; ps = remove_at from (projects b)
           in (None, b\<lparr>projects := insert_at (min to (length ps)) p ps\<rparr>)))"

definition owner_of :: "folding \<Rightarrow> path_rules \<Rightarrow> path \<Rightarrow> project_book \<Rightarrow> project option" where
  "owner_of F rules p b = find (\<lambda>q. is_within F rules (pr_root q) p) (projects b)"

section \<open>Colours: what is printed is read back\<close>

lemma unat_byte_mult: "unat b < 16 \<Longrightarrow> unat c < 16 \<Longrightarrow> unat (b * 16 + c :: byte) = unat b * 16 + unat c"
  by (simp add: unat_word_ariths)

lemma hex_digit_char: "n < 16 \<Longrightarrow> hex_digit (to_byte (hex_char n)) = Some (to_byte n)"
  by (simp add: hex_digit_def hex_char_def is_ascii_digit_def Let_def)

lemma utf8_hex_char: "n < 16 \<Longrightarrow> utf8_char (hex_char n) = [to_byte (hex_char n)]"
  by (simp add: utf8_char_def hex_char_def)

lemma byte_nibbles: "to_byte (unat b div 16) * 16 + to_byte (unat b mod 16) = b"
proof (rule word_unat_eq_iff [THEN iffD2])
  have lt: "unat b < 256" by (rule unat_byte)
  then have h: "unat b div 16 < 16" by (simp add: less_mult_imp_div_less)
  have "unat (to_byte (unat b div 16)) = unat b div 16" "unat (to_byte (unat b mod 16)) = unat b mod 16"
    using h by simp_all
  then show "unat (to_byte (unat b div 16) * 16 + to_byte (unat b mod 16)) = unat b"
    using h by (subst unat_byte_mult) simp_all
qed

lemma hex_char_not_space: "n < 16 \<Longrightarrow> \<not> is_whitespace (hex_char n)"
  by (simp add: hex_char_def is_whitespace_def)

lemma colour_roundtrip: "colour_parse (to_hex c) = Inr c"
proof -
  have d: "unat b div 16 < 16" "unat b mod 16 < 16" for b :: byte
    using unat_byte [of b] by (simp_all add: less_mult_imp_div_less)
  have t: "trim (to_hex c) = to_hex c"
  proof -
    have "\<not> is_whitespace 35" by (simp add: is_whitespace_def)
    then show ?thesis by (simp add: trim_def to_hex_def show_hex2_def hex_char_not_space d)
  qed
  have "utf8 (tl (to_hex c)) = map (\<lambda>n. to_byte (hex_char n))
    [unat (c_r c) div 16, unat (c_r c) mod 16, unat (c_g c) div 16, unat (c_g c) mod 16, unat (c_b c) div 16, unat (c_b c) mod 16]"
    by (simp add: utf8_def to_hex_def show_hex2_def utf8_hex_char d)
  then show ?thesis
    by (simp add: colour_parse_def t)
      (simp add: to_hex_def hex_digits_def hex_digit_char d byte_nibbles Let_def)
qed

section \<open>The book's invariant\<close>

definition exclusive :: "folding \<Rightarrow> path_rules \<Rightarrow> project list \<Rightarrow> bool" where
  "exclusive F rules ps \<longleftrightarrow> sorted_wrt (\<lambda>p q. \<not> overlaps F rules (pr_root p) (pr_root q)) ps"

definition book_ok :: "folding \<Rightarrow> path_rules \<Rightarrow> project_book \<Rightarrow> bool" where
  "book_ok F rules b \<longleftrightarrow> distinct (map pr_id (projects b)) \<and> exclusive F rules (projects b)
     \<and> (\<forall>i. active b = Some i \<longrightarrow> i \<in> pr_id ` set (projects b))"

lemma overlaps_sym: "overlaps F rules a b = overlaps F rules b a"
  by (auto simp: overlaps_def)

lemma assert_folder_exclusive_None:
  "assert_folder_exclusive F rules c ps self = None \<longleftrightarrow>
     (\<forall>p \<in> set ps. Some (pr_id p) \<noteq> self \<longrightarrow> \<not> overlaps F rules c (pr_root p))"
  by (induction ps) auto

lemma exclusive_pairs:
  "distinct (map pr_id ps) \<Longrightarrow> exclusive F rules ps \<longleftrightarrow>
     (\<forall>p \<in> set ps. \<forall>q \<in> set ps. p \<noteq> q \<longrightarrow> \<not> overlaps F rules (pr_root p) (pr_root q))"
proof (induction ps)
  case (Cons p ps)
  then have "p \<notin> set ps" by auto
  with Cons show ?case using overlaps_sym [of F rules] by (auto simp: exclusive_def)
qed (simp add: exclusive_def)

lemma exclusive_append: "exclusive F rules (ps @ [p]) \<longleftrightarrow>
   exclusive F rules ps \<and> (\<forall>q \<in> set ps. \<not> overlaps F rules (pr_root q) (pr_root p))"
  by (auto simp: exclusive_def sorted_wrt_append)

lemma book_get_None: "book_get i b = None \<longleftrightarrow> i \<notin> pr_id ` set (projects b)"
  by (auto simp: book_get_def find_None_iff)

lemma change_project_ids: "(\<And>p. pr_id (f p) = pr_id p) \<Longrightarrow> map pr_id (change_project i f ps) = map pr_id ps"
  by (induction ps) auto

lemma change_project_members:
  "distinct (map pr_id ps) \<Longrightarrow> p \<in> set (change_project i f ps) \<Longrightarrow> (p \<in> set ps \<and> pr_id p \<noteq> i) \<or> (\<exists>q \<in> set ps. pr_id q = i \<and> p = f q)"
  by (induction ps) (auto split: if_splits simp: image_iff)

lemma ids_set: "map pr_id ps = map pr_id qs \<Longrightarrow> pr_id ` set ps = pr_id ` set qs"
  by (metis set_map)

lemma book_create_ok:
  assumes "book_ok F rules b" "fresh \<notin> pr_id ` set (projects b)"
  shows "book_ok F rules (snd (book_create A F rules fresh i now b))"
  using assms
  by (auto simp: book_create_def book_ok_def exclusive_append assert_folder_exclusive_None overlaps_sym Let_def
      split: sum.split option.split)

lemma book_update_ok:
  assumes ok: "book_ok F rules b"
  shows "book_ok F rules (snd (book_update A F rules i inp now b))"
proof (cases "fst (book_update A F rules i inp now b)")
  case (Inl e)
  then have "snd (book_update A F rules i inp now b) = b"
    by (auto simp: book_update_def Let_def split: sum.splits option.splits)
  then show ?thesis using ok by simp
next
  case (Inr q)
  obtain v where val: "validate_input A inp = Inr v"
    using Inr by (cases "validate_input A inp") (simp_all add: book_update_def)
  have v: "assert_folder_exclusive F rules (v_root v) (projects b) (Some i) = None"
    and s: "snd (book_update A F rules i inp now b) = b\<lparr>projects := change_project i
       (\<lambda>p. p\<lparr>pr_name := v_name v, pr_colour := v_colour v, pr_root := v_root v, updated_at := now\<rparr>) (projects b)\<rparr>"
    using Inr by (auto simp: book_update_def val Let_def split: option.splits)
  let ?f = "\<lambda>p. p\<lparr>pr_name := v_name v, pr_colour := v_colour v, pr_root := v_root v, updated_at := now\<rparr>"
  let ?ps = "change_project i ?f (projects b)"
  have ids: "map pr_id ?ps = map pr_id (projects b)" by (rule change_project_ids) simp
  have d: "distinct (map pr_id (projects b))" and x: "exclusive F rules (projects b)"
    using ok by (simp_all add: book_ok_def)
  have "\<not> overlaps F rules (pr_root p) (pr_root q)" if m: "p \<in> set ?ps" "q \<in> set ?ps" "p \<noteq> q" for p q
  proof -
    have neq: "pr_id p \<noteq> pr_id q" using d m unfolding ids [symmetric] by (metis distinct_map inj_onD)
    have free: "\<not> overlaps F rules (v_root v) (pr_root r)" if "r \<in> set (projects b)" "pr_id r \<noteq> i" for r
      using v that by (simp add: assert_folder_exclusive_None)
    consider "p \<in> set (projects b)" "pr_id p \<noteq> i" "q \<in> set (projects b)" "pr_id q \<noteq> i"
      | "p \<in> set (projects b)" "pr_id p \<noteq> i" "pr_root q = v_root v"
      | "q \<in> set (projects b)" "pr_id q \<noteq> i" "pr_root p = v_root v"
      using change_project_members [OF d m(1)] change_project_members [OF d m(2)] neq by auto
    then show ?thesis
    proof cases
      case 1
      then show ?thesis using x exclusive_pairs [OF d, of F rules] m(3) by blast
    next
      case 2
      then show ?thesis using free [of p] overlaps_sym [of F rules "v_root v"] by simp
    next
      case 3
      then show ?thesis using free [of q] by simp
    qed
  qed
  then have "exclusive F rules ?ps" using exclusive_pairs [of ?ps F rules] d ids by simp
  then show ?thesis using ok ids_set [OF ids] ids unfolding s by (simp add: book_ok_def)
qed

lemma set_hidden_ok:
  assumes ok: "book_ok F rules b"
  shows "book_ok F rules (snd (set_hidden i hidden now b))"
proof -
  let ?f = "\<lambda>p. p\<lparr>hidden_paths := seen_paths hidden, updated_at := now\<rparr>"
  let ?ps = "change_project i ?f (projects b)"
  have ids: "map pr_id ?ps = map pr_id (projects b)" by (rule change_project_ids) simp
  have "map pr_root (change_project i ?f ps) = map pr_root ps" for ps by (induction ps) auto
  then have "map pr_root ?ps = map pr_root (projects b)" .
  then have "exclusive F rules ?ps = exclusive F rules (projects b)"
    using sorted_wrt_map [of "\<lambda>a c. \<not> overlaps F rules a c" pr_root ?ps]
      sorted_wrt_map [of "\<lambda>a c. \<not> overlaps F rules a c" pr_root "projects b"]
    by (simp add: exclusive_def)
  then show ?thesis using ok ids_set [OF ids] ids by (simp add: set_hidden_def book_ok_def)
qed

lemma set_active_ok: "book_ok F rules b \<Longrightarrow> book_ok F rules (snd (set_active i b))"
  by (auto simp: set_active_def book_ok_def book_get_None)

lemma exclusive_sub:
  assumes "exclusive F rules ps"
  shows "exclusive F rules (remove_at i ps)"
proof -
  have "exclusive F rules (take i ps @ drop i ps)" using assms by simp
  moreover have "drop (Suc i) ps = drop 1 (drop i ps)" by simp
  moreover have "set (drop 1 (drop i ps)) \<subseteq> set (drop i ps)" by (rule set_drop_subset)
  ultimately show ?thesis unfolding exclusive_def remove_at_def sorted_wrt_append
    by (metis (no_types, lifting) sorted_wrt_drop subsetD)
qed

lemma book_delete_ok:
  assumes ok: "book_ok F rules b"
  shows "book_ok F rules (snd (book_delete i b))"
proof (cases "position (\<lambda>p. pr_id p = i) (projects b)")
  case (Some n)
  then have n: "n < length (projects b)" "pr_id (projects b ! n) = i" using position_eq_Some_nth by fastforce+
  let ?ps = "remove_at n (projects b)"
  have d: "distinct (map pr_id (projects b))" using ok by (simp add: book_ok_def)
  have m: "map pr_id ?ps = remove_at n (map pr_id (projects b))" by (simp add: remove_at_def take_map drop_map)
  have ids: "pr_id ` set ?ps = pr_id ` set (projects b) - {i}"
    using set_remove_at [OF d, of n] n unfolding m [symmetric] by simp
  have "distinct (map pr_id ?ps)" unfolding m by (rule distinct_remove_at [OF d])
  moreover have "exclusive F rules ?ps" using ok by (simp add: book_ok_def exclusive_sub)
  moreover have "\<forall>p ps. ?ps = p # ps \<longrightarrow> pr_id p \<in> pr_id ` set ?ps" by simp
  ultimately show ?thesis using ok Some ids
    by (auto simp: book_delete_def book_ok_def Let_def split: list.split)
qed (use ok in \<open>simp add: book_delete_def\<close>)

lemma mset_insert_at: "mset (insert_at i x xs) = add_mset x (mset xs)"
  unfolding insert_at_def by (metis append_take_drop_id mset.simps(2) mset_append union_mset_add_mset_right)

lemma mset_remove_at: "i < length xs \<Longrightarrow> add_mset (xs ! i) (mset (remove_at i xs)) = mset xs"
  unfolding remove_at_def by (subst (4) id_take_nth_drop [of i xs]) simp_all

lemma reorder_ok:
  assumes ok: "book_ok F rules b"
  shows "book_ok F rules (snd (reorder i to b))" "mset (projects (snd (reorder i to b))) = mset (projects b)"
proof -
  let ?ps = "projects (snd (reorder i to b))"
  show m: "mset ?ps = mset (projects b)"
    by (auto simp: reorder_def Let_def mset_insert_at mset_remove_at split: option.split dest: position_eq_Some_nth)
  have s: "set ?ps = set (projects b)" by (rule mset_eq_setD [OF m])
  have "mset (map pr_id ?ps) = mset (map pr_id (projects b))" using m by simp
  then have d: "distinct (map pr_id ?ps)"
    using ok mset_eq_imp_distinct_iff [of "map pr_id ?ps" "map pr_id (projects b)"] by (simp add: book_ok_def)
  have "exclusive F rules ?ps"
    using ok exclusive_pairs [OF d, of F rules] exclusive_pairs [of "projects b" F rules] s by (simp add: book_ok_def)
  moreover have "active (snd (reorder i to b)) = active b" by (simp add: reorder_def Let_def split: option.split)
  ultimately show "book_ok F rules (snd (reorder i to b))" using ok d s by (simp add: book_ok_def)
qed

section \<open>Books a session can reach\<close>

inductive book_step :: "(path \<Rightarrow> bool) \<Rightarrow> folding \<Rightarrow> path_rules \<Rightarrow> project_book \<Rightarrow> project_book \<Rightarrow> bool"
  for A F rules where
  created: "fresh \<notin> pr_id ` set (projects b) \<Longrightarrow> book_step A F rules b (snd (book_create A F rules fresh inp now b))"
| updated: "book_step A F rules b (snd (book_update A F rules i inp now b))"
| hidden: "book_step A F rules b (snd (set_hidden i hs now b))"
| activated: "book_step A F rules b (snd (set_active i b))"
| deleted: "book_step A F rules b (snd (book_delete i b))"
| reordered: "book_step A F rules b (snd (reorder i to b))"

inductive_cases book_stepE: "book_step A F rules b b'"

inductive book_reachable :: "(path \<Rightarrow> bool) \<Rightarrow> folding \<Rightarrow> path_rules \<Rightarrow> project_book \<Rightarrow> bool" for A F rules where
  empty: "book_reachable A F rules (book_new [] act)"
| step: "book_reachable A F rules b \<Longrightarrow> book_step A F rules b b' \<Longrightarrow> book_reachable A F rules b'"

lemmas book_ops_ok = book_create_ok book_update_ok set_hidden_ok set_active_ok book_delete_ok reorder_ok(1)

lemma book_step_ok: "book_step A F rules b b' \<Longrightarrow> book_ok F rules b \<Longrightarrow> book_ok F rules b'"
  by (erule book_stepE) (simp_all add: book_ops_ok)

lemma book_reachable_ok: "book_reachable A F rules b \<Longrightarrow> book_ok F rules b"
proof (induction rule: book_reachable.induct)
  case (empty act)
  show ?case by (auto simp: book_new_def book_ok_def exclusive_def split: option.split)
qed (rule book_step_ok)

text \<open>A path under the roots of two projects is under one project's root.\<close>

lemma owner_unique:
  assumes f: "path_folding F rules" and ok: "book_ok F rules b"
    and p: "p \<in> set (projects b)" "is_within F rules (pr_root p) x"
    and q: "q \<in> set (projects b)" "is_within F rules (pr_root q) x"
    and abs: "starts_with [SLASH] (unified rules (pr_root p))" "starts_with [SLASH] (unified rules (pr_root q))"
      "starts_with [SLASH] (unified rules x)"
  shows "p = q"
proof (rule ccontr)
  assume "p \<noteq> q"
  then have no: "\<not> overlaps F rules (pr_root p) (pr_root q)"
    using ok p(1) q(1) exclusive_pairs [of "projects b" F rules] by (simp add: book_ok_def)
  have "prefix (folded_segments F rules (pr_root p)) (folded_segments F rules x)"
    "prefix (folded_segments F rules (pr_root q)) (folded_segments F rules x)"
    using path_folding.is_within_iff [OF f abs(1,3)] path_folding.is_within_iff [OF f abs(2,3)] p(2) q(2) by simp_all
  then have "prefix (folded_segments F rules (pr_root p)) (folded_segments F rules (pr_root q))
    \<or> prefix (folded_segments F rules (pr_root q)) (folded_segments F rules (pr_root p))"
    using prefix_same_cases by blast
  then show False
    using no path_folding.is_within_iff [OF f abs(1,2)] path_folding.is_within_iff [OF f abs(2,1)]
    by (simp add: overlaps_def)
qed

lemma seen_paths_spec: "distinct (seen_paths hs) \<and> set (seen_paths hs) = set hs - {[]}"
proof -
  have "distinct seen \<Longrightarrow> [] \<notin> set seen \<Longrightarrow>
    distinct (fold (\<lambda>p seen. if p \<noteq> [] \<and> p \<notin> set seen then seen @ [p] else seen) hs seen)
    \<and> set (fold (\<lambda>p seen. if p \<noteq> [] \<and> p \<notin> set seen then seen @ [p] else seen) hs seen) = set seen \<union> (set hs - {[]})"
    for seen :: "rstring list"
    by (induction hs arbitrary: seen) auto
  from this [of "[]"] show ?thesis by (simp add: seen_paths_def)
qed

end
