(* ===== verification/StdPath.thy ===== *)
theory StdPath
  imports Paths
begin

text \<open>
  \<open>std::path\<close> on a Unix host: a path's components, its parent and its file name. Two paths are equal
  when their components are, so a path the code derives from another is given by its components.
\<close>

datatype component = RootDir | CurDir | ParentDir | Normal rstring

definition segment_component :: "rstring \<Rightarrow> component" where
  "segment_component s = (if s = [DOT, DOT] then ParentDir else Normal s)"

definition components :: "path \<Rightarrow> component list" where
  "components p =
     (let segs = filter (\<lambda>s. s \<noteq> []) (split_on SLASH p);
          named = map segment_component (filter (\<lambda>s. s \<noteq> [DOT]) segs)
      in if starts_with [SLASH] p then RootDir # named
         else (case segs of s # _ \<Rightarrow> if s = [DOT] then CurDir # named else named | [] \<Rightarrow> []))"

definition parent :: "component list \<Rightarrow> component list option" where
  "parent cs = (if cs = [] \<or> last cs = RootDir then None else Some (butlast cs))"

definition file_name :: "component list \<Rightarrow> rstring option" where
  "file_name cs = (if cs = [] then None else case last cs of Normal n \<Rightarrow> Some n | _ \<Rightarrow> None)"

definition has_root :: "component list \<Rightarrow> bool" where
  "has_root cs \<longleftrightarrow> (case cs of RootDir # _ \<Rightarrow> True | _ \<Rightarrow> False)"

lemma components_absolute: "has_root (components p) \<longleftrightarrow> starts_with [SLASH] p"
proof (cases "starts_with [SLASH] p")
  case False
  have "RootDir \<noteq> segment_component s" for s by (simp add: segment_component_def)
  then have n: "RootDir \<notin> segment_component ` X" for X by auto
  have "RootDir \<notin> set (components p)"
    using False n by (simp add: components_def Let_def split: list.split)
  then have "\<not> has_root (components p)" by (auto simp: has_root_def split: list.splits component.splits)
  then show ?thesis using False by simp
qed (simp add: components_def has_root_def Let_def)

lemma parent_file_name: "parent cs = Some ds \<Longrightarrow> file_name cs = Some n \<Longrightarrow> cs = ds @ [Normal n]"
  by (cases cs rule: rev_cases) (auto simp: parent_def file_name_def split: component.splits if_splits)

end
