(* ===== verification/Json.thy ===== *)
theory Json
  imports OrdMap Complex_Main
begin

text \<open>
  JSON values as \<open>serde_json::Value\<close> gives them: an object is an \<open>IndexMap\<close> (the crate's
  \<open>preserve_order\<close> feature is on), in insertion order; a finite \<open>f64\<close> is its rational value. The text
  of a value, read and written, belongs to the crate and is a parameter where it is used.
\<close>

section \<open>Objects in insertion order\<close>

fun im_insert :: "'k \<Rightarrow> 'v \<Rightarrow> ('k \<times> 'v) list \<Rightarrow> ('k \<times> 'v) list" where
  "im_insert k v [] = [(k, v)]"
| "im_insert k v ((k', v') # m) = (if k = k' then (k, v) # m else (k', v') # im_insert k v m)"

text \<open>\<open>remove\<close> swaps the last entry into the place of the removed one.\<close>

definition im_remove :: "'k \<Rightarrow> ('k \<times> 'v) list \<Rightarrow> ('k \<times> 'v) list" where
  "im_remove k m =
     (case position (\<lambda>e. fst e = k) m of
        None \<Rightarrow> m
      | Some i \<Rightarrow> if i + 1 = length m then butlast m else (butlast m)[i := last m])"

definition im_inv :: "('k \<times> 'v) list \<Rightarrow> bool" where
  "im_inv m \<longleftrightarrow> distinct (map fst m)"

lemma map_of_im_insert: "map_of (im_insert k v m) = (map_of m)(k \<mapsto> v)"
  by (induction k v m rule: im_insert.induct) (auto simp: fun_eq_iff)

lemma fst_im_insert: "fst ` set (im_insert k v m) = insert k (fst ` set m)"
  by (induction k v m rule: im_insert.induct) auto

lemma im_inv_insert: "im_inv m \<Longrightarrow> im_inv (im_insert k v m)"
proof (induction k v m rule: im_insert.induct)
  case (2 k v k' v' m)
  have "set (map fst (im_insert k v m)) = insert k (set (map fst m))" using fst_im_insert [of k v m] by simp
  with 2 show ?case by (auto simp: im_inv_def)
qed (simp add: im_inv_def)

text \<open>Removing an entry leaves the others, the last one perhaps moved.\<close>

lemma im_remove_parts:
  assumes "position (\<lambda>e. fst e = k) m = Some i"
  obtains a v c where "m = a @ (k, v) # c"
    and "im_remove k m = a @ (if c = [] then [] else last c # butlast c)"
proof -
  have i: "i < length m" "fst (m ! i) = k" using position_eq_Some_nth [OF assms] by simp_all
  obtain a e c where m: "m = a @ e # c" "length a = i" "e = m ! i"
    using id_take_nth_drop [OF i(1)] i(1) by (metis length_take min.absorb4)
  have k: "e = (k, snd e)" using i(2) m(3) by (metis prod.collapse)
  have "im_remove k m = a @ (if c = [] then [] else last c # butlast c)"
    using assms m(2) unfolding im_remove_def m(1)
    by (cases c rule: rev_cases) (simp_all add: list_update_append butlast_append)
  then show ?thesis using that [of a "snd e" c] m(1) k by simp
qed

lemma im_remove_set:
  assumes "im_inv m"
  shows "set (im_remove k m) = {e \<in> set m. fst e \<noteq> k} \<and> im_inv (im_remove k m)"
proof (cases "position (\<lambda>e. fst e = k) m")
  case None
  then have "im_remove k m = m" by (simp add: im_remove_def)
  moreover have "\<forall>e \<in> set m. fst e \<noteq> k" using None by (simp add: position_None)
  ultimately show ?thesis using assms by auto
next
  case (Some i)
  then obtain a v c where m: "m = a @ (k, v) # c"
    "im_remove k m = a @ (if c = [] then [] else last c # butlast c)" by (rule im_remove_parts)
  have c: "mset (if c = [] then [] else last c # butlast c) = mset c"
    by (cases c rule: rev_cases) simp_all
  then have s: "mset (im_remove k m) = mset (a @ c)" unfolding m(2) by simp
  then have "mset (map fst (im_remove k m)) = mset (map fst (a @ c))" by (simp only: mset_map)
  moreover have d: "distinct (map fst (a @ c))" "k \<notin> fst ` set (a @ c)"
    using assms unfolding im_inv_def m(1) by auto
  ultimately have "im_inv (im_remove k m)" unfolding im_inv_def by (metis mset_eq_imp_distinct_iff)
  moreover have "set (im_remove k m) = set (a @ c)" using s by (metis set_mset_mset)
  moreover have "\<dots> = {e \<in> set m. fst e \<noteq> k}" using d(2) unfolding m(1) by force
  ultimately show ?thesis by simp
qed

lemma map_of_im_remove:
  assumes "im_inv m"
  shows "map_of (im_remove k m) = (map_of m)(k := None)"
proof
  fix j
  have d: "distinct (map fst m)" "distinct (map fst (im_remove k m))" "set (im_remove k m) = {e \<in> set m. fst e \<noteq> k}"
    using im_remove_set [OF assms, of k] assms by (simp_all add: im_inv_def)
  have "map_of (im_remove k m) j = Some v \<longleftrightarrow> ((map_of m)(k := None)) j = Some v" for v
    using d by (auto simp: map_of_eq_Some_iff)
  then show "map_of (im_remove k m) j = ((map_of m)(k := None)) j" by (metis not_None_eq)
qed

interpretation im: store map_of im_insert im_remove im_inv
  by unfold_locales (simp_all add: map_of_im_insert map_of_im_remove im_inv_insert im_remove_set)

section \<open>Numbers\<close>

text \<open>
  The nearest value with \<open>p\<close> significant bits, ties to even: what \<open>as f64\<close> (53 bits) and \<open>as f32\<close>
  (24 bits) do between the smallest normal and the largest number of the type.
\<close>

fun bit_log :: "nat \<Rightarrow> nat" where
  "bit_log n = (if n < 2 then 0 else Suc (bit_log (n div 2)))"

declare bit_log.simps [simp del]

definition two_to :: "int \<Rightarrow> rat" where
  "two_to e = (if e \<ge> 0 then 2 ^ nat e else 1 / 2 ^ nat (- e))"

definition rat_log :: "rat \<Rightarrow> int" where
  "rat_log q =
     (case quotient_of q of (a, b) \<Rightarrow>
        (let e = int (bit_log (nat a)) - int (bit_log (nat b)) in if two_to e \<le> q then e else e - 1))"

definition round_half_even :: "rat \<Rightarrow> int" where
  "round_half_even q =
     (let n = floor q; r = q - of_int n
      in if r < 1 / 2 then n else if r > 1 / 2 then n + 1 else if even n then n else n + 1)"

definition nearest :: "nat \<Rightarrow> rat \<Rightarrow> rat" where
  "nearest p q =
     (if q = 0 then 0
      else (let a = abs q; e = rat_log a - int p + 1
            in sgn q * of_int (round_half_even (a / two_to e)) * two_to e))"

text \<open>\<open>f64::round\<close>, half away from zero, and the saturating cast to \<open>i64\<close>.\<close>

definition round_away :: "rat \<Rightarrow> int" where
  "round_away q = (if q \<ge> 0 then floor (q + 1 / 2) else - floor (- q + 1 / 2))"

definition to_i64 :: "int \<Rightarrow> int" where
  "to_i64 i = max (- (2 ^ 63)) (min (2 ^ 63 - 1) i)"

lemma round_away_int [simp]: "round_away (of_int i) = i"
  by (auto simp: round_away_def floor_eq_iff)

lemma to_i64_id: "- (2 ^ 63) \<le> i \<Longrightarrow> i < 2 ^ 63 \<Longrightarrow> to_i64 i = i"
  by (simp add: to_i64_def)

section \<open>Values\<close>

datatype json_number = PosInt nat | NegInt int | Real rat

datatype json =
  JNull
| JBool bool
| JNumber json_number
| JString rstring
| JArray "json list"
| JObject "(rstring \<times> json) list"

text \<open>\<open>Value::from\<close> of an \<open>i64\<close>; \<open>as_f64\<close>; \<open>as_u64\<close>.\<close>

definition number_of_int :: "int \<Rightarrow> json_number" where
  "number_of_int i = (if i \<ge> 0 then PosInt (nat i) else NegInt i)"

fun number_f64 :: "json_number \<Rightarrow> rat" where
  "number_f64 (PosInt n) = (if n \<le> 2 ^ 53 then of_nat n else nearest 53 (of_nat n))"
| "number_f64 (NegInt i) = (if - (2 ^ 53) \<le> i then of_int i else nearest 53 (of_int i))"
| "number_f64 (Real q) = q"

lemma number_f64_of_int: "\<bar>i\<bar> \<le> 2 ^ 53 \<Longrightarrow> number_f64 (number_of_int i) = of_int i"
  by (auto simp: number_of_int_def)

fun json_get :: "string \<Rightarrow> json \<Rightarrow> json option" where
  "json_get k (JObject m) = map_of m (lit k)"
| "json_get k _ = None"

fun json_bool :: "json \<Rightarrow> bool option" where
  "json_bool (JBool b) = Some b"
| "json_bool _ = None"

fun json_f64 :: "json \<Rightarrow> rat option" where
  "json_f64 (JNumber n) = Some (number_f64 n)"
| "json_f64 _ = None"

fun json_str :: "json \<Rightarrow> rstring option" where
  "json_str (JString s) = Some s"
| "json_str _ = None"

fun json_array :: "json \<Rightarrow> json list option" where
  "json_array (JArray l) = Some l"
| "json_array _ = None"

fun json_object :: "json \<Rightarrow> (rstring \<times> json) list option" where
  "json_object (JObject m) = Some m"
| "json_object _ = None"

end
