(* ===== verification/Update.thy ===== *)
theory Update
  imports StdPath TextCodec Json
begin

text \<open>
  Updates (\<open>throng-core/src/update.rs\<close>): the version a release names, the files of a release, and
  the checksum a download must have. The JSON reader and SHA-256 are parameters.
\<close>

section \<open>Versions\<close>

datatype version = Version (major: nat) (minor: nat) (patch: nat)

instantiation version :: linorder
begin

definition less_eq_version :: "version \<Rightarrow> version \<Rightarrow> bool" where
  "less_eq_version v w \<longleftrightarrow>
     major v < major w \<or> major v = major w \<and>
       (minor v < minor w \<or> minor v = minor w \<and> patch v \<le> patch w)"

definition less_version :: "version \<Rightarrow> version \<Rightarrow> bool" where
  "less_version v w \<longleftrightarrow>
     major v < major w \<or> major v = major w \<and>
       (minor v < minor w \<or> minor v = minor w \<and> patch v < patch w)"

instance
  by standard (auto simp: less_eq_version_def less_version_def intro: version.expand)

end

definition version_part :: "rstring \<Rightarrow> nat option" where
  "version_part p = (if p = [] \<or> \<not> list_all is_ascii_digit p then None else parse_u64 p)"

definition version_parse :: "rstring \<Rightarrow> version option" where
  "version_parse s =
     (let s = trim s;
          s = (case strip_prefix (lit ''v'') s of Some r \<Rightarrow> r | None \<Rightarrow> s)
      in case split_on DOT s of
           [a, b, c] \<Rightarrow>
             (case (version_part a, version_part b, version_part c) of
                (Some x, Some y, Some z) \<Rightarrow> Some (Version x y z)
              | _ \<Rightarrow> None)
         | _ \<Rightarrow> None)"

definition version_show :: "version \<Rightarrow> rstring" where
  "version_show v = show_nat (major v) @ [DOT] @ show_nat (minor v) @ [DOT] @ show_nat (patch v)"

definition newer_release :: "rstring \<Rightarrow> rstring \<Rightarrow> version option" where
  "newer_release latest_tag running =
     (case version_parse latest_tag of
        None \<Rightarrow> None
      | Some latest \<Rightarrow>
          (case version_parse running of
             None \<Rightarrow> None
           | Some running \<Rightarrow> if latest > running then Some latest else None))"

section \<open>Releases\<close>

record asset =
  a_name :: rstring
  a_url :: rstring

record release =
  r_tag :: rstring
  r_assets :: "asset list"

definition tagged :: "rstring \<Rightarrow> release" where
  "tagged tag = \<lparr>r_tag = tag, r_assets = []\<rparr>"

definition asset_named :: "rstring \<Rightarrow> release \<Rightarrow> asset option" where
  "asset_named name r = find (\<lambda>a. a_name a = name) (r_assets r)"

definition json_asset :: "json \<Rightarrow> asset option" where
  "json_asset a =
     (case Option.bind (json_get ''name'' a) json_str of
        None \<Rightarrow> None
      | Some name \<Rightarrow>
          (case Option.bind (json_get ''browser_download_url'' a) json_str of
             None \<Rightarrow> None
           | Some url \<Rightarrow> Some \<lparr>a_name = name, a_url = url\<rparr>))"

definition parse_release :: "(rstring \<Rightarrow> json option) \<Rightarrow> rstring \<Rightarrow> release option" where
  "parse_release J doc =
     (case J doc of
        None \<Rightarrow> None
      | Some v \<Rightarrow>
          (case Option.bind (json_get ''tag_name'' v) json_str of
             None \<Rightarrow> None
           | Some tag \<Rightarrow>
               Some \<lparr>r_tag = tag,
                     r_assets = (case Option.bind (json_get ''assets'' v) json_array of
                                   None \<Rightarrow> []
                                 | Some l \<Rightarrow> List.map_filter json_asset l)\<rparr>))"

definition macos_zip_name :: "version \<Rightarrow> rstring" where
  "macos_zip_name v = lit ''throng-'' @ version_show v @ lit ''-macos-universal.zip''"

definition appimage_name :: "version \<Rightarrow> rstring \<Rightarrow> rstring" where
  "appimage_name v machine = lit ''throng-'' @ version_show v @ lit ''-'' @ machine @ lit ''.AppImage''"

section \<open>Checksums\<close>

definition is_hex :: "rchar \<Rightarrow> bool" where
  "is_hex c \<longleftrightarrow> is_ascii_digit c \<or> (97 \<le> c \<and> c \<le> 102) \<or> (65 \<le> c \<and> c \<le> 70)"

definition trim_end_char :: "rchar \<Rightarrow> rstring \<Rightarrow> rstring" where
  "trim_end_char c s = rev (dropWhile (\<lambda>x. x = c) (rev s))"

text \<open>\<open>Iterator::find_map\<close>.\<close>

fun find_map :: "('a \<Rightarrow> 'b option) \<Rightarrow> 'a list \<Rightarrow> 'b option" where
  "find_map f [] = None"
| "find_map f (x # xs) = (case f x of Some y \<Rightarrow> Some y | None \<Rightarrow> find_map f xs)"

definition checksum_line :: "rstring \<Rightarrow> rstring \<Rightarrow> rstring option" where
  "checksum_line name l =
     (case split_once SP (trim_end_char CR l) of
        None \<Rightarrow> None
      | Some (hash, rest) \<Rightarrow>
          (case (case strip_prefix [SP] rest of Some f \<Rightarrow> Some f | None \<Rightarrow> strip_prefix (lit ''*'') rest) of
             None \<Rightarrow> None
           | Some fname \<Rightarrow>
               if str_bytes hash = 64 \<and> list_all is_hex hash \<and> fname = name then Some (map to_ascii_lower hash) else None))"

definition checksum_for :: "rstring \<Rightarrow> rstring \<Rightarrow> rstring option" where
  "checksum_for listing name = find_map (checksum_line name) (str_lines listing)"

definition show_hex_byte :: "byte \<Rightarrow> rstring" where
  "show_hex_byte b =
     (let digit = (\<lambda>n. if n < 10 then 48 + n else 87 + n)
      in [digit (unat b div 16), digit (unat b mod 16)])"

definition sha256_hex :: "(byte list \<Rightarrow> byte list) \<Rightarrow> byte list \<Rightarrow> rstring" where
  "sha256_hex H bs = concat (map show_hex_byte (H bs))"

datatype checksum_error = NotListed rstring | Mismatch rstring rstring rstring

definition verify_checksum ::
  "(byte list \<Rightarrow> byte list) \<Rightarrow> byte list \<Rightarrow> rstring \<Rightarrow> rstring \<Rightarrow> checksum_error option" where
  "verify_checksum H bs listing name =
     (case checksum_for listing name of
        None \<Rightarrow> Some (NotListed name)
      | Some expected \<Rightarrow>
          (let actual = sha256_hex H bs
           in if actual = expected then None else Some (Mismatch name expected actual)))"

section \<open>What may be replaced\<close>

definition team_identifier :: "rstring \<Rightarrow> rstring option" where
  "team_identifier output =
     find_map (\<lambda>l. case strip_prefix (lit ''TeamIdentifier='') (trim l) of
                     None \<Rightarrow> None
                   | Some r \<Rightarrow> (let team = trim r in if team \<noteq> [] \<and> team \<noteq> lit ''not set'' then Some team else None))
       (str_lines output)"

definition parent_named :: "string \<Rightarrow> component list \<Rightarrow> component list option" where
  "parent_named n cs =
     (case parent cs of None \<Rightarrow> None | Some p \<Rightarrow> if file_name p = Some (lit n) then Some p else None)"

definition app_bundle_of :: "path \<Rightarrow> component list option" where
  "app_bundle_of exe =
     (let cs = components exe
      in if file_name cs \<noteq> Some (lit ''throng'') then None
         else (case Option.bind (Option.bind (parent_named ''MacOS'' cs) (parent_named ''Contents''))
                      (parent_named ''throng.app'') of
                 None \<Rightarrow> None
               | Some bundle \<Rightarrow>
                   (let refused = (\<exists>c \<in> set bundle. c = Normal (lit ''target'') \<or> c = Normal (lit ''AppTranslocation''))
                    in if \<not> refused \<and> has_root bundle then Some bundle else None)))"

section \<open>A version printed is the version read\<close>

lemma version_part_show: "n < 2 ^ 64 \<Longrightarrow> version_part (show_nat n) = Some n"
  using show_nat_digits [of n] parse_u64_show [of n] by (simp add: version_part_def)

lemma version_show_split:
  "split_on DOT (version_show v) = [show_nat (major v), show_nat (minor v), show_nat (patch v)]"
proof -
  have "DOT \<notin> set (show_nat n)" for n by (rule show_nat_no) (simp add: is_ascii_digit_def)
  then show ?thesis by (simp add: version_show_def split_on_append split_on_no)
qed

lemma digit_not_space: "is_ascii_digit c \<Longrightarrow> \<not> is_whitespace c"
  by (auto simp: is_ascii_digit_def is_whitespace_def)

lemma trim_edges: "\<not> is_whitespace c \<Longrightarrow> \<not> is_whitespace d \<Longrightarrow> trim (c # s @ [d]) = c # s @ [d]"
  by (simp add: trim_def)

lemma version_show_edges:
  obtains c s d where "version_show v = c # s @ [d]" "is_ascii_digit c" "is_ascii_digit d"
proof -
  obtain c s where a: "show_nat (major v) = c # s" by (cases "show_nat (major v)") simp_all
  obtain t d where b: "show_nat (patch v) = t @ [d]" by (cases "show_nat (patch v)" rule: rev_cases) simp_all
  have "is_ascii_digit c" "is_ascii_digit d"
    using show_nat_digits [of "major v"] show_nat_digits [of "patch v"] a b by simp_all
  then show ?thesis
    using that [of c "s @ [DOT] @ show_nat (minor v) @ [DOT] @ t" d] by (simp add: version_show_def a b)
qed

lemma version_parse_show:
  assumes "major v < 2 ^ 64" "minor v < 2 ^ 64" "patch v < 2 ^ 64"
  shows "version_parse (version_show v) = Some v" "version_parse (lit ''v'' @ version_show v) = Some v"
proof -
  obtain c s d where e: "version_show v = c # s @ [d]" "is_ascii_digit c" "is_ascii_digit d"
    by (rule version_show_edges)
  have "c \<noteq> 118" using e(2) by (auto simp: is_ascii_digit_def)
  then have v: "strip_prefix (lit ''v'') (version_show v) = None" by (simp add: e(1))
  have t: "trim (version_show v) = version_show v"
    unfolding e(1) using digit_not_space e(2,3) by (intro trim_edges) blast+
  have "trim (lit ''v'' @ version_show v) = lit ''v'' @ version_show v"
    using trim_edges [of 118 d "c # s"] digit_not_space [OF e(3)] by (simp add: e(1) is_whitespace_def)
  then show "version_parse (version_show v) = Some v" "version_parse (lit ''v'' @ version_show v) = Some v"
    using t v by (simp_all add: version_parse_def Let_def version_show_split version_part_show [OF assms(1)] version_part_show [OF assms(2)] version_part_show [OF assms(3)])
qed

lemma parse_u64_bound: "parse_u64 s = Some n \<Longrightarrow> n < 2 ^ 64"
  unfolding parse_u64_def Let_def by (metis option.distinct(1) option.inject)

lemma version_part_bound: "version_part p = Some n \<Longrightarrow> n < 2 ^ 64"
  unfolding version_part_def by (metis option.distinct(1) parse_u64_bound)

lemma version_parse_bounds:
  "version_parse s = Some v \<Longrightarrow> major v < 2 ^ 64 \<and> minor v < 2 ^ 64 \<and> patch v < 2 ^ 64"
  by (auto simp: version_parse_def Let_def dest: version_part_bound split: list.splits option.splits)

lemma newer_release_newer:
  "newer_release tag run = Some v \<Longrightarrow> version_parse tag = Some v \<and> (\<exists>w. version_parse run = Some w \<and> w < v)"
  by (auto simp: newer_release_def split: option.splits if_splits)

section \<open>A download that passes has the checksum the list gives for its name\<close>

lemma find_map_Some: "find_map f xs = Some y \<Longrightarrow> \<exists>x \<in> set xs. f x = Some y"
  by (induction xs) (auto split: option.splits)

lemma find_map_first: "find_map f (xs @ x # ys) = Some y" if "f x = Some y" "\<forall>z \<in> set xs. f z = None"
  using that by (induction xs) simp_all

lemma checksum_line_Some:
  assumes "checksum_line name l = Some h"
  obtains hash mark where "trim_end_char CR l = hash @ [SP, mark] @ name" "mark = SP \<or> mark = 42"
    "str_bytes hash = 64" "list_all is_hex hash" "h = map to_ascii_lower hash"
proof -
  obtain hash rest fname where r: "trim_end_char CR l = hash @ SP # rest"
    "(case strip_prefix [SP] rest of Some f \<Rightarrow> Some f | None \<Rightarrow> strip_prefix (lit ''*'') rest) = Some fname"
    "str_bytes hash = 64" "list_all is_hex hash" "fname = name" "h = map to_ascii_lower hash"
    using assms by (auto simp: checksum_line_def split_once_Some split: option.splits prod.splits if_splits)
  have "rest = SP # fname \<or> rest = 42 # fname"
    using r(2) by (auto simp: strip_prefix_Some split: option.splits)
  then show ?thesis using that [of hash SP] that [of hash 42] r by auto
qed

lemma checksum_line_match:
  assumes "length hash = 64" "list_all is_hex hash" "CR \<notin> set name" "name \<noteq> []"
  shows "checksum_line name' (hash @ [SP, SP] @ name) = (if name' = name then Some (map to_ascii_lower hash) else None)"
proof -
  have "last name \<noteq> CR" using assms(3,4) by (metis last_in_set)
  then have t: "trim_end_char CR (hash @ [SP, SP] @ name) = hash @ SP # SP # name"
    using assms(4) by (cases name rule: rev_cases) (simp_all add: trim_end_char_def)
  have "SP \<notin> set hash" using assms(2) by (auto simp: list_all_iff is_hex_def is_ascii_digit_def)
  then have s: "split_once SP (hash @ SP # SP # name) = Some (hash, SP # name)" by (rule split_once_append)
  have "list_all (\<lambda>c. len_utf8 c = 1) hash"
    using assms(2) by (auto simp: list_all_iff is_hex_def is_ascii_digit_def len_utf8_def)
  then have "str_bytes hash = length hash" by (induction hash) (auto simp: str_bytes_def)
  then show ?thesis using assms(1,2) t s by (simp add: checksum_line_def)
qed

lemma verify_checksum_sound:
  assumes "verify_checksum H bs listing name = None"
  obtains l hash mark where "l \<in> set (str_lines listing)" "trim_end_char CR l = hash @ [SP, mark] @ name"
    "mark = SP \<or> mark = 42" "list_all is_hex hash" "map to_ascii_lower hash = sha256_hex H bs"
proof -
  have c: "checksum_for listing name = Some (sha256_hex H bs)"
    using assms by (auto simp: verify_checksum_def Let_def split: option.splits if_splits)
  then obtain l where l: "l \<in> set (str_lines listing)" "checksum_line name l = Some (sha256_hex H bs)"
    unfolding checksum_for_def by (blast dest: find_map_Some)
  show ?thesis by (rule checksum_line_Some [OF l(2)]) (use that [OF l(1)] in metis)
qed

text \<open>A list as \<open>sha256sum\<close> writes it.\<close>

definition sums_line :: "rstring \<times> rstring \<Rightarrow> rstring" where
  "sums_line e = fst e @ [SP, SP] @ snd e"

definition sums_text :: "(rstring \<times> rstring) list \<Rightarrow> rstring" where
  "sums_text es = concat (map (\<lambda>e. sums_line e @ [LF]) es)"

definition sums_entry_ok :: "rstring \<times> rstring \<Rightarrow> bool" where
  "sums_entry_ok e \<longleftrightarrow> length (fst e) = 64 \<and> list_all is_hex (fst e) \<and> snd e \<noteq> []
     \<and> CR \<notin> set (snd e) \<and> LF \<notin> set (snd e)"

lemma sums_line_plain: "sums_entry_ok e \<Longrightarrow> LF \<notin> set (sums_line e) \<and> \<not> ends_with [CR] (sums_line e)"
proof -
  assume e: "sums_entry_ok e"
  have "LF \<notin> set (fst e)" using e by (auto simp: sums_entry_ok_def list_all_iff is_hex_def is_ascii_digit_def)
  moreover have "last (snd e) \<noteq> CR" using e by (metis last_in_set sums_entry_ok_def)
  ultimately show ?thesis using e by (auto simp: sums_entry_ok_def sums_line_def ends_with_single)
qed

lemma str_lines_sums: "list_all sums_entry_ok es \<Longrightarrow> str_lines (sums_text es) = map sums_line es"
proof -
  assume es: "list_all sums_entry_ok es"
  then have "split_on LF (sums_text es) = map sums_line es @ [[]]"
    by (induction es) (simp_all add: sums_text_def split_on_append sums_line_plain)
  moreover have "map (\<lambda>p. if ends_with [CR] p then butlast p else p) (map sums_line es) = map sums_line es"
    using es by (simp add: list_all_iff sums_line_plain)
  ultimately show ?thesis by (simp add: str_lines_def Let_def)
qed

lemma checksum_for_sums:
  assumes "list_all sums_entry_ok es" "distinct (map snd es)"
  shows "checksum_for (sums_text es) name = map_option (map to_ascii_lower) (map_of (map prod.swap es) name)"
proof -
  have "find_map (checksum_line name) (map sums_line es) = map_option (map to_ascii_lower) (map_of (map prod.swap es) name)"
    using assms
  proof (induction es)
    case (Cons e es)
    then have "checksum_line name (sums_line e) = (if name = snd e then Some (map to_ascii_lower (fst e)) else None)"
      using checksum_line_match [of "fst e" "snd e" name] by (simp add: sums_entry_ok_def sums_line_def)
    then show ?case using Cons by (cases e) simp
  qed simp
  then show ?thesis by (simp add: checksum_for_def str_lines_sums [OF assms(1)])
qed

end
