(* ===== verification/FileHistory.thy ===== *)
theory FileHistory
  imports StdPath
begin

text \<open>
  Undo and redo of file operations (\<open>throng-core/src/file_history.rs\<close>): a project's bounded stacks.
  \<open>serde_json\<close> reads a stored record, a parameter.
\<close>

definition LIMIT :: nat where "LIMIT = 50"
definition FORMAT :: nat where "FORMAT = 1"

datatype file_op =
  Move path path
| Trash path rstring

record file_history =
  fh_format :: nat
  fh_undo :: "file_op list"
  fh_redo :: "file_op list"

fun verb :: "file_op \<Rightarrow> rstring" where
  "verb (Move from to) =
     (if parent (components from) = parent (components to) then lit ''rename'' else lit ''move'')"
| "verb (Trash p t) = lit ''delete''"

fun item :: "file_op \<Rightarrow> path" where
  "item (Move from to) = to"
| "item (Trash p t) = p"

definition ops_default :: file_history where
  "ops_default = \<lparr>fh_format = FORMAT, fh_undo = [], fh_redo = []\<rparr>"

definition ops_trim :: "file_history \<Rightarrow> file_history" where
  "ops_trim h =
     h\<lparr>fh_undo := drop (length (fh_undo h) - LIMIT) (fh_undo h),
       fh_redo := drop (length (fh_redo h) - LIMIT) (fh_redo h)\<rparr>"

definition ops_parse :: "(rstring \<Rightarrow> file_history option) \<Rightarrow> rstring option \<Rightarrow> file_history" where
  "ops_parse J doc =
     (case doc of
        None \<Rightarrow> ops_default
      | Some t \<Rightarrow>
          (case J t of
             None \<Rightarrow> ops_default
           | Some h \<Rightarrow> if fh_format h = FORMAT then ops_trim h else ops_default))"

definition record_op :: "file_op \<Rightarrow> file_history \<Rightarrow> file_history" where
  "record_op op h = ops_trim (h\<lparr>fh_undo := fh_undo h @ [op], fh_redo := []\<rparr>)"

definition next_undo :: "file_history \<Rightarrow> file_op option" where
  "next_undo h = (if fh_undo h = [] then None else Some (last (fh_undo h)))"

definition next_redo :: "file_history \<Rightarrow> file_op option" where
  "next_redo h = (if fh_redo h = [] then None else Some (last (fh_redo h)))"

definition can_undo_op :: "file_history \<Rightarrow> bool" where
  "can_undo_op h \<longleftrightarrow> fh_undo h \<noteq> []"

definition can_redo_op :: "file_history \<Rightarrow> bool" where
  "can_redo_op h \<longleftrightarrow> fh_redo h \<noteq> []"

definition undone :: "file_history \<Rightarrow> file_history" where
  "undone h =
     (case next_undo h of
        None \<Rightarrow> h
      | Some op \<Rightarrow> h\<lparr>fh_undo := butlast (fh_undo h), fh_redo := fh_redo h @ [op]\<rparr>)"

definition redone :: "file_op option \<Rightarrow> file_history \<Rightarrow> file_history" where
  "redone op h =
     (let h = h\<lparr>fh_redo := butlast (fh_redo h)\<rparr>
      in case op of None \<Rightarrow> h | Some op \<Rightarrow> ops_trim (h\<lparr>fh_undo := fh_undo h @ [op]\<rparr>))"

section \<open>The stacks stay within the limit\<close>

definition ops_bounded :: "file_history \<Rightarrow> bool" where
  "ops_bounded h \<longleftrightarrow> length (fh_undo h) + length (fh_redo h) \<le> LIMIT \<and> fh_format h = FORMAT"

inductive ops_step :: "file_history \<Rightarrow> file_history \<Rightarrow> bool" where
  "ops_step h (record_op op h)"
| "ops_step h (undone h)"
| "ops_step h (redone op h)"

inductive ops_reachable :: "file_history \<Rightarrow> bool" where
  "ops_reachable (ops_default)"
| "ops_reachable h \<Longrightarrow> ops_step h h' \<Longrightarrow> ops_reachable h'"

lemma record_op_spec:
  "fh_undo (record_op op h) = drop (length (fh_undo h) + 1 - LIMIT) (fh_undo h) @ [op]"
  "fh_redo (record_op op h) = []"
  by (simp_all add: record_op_def ops_trim_def LIMIT_def)

text \<open>Undoing moves an entry from one stack to the other.\<close>

lemma undone_total:
  "length (fh_undo (undone h)) + length (fh_redo (undone h)) = length (fh_undo h) + length (fh_redo h)"
  by (cases "fh_undo h" rule: rev_cases) (auto simp: undone_def next_undo_def)

lemma ops_step_bounded:
  assumes "ops_step h h'" "ops_bounded h"
  shows "ops_bounded h'"
  using assms
proof (induction rule: ops_step.induct)
  case (1 h op)
  then show ?case by (simp add: ops_bounded_def record_op_spec) (simp add: record_op_def ops_trim_def LIMIT_def)
next
  case (2 h)
  then show ?case using undone_total [of h] by (simp add: ops_bounded_def)
    (simp add: undone_def split: option.split)
next
  case (3 h op)
  then show ?case
    by (cases op) (auto simp: ops_bounded_def redone_def ops_trim_def Let_def LIMIT_def)
qed

lemma ops_reachable_bounded: "ops_reachable h \<Longrightarrow> ops_bounded h"
proof (induction rule: ops_reachable.induct)
  case 1
  show ?case by (simp add: ops_bounded_def ops_default_def)
qed (rule ops_step_bounded)

text \<open>Redoing what was undone gives the history back.\<close>

lemma redone_undone:
  assumes "ops_bounded h" "next_undo h = Some op"
  shows "redone (Some op) (undone h) = h" and "next_redo (undone h) = Some op"
proof -
  obtain us where us: "fh_undo h = us @ [op]"
    using assms(2) by (cases "fh_undo h" rule: rev_cases) (auto simp: next_undo_def split: if_splits)
  then have "Suc (length us) \<le> LIMIT" "length (fh_redo h) \<le> LIMIT" using assms(1) by (simp_all add: ops_bounded_def)
  then show "redone (Some op) (undone h) = h"
    using us assms(2) by (simp add: redone_def undone_def ops_trim_def Let_def)
  show "next_redo (undone h) = Some op" using assms(2) by (simp add: undone_def next_redo_def)
qed

text \<open>A stored record of any size is trimmed, an unknown one ignored.\<close>

lemma ops_parse_bounded:
  "length (fh_undo (ops_parse J doc)) \<le> LIMIT \<and> length (fh_redo (ops_parse J doc)) \<le> LIMIT
   \<and> fh_format (ops_parse J doc) = FORMAT"
  by (auto simp: ops_parse_def ops_default_def ops_trim_def LIMIT_def split: option.split)

end
