(* ===== verification/SubWorkspace.thy ===== *)
theory SubWorkspace
  imports Project Complex_Main
begin

text \<open>
  Sub-workspaces (\<open>throng-core/src/subworkspace.rs\<close>): their list, names and places. Coordinates are
  finite single-precision numbers given by their rational values; the rounding of a subtraction is
  a parameter. \<open>serde_json\<close> reads the stored list, a parameter.
\<close>

record window_place =
  x_pos :: rat
  y_pos :: rat
  width :: rat
  height :: rat

definition clamp :: "rat \<Rightarrow> rat \<Rightarrow> rat \<Rightarrow> rat" where
  "clamp x lo hi = (if x < lo then lo else if x > hi then hi else x)"

definition on_screen :: "(rat \<Rightarrow> rat \<Rightarrow> rat) \<Rightarrow> rat \<times> rat \<Rightarrow> window_place \<Rightarrow> window_place" where
  "on_screen sub screen p =
     (let w = clamp (width p) 320 (max (fst screen) 320);
          h = clamp (height p) 200 (max (snd screen) 200);
          x = clamp (x_pos p) 0 (max (sub (fst screen) w) 0);
          y = clamp (y_pos p) 0 (max (sub (snd screen) h) 0)
      in \<lparr>x_pos = x, y_pos = y, width = w, height = h\<rparr>)"

record sub_workspace =
  sw_id :: project_id
  sw_name :: rstring
  sw_open :: bool
  sw_place :: "window_place option"

type_synonym sub_workspaces = "sub_workspace list"

definition sub_parse :: "(rstring \<Rightarrow> rstring + sub_workspaces) \<Rightarrow> rstring \<Rightarrow> rstring + sub_workspaces" where
  "sub_parse J doc = J doc"

definition sub_get :: "project_id \<Rightarrow> sub_workspaces \<Rightarrow> sub_workspace option" where
  "sub_get i s = find (\<lambda>w. sw_id w = i) s"

fun sub_mut :: "project_id \<Rightarrow> (sub_workspace \<Rightarrow> sub_workspace) \<Rightarrow> sub_workspaces \<Rightarrow> sub_workspaces" where
  "sub_mut i f [] = []"
| "sub_mut i f (w # s) = (if sw_id w = i then f w # s else w # sub_mut i f s)"

definition sub_contains :: "project_id \<Rightarrow> sub_workspaces \<Rightarrow> bool" where
  "sub_contains i s \<longleftrightarrow> sub_get i s \<noteq> None"

definition SUB_PREFIX :: rstring where "SUB_PREFIX = lit ''Sub-workspace ''"

definition sub_number :: "rstring \<Rightarrow> nat option" where
  "sub_number name = Option.bind (strip_prefix SUB_PREFIX name) parse_u64"

definition sub_create :: "project_id \<Rightarrow> sub_workspaces \<Rightarrow> project_id \<times> sub_workspaces" where
  "sub_create fresh s =
     (let n = first_unused (List.map_filter (sub_number \<circ> sw_name) s) 1
      in (fresh, s @ [\<lparr>sw_id = fresh, sw_name = SUB_PREFIX @ show_nat n, sw_open = True, sw_place = None\<rparr>]))"

definition sub_rename :: "project_id \<Rightarrow> rstring \<Rightarrow> sub_workspaces \<Rightarrow> bool \<times> sub_workspaces" where
  "sub_rename i name s =
     (let name = trim name
      in if sub_get i s \<noteq> None \<and> name \<noteq> [] then (True, sub_mut i (\<lambda>w. w\<lparr>sw_name := name\<rparr>) s)
         else (False, s))"

definition sub_remove :: "project_id \<Rightarrow> sub_workspaces \<Rightarrow> sub_workspace option \<times> sub_workspaces" where
  "sub_remove i s =
     (case position (\<lambda>w. sw_id w = i) s of
        None \<Rightarrow> (None, s)
      | Some index \<Rightarrow> (Some (s ! index), remove_at index s))"

section \<open>A window is put where it can be seen, when the subtraction is exact\<close>

lemma clamp_bounds: "lo \<le> hi \<Longrightarrow> lo \<le> clamp x lo hi \<and> clamp x lo hi \<le> hi"
  by (auto simp: clamp_def)

lemma clamp_id: "lo \<le> x \<Longrightarrow> x \<le> hi \<Longrightarrow> clamp x lo hi = x"
  by (simp add: clamp_def)

lemma on_screen_fits:
  assumes "fst screen \<ge> 320" "snd screen \<ge> 200"
    and q_def: "q = on_screen (-) screen p"
  shows "0 \<le> x_pos q \<and> 320 \<le> width q \<and> x_pos q + width q \<le> fst screen"
    and "0 \<le> y_pos q \<and> 200 \<le> height q \<and> y_pos q + height q \<le> snd screen"
proof -
  have w: "320 \<le> width q" "width q \<le> fst screen"
    using assms(1) clamp_bounds [of 320 "fst screen"] by (simp_all add: q_def on_screen_def Let_def max_def)
  have h: "200 \<le> height q" "height q \<le> snd screen"
    using assms(2) clamp_bounds [of 200 "snd screen"] by (simp_all add: q_def on_screen_def Let_def max_def)
  have x: "x_pos q = clamp (x_pos p) 0 (max (fst screen - width q) 0)"
    and y: "y_pos q = clamp (y_pos p) 0 (max (snd screen - height q) 0)"
    by (simp_all add: q_def on_screen_def Let_def)
  show "0 \<le> x_pos q \<and> 320 \<le> width q \<and> x_pos q + width q \<le> fst screen"
    using w clamp_bounds [of 0 "max (fst screen - width q) 0" "x_pos p"] unfolding x by simp
  show "0 \<le> y_pos q \<and> 200 \<le> height q \<and> y_pos q + height q \<le> snd screen"
    using h clamp_bounds [of 0 "max (snd screen - height q) 0" "y_pos p"] unfolding y by simp
qed

section \<open>The list\<close>

lemma sub_number_name: "n < 2 ^ 64 \<Longrightarrow> sub_number (SUB_PREFIX @ show_nat n) = Some n"
  by (simp add: sub_number_def parse_u64_show del: power_numeral)


lemma sub_create_fresh:
  assumes "Suc (length s) < 2 ^ 64" "fresh \<notin> sw_id ` set s"
  shows "sw_name (last (snd (sub_create fresh s))) \<notin> sw_name ` set s"
    and "distinct (map sw_id s) \<Longrightarrow> distinct (map sw_id (snd (sub_create fresh s)))"
proof -
  have "List.map_filter (sub_number \<circ> sw_name) s = List.map_filter sub_number (map sw_name s)"
    by (induction s) (simp_all add: List.map_filter_simps split: option.split)
  moreover have "Suc (length (map sw_name s)) < 2 ^ 64" using assms(1) by (simp only: length_map)
  ultimately show "sw_name (last (snd (sub_create fresh s))) \<notin> sw_name ` set s"
    using first_unused_fresh_name [OF sub_number_name, of "map sw_name s"]
    by (simp add: sub_create_def Let_def)
  show "distinct (map sw_id s) \<Longrightarrow> distinct (map sw_id (snd (sub_create fresh s)))"
    using assms(2) by (simp add: sub_create_def Let_def)
qed

end
