(* ===== verification/Notice.thy ===== *)
theory Notice
  imports StdPath "HOL-Library.Word"
begin

text \<open>
  What the user is told: notices, one per condition (\<open>throng-core/src/notice.rs\<close>), and the closed
  set of failure causes (\<open>throng-core/src/failure.rs\<close>). The count of repeats is a \<open>u32\<close>.
\<close>

section \<open>Notices\<close>

datatype severity = Info | Warning | Error

record notice_action =
  na_id :: rstring
  na_label :: rstring

record notice =
  n_key :: rstring
  n_severity :: severity
  n_message :: rstring
  n_detail :: "rstring option"
  n_actions :: "notice_action list"
  n_repeats :: "32 word"

definition notice_new :: "rstring \<Rightarrow> severity \<Rightarrow> rstring \<Rightarrow> notice" where
  "notice_new k s m =
     \<lparr>n_key = k, n_severity = s, n_message = m, n_detail = None, n_actions = [], n_repeats = 0\<rparr>"

definition with_detail :: "rstring \<Rightarrow> notice \<Rightarrow> notice" where
  "with_detail d n = n\<lparr>n_detail := Some d\<rparr>"

definition with_action :: "rstring \<Rightarrow> rstring \<Rightarrow> notice \<Rightarrow> notice" where
  "with_action i l n = n\<lparr>n_actions := n_actions n @ [\<lparr>na_id = i, na_label = l\<rparr>]\<rparr>"

text \<open>The first notice with a key, replaced.\<close>

fun replace_notice :: "rstring \<Rightarrow> (notice \<Rightarrow> notice) \<Rightarrow> notice list \<Rightarrow> notice list option" where
  "replace_notice k f [] = None"
| "replace_notice k f (n # ns) =
     (if n_key n = k then Some (f n # ns) else map_option ((#) n) (replace_notice k f ns))"

definition raise :: "notice \<Rightarrow> notice list \<Rightarrow> bool \<times> notice list" where
  "raise n ns =
     (case replace_notice (n_key n) (\<lambda>old. n\<lparr>n_repeats := n_repeats old + 1\<rparr>) ns of
        Some ns' \<Rightarrow> (False, ns')
      | None \<Rightarrow> (True, ns @ [n]))"

definition raise_quietly :: "notice \<Rightarrow> notice list \<Rightarrow> notice list" where
  "raise_quietly n ns =
     (case replace_notice (n_key n) (\<lambda>old. n\<lparr>n_repeats := n_repeats old\<rparr>) ns of
        Some ns' \<Rightarrow> ns'
      | None \<Rightarrow> ns @ [n])"

definition dismiss :: "rstring \<Rightarrow> notice list \<Rightarrow> notice option \<times> notice list" where
  "dismiss k ns =
     (case position (\<lambda>n. n_key n = k) ns of
        None \<Rightarrow> (None, ns)
      | Some i \<Rightarrow> (Some (ns ! i), remove_at i ns))"

definition dismiss_prefix :: "rstring \<Rightarrow> notice list \<Rightarrow> notice list" where
  "dismiss_prefix p ns = filter (\<lambda>n. \<not> starts_with p (n_key n)) ns"

definition notice_get :: "rstring \<Rightarrow> notice list \<Rightarrow> notice option" where
  "notice_get k ns = find (\<lambda>n. n_key n = k) ns"

section \<open>One condition, one notice\<close>

definition one_each :: "notice list \<Rightarrow> bool" where
  "one_each ns \<longleftrightarrow> distinct (map n_key ns)"

lemma replace_notice_None: "replace_notice k f ns = None \<longleftrightarrow> k \<notin> n_key ` set ns"
  by (induction ns) auto

lemma replace_notice_keys:
  "replace_notice k f ns = Some ns' \<Longrightarrow> (\<And>n. n_key (f n) = k) \<Longrightarrow> map n_key ns' = map n_key ns"
  by (induction ns arbitrary: ns') (auto split: if_splits)

lemma notice_get_replaced:
  "replace_notice k f ns = Some ns' \<Longrightarrow> (\<And>n. n_key (f n) = k) \<Longrightarrow>
   notice_get k' ns' = (if k' = k then map_option f (notice_get k ns) else notice_get k' ns)"
  by (induction ns arbitrary: ns') (auto simp: notice_get_def split: if_splits)

lemma notice_get_None: "notice_get k ns = None \<longleftrightarrow> k \<notin> n_key ` set ns"
  by (auto simp: notice_get_def find_None_iff)

lemma notice_get_append: "notice_get k (ns @ [n]) = (case notice_get k ns of Some m \<Rightarrow> Some m | None \<Rightarrow> if n_key n = k then Some n else None)"
  by (induction ns) (auto simp: notice_get_def)

lemma raise_one_each: "one_each ns \<Longrightarrow> one_each (snd (raise n ns))"
  using replace_notice_keys [of "n_key n" "\<lambda>old. n\<lparr>n_repeats := n_repeats old + 1\<rparr>" ns]
    replace_notice_None [of "n_key n" "\<lambda>old. n\<lparr>n_repeats := n_repeats old + 1\<rparr>" ns]
  by (auto simp: raise_def one_each_def split: option.split)

lemma raise_quietly_one_each: "one_each ns \<Longrightarrow> one_each (raise_quietly n ns)"
  using replace_notice_keys [of "n_key n" "\<lambda>old. n\<lparr>n_repeats := n_repeats old\<rparr>" ns]
    replace_notice_None [of "n_key n" "\<lambda>old. n\<lparr>n_repeats := n_repeats old\<rparr>" ns]
  by (auto simp: raise_quietly_def one_each_def split: option.split)

lemma dismiss_one_each: "one_each ns \<Longrightarrow> one_each (snd (dismiss k ns))"
proof -
  have "map n_key (remove_at i ns) = remove_at i (map n_key ns)" for i
    by (simp add: remove_at_def take_map drop_map)
  then show "one_each ns \<Longrightarrow> one_each (snd (dismiss k ns))"
    by (simp add: dismiss_def one_each_def distinct_remove_at split: option.split)
qed

lemma dismiss_prefix_one_each: "one_each ns \<Longrightarrow> one_each (dismiss_prefix p ns)"
  by (simp add: one_each_def dismiss_prefix_def distinct_map_filter)

text \<open>Raising tells what is shown afterwards, and whether it is new.\<close>

lemma raise_spec:
  "notice_get k (snd (raise n ns)) =
     (if k = n_key n
      then Some (case notice_get k ns of None \<Rightarrow> n | Some old \<Rightarrow> n\<lparr>n_repeats := n_repeats old + 1\<rparr>)
      else notice_get k ns)"
  "fst (raise n ns) \<longleftrightarrow> notice_get (n_key n) ns = None"
  "length (snd (raise n ns)) = length ns + (if fst (raise n ns) then 1 else 0)"
proof -
  let ?f = "\<lambda>old. n\<lparr>n_repeats := n_repeats old + 1\<rparr>"
  have n: "replace_notice (n_key n) ?f ns = None \<longleftrightarrow> notice_get (n_key n) ns = None"
    by (simp add: replace_notice_None notice_get_None)
  show "fst (raise n ns) \<longleftrightarrow> notice_get (n_key n) ns = None"
    using n by (auto simp: raise_def split: option.split)
  show "notice_get k (snd (raise n ns)) =
     (if k = n_key n
      then Some (case notice_get k ns of None \<Rightarrow> n | Some old \<Rightarrow> n\<lparr>n_repeats := n_repeats old + 1\<rparr>)
      else notice_get k ns)"
    using n notice_get_replaced [of "n_key n" ?f ns]
    by (auto simp: raise_def notice_get_append split: option.splits)
  show "length (snd (raise n ns)) = length ns + (if fst (raise n ns) then 1 else 0)"
  proof (cases "replace_notice (n_key n) ?f ns")
    case (Some ns')
    then have "map n_key ns' = map n_key ns" by (rule replace_notice_keys) simp
    then have "length ns' = length ns" by (metis length_map)
    then show ?thesis using Some by (simp add: raise_def)
  qed (simp add: raise_def)
qed

section \<open>Failures\<close>

datatype operation = OpRead | OpWrite | OpCreate | OpRename | OpDelete | OpList | OpWatch | OpSpawn | OpLock

fun op_verb :: "operation \<Rightarrow> rstring" where
  "op_verb OpRead = lit ''read''"
| "op_verb OpWrite = lit ''save''"
| "op_verb OpCreate = lit ''create''"
| "op_verb OpRename = lit ''move''"
| "op_verb OpDelete = lit ''delete''"
| "op_verb OpList = lit ''list''"
| "op_verb OpWatch = lit ''watch''"
| "op_verb OpSpawn = lit ''start''"
| "op_verb OpLock = lit ''lock''"

datatype cause = CauseNotFound | NoAccess | InUse | CauseExists | NoSpace | ReadOnly | OtherFailure

text \<open>The kinds of \<open>io::ErrorKind\<close> the code tells apart.\<close>

datatype error_kind =
  KNotFound | KPermissionDenied | KAlreadyExists | KStorageFull | KQuotaExceeded
| KReadOnlyFilesystem | KResourceBusy | KWouldBlock | KOther

record io_error =
  e_kind :: error_kind
  e_text :: rstring

fun classify_failure :: "error_kind \<Rightarrow> operation \<Rightarrow> cause" where
  "classify_failure KNotFound op = CauseNotFound"
| "classify_failure KPermissionDenied op = (if op = OpLock then InUse else NoAccess)"
| "classify_failure KAlreadyExists op = CauseExists"
| "classify_failure KStorageFull op = NoSpace"
| "classify_failure KQuotaExceeded op = NoSpace"
| "classify_failure KReadOnlyFilesystem op = ReadOnly"
| "classify_failure KResourceBusy op = InUse"
| "classify_failure KWouldBlock op = InUse"
| "classify_failure KOther op = OtherFailure"

definition describe_failure :: "io_error \<Rightarrow> operation \<Rightarrow> path \<Rightarrow> rstring" where
  "describe_failure e op subject =
     (let name = (case file_name (components subject) of None \<Rightarrow> subject | Some n \<Rightarrow> n);
          could_not = lit ''Could not '' @ op_verb op @ lit '' '' @ [34] @ name @ [34] @ lit '': ''
      in could_not @
         (case classify_failure (e_kind e) op of
            CauseNotFound \<Rightarrow> lit ''it no longer exists.''
          | NoAccess \<Rightarrow> lit ''permission denied.''
          | InUse \<Rightarrow> lit ''another program is using it.''
          | CauseExists \<Rightarrow> lit ''something with that name already exists.''
          | NoSpace \<Rightarrow> lit ''the disk is full.''
          | ReadOnly \<Rightarrow> lit ''the disk is read-only.''
          | OtherFailure \<Rightarrow> e_text e))"

end
