(* ===== verification/PropsCore.thy ===== *)
theory PropsCore
  imports LayoutInv TextCodec Project Update FileHistory SubWorkspace Notice
begin

text \<open>
  The properties of \<open>throng-core\<close>: layouts, preview histories, the text codec, remembered commands,
  paths, projects, updates and the history of file operations. Each rests on the lemmas of the
  theory that models its part.
\<close>

section \<open>Layouts\<close>



text \<open>A stored layout is accepted exactly when it parses, its version (as the code reads it, a
  \<open>u64\<close> cut to 32 bits) is not newer, no tab is empty and every panel of its trees stands once and
  has a record; a newer version is refused as such.\<close>

lemma stored_layout_check:
  "(from_json J doc = Inr l \<longleftrightarrow>
     (\<exists>v. J doc = Inr (v, Inr l) \<and> (case v of None \<Rightarrow> 0 | Some n \<Rightarrow> n) mod 2 ^ 32 \<le> LAYOUT_SCHEMA_VERSION
       \<and> list_all (\<lambda>t. tree_panels (t_root t) \<noteq> []) (l_tabs l)
       \<and> distinct (live_panels l) \<and> set (live_panels l) \<subseteq> dom (map_of (panels l))))
   \<and> (from_json J doc = Inl (NewerVersion n) \<longleftrightarrow>
     (\<exists>v body. J doc = Inr (Some v, body) \<and> n = v mod 2 ^ 32 \<and> n > LAYOUT_SCHEMA_VERSION))"
  unfolding from_json_ok_iff check_None_iff list_all_iff [symmetric] from_json_newer_iff by blast

section \<open>Preview histories\<close>

text \<open>After opening a file in a preview, going back shows the file shown before at the scroll
  it was left at, going forward again the opened one where it was left, and the history stays within
  its limit.\<close>

lemma preview_goes_back:
  assumes "n \<ge> 2"
  shows "length (pv_history (preview_open p scroll n c)) \<le> n \<and> pv_path (preview_open p scroll n c) = p
    \<and> fst (preview_back left (preview_open p scroll n c)) = Some \<lparr>he_path = pv_path c, he_scroll = scroll\<rparr>
    \<and> pv_path (snd (preview_back left (preview_open p scroll n c))) = pv_path c
    \<and> fst (preview_forward again (snd (preview_back left (preview_open p scroll n c)))) = Some \<lparr>he_path = p, he_scroll = left\<rparr>"
  using preview_open_back [OF assms] preview_open_bound [of n] preview_open_spec(3) [OF _ refl, of n] assms by simp

lemma preview_goes_back_witness:
  "fst (preview_forward 0 (snd (preview_back 3 (preview_open (lit ''b.md'') 7 2 (preview_new (lit ''a.md''))))))
   = Some \<lparr>he_path = lit ''b.md'', he_scroll = 3\<rparr>"
  using preview_goes_back [of 2 "lit ''b.md''" 7 "preview_new (lit ''a.md'')" 3 0] by simp

section \<open>Text files\<close>

text \<open>C4: a file read for editing and saved unchanged is written back byte for byte, whatever its
  encoding, byte order mark and mixture of line endings; and the text held has no carriage return.\<close>

theorem save_unchanged_exact:
  assumes "utf16_exact U" "diff_reflexive D" "decode U bs eol = Inr doc"
  shows "encode D (d_text doc) (d_format doc) = bs \<and> CR \<notin> set (d_text doc)"
  using decode_encode [OF assms] decode_normalised [OF assms(3)] by simp

theorem save_unchanged_exact_witness:
  "let D = (\<lambda>xs ys. if xs = ys then [DiffEqual 0 0 (length xs)] else [DiffOther]);
       bs = [0xEF, 0xBB, 0xBF, 97, 13, 10, 98, 10, 99]
   in case decode (\<lambda>_ _. None) bs Lf of Inr doc \<Rightarrow> encode D (d_text doc) (d_format doc) = bs | Inl _ \<Rightarrow> False"
proof -
  let ?bs = "[0xEF, 0xBB, 0xBF, 97, 13, 10, 98, 10, 99] :: byte list"
  obtain doc where d: "decode (\<lambda>_ _. None) ?bs Lf = Inr doc"
    using from_utf8_encoded [of "[97, 13, 10, 98, 10, 99]"]
    by (cases "classify (split_lines [97, CR, LF, 98, LF, 99]) Lf")
      (simp add: decode_def read_raw_def decode_utf8_def utf8_def utf8_char_def to_byte_def is_scalar_def Let_def)
  then show ?thesis
    using save_unchanged_exact [of "\<lambda>_ _. None" "\<lambda>xs ys. if xs = ys then [DiffEqual 0 0 (length xs)] else [DiffOther]" ?bs Lf doc]
    by (simp add: utf16_exact_def diff_reflexive_def)
qed

section \<open>Commands and arguments\<close>

text \<open>The line remembered for a running command is a line a shell splits back into the very
  arguments of the newest command, and it is short and has no control character.\<close>

lemma remembered_command_retyped:
  assumes "running_command shell children = Some line"
  shows "\<exists>c. newest_command shell children = Some c \<and> posix_words [] [] False False line = Some (argv c)
    \<and> length line \<le> MAX_REMEMBERED_COMMAND \<and> \<not> list_ex is_control line"
  using assms posix_words_join [of "[]"]
  by (auto simp: running_command_def memorable_def split: option.splits if_splits)

lemma remembered_command_retyped_witness:
  "posix_words [] [] False False (lit ''echo '' @ [39] @ lit ''a b'' @ [39]) = Some [lit ''echo'', lit ''a b'']"
proof -
  have "running_command [lit ''sh''] [\<lparr>pid = 1, started = 2, argv = [lit ''sh'']\<rparr>, \<lparr>pid = 7, started = 1, argv = [lit ''echo'', lit ''a b'']\<rparr>]
    = Some (lit ''echo '' @ [39] @ lit ''a b'' @ [39])"
    by (simp add: running_command_def newest_command_def by_newest_def memorable_def shell_quote_def plain_char_def
        replace_char_def is_ascii_alphanumeric_def is_ascii_digit_def is_ascii_upper_def is_ascii_lower_def
        trim_def is_whitespace_def is_control_def MAX_REMEMBERED_COMMAND_def lit_def)
  from remembered_command_retyped [OF this] show ?thesis
    by (auto simp: newest_command_def by_newest_def lit_def)
qed

text \<open>A terminal's arguments printed into one field are read back as they were.\<close>

lemma arguments_round_trip: "split_args (join_args args) = args"
  using split_join_from [of "[]"] by (simp add: split_args_def)

text \<open>C24: a shell starts in its project: at the root, or in an existing directory within it; the
  remembered directory is taken when it is one and remembering is on.\<close>

theorem shell_starts_inside:
  "(start_directory F c base dflt rules is_dir = base
     \<or> is_within F rules base (start_directory F c base dflt rules is_dir)
       \<and> is_dir (start_directory F c base dflt rules is_dir))
   \<and> (last_directory c = Some dr \<and> (case remember_directory c of Some b \<Rightarrow> b | None \<Rightarrow> dflt)
       \<and> is_within F rules base dr \<and> is_dir dr \<longrightarrow> start_directory F c base dflt rules is_dir = dr)"
  using start_directory_cases [of F c base dflt rules is_dir] by (simp add: start_directory_def)

theorem shell_starts_inside_witness:
  "start_directory ascii_folding (terminal_default\<lparr>last_directory := Some (lit ''/p/x'')\<rparr>) (lit ''/p'') True LINUX (\<lambda>_. True)
   = lit ''/p/x''"
proof -
  have "is_within ascii_folding LINUX (lit ''/p'') (lit ''/p/x'')"
    by (simp add: linux.is_within_iff linux_segments starts_with_Cons path_segments_def push_segment_def lit_def)
  then show ?thesis
    using shell_starts_inside [of ascii_folding "terminal_default\<lparr>last_directory := Some (lit ''/p/x'')\<rparr>" "lit ''/p''"
        True LINUX "\<lambda>_. True" "lit ''/p/x''"] by (simp add: terminal_default_def)
qed

section \<open>Paths\<close>

text \<open>C23: one absolute path is within another exactly when its names, as the system compares them,
  start with the other's: never because one name is the beginning of another.\<close>

theorem within_is_prefix:
  assumes "path_folding F rules" "starts_with [SLASH] (unified rules a)" "starts_with [SLASH] (unified rules p)"
  shows "is_within F rules a p \<longleftrightarrow> prefix (folded_segments F rules a) (folded_segments F rules p)"
  by (rule path_folding.is_within_iff [OF assms])

theorem within_is_prefix_witness:
  "\<not> is_within ascii_folding LINUX (lit ''/a/b'') (lit ''/a/bc'')"
  using within_is_prefix [OF ascii_path_folding, of LINUX "lit ''/a/b''" "lit ''/a/bc''"]
  by (simp add: linux_segments starts_with_Cons path_segments_def push_segment_def lit_def)

text \<open>C25: with fewer than 2^32 - 1 names taken, the search for a copy's name ends, before its \<open>u32\<close>
  counter overflows, with a name that is free.\<close>

theorem copy_name_found:
  assumes "finite {s. ex s}" "card {s. ex s} < 2 ^ 32 - 1"
  shows "\<exists>c. copy_name name ex = Some c \<and> \<not> ex c"
  by (rule copy_name_fresh [OF assms]) blast

theorem copy_name_found_witness:
  "\<exists>c. copy_name (lit ''a.txt'') (\<lambda>s. s = lit ''a.txt'' \<or> s = lit ''a copy.txt'') = Some c \<and> c \<noteq> lit ''a.txt''"
proof -
  have e: "{s. s = lit ''a.txt'' \<or> s = lit ''a copy.txt''} = {lit ''a.txt'', lit ''a copy.txt''}" by auto
  have "card {lit ''a.txt'', lit ''a copy.txt''} \<le> 2" by (rule card_insert_le_m1) simp_all
  then have "card {s. s = lit ''a.txt'' \<or> s = lit ''a copy.txt''} < 2 ^ 32 - 1" unfolding e by simp
  moreover have "finite {s. s = lit ''a.txt'' \<or> s = lit ''a copy.txt''}" unfolding e by simp
  ultimately show ?thesis
    using copy_name_found [of "\<lambda>s. s = lit ''a.txt'' \<or> s = lit ''a copy.txt''" "lit ''a.txt''"] by blast
qed

section \<open>Projects\<close>

text \<open>C16: whatever has been created, changed, hidden, deleted and reordered, projects have different
  identities, no project's folder is another's or inside it, and the active project is one of them.\<close>

theorem project_book_invariant:
  assumes "book_reachable A F rules b"
  shows "distinct (map pr_id (projects b))
    \<and> (\<forall>p \<in> set (projects b). \<forall>q \<in> set (projects b). p \<noteq> q \<longrightarrow> \<not> overlaps F rules (pr_root p) (pr_root q))
    \<and> (\<forall>i. active b = Some i \<longrightarrow> i \<in> pr_id ` set (projects b))"
  using book_reachable_ok [OF assms] exclusive_pairs [of "projects b" F rules] unfolding book_ok_def by blast

theorem project_book_invariant_witness:
  "distinct (map pr_id (projects (snd (book_create (starts_with [SLASH]) ascii_folding MACOS 2
      \<lparr>in_name = lit ''two'', in_colour = lit ''#abc'', in_root = lit ''/b''\<rparr> 5
      (snd (book_create (starts_with [SLASH]) ascii_folding MACOS 1
      \<lparr>in_name = lit ''one'', in_colour = lit ''#abc'', in_root = lit ''/a''\<rparr> 4 (book_new [] None)))))))"
    (is "distinct (map pr_id (projects ?b2))")
proof -
  let ?b1 = "snd (book_create (starts_with [SLASH]) ascii_folding MACOS 1
      \<lparr>in_name = lit ''one'', in_colour = lit ''#abc'', in_root = lit ''/a''\<rparr> 4 (book_new [] None))"
  have "pr_id ` set (projects ?b1) \<subseteq> {1}"
    by (simp add: book_create_def book_new_def Let_def split: sum.split option.split)
  then have "book_step (starts_with [SLASH]) ascii_folding MACOS ?b1 ?b2"
    by (intro book_step.created) auto
  moreover have "book_step (starts_with [SLASH]) ascii_folding MACOS (book_new [] None) ?b1"
    by (rule book_step.created) (simp add: book_new_def)
  ultimately have "book_reachable (starts_with [SLASH]) ascii_folding MACOS ?b2"
    by (blast intro: book_reachable.intros)
  from project_book_invariant [OF this] show ?thesis by blast
qed

text \<open>When the roots are absolute, the owner found for an absolute path is the project whose
  folder holds it, and there is at most one.\<close>

lemma owner_is_the_project:
  assumes f: "path_folding F rules" and b: "book_reachable A F rules b"
    and roots: "\<forall>p \<in> set (projects b). starts_with [SLASH] (unified rules (pr_root p))"
    and x: "starts_with [SLASH] (unified rules x)"
  shows "owner_of F rules x b = Some p \<longleftrightarrow> p \<in> set (projects b) \<and> is_within F rules (pr_root p) x"
proof -
  have one: "q = p" if "q \<in> set (projects b)" "is_within F rules (pr_root q) x" "p \<in> set (projects b)" "is_within F rules (pr_root p) x" for q
    using owner_unique [OF f book_reachable_ok [OF b] that] roots x that by blast
  show ?thesis
  proof (cases "owner_of F rules x b")
    case None
    then have "\<forall>q \<in> set (projects b). \<not> is_within F rules (pr_root q) x" by (auto simp: owner_of_def find_None_iff)
    then show ?thesis using None by auto
  next
    case (Some q)
    then have "q \<in> set (projects b) \<and> is_within F rules (pr_root q) x" by (auto simp: owner_of_def find_Some_iff)
    then show ?thesis using Some one by auto
  qed
qed

lemma owner_is_the_project_witness:
  "map_option pr_name (owner_of ascii_folding LINUX (lit ''/p/x'')
     (snd (book_create (starts_with [SLASH]) ascii_folding LINUX 1
       \<lparr>in_name = lit ''one'', in_colour = lit ''#000000'', in_root = lit ''/p''\<rparr> 4 (book_new [] None))))
   = Some (lit ''one'')"
proof -
  let ?p = "\<lparr>pr_id = 1, pr_name = lit ''one'', pr_colour = \<lparr>c_r = 0, c_g = 0, c_b = 0\<rparr>, pr_root = lit ''/p'',
     hidden_paths = [], created_at = 4, updated_at = 4\<rparr>"
  let ?b = "snd (book_create (starts_with [SLASH]) ascii_folding LINUX 1
       \<lparr>in_name = lit ''one'', in_colour = lit ''#000000'', in_root = lit ''/p''\<rparr> 4 (book_new [] None))"
  have c: "colour_parse [35, 48, 48, 48, 48, 48, 48] = Inr \<lparr>c_r = 0, c_g = 0, c_b = 0\<rparr>"
    using colour_roundtrip [of "\<lparr>c_r = 0, c_g = 0, c_b = 0\<rparr>"] by (simp add: to_hex_def show_hex2_def hex_char_def lit_def)
  have b: "projects ?b = [?p]"
    by (simp add: book_create_def validate_input_def c book_new_def trim_def is_whitespace_def MAX_NAME_LENGTH_def
        starts_with_Cons Let_def)
  have r: "book_reachable (starts_with [SLASH]) ascii_folding LINUX ?b"
    by (rule book_reachable.step [OF book_reachable.empty], rule book_step.created) (simp add: book_new_def)
  have "is_within ascii_folding LINUX (lit ''/p'') (lit ''/p/x'')"
    by (simp add: linux.is_within_iff linux_segments starts_with_Cons path_segments_def push_segment_def lit_def)
  then have "owner_of ascii_folding LINUX (lit ''/p/x'') ?b = Some ?p"
    using owner_is_the_project [OF ascii_path_folding r, of "lit ''/p/x''" ?p] b
    by (simp add: starts_with_Cons lit_def)
  then show ?thesis by simp
qed

section \<open>Updates\<close>

text \<open>Against a list as \<open>sha256sum\<close> writes it, a download passes exactly when the list gives its
  name the hash it has, and is reported as not listed exactly when the list does not have its name.\<close>

lemma checksum_exact:
  assumes "list_all sums_entry_ok es" "distinct (map snd es)"
  shows "(verify_checksum H bs (sums_text es) name = None \<longleftrightarrow>
      (\<exists>hash. (hash, name) \<in> set es \<and> map to_ascii_lower hash = sha256_hex H bs))
    \<and> (verify_checksum H bs (sums_text es) name = Some (NotListed name) \<longleftrightarrow> name \<notin> snd ` set es)"
proof -
  have d: "distinct (map fst (map prod.swap es))" using assms(2) by (simp add: comp_def)
  have m: "map_of (map prod.swap es) name = Some hash \<longleftrightarrow> (hash, name) \<in> set es" for hash
    unfolding map_of_eq_Some_iff [OF d] by force
  show ?thesis
  proof (cases "map_of (map prod.swap es) name")
    case None
    then have "\<forall>hash. (hash, name) \<notin> set es" using m by simp
    then show ?thesis using None by (auto simp: verify_checksum_def checksum_for_sums [OF assms])
  next
    case (Some hash)
    then have h: "(hash, name) \<in> set es" "\<And>h. (h, name) \<in> set es \<Longrightarrow> h = hash"
      using m Some by (metis option.inject)+
    have "verify_checksum H bs (sums_text es) name =
      (if sha256_hex H bs = map to_ascii_lower hash then None
       else Some (Mismatch name (map to_ascii_lower hash) (sha256_hex H bs)))"
      by (simp add: verify_checksum_def checksum_for_sums [OF assms] Some Let_def)
    then have v: "verify_checksum H bs (sums_text es) name = None \<longleftrightarrow> sha256_hex H bs = map to_ascii_lower hash"
      "verify_checksum H bs (sums_text es) name \<noteq> Some (NotListed name)" by simp_all
    have "name \<in> snd ` set es" using h(1) by force
    moreover have "(\<exists>h. (h, name) \<in> set es \<and> map to_ascii_lower h = sha256_hex H bs)
      \<longleftrightarrow> sha256_hex H bs = map to_ascii_lower hash" using h by metis
    ultimately show ?thesis unfolding v(1) using v(2) by simp
  qed
qed

lemma checksum_exact_witness:
  "verify_checksum (\<lambda>_. replicate 32 0) [1, 2] (sums_text [(replicate 64 48, lit ''throng.zip'')]) (lit ''other.zip'')
   = Some (NotListed (lit ''other.zip''))"
proof -
  let ?es = "[(replicate 64 48, lit ''throng.zip'')]"
  have "list_all is_hex (replicate 64 48)" by (simp only: list_all_iff set_replicate_conv_if) (simp add: is_hex_def is_ascii_digit_def)
  then have "list_all sums_entry_ok ?es" by (simp add: sums_entry_ok_def lit_def)
  moreover have "distinct (map snd ?es)" by simp
  moreover have "lit ''other.zip'' \<notin> snd ` set ?es" by (simp add: lit_def)
  ultimately show ?thesis using checksum_exact [of ?es "\<lambda>_. replicate 32 0" "[1, 2]" "lit ''other.zip''"] by blast
qed

section \<open>File operations\<close>

text \<open>The history of file operations never holds more than its limit, and redoing what was undone
  gives it back.\<close>

lemma file_history_bounded:
  assumes "ops_reachable h"
  shows "length (fh_undo h) + length (fh_redo h) \<le> LIMIT
    \<and> (\<forall>op. next_undo h = Some op \<longrightarrow> next_redo (undone h) = Some op \<and> redone (Some op) (undone h) = h)"
  using ops_reachable_bounded [OF assms] redone_undone [of h] by (auto simp: ops_bounded_def)

lemma file_history_bounded_witness:
  "redone (Some (Trash (lit ''/a'') (lit ''t1''))) (undone (record_op (Trash (lit ''/a'') (lit ''t1'')) ops_default))
   = record_op (Trash (lit ''/a'') (lit ''t1'')) ops_default"
proof -
  have "ops_reachable (record_op (Trash (lit ''/a'') (lit ''t1'')) ops_default)"
    by (blast intro: ops_reachable.intros ops_step.intros)
  from file_history_bounded [OF this] show ?thesis by (simp add: next_undo_def record_op_spec)
qed

end
