(* ===== verification/Protocol.thy ===== *)
theory Protocol
  imports Terminal Utf
begin

text \<open>
  The wire protocol (\<open>throng-protocol/src/lib.rs\<close>): messages, frames, chunked writes and the part of
  an output a client has not seen. \<open>postcard\<close> turns a message into bytes and back: a parameter.
  A reader is the bytes it still delivers and what it meets after them.
\<close>

type_synonym terminal_id = nat

definition PROTOCOL_VERSION :: nat where "PROTOCOL_VERSION = 2"
definition MAX_FRAME :: nat where "MAX_FRAME = 16 * 1024 * 1024"
definition WRITE_CHUNK :: nat where "WRITE_CHUNK = 64 * 1024"
definition NO_REPLY :: nat where "NO_REPLY = 0"
definition NO_SUCH_TERMINAL :: rstring where "NO_SUCH_TERMINAL = lit ''No such terminal.''"

record spawn_spec =
  sp_terminal :: terminal_id
  sp_project :: nat
  sp_label :: rstring
  sp_program :: path
  sp_args :: "rstring list"
  sp_cwd :: path
  sp_env :: "(rstring \<times> rstring) list"
  sp_cols :: "16 word"
  sp_rows :: "16 word"
  sp_startup :: "rstring option"
  sp_admin :: bool

datatype request =
  Spawn spawn_spec
| Attach terminal_id "16 word" "16 word"
| Detach terminal_id
| Write terminal_id "byte list"
| Resize terminal_id "16 word" "16 word"
| Kill terminal_id
| Forget terminal_id
| ListTerminals
| CloseIdleTerminals "terminal_id list"
| Shutdown bool
| Ping

datatype client_msg =
  Hello nat rstring nat
| Request nat request

record snapshot =
  sn_terminal :: terminal_id
  sn_tail :: "byte list"
  sn_end_offset :: nat
  sn_exited :: "exit_status option"
  sn_alt_screen :: bool
  sn_elevated :: bool

record terminal_info =
  tinf_terminal :: terminal_id
  tinf_project :: nat
  tinf_label :: rstring
  tinf_pid :: "nat option"
  tinf_busy :: bool
  tinf_exited :: "exit_status option"
  tinf_views :: nat
  tinf_elevated :: bool

datatype reply =
  Done
| SnapshotReply snapshot
| Terminals "terminal_info list"
| Closed "terminal_id list"
| Pong

datatype server_msg =
  Welcome nat rstring nat
| Reply nat "rstring + reply"
| Output terminal_id nat "byte list"
| Exited terminal_id exit_status
| Resync terminal_id

section \<open>Frames\<close>

type_synonym io_failure = nat

datatype frame_error =
  FrameClosed
| TooLarge nat
| Decode rstring
| Io io_failure

text \<open>\<open>u32::to_le_bytes\<close> and back.\<close>

definition le32 :: "nat \<Rightarrow> byte list" where
  "le32 n = [to_byte (n mod 256), to_byte (n div 256 mod 256), to_byte (n div 65536 mod 256), to_byte (n div 16777216 mod 256)]"

definition from_le32 :: "byte list \<Rightarrow> nat" where
  "from_le32 bs = unat (bs ! 0) + 256 * unat (bs ! 1) + 65536 * unat (bs ! 2) + 16777216 * unat (bs ! 3)"

text \<open>
  \<open>write_frame\<close>: the encoder may fail, and so may the writer, which takes the whole frame or
  reports why it did not.
\<close>

definition write_frame ::
  "('m \<Rightarrow> rstring + byte list) \<Rightarrow> (byte list \<Rightarrow> io_failure option) \<Rightarrow> 'm \<Rightarrow> frame_error option \<times> byte list" where
  "write_frame enc accepts m =
     (case enc m of
        Inl e \<Rightarrow> (Some (Decode e), [])
      | Inr payload \<Rightarrow>
          if length payload > MAX_FRAME then (Some (TooLarge (length payload)), [])
          else if length payload \<ge> 2 ^ 32 then (Some (TooLarge (length payload)), [])
          else (let frame = le32 (length payload) @ payload
                in case accepts frame of
                     Some e \<Rightarrow> (Some (Io e), [])
                   | None \<Rightarrow> (None, frame)))"

record reader =
  rd_bytes :: "byte list"
  rd_fails :: "io_failure option"

definition read_exact :: "nat \<Rightarrow> reader \<Rightarrow> (frame_error + byte list) \<times> reader" where
  "read_exact n r =
     (if n \<le> length (rd_bytes r) then (Inr (take n (rd_bytes r)), r\<lparr>rd_bytes := drop n (rd_bytes r)\<rparr>)
      else (Inl (case rd_fails r of None \<Rightarrow> FrameClosed | Some e \<Rightarrow> Io e), r\<lparr>rd_bytes := []\<rparr>))"

definition read_frame :: "(byte list \<Rightarrow> rstring + 'm) \<Rightarrow> reader \<Rightarrow> (frame_error + 'm) \<times> reader" where
  "read_frame dec r =
     (case read_exact 4 r of
        (Inl e, r) \<Rightarrow> (Inl e, r)
      | (Inr header, r) \<Rightarrow>
          (let len = from_le32 header
           in if len > MAX_FRAME then (Inl (TooLarge len), r)
              else (case read_exact len r of
                      (Inl e, r) \<Rightarrow> (Inl e, r)
                    | (Inr payload, r) \<Rightarrow>
                        ((case dec payload of Inl e \<Rightarrow> Inl (Decode e) | Inr m \<Rightarrow> Inr m), r))))"

section \<open>Writes and output\<close>

function chunks :: "nat \<Rightarrow> 'a list \<Rightarrow> 'a list list" where
  "chunks n xs = (if xs = [] \<or> n = 0 then [] else take n xs # chunks n (drop n xs))"
  by pat_completeness auto
termination by (relation "measure (length \<circ> snd)") auto

declare chunks.simps [simp del]

definition chunked_writes :: "terminal_id \<Rightarrow> byte list \<Rightarrow> request list" where
  "chunked_writes t data = map (Write t) (chunks WRITE_CHUNK data)"

text \<open>Offsets are \<open>u64\<close>s; the sum wraps.\<close>

definition unseen :: "64 word \<Rightarrow> byte list \<Rightarrow> 64 word \<Rightarrow> byte list" where
  "unseen offset data seen_until =
     (let stop = offset + of_nat (length data)
      in if stop \<le> seen_until then []
         else if offset \<ge> seen_until then data
         else drop (unat (seen_until - offset)) data)"

section \<open>Frames come back as they were sent\<close>

lemma from_le32_le32: "n < 2 ^ 32 \<Longrightarrow> from_le32 (le32 n) = n"
proof -
  assume n: "n < 2 ^ 32"
  have a: "n div 256 mod 256 + 256 * (n div 65536) = n div 256"
    using div_mult2_eq [of n 256 256] by simp
  have b: "n div 65536 mod 256 + 256 * (n div 16777216) = n div 65536"
    using div_mult2_eq [of n 65536 256] by simp
  have c: "n div 16777216 < 256" using n less_mult_imp_div_less [of n 256 16777216] by simp
  have "from_le32 (le32 n) = n mod 256 + 256 * (n div 256 mod 256 + 256 * (n div 65536 mod 256 + 256 * (n div 16777216)))"
    using c by (simp add: from_le32_def le32_def algebra_simps)
  then show ?thesis unfolding a b by simp
qed

lemma length_le32 [simp]: "length (le32 n) = 4"
  by (simp add: le32_def)

lemma read_frame_written:
  assumes "write_frame enc accepts m = (None, frame)" "dec (projr (enc m)) = Inr m"
  shows "read_frame dec \<lparr>rd_bytes = frame @ rest, rd_fails = e\<rparr> = (Inr m, \<lparr>rd_bytes = rest, rd_fails = e\<rparr>)"
proof -
  obtain payload where p: "enc m = Inr payload" "length payload \<le> MAX_FRAME" "frame = le32 (length payload) @ payload"
    using assms(1) by (auto simp: write_frame_def Let_def split: sum.splits if_splits option.splits)
  have "from_le32 (le32 (length payload)) = length payload"
    using p(2) by (intro from_le32_le32) (simp add: MAX_FRAME_def)
  then show ?thesis using p assms(2) by (simp add: read_frame_def read_exact_def)
qed

text \<open>Reading frame after frame until one fails; the fuel is the number of bytes.\<close>

fun read_frames :: "nat \<Rightarrow> (byte list \<Rightarrow> rstring + 'm) \<Rightarrow> reader \<Rightarrow> 'm list \<times> frame_error option" where
  "read_frames 0 dec r = ([], None)"
| "read_frames (Suc n) dec r =
     (case read_frame dec r of
        (Inl e, _) \<Rightarrow> ([], Some e)
      | (Inr m, r') \<Rightarrow> (case read_frames n dec r' of (ms, e) \<Rightarrow> (m # ms, e)))"

definition sent_frames :: "('m \<Rightarrow> rstring + byte list) \<Rightarrow> 'm list \<Rightarrow> byte list" where
  "sent_frames enc ms = concat (map (\<lambda>m. snd (write_frame enc (\<lambda>_. None) m)) ms)"

lemma read_frames_sent:
  assumes "\<And>m. m \<in> set ms \<Longrightarrow> fst (write_frame enc (\<lambda>_. None) m) = None \<and> dec (projr (enc m)) = Inr m"
    and "n > length ms"
  shows "read_frames n dec \<lparr>rd_bytes = sent_frames enc ms, rd_fails = None\<rparr> = (ms, Some FrameClosed)"
  using assms
proof (induction ms arbitrary: n)
  case Nil
  then show ?case by (cases n) (simp_all add: sent_frames_def read_frame_def read_exact_def)
next
  case (Cons m ms)
  obtain n' where n: "n = Suc n'" using Cons.prems(2) by (cases n) auto
  have "write_frame enc (\<lambda>_. None) m = (None, snd (write_frame enc (\<lambda>_. None) m))"
    using Cons.prems(1) [of m] by (metis list.set_intros(1) prod.collapse)
  from read_frame_written [OF this, of dec "sent_frames enc ms" None] Cons.prems(1) [of m]
  have "read_frame dec \<lparr>rd_bytes = sent_frames enc (m # ms), rd_fails = None\<rparr>
    = (Inr m, \<lparr>rd_bytes = sent_frames enc ms, rd_fails = None\<rparr>)"
    by (simp add: sent_frames_def)
  then show ?case using Cons n by simp
qed

text \<open>A frame announcing more than the limit is refused before anything is allocated for it.\<close>

lemma read_frame_too_large:
  assumes "length (rd_bytes r) \<ge> 4" "from_le32 (take 4 (rd_bytes r)) > MAX_FRAME"
  shows "read_frame dec r = (Inl (TooLarge (from_le32 (take 4 (rd_bytes r)))), r\<lparr>rd_bytes := drop 4 (rd_bytes r)\<rparr>)"
  using assms by (simp add: read_frame_def read_exact_def)

lemma read_frame_cut:
  assumes "write_frame enc accepts m = (None, frame)" "n < length frame"
  shows "fst (read_frame dec \<lparr>rd_bytes = take n frame, rd_fails = None\<rparr>) = Inl FrameClosed"
proof -
  obtain payload where p: "length payload \<le> MAX_FRAME" "frame = le32 (length payload) @ payload"
    using assms(1) by (auto simp: write_frame_def Let_def split: sum.splits if_splits option.splits)
  have l: "from_le32 (le32 (length payload)) = length payload"
    using p(1) by (intro from_le32_le32) (simp add: MAX_FRAME_def)
  show ?thesis
  proof (cases "n < 4")
    case True
    then show ?thesis by (simp add: read_frame_def read_exact_def)
  next
    case False
    then have "take n frame = le32 (length payload) @ take (n - 4) payload" using p(2) by simp
    moreover have "\<not> length payload \<le> n - 4" using assms(2) p(2) False by simp
    ultimately show ?thesis using p l False by (simp add: read_frame_def read_exact_def Let_def)
  qed
qed

lemma concat_chunks: "n > 0 \<Longrightarrow> concat (chunks n xs) = xs"
proof (induction n xs rule: chunks.induct)
  case (1 n xs)
  then show ?case by (subst chunks.simps) auto
qed

lemma chunks_size: "c \<in> set (chunks n xs) \<Longrightarrow> c \<noteq> [] \<and> length c \<le> n"
proof (induction n xs rule: chunks.induct)
  case (1 n xs)
  from 1(2) have "\<not> (xs = [] \<or> n = 0)" "c = take n xs \<or> c \<in> set (chunks n (drop n xs))"
    by (subst (asm) chunks.simps, simp split: if_splits)+
  then show ?case using "1.IH" by auto
qed

lemma unseen_spec:
  assumes "unat offset + length data < 2 ^ 64"
  shows "unseen offset data seen = drop (unat seen - unat offset) data"
proof -
  have l: "unat (of_nat (length data) :: 64 word) = length data"
    using assms by (simp add: unat_of_nat)
  have s: "unat (offset + of_nat (length data)) = unat offset + length data"
    using assms l by (simp add: unat_word_ariths)
  show ?thesis
  proof (cases "seen < offset")
    case True
    then show ?thesis using s by (auto simp: unseen_def Let_def word_le_nat_alt word_less_nat_alt)
  next
    case False
    then have "unat (seen - offset) = unat seen - unat offset" by (simp add: unat_sub word_le_nat_alt word_less_nat_alt)
    then show ?thesis using s False by (auto simp: unseen_def Let_def word_le_nat_alt word_less_nat_alt)
  qed
qed

end
