(* ===== verification/Registry.thy ===== *)
theory Registry
  imports Protocol OrdMap
begin

text \<open>
  Connected clients and the queues that feed them (\<open>throng-daemon/src/registry.rs\<close>, and the daemon's
  writer thread, \<open>write_loop\<close> of \<open>server.rs\<close>). A queue is what its channel holds; the clients are in
  the order of their ids, where the code's hash map has no order.
\<close>

definition MAX_QUEUED_BYTES :: nat where "MAX_QUEUED_BYTES = 32 * 1024 * 1024"

type_synonym client_id = nat

record client_queue =
  cq_tx :: "server_msg list"
  cq_queued :: nat
  cq_resync :: "terminal_id list"
  cq_closed :: bool

record registry =
  rg_clients :: "(client_id \<times> client_queue) list"
  rg_next :: nat

fun size_of :: "server_msg \<Rightarrow> nat" where
  "size_of (Output t offset data) = length data"
| "size_of (Reply i (Inr (SnapshotReply s))) = length (sn_tail s)"
| "size_of (Welcome p b i) = 64"
| "size_of (Reply i (Inl e)) = 64"
| "size_of (Reply i (Inr Done)) = 64"
| "size_of (Reply i (Inr (Terminals ts))) = 64"
| "size_of (Reply i (Inr (Closed ts))) = 64"
| "size_of (Reply i (Inr Pong)) = 64"
| "size_of (Exited t st) = 64"
| "size_of (Resync t) = 64"

definition registry_default :: registry where
  "registry_default = \<lparr>rg_clients = [], rg_next = 0\<rparr>"

definition empty_queue :: client_queue where
  "empty_queue = \<lparr>cq_tx = [], cq_queued = 0, cq_resync = [], cq_closed = False\<rparr>"

definition registry_add :: "registry \<Rightarrow> client_id \<times> registry" where
  "registry_add r =
     (let i = rg_next r + 1
      in (i, r\<lparr>rg_next := rg_next r + 1, rg_clients := bt_insert i empty_queue (rg_clients r)\<rparr>))"

definition registry_remove :: "client_id \<Rightarrow> registry \<Rightarrow> registry" where
  "registry_remove i r = r\<lparr>rg_clients := bt_remove i (rg_clients r)\<rparr>"

definition queue_close :: "client_queue \<Rightarrow> client_queue" where
  "queue_close q = q\<lparr>cq_closed := True\<rparr>"

definition shutdown_all :: "registry \<Rightarrow> registry" where
  "shutdown_all r = r\<lparr>rg_clients := map (\<lambda>(i, q). (i, queue_close q)) (rg_clients r)\<rparr>"

definition registry_count :: "registry \<Rightarrow> nat" where
  "registry_count r = length (rg_clients r)"

text \<open>A change of one client's queue, when it is connected.\<close>

definition on_queue :: "client_id \<Rightarrow> (client_queue \<Rightarrow> client_queue) \<Rightarrow> registry \<Rightarrow> registry" where
  "on_queue i f r = r\<lparr>rg_clients := map (\<lambda>(j, q). (j, if j = i then f q else q)) (rg_clients r)\<rparr>"

definition enqueue :: "server_msg \<Rightarrow> client_queue \<Rightarrow> client_queue" where
  "enqueue m q = q\<lparr>cq_queued := cq_queued q + size_of m, cq_tx := cq_tx q @ [m]\<rparr>"

definition registry_send :: "client_id \<Rightarrow> server_msg \<Rightarrow> registry \<Rightarrow> registry" where
  "registry_send i m r = on_queue i (enqueue m) r"

definition queue_output :: "terminal_id \<Rightarrow> nat \<Rightarrow> byte list \<Rightarrow> client_queue \<Rightarrow> client_queue" where
  "queue_output t offset data q =
     (if t \<in> set (cq_resync q) \<or> cq_queued q + length data > MAX_QUEUED_BYTES
      then q\<lparr>cq_resync := (if t \<in> set (cq_resync q) then cq_resync q else cq_resync q @ [t])\<rparr>
      else enqueue (Output t offset data) q)"

definition send_output :: "client_id \<Rightarrow> terminal_id \<Rightarrow> nat \<Rightarrow> byte list \<Rightarrow> registry \<Rightarrow> registry" where
  "send_output i t offset data r = on_queue i (queue_output t offset data) r"

text \<open>Called by the writer once a message has been written.\<close>

definition queue_written :: "server_msg \<Rightarrow> client_queue \<Rightarrow> client_queue" where
  "queue_written m q = q\<lparr>cq_queued := cq_queued q - size_of m\<rparr>"

definition take_resyncs :: "client_queue \<Rightarrow> terminal_id list \<times> client_queue" where
  "take_resyncs q =
     (if cq_queued q > MAX_QUEUED_BYTES div 2 then ([], q) else (cq_resync q, q\<lparr>cq_resync := []\<rparr>))"

text \<open>
  One turn of the writer: the next message goes out, and then, when nothing waits, the resyncs owed;
  on a timeout, the resyncs alone. The first result is what went out.
\<close>

definition write_turn :: "client_queue \<Rightarrow> server_msg list \<times> client_queue" where
  "write_turn q =
     (case cq_tx q of
        m # ms \<Rightarrow>
          (let q = queue_written m (q\<lparr>cq_tx := ms\<rparr>)
           in if ms = [] then (case take_resyncs q of (ts, q) \<Rightarrow> (m # map Resync ts, q)) else ([m], q))
      | [] \<Rightarrow>
          if cq_closed q then ([], q)
          else (case take_resyncs q of (ts, q) \<Rightarrow> (map Resync ts, q)))"

section \<open>A queue holds no more output than its limit\<close>

fun output_bytes :: "server_msg \<Rightarrow> nat" where
  "output_bytes (Output t offset data) = length data"
| "output_bytes _ = 0"

lemma output_bytes_le_size: "output_bytes m \<le> size_of m"
  by (cases m) simp_all

definition queue_ok :: "client_queue \<Rightarrow> bool" where
  "queue_ok q \<longleftrightarrow> cq_queued q = sum_list (map size_of (cq_tx q))
     \<and> sum_list (map output_bytes (cq_tx q)) \<le> MAX_QUEUED_BYTES \<and> distinct (cq_resync q)"

lemma empty_queue_ok: "queue_ok empty_queue"
  by (simp add: queue_ok_def empty_queue_def)

lemma queued_bytes: "sum_list (map output_bytes ms) \<le> sum_list (map size_of ms)"
  by (rule sum_list_mono) (rule output_bytes_le_size)

lemma enqueue_control_ok: "queue_ok q \<Longrightarrow> output_bytes m = 0 \<Longrightarrow> queue_ok (enqueue m q)"
  by (simp add: queue_ok_def enqueue_def)

lemma queue_output_ok: "queue_ok q \<Longrightarrow> queue_ok (queue_output t offset data q)"
  using queued_bytes [of "cq_tx q"] by (auto simp: queue_ok_def queue_output_def enqueue_def)

lemma take_resyncs_ok: "queue_ok q \<Longrightarrow> queue_ok (snd (take_resyncs q))"
  by (simp add: take_resyncs_def queue_ok_def)

lemma write_turn_ok:
  assumes q: "queue_ok q"
  shows "queue_ok (snd (write_turn q))"
proof (cases "cq_tx q")
  case Nil
  then show ?thesis using q take_resyncs_ok [OF q] by (simp add: write_turn_def split_beta)
next
  case (Cons m ms)
  then have w: "queue_ok (queue_written m (q\<lparr>cq_tx := ms\<rparr>))"
    using q by (simp add: queue_ok_def queue_written_def)
  then show ?thesis using Cons take_resyncs_ok [OF w] by (cases "ms = []") (simp_all add: write_turn_def Let_def split_beta)
qed

definition registry_ok :: "registry \<Rightarrow> bool" where
  "registry_ok r \<longleftrightarrow> bt_inv (rg_clients r) \<and> (\<forall>(i, q) \<in> set (rg_clients r). queue_ok q \<and> i \<le> rg_next r)"

lemma on_queue_ok:
  assumes r: "registry_ok r" and f: "\<And>q. queue_ok q \<Longrightarrow> queue_ok (f q)"
  shows "registry_ok (on_queue i f r)"
proof -
  have "map fst (rg_clients (on_queue i f r)) = map fst (rg_clients r)" by (auto simp: on_queue_def)
  then have "bt_inv (rg_clients (on_queue i f r))"
    using r bt_inv_map_values [of "rg_clients (on_queue i f r)" "rg_clients r"] by (simp add: registry_ok_def)
  moreover have "queue_ok q' \<and> j \<le> rg_next r" if "(j, q') \<in> set (rg_clients (on_queue i f r))" for j q'
    using that r f by (auto simp: registry_ok_def on_queue_def)
  moreover have "rg_next (on_queue i f r) = rg_next r" by (simp add: on_queue_def)
  ultimately show ?thesis unfolding registry_ok_def by auto
qed

lemma on_queue_lookup:
  "map_of (rg_clients (on_queue i f r)) j = map_option (if j = i then f else id) (map_of (rg_clients r) j)"
proof -
  have "map_of (map (\<lambda>(j, q). (j, if j = i then f q else q)) m) j = map_option (if j = i then f else id) (map_of m j)" for m
    by (induction m) auto
  then show ?thesis by (simp add: on_queue_def)
qed

lemma registry_add_ok: "registry_ok r \<Longrightarrow> registry_ok (snd (registry_add r))"
proof -
  assume r: "registry_ok r"
  have s: "set (bt_insert k v m) \<subseteq> insert (k, v) (set m)" for k :: nat and v :: client_queue and m
    by (induction k v m rule: bt_insert.induct) auto
  show ?thesis
    using r s [of "rg_next r + 1" empty_queue "rg_clients r"] empty_queue_ok
    by (fastforce simp: registry_add_def registry_ok_def Let_def bt_inv_insert)
qed

text \<open>A new client's id is one no client has.\<close>

lemma registry_add_fresh: "registry_ok r \<Longrightarrow> fst (registry_add r) \<notin> fst ` set (rg_clients r)"
  by (fastforce simp: registry_add_def registry_ok_def Let_def)

lemma registry_remove_ok: "registry_ok r \<Longrightarrow> registry_ok (registry_remove i r)"
  using bt_inv_remove [of "rg_clients r" i] by (auto simp: registry_ok_def registry_remove_def bt_remove_def)

section \<open>Everything queued goes out\<close>

fun write_turns :: "nat \<Rightarrow> client_queue \<Rightarrow> server_msg list \<times> client_queue" where
  "write_turns 0 q = ([], q)"
| "write_turns (Suc n) q =
     (case write_turn q of (ms, q1) \<Rightarrow> (case write_turns n q1 of (ms', q2) \<Rightarrow> (ms @ ms', q2)))"

lemma write_turns_all:
  assumes "queue_ok q" "cq_tx q \<noteq> []"
  shows "write_turns (length (cq_tx q)) q =
    (cq_tx q @ map Resync (cq_resync q), q\<lparr>cq_tx := [], cq_queued := 0, cq_resync := []\<rparr>)"
  using assms
proof (induction "length (cq_tx q)" arbitrary: q)
  case (Suc n)
  then obtain m ms where m: "cq_tx q = m # ms" by (cases "cq_tx q") auto
  let ?q = "queue_written m (q\<lparr>cq_tx := ms\<rparr>)"
  have ok: "queue_ok ?q" using Suc.prems(1) m by (simp add: queue_ok_def queue_written_def)
  show ?case
  proof (cases "ms = []")
    case True
    have "cq_queued q = size_of m" using Suc.prems(1) m True by (simp add: queue_ok_def)
    then show ?thesis using m True
      by (simp add: write_turn_def Let_def take_resyncs_def queue_written_def)
  next
    case False
    have "write_turns (length (cq_tx ?q)) ?q =
      (cq_tx ?q @ map Resync (cq_resync ?q), ?q\<lparr>cq_tx := [], cq_queued := 0, cq_resync := []\<rparr>)"
      by (rule Suc.hyps(1)) (use Suc.hyps(2) m ok False in \<open>simp_all add: queue_written_def\<close>)
    then show ?thesis using m False by (simp add: write_turn_def Let_def queue_written_def)
  qed
qed simp

lemma write_turns_delivers:
  assumes "queue_ok q" "\<not> cq_closed q"
  shows "write_turns (max 1 (length (cq_tx q))) q =
    (cq_tx q @ map Resync (cq_resync q), q\<lparr>cq_tx := [], cq_queued := 0, cq_resync := []\<rparr>)"
proof (cases "cq_tx q")
  case Nil
  then have "cq_queued q = 0" using assms(1) by (simp add: queue_ok_def)
  then show ?thesis using Nil assms(2) by (simp add: write_turn_def take_resyncs_def)
next
  case (Cons m ms)
  then have "max 1 (length (cq_tx q)) = length (cq_tx q)" by simp
  then show ?thesis using write_turns_all [OF assms(1)] Cons by (simp only:) simp
qed

end
