(* ===== verification/Session.thy ===== *)
theory Session
  imports Registry
begin

text \<open>
  One terminal session (\<open>throng-daemon/src/session.rs\<close>): a shell on a PTY, its retained output and
  the views attached to it. A handler returns the session, the registry with what it queued, and
  what it asked of the PTY and the shell's processes. What the PTY and the host answer (whether a
  shell starts, the foreground process group) are arguments. Views are in the order of their
  clients' ids; the lifetime offset is a number that does not wrap.
\<close>

definition ESC :: byte where "ESC = 0x1b"

definition byte_lit :: "string \<Rightarrow> byte list" where
  "byte_lit s = map of_char s"

definition CURSOR_QUERY :: "byte list" where "CURSOR_QUERY = ESC # byte_lit ''[6n''"
definition CURSOR_AT_TOP_LEFT :: "byte list" where "CURSOR_AT_TOP_LEFT = ESC # byte_lit ''[1;1R''"
definition DEFAULT_TAIL_BYTES :: nat where "DEFAULT_TAIL_BYTES = 4 * 1024 * 1024"

section \<open>The alternate screen\<close>

datatype scan_state = Ground | Escape | Csi | Private

record scanner =
  alt_active :: bool
  alt_state :: scan_state
  alt_params :: "byte list"

definition scanner_default :: scanner where
  "scanner_default = \<lparr>alt_active = False, alt_state = Ground, alt_params = []\<rparr>"

definition alt_hit :: "byte list \<Rightarrow> bool" where
  "alt_hit params \<longleftrightarrow>
     (\<exists>p \<in> set (split_on 0x3b params). p = byte_lit ''1049'' \<or> p = byte_lit ''1047'' \<or> p = byte_lit ''47'')"

definition scan_byte :: "byte \<Rightarrow> scanner \<Rightarrow> scanner" where
  "scan_byte b s =
     (if b = ESC then s\<lparr>alt_state := Escape\<rparr>
      else if alt_state s = Escape \<and> b = 0x5b then s\<lparr>alt_state := Csi\<rparr>
      else if alt_state s = Csi \<and> b = 0x3f then s\<lparr>alt_params := [], alt_state := Private\<rparr>
      else if alt_state s = Private \<and> (is_ascii_digit (unat b) \<or> b = 0x3b) \<and> length (alt_params s) < 32
        then s\<lparr>alt_params := alt_params s @ [b], alt_state := Private\<rparr>
      else if alt_state s = Private \<and> (b = 0x68 \<or> b = 0x6c)
        then s\<lparr>alt_active := (if alt_hit (alt_params s) then b = 0x68 else alt_active s), alt_state := Ground\<rparr>
      else s\<lparr>alt_state := Ground\<rparr>)"

definition scan :: "byte list \<Rightarrow> scanner \<Rightarrow> scanner" where
  "scan bs s = fold scan_byte bs s"

section \<open>Sessions\<close>

type_synonym view_size = "16 word \<times> 16 word"

record session =
  ss_id :: terminal_id
  ss_project :: nat
  ss_label :: rstring
  ss_pid :: "nat option"
  ss_elevated :: bool
  ss_tail :: "byte list"
  ss_capacity :: nat
  ss_end_offset :: nat
  ss_exited :: "exit_status option"
  ss_user_killed :: bool
  ss_views :: "(client_id \<times> view_size) list"
  ss_size :: view_size
  ss_alt :: scanner
  ss_seen_output :: bool
  ss_startup :: "rstring option"

datatype signal = Hangup | KillSignal

text \<open>What a session asks of its PTY and of the system.\<close>

datatype pty_request =
  PtyResize view_size
| PtyWrite "byte list"
| KillGroup int signal
| KillSession nat signal
| KillChild
| EscalateLater

text \<open>The bytes to drop from a tail longer than its capacity: up to a line boundary, when one is near.\<close>

definition tail_cut :: "nat \<Rightarrow> byte list \<Rightarrow> nat" where
  "tail_cut capacity buf =
     (let excess = length buf - capacity;
          window = min (length buf) (excess + 64 * 1024)
      in case position (\<lambda>b. b = 0x0a) (drop excess (take window buf)) of
           None \<Rightarrow> excess
         | Some i \<Rightarrow> excess + i + 1)"

definition push_tail :: "nat \<Rightarrow> byte list \<Rightarrow> byte list \<Rightarrow> byte list" where
  "push_tail capacity buf chunk =
     (let buf = buf @ chunk in if length buf > capacity then drop (tail_cut capacity buf) buf else buf)"

definition session_push :: "byte list \<Rightarrow> session \<Rightarrow> session" where
  "session_push chunk s =
     s\<lparr>ss_alt := scan chunk (ss_alt s), ss_end_offset := ss_end_offset s + length chunk,
       ss_tail := push_tail (ss_capacity s) (ss_tail s) chunk\<rparr>"

section \<open>Starting\<close>

datatype launch = Native | Deelevated path

datatype spawn_error = MissingFolder rstring | SpawnFailed rstring rstring

text \<open>What a host starts (\<open>Start\<close> of \<open>pty_host.rs\<close>).\<close>

record start =
  st_program :: path
  st_args :: "rstring list"
  st_cwd :: path
  st_env :: "(rstring \<times> rstring) list"
  st_cols :: "16 word"
  st_rows :: "16 word"

definition start_size :: "start \<Rightarrow> view_size" where
  "start_size st = (max (st_cols st) 1, max (st_rows st) 1)"

definition spawn_env :: "rstring \<Rightarrow> (rstring \<times> rstring) list \<Rightarrow> (rstring \<times> rstring) list" where
  "spawn_env version env =
     filter (\<lambda>e. \<not> is_private_env_var (fst e)) env @
     [(lit ''TERM'', lit ''xterm-256color''), (lit ''COLORTERM'', lit ''truecolor''),
      (lit ''TERM_PROGRAM'', lit ''throng''), (lit ''TERM_PROGRAM_VERSION'', version)]"

definition spawn_start :: "rstring \<Rightarrow> spawn_spec \<Rightarrow> start" where
  "spawn_start version spec =
     \<lparr>st_program = sp_program spec, st_args = sp_args spec, st_cwd = sp_cwd spec,
      st_env = spawn_env version (sp_env spec), st_cols = sp_cols spec, st_rows = sp_rows spec\<rparr>"

record host =
  h_is_dir :: "path \<Rightarrow> bool"
  h_version :: rstring
  h_launch :: "launch \<Rightarrow> start \<Rightarrow> rstring + (nat option \<times> bool)"

definition session_spawn :: "host \<Rightarrow> launch \<Rightarrow> nat \<Rightarrow> spawn_spec \<Rightarrow> spawn_error + session" where
  "session_spawn H launch tail_bytes spec =
     (if \<not> h_is_dir H (sp_cwd spec) then Inl (MissingFolder (sp_cwd spec))
      else (let st = spawn_start (h_version H) spec
            in case h_launch H launch st of
                 Inl reason \<Rightarrow> Inl (SpawnFailed (sp_program spec) reason)
               | Inr (npid, elevated) \<Rightarrow>
                   Inr \<lparr>ss_id = sp_terminal spec, ss_project = sp_project spec, ss_label = sp_label spec,
                        ss_pid = npid, ss_elevated = elevated, ss_tail = [],
                        ss_capacity = max tail_bytes 4096, ss_end_offset = 0, ss_exited = None,
                        ss_user_killed = False, ss_views = [], ss_size = start_size st,
                        ss_alt = scanner_default, ss_seen_output = False,
                        ss_startup = (case sp_startup spec of
                            None \<Rightarrow> None | Some c \<Rightarrow> if trim c = [] then None else Some c)\<rparr>))"

section \<open>Output, exit and views\<close>

text \<open>One chunk the reader got; \<open>first\<close> on Windows, where the console asks for the cursor.\<close>

definition to_views :: "session \<Rightarrow> (client_id \<Rightarrow> registry \<Rightarrow> registry) \<Rightarrow> registry \<Rightarrow> registry" where
  "to_views s f r = fold f (map fst (ss_views s)) r"

definition pump_chunk ::
  "bool \<Rightarrow> byte list \<Rightarrow> session \<Rightarrow> registry \<Rightarrow> session \<times> registry \<times> pty_request list" where
  "pump_chunk first chunk s r =
     (let (answer, chunk) =
            (case if first then strip_prefix CURSOR_QUERY chunk else None of
               None \<Rightarrow> ([], chunk) | Some rest \<Rightarrow> ([PtyWrite CURSOR_AT_TOP_LEFT], rest))
      in if answer \<noteq> [] \<and> chunk = [] then (s, r, answer)
         else (let offset = ss_end_offset s;
                   s1 = session_push chunk s;
                   startup = (if ss_seen_output s then None else ss_startup s);
                   s2 = s1\<lparr>ss_startup := (if ss_seen_output s then ss_startup s else None), ss_seen_output := True\<rparr>;
                   r1 = to_views s (\<lambda>c. send_output c (ss_id s) offset chunk) r
               in (s2, r1, answer @ (case startup of None \<Rightarrow> [] | Some c \<Rightarrow> [PtyWrite (utf8 c @ [0x0d])]))))"

definition session_finish :: "int option \<Rightarrow> session \<Rightarrow> registry \<Rightarrow> session \<times> registry" where
  "session_finish c s r =
     (let status = \<lparr>es_code = c, user_killed = ss_user_killed s\<rparr>
      in (s\<lparr>ss_exited := Some status, ss_views := []\<rparr>,
          to_views s (\<lambda>i. registry_send i (Exited (ss_id s) status)) r))"

text \<open>The PTY takes the smallest size across the views.\<close>

definition apply_size :: "session \<Rightarrow> session \<times> pty_request list" where
  "apply_size s =
     (if ss_views s = [] then (s, [])
      else (let sizes = map snd (ss_views s);
                cols = Min (set (map fst sizes)); rows = Min (set (map snd sizes))
            in if (cols, rows) \<noteq> ss_size s then (s\<lparr>ss_size := (cols, rows)\<rparr>, [PtyResize (cols, rows)]) else (s, [])))"

definition session_snapshot :: "session \<Rightarrow> snapshot" where
  "session_snapshot s =
     \<lparr>sn_terminal = ss_id s, sn_tail = ss_tail s, sn_end_offset = ss_end_offset s, sn_exited = ss_exited s,
      sn_alt_screen = alt_active (ss_alt s), sn_elevated = ss_elevated s\<rparr>"

definition session_attach ::
  "client_id \<Rightarrow> nat \<Rightarrow> 16 word \<Rightarrow> 16 word \<Rightarrow> session \<Rightarrow> registry
     \<Rightarrow> snapshot \<times> session \<times> registry \<times> pty_request list" where
  "session_attach client reply_id cols rows s r =
     (let snap = session_snapshot s;
          (s1, fx) = (if ss_exited s = None
                      then apply_size (s\<lparr>ss_views := bt_insert client (max cols 1, max rows 1) (ss_views s)\<rparr>)
                      else (s, []))
      in (snap, s1, registry_send client (Reply reply_id (Inr (SnapshotReply snap))) r, fx))"

text \<open>The two resizes that make a program on the alternate screen repaint, the second a moment later.\<close>

definition nudge :: "session \<Rightarrow> session \<Rightarrow> pty_request list" where
  "nudge s later =
     (case ss_size s of (cols, rows) \<Rightarrow>
        if rows < 2 then [] else [PtyResize (cols, rows - 1), PtyResize (cols, snd (ss_size later))])"

definition session_detach :: "client_id \<Rightarrow> session \<Rightarrow> session \<times> pty_request list" where
  "session_detach client s =
     (if map_of (ss_views s) client = None then (s, [])
      else apply_size (s\<lparr>ss_views := bt_remove client (ss_views s)\<rparr>))"

definition session_resize :: "client_id \<Rightarrow> 16 word \<Rightarrow> 16 word \<Rightarrow> session \<Rightarrow> session \<times> pty_request list" where
  "session_resize client cols rows s =
     (if map_of (ss_views s) client = None then (s, [])
      else apply_size (s\<lparr>ss_views := map (\<lambda>(c, v). (c, if c = client then (max cols 1, max rows 1) else v)) (ss_views s)\<rparr>))"

definition session_write :: "(byte list \<Rightarrow> rstring option) \<Rightarrow> byte list \<Rightarrow> session \<Rightarrow> rstring option \<times> pty_request list" where
  "session_write accepts data s =
     (if ss_exited s \<noteq> None then (None, []) else (accepts data, [PtyWrite data]))"

definition signal_all :: "int option \<Rightarrow> signal \<Rightarrow> session \<Rightarrow> pty_request list" where
  "signal_all foreground sig s =
     map (\<lambda>g. KillGroup g sig)
       ((case foreground of None \<Rightarrow> [] | Some g \<Rightarrow> [g]) @
        (case ss_pid s of None \<Rightarrow> [] | Some p \<Rightarrow> if p < 2 ^ 31 then [int p] else [])) @
     (case ss_pid s of None \<Rightarrow> [] | Some p \<Rightarrow> [KillSession p sig])"

definition session_kill :: "int option \<Rightarrow> session \<Rightarrow> session \<times> pty_request list" where
  "session_kill foreground s =
     (if ss_exited s \<noteq> None then (s, [])
      else (s\<lparr>ss_user_killed := True\<rparr>, signal_all foreground Hangup s @ [KillChild, EscalateLater]))"

definition session_end :: "int option \<Rightarrow> session \<Rightarrow> registry \<Rightarrow> session \<times> registry \<times> pty_request list" where
  "session_end foreground s r =
     (let (s1, r1) =
            (if ss_exited s = None
             then (s\<lparr>ss_views := []\<rparr>,
                   to_views s (\<lambda>i. registry_send i (Exited (ss_id s) \<lparr>es_code = None, user_killed = True\<rparr>)) r)
             else (s, r));
          (s2, fx) = session_kill foreground s1
      in (s2, r1, fx))"

text \<open>The escalation, when the shell has not gone in time.\<close>

definition session_escalate :: "int option \<Rightarrow> session \<Rightarrow> pty_request list" where
  "session_escalate foreground s =
     (if ss_exited s \<noteq> None then [] else signal_all foreground KillSignal s)"

definition is_busy :: "int option \<Rightarrow> session \<Rightarrow> bool" where
  "is_busy foreground s =
     (if ss_exited s \<noteq> None then False
      else (case (foreground, ss_pid s) of
              (Some g, Some p) \<Rightarrow> \<not> (0 \<le> g \<and> g < 2 ^ 32 \<and> nat g = p)
            | _ \<Rightarrow> True))"

definition session_info :: "int option \<Rightarrow> session \<Rightarrow> terminal_info" where
  "session_info foreground s =
     \<lparr>tinf_terminal = ss_id s, tinf_project = ss_project s, tinf_label = ss_label s, tinf_pid = ss_pid s,
      tinf_busy = (ss_exited s = None \<and> is_busy foreground s), tinf_exited = ss_exited s,
      tinf_views = length (ss_views s), tinf_elevated = ss_elevated s\<rparr>"

section \<open>The retained tail\<close>

lemma position_lt: "position P xs = Some i \<Longrightarrow> i < length xs"
  by (simp add: position_eq_Some_nth)

lemma tail_cut_bounds:
  assumes "length buf > capacity"
  shows "length buf - capacity \<le> tail_cut capacity buf" "tail_cut capacity buf \<le> length buf"
  using assms by (auto simp: tail_cut_def Let_def dest!: position_lt split: option.split)

lemma push_tail_suffix: "\<exists>k. push_tail capacity buf chunk = drop k (buf @ chunk)"
  by (auto simp: push_tail_def Let_def intro: exI [of _ 0])

lemma push_tail_bounded: "length (push_tail capacity buf chunk) \<le> capacity"
  using tail_cut_bounds [of capacity "buf @ chunk"] by (auto simp: push_tail_def Let_def)

text \<open>A cut leaves a tail that starts just after a newline, or no newline was near.\<close>

lemma tail_cut_line:
  assumes "length buf > capacity"
  shows "(tail_cut capacity buf > 0 \<and> buf ! (tail_cut capacity buf - 1) = 0x0a) \<or>
    (tail_cut capacity buf = length buf - capacity \<and>
     (\<forall>i. length buf - capacity \<le> i \<and> i < min (length buf) (length buf - capacity + 64 * 1024) \<longrightarrow> buf ! i \<noteq> 0x0a))"
proof -
  define e w where "e = length buf - capacity" and "w = min (length buf) (length buf - capacity + 64 * 1024)"
  have len: "length (drop e (take w buf)) = w - e" "w \<le> length buf" "e \<le> w" by (auto simp: e_def w_def)
  have nth: "i < w - e \<Longrightarrow> drop e (take w buf) ! i = buf ! (e + i)" for i using len by simp
  show ?thesis
  proof (cases "position (\<lambda>b. b = 0x0a) (drop e (take w buf))")
    case None
    then have "\<forall>i < w - e. buf ! (e + i) \<noteq> 0x0a"
      using len nth by (fastforce simp: position_None in_set_conv_nth)
    then have "\<forall>i. e \<le> i \<and> i < w \<longrightarrow> buf ! i \<noteq> 0x0a"
      by (metis add_diff_inverse_nat diff_less_mono leD)
    then show ?thesis using None by (simp add: tail_cut_def Let_def e_def w_def)
  next
    case (Some i)
    then have "i < w - e" "drop e (take w buf) ! i = 0x0a" using position_eq_Some_nth [OF Some] len by auto
    then have "buf ! (e + i) = 0x0a" using nth by simp
    then show ?thesis using Some by (simp add: tail_cut_def Let_def e_def w_def)
  qed
qed

section \<open>The size of the PTY\<close>

definition views_size :: "(client_id \<times> view_size) list \<Rightarrow> view_size" where
  "views_size vs = (Min ((fst \<circ> snd) ` set vs), Min ((snd \<circ> snd) ` set vs))"

lemma apply_size_spec:
  "fst (apply_size s) = (if ss_views s = [] then s else s\<lparr>ss_size := views_size (ss_views s)\<rparr>)"
  "snd (apply_size s) = (if ss_views s \<noteq> [] \<and> ss_size s \<noteq> views_size (ss_views s)
     then [PtyResize (views_size (ss_views s))] else [])"
  by (auto simp: apply_size_def views_size_def Let_def image_comp o_def)

section \<open>The alternate screen is what the last sequence said\<close>

lemma scan_append: "scan (a @ b) s = scan b (scan a s)"
  by (simp add: scan_def)

lemma scan_params:
  assumes "list_all (\<lambda>b. is_ascii_digit (unat b) \<or> b = 0x3b) ps" "alt_state s = Private"
    "length (alt_params s) + length ps \<le> 32"
  shows "scan ps s = s\<lparr>alt_params := alt_params s @ ps\<rparr>"
  using assms
proof (induction ps arbitrary: s)
  case (Cons b ps)
  then have "b \<noteq> ESC" by (auto simp: ESC_def is_ascii_digit_def)
  then have "scan_byte b s = s\<lparr>alt_params := alt_params s @ [b]\<rparr>"
    using Cons.prems by (simp add: scan_byte_def)
  then show ?case using Cons by (simp add: scan_def)
qed (simp add: scan_def)

lemma scan_private_mode:
  assumes "list_all (\<lambda>b. is_ascii_digit (unat b) \<or> b = 0x3b) ps" "length ps \<le> 32" "b = 0x68 \<or> b = 0x6c"
  shows "alt_active (scan ([ESC, 0x5b, 0x3f] @ ps @ [b]) s) = (if alt_hit ps then b = 0x68 else alt_active s)"
proof -
  define s1 where "s1 = s\<lparr>alt_params := [], alt_state := Private\<rparr>"
  have "scan [ESC, 0x5b, 0x3f] s = s1" by (simp add: scan_def scan_byte_def ESC_def s1_def)
  moreover have "scan ps s1 = s1\<lparr>alt_params := ps\<rparr>"
    using scan_params [of ps s1] assms(1,2) by (simp add: s1_def)
  moreover have "\<not> is_ascii_digit (unat b)" "b \<noteq> ESC" "b \<noteq> 0x3b"
    using assms(3) by (auto simp: is_ascii_digit_def ESC_def)
  ultimately show ?thesis using assms(3) by (simp only: scan_append) (auto simp: scan_def scan_byte_def s1_def)
qed

end
