(* ===== verification/Daemon.thy ===== *)
theory Daemon
  imports Session
begin

text \<open>
  The daemon (\<open>throng-daemon/src/server.rs\<close>): it owns the sessions, answers its clients' requests
  and stops when there is nothing left to own. One step handles one request, or one event of a
  session or a client; what the host answers during it is an argument. A session ended by its user
  leaves the map at once and waits among the ending ones.
\<close>

record config =
  cf_idle_exit :: nat
  cf_unread_exit :: nat
  cf_tail_bytes :: nat
  cf_build :: rstring
  cf_pty_host :: "path option"
  cf_deelevates :: bool

record daemon =
  dm_sessions :: "(terminal_id \<times> session) list"
  dm_ending :: "session list"
  dm_registry :: registry
  dm_stopping :: bool

definition daemon_start :: daemon where
  "daemon_start = \<lparr>dm_sessions = [], dm_ending = [], dm_registry = registry_default, dm_stopping = False\<rparr>"

definition config_new :: "rstring \<Rightarrow> config" where
  "config_new build =
     \<lparr>cf_idle_exit = 10, cf_unread_exit = 3600, cf_tail_bytes = DEFAULT_TAIL_BYTES, cf_build = build,
      cf_pty_host = None, cf_deelevates = False\<rparr>"

text \<open>What the host answers while a request is handled.\<close>

record answers =
  an_host :: host
  an_foreground :: "session \<Rightarrow> int option"
  an_accepts :: "byte list \<Rightarrow> rstring option"

datatype effect = OnPty terminal_id pty_request | StopSoon

definition on_pty :: "terminal_id \<Rightarrow> pty_request list \<Rightarrow> effect list" where
  "on_pty t fx = map (OnPty t) fx"

definition get_session :: "terminal_id \<Rightarrow> daemon \<Rightarrow> session option" where
  "get_session t d = map_of (dm_sessions d) t"

text \<open>A session changed through its shared handle, where it is.\<close>

definition put_session :: "terminal_id \<Rightarrow> session \<Rightarrow> daemon \<Rightarrow> daemon" where
  "put_session t s d = d\<lparr>dm_sessions := map (\<lambda>(u, x). (u, if u = t then s else x)) (dm_sessions d)\<rparr>"

definition live_sessions :: "daemon \<Rightarrow> nat \<times> daemon" where
  "live_sessions d =
     (let ending = filter (\<lambda>s. ss_exited s = None) (dm_ending d)
      in (length (filter (\<lambda>s. ss_exited s = None) (map snd (dm_sessions d))) + length ending,
          d\<lparr>dm_ending := ending\<rparr>))"

section \<open>Requests\<close>

definition spawn_launch :: "config \<Rightarrow> spawn_spec \<Rightarrow> launch" where
  "spawn_launch cf spec =
     (case cf_pty_host cf of
        Some exe \<Rightarrow> if cf_deelevates cf \<and> \<not> sp_admin spec then Deelevated exe else Native
      | None \<Rightarrow> Native)"

definition already_running :: rstring where
  "already_running = lit ''A terminal with this id is already running.''"

definition still_running :: rstring where
  "still_running = lit ''Terminals are still running.''"

fun spawn_error_text :: "spawn_error \<Rightarrow> rstring" where
  "spawn_error_text (MissingFolder p) = lit ''The folder '' @ [34] @ p @ [34] @ lit '' does not exist.''"
| "spawn_error_text (SpawnFailed program reason) = lit ''Could not start '' @ program @ lit '': '' @ reason"

type_synonym outcome = "(rstring + reply) option \<times> daemon \<times> effect list"

definition attach_to :: "client_id \<Rightarrow> nat \<Rightarrow> 16 word \<Rightarrow> 16 word \<Rightarrow> session \<Rightarrow> daemon \<Rightarrow> snapshot \<times> daemon \<times> effect list" where
  "attach_to client i cols rows s d =
     (case session_attach client i cols rows s (dm_registry d) of
        (snap, s', r', fx) \<Rightarrow> (snap, (put_session (ss_id s) s' d)\<lparr>dm_registry := r'\<rparr>, on_pty (ss_id s) fx))"

definition handle_spawn :: "config \<Rightarrow> answers \<Rightarrow> client_id \<Rightarrow> nat \<Rightarrow> spawn_spec \<Rightarrow> daemon \<Rightarrow> outcome" where
  "handle_spawn cf an client i spec d =
     (if (case get_session (sp_terminal spec) d of Some s \<Rightarrow> ss_exited s = None | None \<Rightarrow> False)
      then (Some (Inl already_running), d, [])
      else (case session_spawn (an_host an) (spawn_launch cf spec) (cf_tail_bytes cf) spec of
              Inl e \<Rightarrow> (Some (Inl (spawn_error_text e)), d, [])
            | Inr s \<Rightarrow>
                (case attach_to client i (sp_cols spec) (sp_rows spec) s
                        (d\<lparr>dm_sessions := bt_insert (sp_terminal spec) s (dm_sessions d)\<rparr>) of
                   (snap, d', fx) \<Rightarrow> (None, d', fx))))"

definition handle_attach :: "client_id \<Rightarrow> nat \<Rightarrow> terminal_id \<Rightarrow> 16 word \<Rightarrow> 16 word \<Rightarrow> daemon \<Rightarrow> outcome" where
  "handle_attach client i t cols rows d =
     (case get_session t d of
        None \<Rightarrow> (Some (Inl NO_SUCH_TERMINAL), d, [])
      | Some s \<Rightarrow>
          (case attach_to client i cols rows s d of
             (snap, d', fx) \<Rightarrow>
               (None, d',
                fx @ (if sn_alt_screen snap \<and> sn_exited snap = None
                      then (case get_session t d' of None \<Rightarrow> [] | Some s' \<Rightarrow> on_pty t (nudge s' s')) else []))))"

definition handle_detach :: "client_id \<Rightarrow> terminal_id \<Rightarrow> daemon \<Rightarrow> outcome" where
  "handle_detach client t d =
     (case get_session t d of
        None \<Rightarrow> (Some (Inr Done), d, [])
      | Some s \<Rightarrow> (case session_detach client s of (s', fx) \<Rightarrow> (Some (Inr Done), put_session t s' d, on_pty t fx)))"

definition handle_write :: "answers \<Rightarrow> terminal_id \<Rightarrow> byte list \<Rightarrow> daemon \<Rightarrow> outcome" where
  "handle_write an t data d =
     (case get_session t d of
        None \<Rightarrow> (Some (Inl NO_SUCH_TERMINAL), d, [])
      | Some s \<Rightarrow>
          (case session_write (an_accepts an) data s of
             (e, fx) \<Rightarrow> (Some (case e of None \<Rightarrow> Inr Done | Some e \<Rightarrow> Inl e), d, on_pty t fx)))"

definition handle_resize :: "client_id \<Rightarrow> terminal_id \<Rightarrow> 16 word \<Rightarrow> 16 word \<Rightarrow> daemon \<Rightarrow> outcome" where
  "handle_resize client t cols rows d =
     (case get_session t d of
        None \<Rightarrow> (Some (Inr Done), d, [])
      | Some s \<Rightarrow>
          (case session_resize client cols rows s of
             (s', fx) \<Rightarrow> (Some (Inr Done), put_session t s' d, on_pty t fx)))"

definition handle_kill :: "answers \<Rightarrow> terminal_id \<Rightarrow> daemon \<Rightarrow> outcome" where
  "handle_kill an t d =
     (case get_session t d of
        None \<Rightarrow> (Some (Inr Done), d, [])
      | Some s \<Rightarrow>
          (case session_end (an_foreground an s) s (dm_registry d) of
             (s', r', fx) \<Rightarrow>
               (Some (Inr Done),
                d\<lparr>dm_sessions := bt_remove t (dm_sessions d), dm_registry := r', dm_ending := dm_ending d @ [s']\<rparr>,
                on_pty t fx)))"

definition handle_forget :: "terminal_id \<Rightarrow> daemon \<Rightarrow> outcome" where
  "handle_forget t d =
     (Some (Inr Done),
      (case get_session t d of
         Some s \<Rightarrow> if ss_exited s \<noteq> None then d\<lparr>dm_sessions := bt_remove t (dm_sessions d)\<rparr> else d
       | None \<Rightarrow> d), [])"

definition handle_list :: "answers \<Rightarrow> daemon \<Rightarrow> outcome" where
  "handle_list an d =
     (Some (Inr (Terminals (map (\<lambda>(t, s). session_info (an_foreground an s) s) (dm_sessions d)))), d, [])"

fun close_idle :: "answers \<Rightarrow> terminal_id list \<Rightarrow> daemon \<Rightarrow> terminal_id list \<times> daemon \<times> effect list" where
  "close_idle an [] d = ([], d, [])"
| "close_idle an (t # ts) d =
     (case get_session t d of
        None \<Rightarrow> close_idle an ts d
      | Some s \<Rightarrow>
          if ss_exited s = None \<and> \<not> is_busy (an_foreground an s) s then
            (case session_kill (an_foreground an s) s of
               (s', fx) \<Rightarrow>
                 (case close_idle an ts (put_session t s' d) of
                    (closed, d', fx') \<Rightarrow> (t # closed, d', on_pty t fx @ fx')))
          else close_idle an ts d)"

definition handle_shutdown :: "bool \<Rightarrow> daemon \<Rightarrow> outcome" where
  "handle_shutdown kill_all d =
     (let (live, d') = (if kill_all then (0, d) else live_sessions d)
      in if \<not> kill_all \<and> live > 0 then (Some (Inl still_running), d', [])
         else (Some (Inr Done), d', [StopSoon]))"

fun handle :: "config \<Rightarrow> answers \<Rightarrow> client_id \<Rightarrow> nat \<Rightarrow> request \<Rightarrow> daemon \<Rightarrow> outcome" where
  "handle cf an client i Ping d = (Some (Inr Pong), d, [])"
| "handle cf an client i (Spawn spec) d = handle_spawn cf an client i spec d"
| "handle cf an client i (Attach t cols rows) d = handle_attach client i t cols rows d"
| "handle cf an client i (Detach t) d = handle_detach client t d"
| "handle cf an client i (Write t data) d = handle_write an t data d"
| "handle cf an client i (Resize t cols rows) d = handle_resize client t cols rows d"
| "handle cf an client i (Kill t) d = handle_kill an t d"
| "handle cf an client i (Forget t) d = handle_forget t d"
| "handle cf an client i ListTerminals d = handle_list an d"
| "handle cf an client i (CloseIdleTerminals ts) d =
     (case close_idle an ts d of (closed, d', fx) \<Rightarrow> (Some (Inr (Closed closed)), d', fx))"
| "handle cf an client i (Shutdown kill_all) d = handle_shutdown kill_all d"

text \<open>A message of a connected client: the request handled, the answer queued when one is asked for.\<close>

fun serve_message :: "config \<Rightarrow> answers \<Rightarrow> client_id \<Rightarrow> client_msg \<Rightarrow> daemon \<Rightarrow> daemon \<times> effect list" where
  "serve_message cf an client (Hello p b n) d = (d, [])"
| "serve_message cf an client (Request i req) d =
     (case handle cf an client i req d of
        (result, d', fx) \<Rightarrow>
          (case result of
             None \<Rightarrow> (d', fx)
           | Some res \<Rightarrow>
               if i \<noteq> NO_REPLY then (d'\<lparr>dm_registry := registry_send client (Reply i res) (dm_registry d')\<rparr>, fx)
               else (d', fx)))"

text \<open>The handshake: what is sent, and whether the connection is served.\<close>

definition serve_hello :: "config \<Rightarrow> nat \<Rightarrow> frame_error + client_msg \<Rightarrow> daemon \<Rightarrow> server_msg list \<times> (client_id \<times> daemon) option" where
  "serve_hello cf own_pid hello d =
     (case hello of
        Inr (Hello protocol b n) \<Rightarrow>
          ([Welcome PROTOCOL_VERSION (cf_build cf) own_pid],
           if protocol \<noteq> PROTOCOL_VERSION \<or> dm_stopping d then None
           else (case registry_add (dm_registry d) of (c, r) \<Rightarrow> Some (c, d\<lparr>dm_registry := r\<rparr>)))
      | _ \<Rightarrow> ([], None))"

text \<open>A client that is gone: its queue, then its views.\<close>

definition client_gone :: "client_id \<Rightarrow> daemon \<Rightarrow> daemon \<times> effect list" where
  "client_gone client d =
     (d\<lparr>dm_registry := registry_remove client (dm_registry d),
        dm_sessions := map (\<lambda>(t, s). (t, fst (session_detach client s))) (dm_sessions d)\<rparr>,
      concat (map (\<lambda>(t, s). on_pty t (snd (session_detach client s))) (dm_sessions d)))"

section \<open>Events\<close>

definition session_ended :: "terminal_id \<Rightarrow> daemon \<Rightarrow> daemon" where
  "session_ended t d =
     (case get_session t d of
        None \<Rightarrow> d
      | Some s \<Rightarrow>
          (case ss_exited s of
             Some st \<Rightarrow> if user_killed st then d\<lparr>dm_sessions := bt_remove t (dm_sessions d)\<rparr> else d
           | None \<Rightarrow> d))"

text \<open>The shell of a session in the map, or of an ending one, wrote a chunk or exited.\<close>

definition daemon_output :: "bool \<Rightarrow> byte list \<Rightarrow> terminal_id \<Rightarrow> daemon \<Rightarrow> daemon \<times> effect list" where
  "daemon_output first chunk t d =
     (case get_session t d of
        None \<Rightarrow> (d, [])
      | Some s \<Rightarrow>
          (case pump_chunk first chunk s (dm_registry d) of
             (s', r', fx) \<Rightarrow> ((put_session t s' d)\<lparr>dm_registry := r'\<rparr>, on_pty t fx)))"

definition daemon_exit :: "int option \<Rightarrow> terminal_id \<Rightarrow> daemon \<Rightarrow> daemon" where
  "daemon_exit c t d =
     (case get_session t d of
        None \<Rightarrow> d
      | Some s \<Rightarrow>
          (case session_finish c s (dm_registry d) of
             (s', r') \<Rightarrow> session_ended t ((put_session t s' d)\<lparr>dm_registry := r'\<rparr>)))"

definition ending_exit :: "int option \<Rightarrow> nat \<Rightarrow> daemon \<Rightarrow> daemon" where
  "ending_exit c n d =
     (if n < length (dm_ending d) then
        (case session_finish c (dm_ending d ! n) (dm_registry d) of
           (s', r') \<Rightarrow> session_ended (ss_id s') (d\<lparr>dm_ending := (dm_ending d)[n := s'], dm_registry := r'\<rparr>))
      else d)"

section \<open>Going idle\<close>

text \<open>A subtraction of \<open>usize\<close>: a build that checks overflow panics, one that does not wraps.\<close>

definition sub_usize :: "bool \<Rightarrow> nat \<Rightarrow> nat \<Rightarrow> nat option" where
  "sub_usize checked a b = (if b \<le> a then Some (a - b) else if checked then None else Some (2 ^ 64 + a - b))"

datatype idle_verdict = KeepWatching "nat option" | StopIdle

text \<open>One look of the watch at time \<open>now\<close>; \<open>None\<close> when the watching thread panics.\<close>

definition watch_idle :: "bool \<Rightarrow> config \<Rightarrow> bool \<Rightarrow> nat \<Rightarrow> nat option \<Rightarrow> daemon \<Rightarrow> (idle_verdict \<times> daemon) option" where
  "watch_idle checked cf reachable now idle_since d =
     (if \<not> reachable then Some (StopIdle, d\<lparr>dm_stopping := True\<rparr>)
      else (let clients = registry_count (dm_registry d);
                (live, d) = live_sessions d
            in case sub_usize checked (length (dm_sessions d)) live of
                 None \<Rightarrow> None
               | Some unread \<Rightarrow>
                   if clients > 0 \<or> live > 0 then Some (KeepWatching None, d)
                   else (let since = (case idle_since of Some s \<Rightarrow> s | None \<Rightarrow> now);
                             limit = (if unread > 0 then cf_unread_exit cf else cf_idle_exit cf)
                         in if now - since \<ge> limit then Some (StopIdle, d\<lparr>dm_stopping := True\<rparr>)
                            else Some (KeepWatching (Some since), d))))"

definition end_all_sessions :: "answers \<Rightarrow> daemon \<Rightarrow> daemon \<times> effect list" where
  "end_all_sessions an d =
     (let kill = (\<lambda>s. session_kill (an_foreground an s) s)
      in (d\<lparr>dm_sessions := map (\<lambda>(t, s). (t, fst (kill s))) (dm_sessions d), dm_ending := map (fst \<circ> kill) (dm_ending d)\<rparr>,
          concat (map (\<lambda>(t, s). on_pty t (snd (kill s))) (dm_sessions d)) @
          concat (map (\<lambda>s. on_pty (ss_id s) (snd (kill s))) (dm_ending d))))"

end
