(* ===== verification/DaemonInv.thy ===== *)
theory DaemonInv
  imports Daemon
begin

text \<open>
  What the daemon keeps, whatever its clients ask and its shells do: every session under its own id,
  no view of a client that is gone, the PTY at the smallest view's size, tails and queues within
  their limits, nothing left in the map of a session its user ended.
\<close>

section \<open>One session\<close>

definition session_ok :: "session \<Rightarrow> bool" where
  "session_ok s \<longleftrightarrow> bt_inv (ss_views s) \<and> length (ss_tail s) \<le> ss_capacity s
     \<and> (ss_exited s \<noteq> None \<longrightarrow> ss_views s = [])
     \<and> (ss_views s \<noteq> [] \<longrightarrow> ss_size s = views_size (ss_views s))
     \<and> (\<forall>(c, v) \<in> set (ss_views s). 1 \<le> fst v \<and> 1 \<le> snd v)"

definition viewers :: "session \<Rightarrow> client_id set" where
  "viewers s = fst ` set (ss_views s)"

text \<open>What does not change over a session's life.\<close>

definition same_session :: "session \<Rightarrow> session \<Rightarrow> bool" where
  "same_session s s' \<longleftrightarrow> ss_id s' = ss_id s \<and> ss_capacity s' = ss_capacity s"

lemma apply_size_ok:
  assumes "bt_inv (ss_views s)" "length (ss_tail s) \<le> ss_capacity s" "ss_exited s \<noteq> None \<longrightarrow> ss_views s = []"
    "\<forall>(c, v) \<in> set (ss_views s). 1 \<le> fst v \<and> 1 \<le> snd v"
  shows "session_ok (fst (apply_size s))"
  using assms by (auto simp: session_ok_def apply_size_spec)

lemma apply_size_frame [simp]:
  "ss_views (fst (apply_size s)) = ss_views s" "ss_id (fst (apply_size s)) = ss_id s"
  "ss_exited (fst (apply_size s)) = ss_exited s" "ss_user_killed (fst (apply_size s)) = ss_user_killed s"
  "ss_tail (fst (apply_size s)) = ss_tail s" "ss_end_offset (fst (apply_size s)) = ss_end_offset s"
  by (simp_all add: apply_size_spec)

lemma max_one: "1 \<le> max (x :: 16 word) 1"
  by simp

lemma bt_insert_set: "set (bt_insert k v m) \<subseteq> insert (k, v) (set m)"
  by (induction k v m rule: bt_insert.induct) auto

lemma session_attach_ok:
  assumes "session_ok s" "session_attach c i cols rows s r = (snap, s', r', fx)"
  shows "session_ok s'" "viewers s' \<subseteq> insert c (viewers s)" "ss_id s' = ss_id s"
    "ss_exited s' = ss_exited s" "ss_user_killed s' = ss_user_killed s"
    "r' = registry_send c (Reply i (Inr (SnapshotReply (session_snapshot s)))) r"
proof -
  let ?s = "s\<lparr>ss_views := bt_insert c (max cols 1, max rows 1) (ss_views s)\<rparr>"
  have s': "s' = (if ss_exited s = None then fst (apply_size ?s) else s)"
    and r': "r' = registry_send c (Reply i (Inr (SnapshotReply (session_snapshot s)))) r"
    using assms(2) by (auto simp: session_attach_def Let_def split: prod.splits if_splits)
  have v: "bt_inv (ss_views s)" "\<forall>(c, v) \<in> set (ss_views s). 1 \<le> fst v \<and> 1 \<le> snd v" "length (ss_tail s) \<le> ss_capacity s"
    using assms(1) by (simp_all add: session_ok_def)
  have "\<forall>(c, v) \<in> set (ss_views ?s). 1 \<le> fst v \<and> 1 \<le> snd v"
    using v(2) bt_insert_set [of c "(max cols 1, max rows 1)" "ss_views s"] by (fastforce simp: max_one)
  then have "ss_exited s = None \<Longrightarrow> session_ok (fst (apply_size ?s))"
    using v by (intro apply_size_ok) (simp_all add: bt_inv_insert)
  then show "session_ok s'" using s' assms(1) by simp
  have "fst ` set (bt_insert c (max cols 1, max rows 1) (ss_views s)) \<subseteq> insert c (viewers s)"
    by (simp add: fst_bt_insert viewers_def)
  then show "viewers s' \<subseteq> insert c (viewers s)" using s' by (auto simp: viewers_def)
  show "ss_id s' = ss_id s" "ss_exited s' = ss_exited s" "ss_user_killed s' = ss_user_killed s"
    using s' by simp_all
  show "r' = registry_send c (Reply i (Inr (SnapshotReply (session_snapshot s)))) r" by (rule r')
qed

lemma session_detach_ok:
  assumes "session_ok s"
  shows "session_ok (fst (session_detach c s))" "viewers (fst (session_detach c s)) = viewers s - {c}"
    "ss_id (fst (session_detach c s)) = ss_id s" "ss_exited (fst (session_detach c s)) = ss_exited s"
    "ss_user_killed (fst (session_detach c s)) = ss_user_killed s"
proof -
  have sub: "set (bt_remove c (ss_views s)) \<subseteq> set (ss_views s)" by (auto simp: bt_remove_def)
  show "session_ok (fst (session_detach c s))"
  proof (cases "map_of (ss_views s) c = None")
    case False
    then obtain v where v: "map_of (ss_views s) c = Some v" by auto
    have "session_ok (fst (apply_size (s\<lparr>ss_views := bt_remove c (ss_views s)\<rparr>)))"
    proof (rule apply_size_ok)
      show "\<forall>(c, v) \<in> set (ss_views (s\<lparr>ss_views := bt_remove c (ss_views s)\<rparr>)). 1 \<le> fst v \<and> 1 \<le> snd v"
        using assms sub by (fastforce simp: session_ok_def)
    qed (use assms in \<open>auto simp: session_ok_def bt_inv_remove bt_remove_def [of c "[]"]\<close>)
    then show ?thesis using v by (simp add: session_detach_def)
  qed (use assms in \<open>simp add: session_detach_def\<close>)
  have "fst ` set (bt_remove c m) = fst ` set m - {c}" for m :: "(client_id \<times> view_size) list"
    by (auto simp: bt_remove_def)
  moreover have "map_of (ss_views s) c = None \<Longrightarrow> c \<notin> viewers s"
    by (simp add: viewers_def map_of_eq_None_iff)
  ultimately show "viewers (fst (session_detach c s)) = viewers s - {c}"
    by (auto simp: session_detach_def viewers_def)
  show "ss_id (fst (session_detach c s)) = ss_id s" "ss_exited (fst (session_detach c s)) = ss_exited s"
    "ss_user_killed (fst (session_detach c s)) = ss_user_killed s"
    by (simp_all add: session_detach_def)
qed

lemma session_resize_ok:
  assumes "session_ok s"
  shows "session_ok (fst (session_resize c cols rows s))" "viewers (fst (session_resize c cols rows s)) = viewers s"
    "ss_id (fst (session_resize c cols rows s)) = ss_id s" "ss_exited (fst (session_resize c cols rows s)) = ss_exited s"
    "ss_user_killed (fst (session_resize c cols rows s)) = ss_user_killed s"
proof -
  let ?vs = "map (\<lambda>(d, v). (d, if d = c then (max cols 1, max rows 1) else v)) (ss_views s)"
  have k: "map fst ?vs = map fst (ss_views s)" by auto
  show "session_ok (fst (session_resize c cols rows s))"
  proof (cases "map_of (ss_views s) c = None")
    case False
    then obtain v where v: "map_of (ss_views s) c = Some v" by auto
    have "session_ok (fst (apply_size (s\<lparr>ss_views := ?vs\<rparr>)))"
      using assms bt_inv_map_values [OF k] by (intro apply_size_ok) (auto simp: session_ok_def max_one)
    then show ?thesis using v by (simp add: session_resize_def)
  qed (use assms in \<open>simp add: session_resize_def\<close>)
  show "viewers (fst (session_resize c cols rows s)) = viewers s"
    using arg_cong [OF k, of set] unfolding set_map by (simp add: session_resize_def viewers_def image_comp o_def)
  show "ss_id (fst (session_resize c cols rows s)) = ss_id s" "ss_exited (fst (session_resize c cols rows s)) = ss_exited s"
    "ss_user_killed (fst (session_resize c cols rows s)) = ss_user_killed s"
    by (simp_all add: session_resize_def)
qed

lemma session_push_ok: "session_ok s \<Longrightarrow> session_ok (session_push chunk s)"
  by (simp add: session_ok_def session_push_def push_tail_bounded)

text \<open>A chunk in full: what the session becomes, and what each viewer's queue gets.\<close>

lemma pump_chunk_cases:
  obtains (answered) answer where "pump_chunk first chunk s r = (s, r, answer)" "first" "chunk = CURSOR_QUERY"
  | (pushed) ch fx where "ch = (case if first then strip_prefix CURSOR_QUERY chunk else None of None \<Rightarrow> chunk | Some rest \<Rightarrow> rest)"
      "pump_chunk first chunk s r =
        ((session_push ch s)\<lparr>ss_startup := (if ss_seen_output s then ss_startup s else None), ss_seen_output := True\<rparr>,
         to_views s (\<lambda>c. send_output c (ss_id s) (ss_end_offset s) ch) r, fx)"
proof (cases "if first then strip_prefix CURSOR_QUERY chunk else None")
  case None
  then show ?thesis using pushed by (simp add: pump_chunk_def Let_def)
next
  case (Some rest)
  then have f: "first" "chunk = CURSOR_QUERY @ rest" by (auto simp: strip_prefix_Some split: if_splits)
  show ?thesis
  proof (cases "rest = []")
    case True
    then show ?thesis using answered f Some by (simp add: pump_chunk_def Let_def)
  next
    case False
    then show ?thesis using pushed Some by (simp add: pump_chunk_def Let_def)
  qed
qed

lemma pump_chunk_ok:
  assumes "session_ok s" "pump_chunk first chunk s r = (s', r', fx)"
  shows "session_ok s'" "viewers s' = viewers s" "ss_id s' = ss_id s" "ss_exited s' = ss_exited s"
    "ss_user_killed s' = ss_user_killed s"
proof -
  have "session_ok s' \<and> viewers s' = viewers s \<and> ss_id s' = ss_id s \<and> ss_exited s' = ss_exited s
    \<and> ss_user_killed s' = ss_user_killed s"
  proof (cases rule: pump_chunk_cases [of first chunk s r])
    case (answered answer)
    then show ?thesis using assms by simp
  next
    case (pushed ch fx)
    have flags: "session_ok (u\<lparr>ss_startup := a, ss_seen_output := b\<rparr>) = session_ok u" for u a b
      by (simp add: session_ok_def)
    have "session_ok (session_push ch s)" by (rule session_push_ok [OF assms(1)])
    moreover have "s' = (session_push ch s)\<lparr>ss_startup := (if ss_seen_output s then ss_startup s else None), ss_seen_output := True\<rparr>"
      using assms(2) pushed(2) by simp
    ultimately show ?thesis by (simp only: flags) (simp add: viewers_def session_push_def)
  qed
  then show "session_ok s'" "viewers s' = viewers s" "ss_id s' = ss_id s" "ss_exited s' = ss_exited s"
    "ss_user_killed s' = ss_user_killed s" by blast+
qed

lemma session_finish_ok:
  "session_ok s \<Longrightarrow> session_ok (fst (session_finish c s r)) \<and> viewers (fst (session_finish c s r)) = {}
   \<and> ss_id (fst (session_finish c s r)) = ss_id s
   \<and> ss_exited (fst (session_finish c s r)) = Some \<lparr>es_code = c, user_killed = ss_user_killed s\<rparr>
   \<and> ss_user_killed (fst (session_finish c s r)) = ss_user_killed s"
  by (simp add: session_finish_def session_ok_def viewers_def Let_def)

lemma session_kill_ok:
  "session_ok s \<Longrightarrow> session_ok (fst (session_kill fg s)) \<and> viewers (fst (session_kill fg s)) = viewers s
   \<and> ss_id (fst (session_kill fg s)) = ss_id s \<and> ss_exited (fst (session_kill fg s)) = ss_exited s
   \<and> (ss_exited s = None \<longrightarrow> ss_user_killed (fst (session_kill fg s)))"
  by (simp add: session_kill_def session_ok_def viewers_def)

lemma session_end_ok:
  assumes "session_ok s" "session_end fg s r = (s', r', fx)"
  shows "session_ok s'" "viewers s' = {}" "ss_exited s' \<noteq> None \<or> ss_user_killed s'"
  using assms
  by (auto simp: session_end_def session_kill_def session_ok_def viewers_def Let_def split: prod.splits if_splits)

lemma session_spawn_ok:
  "session_spawn H l n spec = Inr s \<Longrightarrow> session_ok s \<and> viewers s = {} \<and> ss_id s = sp_terminal spec \<and> ss_exited s = None"
  by (auto simp: session_spawn_def session_ok_def viewers_def Let_def split: if_splits sum.splits prod.splits)

section \<open>What is queued for the clients\<close>

definition clients :: "registry \<Rightarrow> client_id set" where
  "clients r = fst ` set (rg_clients r)"

lemma clients_on_queue [simp]: "clients (on_queue i f r) = clients r"
  by (force simp: clients_def on_queue_def)

lemma clients_send [simp]: "clients (registry_send i m r) = clients r" "clients (send_output i t off data r) = clients r"
  by (simp_all add: registry_send_def send_output_def)

lemma registry_send_ok: "registry_ok r \<Longrightarrow> output_bytes m = 0 \<Longrightarrow> registry_ok (registry_send i m r)"
  unfolding registry_send_def by (rule on_queue_ok) (simp_all add: enqueue_control_ok)

lemma send_output_ok: "registry_ok r \<Longrightarrow> registry_ok (send_output i t off data r)"
  unfolding send_output_def by (rule on_queue_ok) (simp_all add: queue_output_ok)

lemma to_views_ok:
  assumes "\<And>c r. registry_ok r \<Longrightarrow> registry_ok (f c r) \<and> clients (f c r) = clients r" "registry_ok r"
  shows "registry_ok (to_views s f r) \<and> clients (to_views s f r) = clients r"
proof -
  have "registry_ok (fold f cs r) \<and> clients (fold f cs r) = clients r" for cs
    using assms(2) by (induction cs arbitrary: r) (simp_all add: assms(1))
  then show ?thesis by (simp add: to_views_def)
qed

lemma pump_chunk_registry:
  assumes "registry_ok r" "pump_chunk first chunk s r = (s', r', fx)"
  shows "registry_ok r' \<and> clients r' = clients r"
proof (cases rule: pump_chunk_cases [of first chunk s r])
  case (answered answer)
  then show ?thesis using assms by simp
next
  case (pushed ch fx)
  then show ?thesis using assms to_views_ok [of "\<lambda>c. send_output c (ss_id s) (ss_end_offset s) ch" r s]
    by (simp add: send_output_ok)
qed

lemma session_finish_registry:
  "registry_ok r \<Longrightarrow> registry_ok (snd (session_finish c s r)) \<and> clients (snd (session_finish c s r)) = clients r"
  using to_views_ok [of "\<lambda>i. registry_send i (Exited (ss_id s) \<lparr>es_code = c, user_killed = ss_user_killed s\<rparr>)" r s]
  by (simp add: session_finish_def Let_def registry_send_ok)

lemma session_end_registry:
  assumes "registry_ok r" "session_end fg s r = (s', r', fx)"
  shows "registry_ok r' \<and> clients r' = clients r"
  using assms to_views_ok [of "\<lambda>i. registry_send i (Exited (ss_id s) \<lparr>es_code = None, user_killed = True\<rparr>)" r s]
  by (auto simp: session_end_def Let_def registry_send_ok split: prod.splits if_splits)

section \<open>The daemon\<close>

text \<open>Of a session in the map: its own id, its viewers connected, not one its user ended and that is over.\<close>

definition entry_ok :: "client_id set \<Rightarrow> terminal_id \<Rightarrow> session \<Rightarrow> bool" where
  "entry_ok cs t s \<longleftrightarrow> session_ok s \<and> ss_id s = t \<and> viewers s \<subseteq> cs
     \<and> (\<forall>st. ss_exited s = Some st \<longrightarrow> \<not> user_killed st)"

definition ending_ok :: "session \<Rightarrow> bool" where
  "ending_ok s \<longleftrightarrow> session_ok s \<and> viewers s = {} \<and> (ss_exited s \<noteq> None \<or> ss_user_killed s)"

definition daemon_ok :: "daemon \<Rightarrow> bool" where
  "daemon_ok d \<longleftrightarrow> bt_inv (dm_sessions d) \<and> registry_ok (dm_registry d)
     \<and> (\<forall>(t, s) \<in> set (dm_sessions d). entry_ok (clients (dm_registry d)) t s)
     \<and> (\<forall>s \<in> set (dm_ending d). ending_ok s)"

lemma daemon_okI:
  assumes "bt_inv (dm_sessions d)" "registry_ok (dm_registry d)"
    "\<And>t s. (t, s) \<in> set (dm_sessions d) \<Longrightarrow> entry_ok (clients (dm_registry d)) t s"
    "\<And>s. s \<in> set (dm_ending d) \<Longrightarrow> ending_ok s"
  shows "daemon_ok d"
  using assms by (auto simp: daemon_ok_def)

lemma daemon_okD:
  assumes "daemon_ok d"
  shows "bt_inv (dm_sessions d)" "registry_ok (dm_registry d)"
    "\<And>t s. (t, s) \<in> set (dm_sessions d) \<Longrightarrow> entry_ok (clients (dm_registry d)) t s"
    "\<And>s. s \<in> set (dm_ending d) \<Longrightarrow> ending_ok s"
  using assms by (auto simp: daemon_ok_def)

lemma get_session_entry: "daemon_ok d \<Longrightarrow> get_session t d = Some s \<Longrightarrow> entry_ok (clients (dm_registry d)) t s"
  by (auto simp: get_session_def dest: map_of_SomeD daemon_okD(3))

lemma get_put [simp]: "get_session u (put_session t s d) = (if u = t then map_option (\<lambda>_. s) (get_session t d) else get_session u d)"
proof -
  have "map_of (map (\<lambda>(u, x). (u, if u = t then s else x)) m) u = (if u = t then map_option (\<lambda>_. s) (map_of m t) else map_of m u)" for m
    by (induction m) auto
  then show ?thesis by (simp add: get_session_def put_session_def)
qed

text \<open>A change of one session and of what is queued.\<close>

lemma put_session_ok:
  assumes ok: "daemon_ok d" and r: "registry_ok r" "clients r = clients (dm_registry d)"
    and s: "entry_ok (clients r) t s"
  shows "daemon_ok ((put_session t s d)\<lparr>dm_registry := r\<rparr>)"
proof (rule daemon_okI)
  have "map fst (dm_sessions (put_session t s d)) = map fst (dm_sessions d)" by (auto simp: put_session_def)
  then show "bt_inv (dm_sessions ((put_session t s d)\<lparr>dm_registry := r\<rparr>))"
    using daemon_okD(1) [OF ok] bt_inv_map_values by (metis daemon.select_convs(1) daemon.surjective daemon.update_convs(3))
  show "\<And>u x. (u, x) \<in> set (dm_sessions ((put_session t s d)\<lparr>dm_registry := r\<rparr>)) \<Longrightarrow>
      entry_ok (clients (dm_registry ((put_session t s d)\<lparr>dm_registry := r\<rparr>))) u x"
    using daemon_okD(3) [OF ok] s r(2) by (auto simp: put_session_def)
  show "\<And>x. x \<in> set (dm_ending ((put_session t s d)\<lparr>dm_registry := r\<rparr>)) \<Longrightarrow> ending_ok x"
    using daemon_okD(4) [OF ok] by (simp add: put_session_def)
qed (use r in simp)

lemma put_session_same_registry:
  "daemon_ok d \<Longrightarrow> entry_ok (clients (dm_registry d)) t s \<Longrightarrow> daemon_ok (put_session t s d)"
  using put_session_ok [of d "dm_registry d" t s] daemon_okD(2) [of d] by (simp add: put_session_def)

lemma daemon_ok_registry:
  "daemon_ok d \<Longrightarrow> registry_ok r \<Longrightarrow> clients r = clients (dm_registry d) \<Longrightarrow> daemon_ok (d\<lparr>dm_registry := r\<rparr>)"
  by (auto simp: daemon_ok_def)

lemma attach_to_ok:
  assumes ok: "daemon_ok d" and c: "c \<in> clients (dm_registry d)" and s: "entry_ok (clients (dm_registry d)) (ss_id s) s"
  shows "daemon_ok (fst (snd (attach_to c i cols rows s d)))"
proof -
  obtain snap s' r' fx where a: "session_attach c i cols rows s (dm_registry d) = (snap, s', r', fx)"
    by (metis prod_cases4)
  note at = session_attach_ok [OF _ a]
  have "session_ok s" using s by (simp add: entry_ok_def)
  note at = at [OF this]
  have r: "registry_ok r'" "clients r' = clients (dm_registry d)"
    using registry_send_ok [OF daemon_okD(2) [OF ok]] at(6) by simp_all
  have "entry_ok (clients r') (ss_id s) s'"
    using at s c r(2) by (auto simp: entry_ok_def)
  then show ?thesis using put_session_ok [OF ok r] by (simp add: attach_to_def a)
qed

lemma daemon_ok_remove: "daemon_ok d \<Longrightarrow> daemon_ok (d\<lparr>dm_sessions := bt_remove t (dm_sessions d)\<rparr>)"
  using bt_inv_remove [of "dm_sessions d" t] by (auto simp: daemon_ok_def bt_remove_def)

lemma daemon_ok_insert:
  "daemon_ok d \<Longrightarrow> entry_ok (clients (dm_registry d)) t s \<Longrightarrow> daemon_ok (d\<lparr>dm_sessions := bt_insert t s (dm_sessions d)\<rparr>)"
  using bt_insert_set [of t s "dm_sessions d"] by (fastforce simp: daemon_ok_def bt_inv_insert)

lemma handle_spawn_ok:
  assumes ok: "daemon_ok d" and c: "c \<in> clients (dm_registry d)"
  shows "daemon_ok (fst (snd (handle_spawn cf an c i spec d)))"
proof (cases "session_spawn (an_host an) (spawn_launch cf spec) (cf_tail_bytes cf) spec")
  case (Inr s)
  let ?d = "d\<lparr>dm_sessions := bt_insert (sp_terminal spec) s (dm_sessions d)\<rparr>"
  have s: "session_ok s" "viewers s = {}" "ss_id s = sp_terminal spec" "ss_exited s = None"
    using session_spawn_ok [OF Inr] by simp_all
  then have e: "entry_ok (clients (dm_registry d)) (sp_terminal spec) s" by (simp add: entry_ok_def)
  have "daemon_ok ?d" by (rule daemon_ok_insert [OF ok e])
  then have "daemon_ok (fst (snd (attach_to c i (sp_cols spec) (sp_rows spec) s ?d)))"
    by (rule attach_to_ok) (use c e s(3) in simp_all)
  then show ?thesis using ok Inr by (simp add: handle_spawn_def split_beta)
qed (use ok in \<open>simp add: handle_spawn_def\<close>)

lemma handle_attach_ok:
  assumes ok: "daemon_ok d" and c: "c \<in> clients (dm_registry d)"
  shows "daemon_ok (fst (snd (handle_attach c i t cols rows d)))"
proof (cases "get_session t d")
  case (Some s)
  then have "entry_ok (clients (dm_registry d)) (ss_id s) s"
    using get_session_entry [OF ok] by (auto simp: entry_ok_def)
  then show ?thesis using attach_to_ok [OF ok c] Some by (simp add: handle_attach_def split_beta)
qed (use ok in \<open>simp add: handle_attach_def\<close>)

lemma handle_detach_ok: "daemon_ok d \<Longrightarrow> daemon_ok (fst (snd (handle_detach c t d)))"
proof (cases "get_session t d")
  case (Some s)
  assume ok: "daemon_ok d"
  have e: "entry_ok (clients (dm_registry d)) t s" by (rule get_session_entry [OF ok Some])
  then have "entry_ok (clients (dm_registry d)) t (fst (session_detach c s))"
    using session_detach_ok [of s c] by (auto simp: entry_ok_def)
  then show ?thesis using put_session_same_registry [OF ok] Some by (simp add: handle_detach_def split_beta)
qed (simp add: handle_detach_def)

lemma handle_resize_ok: "daemon_ok d \<Longrightarrow> daemon_ok (fst (snd (handle_resize c t cols rows d)))"
proof (cases "get_session t d")
  case (Some s)
  assume ok: "daemon_ok d"
  have e: "entry_ok (clients (dm_registry d)) t s" by (rule get_session_entry [OF ok Some])
  then have "entry_ok (clients (dm_registry d)) t (fst (session_resize c cols rows s))"
    using session_resize_ok [of s c cols rows] by (auto simp: entry_ok_def)
  then show ?thesis using put_session_same_registry [OF ok] Some by (simp add: handle_resize_def split_beta)
qed (simp add: handle_resize_def)

lemma handle_kill_ok: "daemon_ok d \<Longrightarrow> daemon_ok (fst (snd (handle_kill an t d)))"
proof (cases "get_session t d")
  case (Some s)
  assume ok: "daemon_ok d"
  obtain s' r' fx where k: "session_end (an_foreground an s) s (dm_registry d) = (s', r', fx)" by (metis prod_cases3)
  have "session_ok s" using get_session_entry [OF ok Some] by (simp add: entry_ok_def)
  then have "ending_ok s'" using session_end_ok [OF _ k] by (simp add: ending_ok_def)
  moreover have "registry_ok r' \<and> clients r' = clients (dm_registry d)"
    by (rule session_end_registry [OF daemon_okD(2) [OF ok] k])
  ultimately show ?thesis using daemon_ok_remove [OF ok, of t] Some k
    by (auto simp: handle_kill_def daemon_ok_def)
qed (simp add: handle_kill_def)

lemma handle_forget_ok: "daemon_ok d \<Longrightarrow> daemon_ok (fst (snd (handle_forget t d)))"
  by (auto simp: handle_forget_def daemon_ok_remove split: option.split)

lemma kill_entry_ok:
  "entry_ok cs t s \<Longrightarrow> entry_ok cs t (fst (session_kill fg s))"
  using session_kill_ok [of s fg] by (auto simp: entry_ok_def)

lemma close_idle_ok: "daemon_ok d \<Longrightarrow> daemon_ok (fst (snd (close_idle an ts d)))"
proof (induction ts arbitrary: d)
  case (Cons t ts)
  show ?case
  proof (cases "get_session t d")
    case (Some s)
    have "daemon_ok (put_session t (fst (session_kill (an_foreground an s) s)) d)"
      by (rule put_session_same_registry [OF Cons.prems kill_entry_ok [OF get_session_entry [OF Cons.prems Some]]])
    then show ?thesis using Cons Some by (simp add: split_beta)
  qed (use Cons in simp)
qed simp

lemma live_sessions_ok: "daemon_ok d \<Longrightarrow> daemon_ok (snd (live_sessions d))"
  by (auto simp: live_sessions_def daemon_ok_def Let_def)

lemma handle_shutdown_ok: "daemon_ok d \<Longrightarrow> daemon_ok (fst (snd (handle_shutdown k d)))"
  using live_sessions_ok [of d] by (auto simp: handle_shutdown_def split: prod.split)

lemma handle_ok: "daemon_ok d \<Longrightarrow> c \<in> clients (dm_registry d) \<Longrightarrow> daemon_ok (fst (snd (handle cf an c i req d)))"
  using close_idle_ok [of d an]
  by (cases req)
    (simp_all add: handle_spawn_ok handle_attach_ok handle_detach_ok handle_resize_ok handle_kill_ok
      handle_forget_ok handle_shutdown_ok handle_write_def handle_list_def split_beta split: option.split)

lemma serve_message_ok:
  assumes "daemon_ok d" "c \<in> clients (dm_registry d)"
  shows "daemon_ok (fst (serve_message cf an c m d))"
proof (cases m)
  case (Request i req)
  obtain res d' fx where h: "handle cf an c i req d = (res, d', fx)" by (metis prod_cases3)
  then have ok: "daemon_ok d'" using handle_ok [OF assms, of cf an i req] by simp
  have "output_bytes (Reply i x) = 0" for x by simp
  then have "daemon_ok (d'\<lparr>dm_registry := registry_send c (Reply i x) (dm_registry d')\<rparr>)" for x
    using daemon_ok_registry [OF ok registry_send_ok [OF daemon_okD(2) [OF ok]]] by simp
  then show ?thesis using ok by (simp add: Request h split: option.split)
qed (use assms in simp)

lemma client_gone_ok: "daemon_ok d \<Longrightarrow> daemon_ok (fst (client_gone c d))"
proof -
  assume ok: "daemon_ok d"
  have k: "map fst (dm_sessions (fst (client_gone c d))) = map fst (dm_sessions d)"
    by (auto simp: client_gone_def)
  have cl: "clients (dm_registry (fst (client_gone c d))) = clients (dm_registry d) - {c}"
    by (auto simp: client_gone_def registry_remove_def clients_def bt_remove_def)
  show ?thesis
  proof (rule daemon_okI)
    show "bt_inv (dm_sessions (fst (client_gone c d)))"
      using bt_inv_map_values [OF k] daemon_okD(1) [OF ok] by simp
    show "registry_ok (dm_registry (fst (client_gone c d)))"
      using registry_remove_ok [OF daemon_okD(2) [OF ok]] by (simp add: client_gone_def)
    fix t s assume "(t, s) \<in> set (dm_sessions (fst (client_gone c d)))"
    then obtain s0 where s0: "(t, s0) \<in> set (dm_sessions d)" "s = fst (session_detach c s0)"
      by (auto simp: client_gone_def)
    have "entry_ok (clients (dm_registry d)) t s0" by (rule daemon_okD(3) [OF ok s0(1)])
    then show "entry_ok (clients (dm_registry (fst (client_gone c d)))) t s"
      unfolding cl s0(2) using session_detach_ok [of s0 c] by (auto simp: entry_ok_def)
  next
    fix s assume "s \<in> set (dm_ending (fst (client_gone c d)))"
    then show "ending_ok s" using daemon_okD(4) [OF ok] by (simp add: client_gone_def)
  qed
qed

lemma session_ended_ok: "daemon_ok d \<Longrightarrow> daemon_ok (session_ended t d)"
  using daemon_ok_remove [of d t] by (simp add: session_ended_def split: option.split)

lemma daemon_output_ok: "daemon_ok d \<Longrightarrow> daemon_ok (fst (daemon_output first chunk t d))"
proof (cases "get_session t d")
  case (Some s)
  assume ok: "daemon_ok d"
  obtain s' r' fx where p: "pump_chunk first chunk s (dm_registry d) = (s', r', fx)" by (metis prod_cases3)
  have e: "entry_ok (clients (dm_registry d)) t s" by (rule get_session_entry [OF ok Some])
  then have s': "session_ok s" by (simp add: entry_ok_def)
  have r: "registry_ok r'" "clients r' = clients (dm_registry d)"
    using pump_chunk_registry [OF daemon_okD(2) [OF ok] p] by simp_all
  have "entry_ok (clients r') t s'" using e pump_chunk_ok [OF s' p] by (simp add: entry_ok_def r(2))
  then show ?thesis using put_session_ok [OF ok r] Some p by (simp add: daemon_output_def)
qed (simp add: daemon_output_def)

text \<open>
  An exit: between the status and the end of the step the entry of a session its user ended is
  still there; the step removes it.
\<close>

lemma daemon_exit_ok: "daemon_ok d \<Longrightarrow> daemon_ok (daemon_exit c t d)"
proof (cases "get_session t d")
  case (Some s)
  assume ok: "daemon_ok d"
  obtain s' r' where p: "session_finish c s (dm_registry d) = (s', r')" by (metis surj_pair)
  have e: "entry_ok (clients (dm_registry d)) t s" by (rule get_session_entry [OF ok Some])
  then have f: "session_ok s'" "viewers s' = {}" "ss_id s' = t"
    "ss_exited s' = Some \<lparr>es_code = c, user_killed = ss_user_killed s\<rparr>"
    using session_finish_ok [of s c "dm_registry d"] p by (simp_all add: entry_ok_def)
  have r: "registry_ok r'" "clients r' = clients (dm_registry d)"
    using session_finish_registry [OF daemon_okD(2) [OF ok], of c s] p by simp_all
  let ?d = "(put_session t s' d)\<lparr>dm_registry := r'\<rparr>"
  have g: "get_session t ?d = Some s'"
  proof -
    have "get_session t ?d = get_session t (put_session t s' d)" by (simp add: get_session_def)
    then show ?thesis using Some by simp
  qed
  have de: "daemon_exit c t d = session_ended t ?d" using Some p by (simp add: daemon_exit_def)
  show ?thesis
  proof (cases "ss_user_killed s")
    case False
    then have "entry_ok (clients r') t s'" using f by (simp add: entry_ok_def)
    then show ?thesis unfolding de by (intro session_ended_ok put_session_ok [OF ok r])
  next
    case True
    then have "session_ended t ?d = ?d\<lparr>dm_sessions := bt_remove t (dm_sessions ?d)\<rparr>"
      using g f(4) by (simp add: session_ended_def)
    moreover have "bt_remove t (dm_sessions ?d) = bt_remove t (dm_sessions d)"
      by (auto simp: put_session_def bt_remove_def filter_map o_def split_beta intro!: map_idI)
    ultimately have "daemon_exit c t d = d\<lparr>dm_sessions := bt_remove t (dm_sessions d), dm_registry := r'\<rparr>"
      unfolding de by (simp add: put_session_def)
    then show ?thesis using daemon_ok_registry [OF daemon_ok_remove [OF ok, of t] r(1)] r(2) by simp
  qed
qed (simp add: daemon_exit_def)

lemma ending_exit_ok: "daemon_ok d \<Longrightarrow> daemon_ok (ending_exit c n d)"
proof (cases "n < length (dm_ending d)")
  case True
  assume ok: "daemon_ok d"
  obtain s' r' where p: "session_finish c (dm_ending d ! n) (dm_registry d) = (s', r')" by (metis surj_pair)
  have "ending_ok (dm_ending d ! n)" using daemon_okD(4) [OF ok] True by simp
  then have e: "ending_ok s'"
    using session_finish_ok [of "dm_ending d ! n" c "dm_registry d"] p by (simp add: ending_ok_def)
  have r: "registry_ok r'" "clients r' = clients (dm_registry d)"
    using session_finish_registry [OF daemon_okD(2) [OF ok], of c "dm_ending d ! n"] p by simp_all
  have "daemon_ok (d\<lparr>dm_ending := (dm_ending d)[n := s'], dm_registry := r'\<rparr>)"
  proof (rule daemon_okI)
    fix x assume "x \<in> set (dm_ending (d\<lparr>dm_ending := (dm_ending d)[n := s'], dm_registry := r'\<rparr>))"
    then have "x \<in> insert s' (set (dm_ending d))" using set_update_subset_insert by fastforce
    then show "ending_ok x" using e daemon_okD(4) [OF ok] by auto
  qed (use daemon_okD [OF ok] r in simp_all)
  then show ?thesis using True p by (simp add: ending_exit_def session_ended_ok)
qed (simp add: ending_exit_def)

lemma watch_idle_ok: "daemon_ok d \<Longrightarrow> watch_idle checked cf reach now since d = Some (v, d') \<Longrightarrow> daemon_ok d'"
proof -
  assume ok: "daemon_ok d" and w: "watch_idle checked cf reach now since d = Some (v, d')"
  have stop: "daemon_ok x \<Longrightarrow> daemon_ok (x\<lparr>dm_stopping := b\<rparr>)" for x b by (simp add: daemon_ok_def)
  obtain live dl where l: "live_sessions d = (live, dl)" by fastforce
  then have okl: "daemon_ok dl" using live_sessions_ok [OF ok] by simp
  have "d' = d\<lparr>dm_stopping := True\<rparr> \<or> d' = dl \<or> d' = dl\<lparr>dm_stopping := True\<rparr>"
    using w l by (auto simp: watch_idle_def Let_def split: if_splits option.splits)
  then show ?thesis using ok okl stop by blast
qed

section \<open>Every state the daemon reaches\<close>

inductive daemon_step :: "config \<Rightarrow> daemon \<Rightarrow> daemon \<Rightarrow> bool" for cf where
  connected: "serve_hello cf own_pid hello d = (ms, Some (c, d')) \<Longrightarrow> daemon_step cf d d'"
| served: "c \<in> clients (dm_registry d) \<Longrightarrow> daemon_step cf d (fst (serve_message cf an c m d))"
| gone: "daemon_step cf d (fst (client_gone c d))"
| wrote: "daemon_step cf d (fst (daemon_output first chunk t d))"
| exited: "daemon_step cf d (daemon_exit code t d)"
| ended: "daemon_step cf d (ending_exit code n d)"
| written: "daemon_step cf d (d\<lparr>dm_registry := on_queue c (snd \<circ> write_turn) (dm_registry d)\<rparr>)"
| watched: "watch_idle checked cf reach now since d = Some (v, d') \<Longrightarrow> daemon_step cf d d'"
| stopped: "daemon_step cf d (d\<lparr>dm_stopping := True\<rparr>)"

inductive_cases daemon_stepE: "daemon_step cf d d'"

inductive daemon_reachable :: "config \<Rightarrow> daemon \<Rightarrow> bool" for cf where
  start: "daemon_reachable cf daemon_start"
| step: "daemon_reachable cf d \<Longrightarrow> daemon_step cf d d' \<Longrightarrow> daemon_reachable cf d'"

lemma serve_hello_ok: "daemon_ok d \<Longrightarrow> serve_hello cf own_pid hello d = (ms, Some (c, d')) \<Longrightarrow> daemon_ok d'"
proof -
  assume ok: "daemon_ok d" and h: "serve_hello cf own_pid hello d = (ms, Some (c, d'))"
  then have d': "d' = d\<lparr>dm_registry := snd (registry_add (dm_registry d))\<rparr>"
    by (auto simp: serve_hello_def split: sum.splits client_msg.splits if_splits prod.splits)
  have "clients (dm_registry d) \<subseteq> clients (snd (registry_add (dm_registry d)))"
    using fst_bt_insert [of "rg_next (dm_registry d) + 1" empty_queue "rg_clients (dm_registry d)"]
    by (auto simp: clients_def registry_add_def Let_def)
  then show ?thesis using ok registry_add_ok [OF daemon_okD(2) [OF ok]]
    by (fastforce simp: d' daemon_ok_def entry_ok_def)
qed

lemma daemon_written_ok: "daemon_ok d \<Longrightarrow> daemon_ok (d\<lparr>dm_registry := on_queue c (snd \<circ> write_turn) (dm_registry d)\<rparr>)"
  by (rule daemon_ok_registry) (simp_all add: on_queue_ok daemon_okD(2) write_turn_ok)

lemma daemon_stop_ok: "daemon_ok d \<Longrightarrow> daemon_ok (d\<lparr>dm_stopping := b\<rparr>)"
  by (simp add: daemon_ok_def)

lemmas daemon_ops_ok = serve_hello_ok serve_message_ok client_gone_ok daemon_output_ok daemon_exit_ok
  ending_exit_ok daemon_written_ok watch_idle_ok daemon_stop_ok

lemma daemon_step_ok: "daemon_step cf d d' \<Longrightarrow> daemon_ok d \<Longrightarrow> daemon_ok d'"
  by (erule daemon_stepE) (blast intro: daemon_ops_ok)+

lemma daemon_start_ok: "daemon_ok daemon_start"
  by (simp add: daemon_ok_def daemon_start_def registry_default_def registry_ok_def)

lemma daemon_reachable_ok: "daemon_reachable cf d \<Longrightarrow> daemon_ok d"
  by (induction rule: daemon_reachable.induct) (blast intro: daemon_start_ok daemon_step_ok)+

section \<open>Closing and stopping\<close>

text \<open>\<open>CloseIdle\<close> closes the idle sessions it was given, once each, and leaves the others as they were.\<close>

definition idle_in :: "answers \<Rightarrow> daemon \<Rightarrow> terminal_id \<Rightarrow> bool" where
  "idle_in an d t \<longleftrightarrow> (case get_session t d of
     None \<Rightarrow> False | Some s \<Rightarrow> ss_exited s = None \<and> \<not> is_busy (an_foreground an s) s)"

lemma close_idle_untouched:
  "\<not> idle_in an d t \<Longrightarrow> get_session t (fst (snd (close_idle an ts d))) = get_session t d"
proof (induction ts arbitrary: d)
  case (Cons u ts)
  show ?case
  proof (cases "idle_in an d u")
    case True
    then obtain s where s: "get_session u d = Some s" "ss_exited s = None" "\<not> is_busy (an_foreground an s) s"
      by (auto simp: idle_in_def split: option.splits)
    have "t \<noteq> u" using Cons.prems True by blast
    then have "\<not> idle_in an (put_session u (fst (session_kill (an_foreground an s) s)) d) t"
      using Cons.prems by (simp add: idle_in_def)
    then show ?thesis using Cons.IH s \<open>t \<noteq> u\<close> by (simp add: split_beta)
  next
    case False
    then show ?thesis using Cons by (auto simp: idle_in_def split: option.splits)
  qed
qed simp

lemma close_idle_closed: "t \<in> set (fst (close_idle an ts d)) \<Longrightarrow> get_session t d \<noteq> None"
proof (induction ts arbitrary: d)
  case (Cons u ts)
  show ?case
  proof (cases "idle_in an d u")
    case True
    then obtain s where s: "get_session u d = Some s" "ss_exited s = None" "\<not> is_busy (an_foreground an s) s"
      by (auto simp: idle_in_def split: option.splits)
    let ?d = "put_session u (fst (session_kill (an_foreground an s) s)) d"
    have "t = u \<or> t \<in> set (fst (close_idle an ts ?d))" using Cons.prems s by (simp add: split_beta)
    then show ?thesis using Cons.IH [of ?d] s(1) by (cases "t = u") auto
  next
    case False
    then show ?thesis using Cons by (auto simp: idle_in_def split: option.splits)
  qed
qed simp

lemma close_idle_busy:
  "get_session t d = Some s \<Longrightarrow> is_busy (an_foreground an s) s \<Longrightarrow>
   get_session t (fst (snd (close_idle an ts d))) = Some s \<and> t \<notin> set (fst (close_idle an ts d))"
proof (induction ts arbitrary: d)
  case (Cons u ts)
  show ?case
  proof (cases "idle_in an d u")
    case True
    then obtain s' where s': "get_session u d = Some s'" "ss_exited s' = None" "\<not> is_busy (an_foreground an s') s'"
      by (auto simp: idle_in_def split: option.splits)
    then have "t \<noteq> u" using Cons.prems by auto
    then show ?thesis using Cons s' by (simp add: split_beta)
  next
    case False
    then show ?thesis using Cons by (auto simp: idle_in_def split: option.splits)
  qed
qed simp

lemma close_idle_absent:
  "t \<notin> set ts \<Longrightarrow> get_session t (fst (snd (close_idle an ts d))) = get_session t d
     \<and> t \<notin> set (fst (close_idle an ts d))"
  by (induction ts arbitrary: d) (auto simp: split_beta split: option.split)

lemma close_idle_over:
  "get_session t d = Some s \<Longrightarrow> ss_exited s \<noteq> None \<Longrightarrow>
   get_session t (fst (snd (close_idle an ts d))) = Some s \<and> t \<notin> set (fst (close_idle an ts d))"
proof (induction ts arbitrary: d)
  case (Cons u ts)
  then show ?case by (cases "u = t") (auto simp: split_beta split: option.split)
qed simp

lemma close_idle_spares:
  assumes "get_session t d = Some s" "is_busy (an_foreground an s) s \<or> ss_exited s \<noteq> None \<or> t \<notin> set ts"
  shows "get_session t (fst (snd (close_idle an ts d))) = Some s \<and> t \<notin> set (fst (close_idle an ts d))"
  using assms(2) close_idle_busy [OF assms(1)] close_idle_over [OF assms(1)] close_idle_absent [of t ts an d] assms(1)
  by auto

text \<open>An id whose terminal is killed is free at once.\<close>

lemma handle_kill_free:
  "daemon_ok d \<Longrightarrow> get_session t (fst (snd (handle cf an c i (Kill t) d))) = None"
  by (cases "get_session t d") (auto simp: handle_kill_def get_session_def map_of_bt_remove split: prod.split)

text \<open>The daemon goes idle only when nobody is connected and nothing runs.\<close>

lemma watch_idle_stops:
  assumes "watch_idle checked cf True now since d = Some (StopIdle, d')"
  shows "registry_count (dm_registry d) = 0" "fst (live_sessions d) = 0"
    "\<forall>(t, s) \<in> set (dm_sessions d). ss_exited s \<noteq> None" "\<forall>s \<in> set (dm_ending d). ss_exited s \<noteq> None"
proof -
  obtain live dl where l: "live_sessions d = (live, dl)" by fastforce
  have r: "dm_registry dl = dm_registry d" using l by (auto simp: live_sessions_def Let_def)
  have z: "registry_count (dm_registry d) = 0 \<and> live = 0"
    using assms l r by (auto simp: watch_idle_def split: option.splits if_splits)
  then show "registry_count (dm_registry d) = 0" "fst (live_sessions d) = 0" by (simp_all add: l)
  have "filter (\<lambda>s. ss_exited s = None) (map snd (dm_sessions d)) = []" "filter (\<lambda>s. ss_exited s = None) (dm_ending d) = []"
    using z l by (auto simp: live_sessions_def Let_def filter_map)
  then show "\<forall>(t, s) \<in> set (dm_sessions d). ss_exited s \<noteq> None" "\<forall>s \<in> set (dm_ending d). ss_exited s \<noteq> None"
    by (auto simp: filter_empty_conv)
qed

section \<open>An id freed while its shell still ends\<close>

text \<open>
  The watch takes the live sessions, ending ones included, from the sessions in the map. One terminal
  started and killed is enough for the map to hold fewer.
\<close>

definition sample_spec :: spawn_spec where
  "sample_spec = \<lparr>sp_terminal = 7, sp_project = 1, sp_label = [], sp_program = lit ''/bin/sh'', sp_args = [],
     sp_cwd = lit ''/'', sp_env = [], sp_cols = 80, sp_rows = 24, sp_startup = None, sp_admin = False\<rparr>"

definition sample_answers :: answers where
  "sample_answers = \<lparr>an_host = \<lparr>h_is_dir = (\<lambda>_. True), h_version = [], h_launch = (\<lambda>_ _. Inr (Some 42, False))\<rparr>,
     an_foreground = (\<lambda>_. Some 42), an_accepts = (\<lambda>_. None)\<rparr>"

definition sample_killed :: "config \<Rightarrow> daemon" where
  "sample_killed cf =
     (case serve_hello cf 1 (Inr (Hello PROTOCOL_VERSION [] 2)) daemon_start of
        (_, Some (c, d)) \<Rightarrow>
          (let d1 = fst (serve_message cf sample_answers c (Request 1 (Spawn sample_spec)) d)
           in fst (serve_message cf sample_answers c (Request 0 (Kill 7)) d1))
      | (_, None) \<Rightarrow> daemon_start)"

lemma sample_killed_reachable: "daemon_reachable cf (sample_killed cf)"
proof -
  let ?d = "daemon_start\<lparr>dm_registry := snd (registry_add (dm_registry daemon_start))\<rparr>"
  have h: "serve_hello cf 1 (Inr (Hello PROTOCOL_VERSION [] 2)) daemon_start =
    ([Welcome PROTOCOL_VERSION (cf_build cf) 1], Some (1, ?d))"
    by (simp add: serve_hello_def daemon_start_def registry_default_def registry_add_def Let_def)
  have r: "daemon_reachable cf ?d"
    by (rule daemon_reachable.step [OF daemon_reachable.start daemon_step.connected [OF h]])
  have c: "1 \<in> clients (dm_registry ?d)"
    by (simp add: clients_def registry_add_def daemon_start_def registry_default_def Let_def)
  let ?d1 = "fst (serve_message cf sample_answers 1 (Request 1 (Spawn sample_spec)) ?d)"
  have r1: "daemon_reachable cf ?d1"
    by (rule daemon_reachable.step [OF r daemon_step.served [OF c]])
  have c1: "1 \<in> clients (dm_registry ?d1)"
    by (simp add: handle_spawn_def get_session_def session_spawn_def sample_answers_def attach_to_def
        session_attach_def daemon_start_def split_beta Let_def put_session_def)
      (simp add: clients_def registry_add_def registry_default_def Let_def)
  show ?thesis
    unfolding sample_killed_def h prod.case option.case Let_def
    by (rule daemon_reachable.step [OF r1 daemon_step.served [OF c1]])
qed

lemma sample_killed_sessions: "dm_sessions (sample_killed cf) = []" "fst (live_sessions (sample_killed cf)) = 1"
proof -
  have "dm_sessions (sample_killed cf) = [] \<and> fst (live_sessions (sample_killed cf)) = 1"
    by (simp add: sample_killed_def serve_hello_def daemon_start_def registry_default_def registry_add_def
        handle_spawn_def get_session_def session_spawn_def sample_answers_def sample_spec_def attach_to_def
        session_attach_def put_session_def handle_kill_def session_end_def session_kill_def live_sessions_def
        bt_remove_def split_beta Let_def PROTOCOL_VERSION_def NO_REPLY_def)
  then show "dm_sessions (sample_killed cf) = []" "fst (live_sessions (sample_killed cf)) = 1" by blast+
qed

lemma live_sessions_frame [simp]:
  "dm_sessions (snd (live_sessions d)) = dm_sessions d" "dm_registry (snd (live_sessions d)) = dm_registry d"
  by (simp_all add: live_sessions_def Let_def)

lemma watch_idle_underflow: "watch_idle True cf True now since (sample_killed cf) = None"
  using sample_killed_sessions [of cf]
  by (simp add: watch_idle_def sub_usize_def split_beta Let_def)

end
