(* ===== verification/Links.thy ===== *)
theory Links
  imports Project
begin

text \<open>
  Links in text (\<open>links.rs\<close>): the one grammar of web addresses, allowed schemes and references to
  files for editors and terminals. Offsets are characters. What the standard library takes from
  the Unicode database beyond \<open>unicode\<close> is a parameter, the record \<open>link_tables\<close>. The lemmas show
  that links never overlap, that what is opened is of an allowed form and carries no control
  character, and that a position written behind a path is read back.
\<close>

record link_tables = unicode +
  is_alphabetic :: "rchar \<Rightarrow> bool"
  lower_string :: "rstring \<Rightarrow> rstring"

definition is_ascii_alphabetic :: "rchar \<Rightarrow> bool" where
  "is_ascii_alphabetic c \<longleftrightarrow> is_ascii_upper c \<or> is_ascii_lower c"

definition ascii_tables :: link_tables where
  "ascii_tables = unicode.extend ascii_unicode
     \<lparr>is_alphabetic = is_ascii_alphabetic, lower_string = map to_ascii_lower\<rparr>"

datatype target =
  Web rstring
| Scheme rstring
| File rstring "nat option" "nat option"

record link =
  l_start :: nat
  l_end :: nat
  l_target :: target

definition ALLOWED_SCHEMES :: "rstring list" where
  "ALLOWED_SCHEMES = [lit ''mailto:'', lit ''tel:'']"

definition ends_token :: "rchar \<Rightarrow> bool" where
  "ends_token c \<longleftrightarrow> is_whitespace c \<or> c \<in> set [34, 39, 96, 60, 62, 124] \<or> c \<le> 0x1f"

text \<open>\<open>str::find\<close> of a string: a byte offset.\<close>

fun find_str :: "rstring \<Rightarrow> rstring \<Rightarrow> nat option" where
  "find_str p [] = (if p = [] then Some 0 else None)"
| "find_str p (c # s) =
     (if starts_with p (c # s) then Some 0 else map_option (\<lambda>n. n + len_utf8 c) (find_str p s))"

section \<open>Positions\<close>

definition number :: "rstring \<Rightarrow> nat option" where
  "number s =
     (if s \<noteq> [] \<and> list_all is_ascii_digit s then
        if digits_value s < 2 ^ 32 then Some (digits_value s) else None
      else None)"

text \<open>\<open>(line)\<close> or \<open>(line,col)\<close> behind a path.\<close>

definition split_brackets :: "rstring \<Rightarrow> (rstring \<times> nat option \<times> nat option) option" where
  "split_brackets raw =
     (case rsplit_once 40 raw of
        None \<Rightarrow> None
      | Some (front, back) \<Rightarrow>
          if ends_with [41] raw \<and> front \<noteq> [] then
            (let inner = butlast back;
                 (line, column) = (case split_once 44 inner of None \<Rightarrow> (inner, None) | Some (l, c) \<Rightarrow> (l, Some c))
             in case number (trim line) of
                  None \<Rightarrow> None
                | Some n \<Rightarrow> Some (front, Some n, Option.bind column (\<lambda>c. number (trim c))))
          else None)"

text \<open>Up to \<open>k\<close> numbers behind colons, taken from the end; the last taken comes first.\<close>

fun strip_numbers :: "nat \<Rightarrow> rstring \<Rightarrow> nat list \<Rightarrow> rstring \<times> nat list" where
  "strip_numbers 0 path ns = (path, ns)"
| "strip_numbers (Suc k) path ns =
     (case rsplit_once 58 path of
        None \<Rightarrow> (path, ns)
      | Some (front, back) \<Rightarrow>
          (case number back of None \<Rightarrow> (path, ns) | Some n \<Rightarrow> strip_numbers k front (n # ns)))"

definition nth_opt :: "'a list \<Rightarrow> nat \<Rightarrow> 'a option" where
  "nth_opt xs i = (if i < length xs then Some (xs ! i) else None)"

definition split_position :: "rstring \<Rightarrow> (rstring \<times> nat option \<times> nat option) option" where
  "split_position raw =
     (case split_brackets raw of
        Some r \<Rightarrow> Some r
      | None \<Rightarrow>
          (case strip_numbers 2 raw [] of
             (path, numbers) \<Rightarrow>
               if path = [] \<or> (str_bytes path = 1 \<and> length numbers = 1) then Some (raw, None, None)
               else Some (path, nth_opt numbers 0, nth_opt numbers 1)))"

section \<open>Paths\<close>

definition is_separator :: "rchar \<Rightarrow> bool" where
  "is_separator c \<longleftrightarrow> c = 47 \<or> c = 92"

definition has_extension :: "rstring \<Rightarrow> bool" where
  "has_extension last_part =
     (case rsplit_once 46 last_part of
        None \<Rightarrow> False
      | Some (stem, ext) \<Rightarrow>
          stem \<noteq> [] \<and> 1 \<le> str_bytes ext \<and> str_bytes ext \<le> 10 \<and>
          list_all is_ascii_alphanumeric ext \<and> list_ex is_ascii_alphabetic ext)"

definition is_explicit :: "rstring \<Rightarrow> bool" where
  "is_explicit path \<longleftrightarrow>
     (case path of d # c # s # _ \<Rightarrow> is_ascii_alphabetic d \<and> c = 58 \<and> is_separator s | _ \<Rightarrow> False) \<or>
     starts_with (lit ''~/'') path \<or> starts_with (lit ''./'') path \<or> starts_with (lit ''../'') path \<or>
     starts_with [46, 92] path \<or> starts_with [46, 46, 92] path \<or> starts_with [92, 92] path \<or>
     (starts_with [47] path \<and> str_bytes path > 1 \<and> \<not> starts_with [47, 47] path)"

definition looks_like_path :: "'a link_tables_scheme \<Rightarrow> rstring \<Rightarrow> bool \<Rightarrow> bool" where
  "looks_like_path U path has_position =
     (if path = [] \<or> list_ex is_control path then False
      else
        (let has_separator = list_ex is_separator path;
             ext = has_extension (rev (takeWhile (\<lambda>c. \<not> is_separator c) (rev path)))
         in if \<not> list_ex (is_alphabetic U) path then False
            else if is_explicit path then str_bytes path > 2
            else if has_position then ext \<or> has_separator
            else has_separator \<and> ext))"

text \<open>\<open>u8::from_str_radix(_, 16)\<close> of two bytes: a sign may stand for the first digit.\<close>

definition hex_byte :: "byte \<Rightarrow> byte \<Rightarrow> byte option" where
  "hex_byte h l =
     (if h = 43 then hex_digit l
      else case (hex_digit h, hex_digit l) of
             (Some a, Some b) \<Rightarrow> Some (16 * a + b)
           | _ \<Rightarrow> None)"

fun percent_bytes :: "byte list \<Rightarrow> byte list option" where
  "percent_bytes [] = Some []"
| "percent_bytes (b # bs) =
     (if b = 37 then
        (case bs of
           h # l # rest \<Rightarrow>
             (case hex_byte h l of
                None \<Rightarrow> None
              | Some v \<Rightarrow>
                  if unat v < 0x20 \<or> unat v = 0x7f then None else map_option (\<lambda>t. v # t) (percent_bytes rest))
         | _ \<Rightarrow> None)
      else map_option (\<lambda>t. b # t) (percent_bytes bs))"

definition percent_decode :: "rstring \<Rightarrow> rstring option" where
  "percent_decode s =
     (case percent_bytes (utf8 s) of
        None \<Rightarrow> None
      | Some bs \<Rightarrow> (case from_utf8 bs of Inl e \<Rightarrow> None | Inr t \<Rightarrow> Some t))"

definition without_host :: "rstring \<Rightarrow> rstring" where
  "without_host decoded =
     (case strip_prefix [47, 47] decoded of
        None \<Rightarrow> decoded
      | Some back \<Rightarrow>
          (let host = takeWhile (\<lambda>c. c \<noteq> 47) back; path = dropWhile (\<lambda>c. c \<noteq> 47) back
           in if host = [] \<or> map to_ascii_lower host = lit ''localhost'' then path else [47, 47] @ host @ path))"

definition drive_path :: "rstring \<Rightarrow> rstring" where
  "drive_path path =
     (case path of
        s # d # c # _ \<Rightarrow> if s = 47 \<and> is_ascii_alphabetic d \<and> c = 58 then tl path else path
      | _ \<Rightarrow> path)"

definition file_uri_path :: "rstring \<Rightarrow> rstring option" where
  "file_uri_path uri =
     (case byte_drop 5 uri of
        None \<Rightarrow> None
      | Some rest \<Rightarrow>
          (case percent_decode rest of
             None \<Rightarrow> None
           | Some decoded \<Rightarrow>
               (let path = drive_path (without_host decoded)
                in if path \<noteq> [] \<and> \<not> list_ex is_control path then Some path else None)))"

definition windows_drive_form :: "rstring \<Rightarrow> rstring option" where
  "windows_drive_form written =
     (case (case strip_prefix (lit ''/mnt/'') written of
              Some r \<Rightarrow> Some r
            | None \<Rightarrow>
                (case strip_prefix (lit ''/cygdrive/'') written of
                   Some r \<Rightarrow> Some r
                 | None \<Rightarrow> strip_prefix [47] written)) of
        None \<Rightarrow> None
      | Some [] \<Rightarrow> None
      | Some (drive # tail) \<Rightarrow>
          if \<not> is_ascii_alphabetic drive then None
          else if \<not> (tail = [] \<or> starts_with [47] tail) then None
          else Some ([to_ascii_upper drive, 58, 92] @
                     map (\<lambda>c. if c = 47 then 92 else c) (dropWhile (\<lambda>c. c = 47) tail)))"

section \<open>Tokens\<close>

definition unbalanced :: "rchar \<Rightarrow> rchar \<Rightarrow> rstring \<Rightarrow> bool" where
  "unbalanced opening closing token \<longleftrightarrow> count_list token closing > count_list token opening"

definition dropped_at_end :: "bool \<Rightarrow> rstring \<Rightarrow> bool" where
  "dropped_at_end url token =
     (let c = last token
      in if c \<in> set [46, 44, 59, 33, 63, 58] then True
         else if c = 41 then unbalanced 40 41 token
         else if c = 93 then unbalanced 91 93 token
         else if c = 125 then unbalanced 123 125 token
         else (c = 42 \<or> c = 95) \<and> \<not> url)"

function trim_end :: "bool \<Rightarrow> rstring \<Rightarrow> rstring" where
  "trim_end url token =
     (if token = [] then []
      else if dropped_at_end url token then trim_end url (butlast token)
      else token)"
  by pat_completeness auto
termination
  by (relation "measure (length \<circ> snd)") auto

declare trim_end.simps [simp del]

definition is_email :: "'a link_tables_scheme \<Rightarrow> rstring \<Rightarrow> rstring \<Rightarrow> bool" where
  "is_email U user domain \<longleftrightarrow>
     user \<noteq> [] \<and> list_all (\<lambda>c. is_alphanumeric U c \<or> c \<in> set (lit ''._%+-'')) user \<and>
     46 \<in> set domain \<and> \<not> starts_with [46] domain \<and> \<not> ends_with [46] domain \<and>
     list_all (\<lambda>c. is_alphanumeric U c \<or> c = 46 \<or> c = 45) domain"

definition email :: "'a link_tables_scheme \<Rightarrow> rstring \<Rightarrow> (rstring \<times> target) option" where
  "email U token =
     (let t = trim_end False token
      in case split_once 64 t of
           None \<Rightarrow> None
         | Some (user, domain) \<Rightarrow>
             if is_email U user domain then Some (t, Scheme (lit ''mailto:'' @ t)) else None)"

definition other_scheme :: "rstring \<Rightarrow> bool" where
  "other_scheme lower =
     (case split_once 58 lower of
        None \<Rightarrow> False
      | Some (scheme, rest) \<Rightarrow>
          list_all (\<lambda>c. is_ascii_alphanumeric c \<or> c \<in> set (lit ''+-.'')) scheme \<and>
          str_bytes scheme > 1 \<and> starts_with (lit ''//'') rest)"

definition is_web :: "rstring \<Rightarrow> bool" where
  "is_web lower \<longleftrightarrow> starts_with (lit ''http://'') lower \<or> starts_with (lit ''https://'') lower"

text \<open>The characters of the token that are the link, and its target.\<close>

definition token_target :: "'a link_tables_scheme \<Rightarrow> rstring \<Rightarrow> (rstring \<times> target) option" where
  "token_target U token =
     (let lower = lower_string U token
      in if is_web lower then
           (let url = trim_end True token
            in case find_str (lit ''://'') lower of
                 None \<Rightarrow> None
               | Some n \<Rightarrow> if str_bytes url > n + 3 then Some (url, Web url) else None)
         else if starts_with (lit ''file:'') lower then
           (let raw = trim_end True token
            in case split_position raw of
                 None \<Rightarrow> None
               | Some (uri, line, column) \<Rightarrow>
                   map_option (\<lambda>path. (raw, File path line column)) (file_uri_path uri))
         else
           (case List.find (\<lambda>s. starts_with s lower) ALLOWED_SCHEMES of
              Some scheme \<Rightarrow>
                (let t = trim_end False token
                 in if length t > str_bytes scheme then Some (t, Scheme t) else None)
            | None \<Rightarrow>
                if other_scheme lower then None
                else
                  (case email U token of
                     Some e \<Rightarrow> Some e
                   | None \<Rightarrow>
                       (let raw = trim_end False token
                        in case split_position raw of
                             None \<Rightarrow> None
                           | Some (path, line, column) \<Rightarrow>
                               if looks_like_path U path (line \<noteq> None) then Some (raw, File path line column)
                               else None))))"

definition token_link :: "'a link_tables_scheme \<Rightarrow> nat \<Rightarrow> rstring \<Rightarrow> link option" where
  "token_link U i token =
     (let lead = takeWhile (\<lambda>c. c \<in> set (lit ''([{,;'')) token;
          rest = dropWhile (\<lambda>c. c \<in> set (lit ''([{,;'')) token
      in map_option (\<lambda>(t, target). \<lparr>l_start = i + length lead, l_end = i + length lead + length t, l_target = target\<rparr>)
           (token_target U rest))"

section \<open>A line of text\<close>

definition is_quote :: "rchar \<Rightarrow> bool" where
  "is_quote c \<longleftrightarrow> c = 34 \<or> c = 39 \<or> c = 96"

definition quoted_target :: "'a link_tables_scheme \<Rightarrow> rstring \<Rightarrow> target option" where
  "quoted_target U inner =
     (if SP \<in> set inner \<and> \<not> contains_str (lit ''://'') inner then
        (case split_position inner of
           None \<Rightarrow> None
         | Some (path, line, column) \<Rightarrow>
             if looks_like_path U path (line \<noteq> None) then Some (File path line column) else None)
      else None)"

text \<open>\<open>i\<close> is the offset of the characters that are left.\<close>

function quoted :: "'a link_tables_scheme \<Rightarrow> nat \<Rightarrow> rstring \<Rightarrow> link list" where
  "quoted U i [] = []"
| "quoted U i (q # cs) =
     (if \<not> is_quote q then quoted U (Suc i) cs
      else
        (case split_once q cs of
           None \<Rightarrow> quoted U (Suc i) cs
         | Some (inner, rest) \<Rightarrow>
             (let close = i + 1 + length inner
              in (case quoted_target U inner of
                    None \<Rightarrow> []
                  | Some target \<Rightarrow> [\<lparr>l_start = i + 1, l_end = close, l_target = target\<rparr>])
                 @ quoted U (Suc close) rest)))"
  by pat_completeness auto
termination
  by (relation "measure (\<lambda>(U, i, cs). length cs)") (auto simp: split_once_Some)

definition inside_link :: "link list \<Rightarrow> nat \<Rightarrow> bool" where
  "inside_link out i \<longleftrightarrow> list_ex (\<lambda>l. l_start l \<le> i \<and> i < l_end l) out"

function tokens :: "'a link_tables_scheme \<Rightarrow> link list \<Rightarrow> nat \<Rightarrow> rstring \<Rightarrow> link list" where
  "tokens U out i [] = out"
| "tokens U out i (c # cs) =
     (if ends_token c \<or> inside_link out i then tokens U out (Suc i) cs
      else
        (let token = takeWhile (\<lambda>c. \<not> ends_token c) (c # cs);
             rest = dropWhile (\<lambda>c. \<not> ends_token c) (c # cs)
         in tokens U (case token_link U i token of None \<Rightarrow> out | Some l \<Rightarrow> out @ [l]) (i + length token) rest))"
  by pat_completeness auto
termination
  by (relation "measure (\<lambda>(U, out, i, cs). length cs)") (auto simp: le_imp_less_Suc length_dropWhile_le)

definition find_links :: "'a link_tables_scheme \<Rightarrow> rstring \<Rightarrow> link list" where
  "find_links U t = sort_by (\<lambda>a b. l_start a \<le> l_start b) (tokens U (quoted U 0 t) 0 t)"

definition classify_link :: "rstring \<Rightarrow> target option" where
  "classify_link uri =
     (let uri = trim uri; lower = map to_ascii_lower uri
      in if list_ex is_control uri then None
         else if is_web lower then
           (case find_str (lit ''://'') lower of
              None \<Rightarrow> None
            | Some n \<Rightarrow> if str_bytes uri > n + 3 then Some (Web uri) else None)
         else if starts_with (lit ''file:'') lower then
           (case split_position uri of
              None \<Rightarrow> None
            | Some (uri, line, column) \<Rightarrow> map_option (\<lambda>path. File path line column) (file_uri_path uri))
         else if list_ex (\<lambda>s. starts_with s lower) ALLOWED_SCHEMES then Some (Scheme uri)
         else None)"

section \<open>What is found\<close>

lemma trim_end_prefix: "\<exists>r. token = trim_end url token @ r"
proof (induction url token rule: trim_end.induct)
  case (1 url token)
  show ?case
  proof (cases "token \<noteq> [] \<and> dropped_at_end url token")
    case True
    then obtain r where "butlast token = trim_end url (butlast token) @ r" using 1 by blast
    with True have "token = trim_end url token @ r @ [last token]"
      by (metis append.assoc append_butlast_last_id trim_end.simps)
    then show ?thesis by blast
  qed (auto simp: trim_end.simps [of url token])
qed

lemma split_position_Nil [simp]: "split_position [] = Some ([], None, None)"
  by (simp add: split_position_def split_brackets_def rsplit_once_def eval_nat_numeral)

lemma split_position_neq_Nil: "split_position raw = Some (p, l, c) \<Longrightarrow> p \<noteq> [] \<Longrightarrow> raw \<noteq> []"
  by auto

lemma looks_like_path_plain: "looks_like_path U p b \<Longrightarrow> p \<noteq> [] \<and> \<not> list_ex is_control p"
  by (auto simp: looks_like_path_def split: if_splits)

lemma file_uri_path_plain: "file_uri_path u = Some p \<Longrightarrow> p \<noteq> [] \<and> \<not> list_ex is_control p \<and> u \<noteq> []"
  by (auto simp: file_uri_path_def Let_def split: option.splits if_splits)

text \<open>The prefixes a target may have; lower-casing in Unicode makes none of them from other letters.\<close>

definition followed :: "rstring list" where
  "followed = [lit ''http://'', lit ''https://'', lit ''mailto:'', lit ''tel:'']"

definition ascii_lowering :: "'a link_tables_scheme \<Rightarrow> bool" where
  "ascii_lowering U \<longleftrightarrow>
     (\<forall>s. \<forall>p \<in> set followed. starts_with p (lower_string U s) \<longrightarrow> starts_with p (map to_ascii_lower s))"

fun safe_target :: "target \<Rightarrow> bool" where
  "safe_target (Web url) = is_web (map to_ascii_lower url)"
| "safe_target (Scheme uri) = list_ex (\<lambda>s. starts_with s (map to_ascii_lower uri)) ALLOWED_SCHEMES"
| "safe_target (File path line column) = (path \<noteq> [] \<and> \<not> list_ex is_control path)"

lemma ascii_loweringD:
  "ascii_lowering U \<Longrightarrow> starts_with p (lower_string U s) \<Longrightarrow> p \<in> set followed \<Longrightarrow>
   starts_with p (map to_ascii_lower s)"
  unfolding ascii_lowering_def by blast

lemma to_ascii_lower_ascii: "to_ascii_lower d < 128 \<Longrightarrow> len_utf8 d = 1"
  by (auto simp: to_ascii_lower_def is_ascii_upper_def len_utf8_def split: if_splits)

lemma str_bytes_ascii:
  assumes "map to_ascii_lower s = p" "list_all (\<lambda>c. c < 128) p"
  shows "str_bytes s = length p"
  using assms by (induction s arbitrary: p) (auto simp: str_bytes_def to_ascii_lower_ascii)

text \<open>A piece that is longer than the prefix keeps it.\<close>

lemma starts_with_piece:
  assumes p: "starts_with p (map to_ascii_lower (t @ r))" "list_all (\<lambda>c. c < 128) p"
    and t: "str_bytes t > length p \<or> length t > length p"
  shows "starts_with p (map to_ascii_lower t)"
proof -
  from p(1) obtain q where q: "map to_ascii_lower t @ map to_ascii_lower r = p @ q" by (auto simp: starts_with_iff)
  then consider u where "map to_ascii_lower t = p @ u" | u where "map to_ascii_lower t @ u = p"
    by (auto simp: append_eq_append_conv2)
  then show ?thesis
  proof cases
    case 2
    then have "list_all (\<lambda>c. c < 128) (map to_ascii_lower t)" using p(2) by (metis list_all_append)
    then have "str_bytes t = length t" using str_bytes_ascii [OF refl] by simp
    moreover have "length t \<le> length p" using 2 by (metis length_append length_map le_add1)
    ultimately show ?thesis using t by simp
  qed (auto simp: starts_with_iff)
qed

lemma find_str_web:
  assumes "is_web s" "find_str (lit ''://'') s = Some n"
  shows "(starts_with (lit ''http://'') s \<and> n = 4) \<or> (starts_with (lit ''https://'') s \<and> n = 5)"
proof -
  have "starts_with (lit ''http://'') s \<Longrightarrow> n = 4" "starts_with (lit ''https://'') s \<Longrightarrow> n = 5"
    using assms(2) by (auto simp: starts_with_iff len_utf8_def starts_with_def)
  then show ?thesis using assms(1) by (auto simp: is_web_def)
qed

lemma find_Some: "List.find P xs = Some x \<Longrightarrow> P x \<and> x \<in> set xs"
  by (auto simp: find_Some_iff)

lemma token_web_safe:
  assumes U: "ascii_lowering U" and lower: "is_web (lower_string U (t @ r))"
    and n: "find_str (lit ''://'') (lower_string U (t @ r)) = Some n" "str_bytes t > n + 3"
  shows "is_web (map to_ascii_lower t)"
  using find_str_web [OF lower n(1)]
proof
  assume h: "starts_with (lit ''http://'') (lower_string U (t @ r)) \<and> n = 4"
  then have "starts_with (lit ''http://'') (map to_ascii_lower (t @ r))"
    by (intro ascii_loweringD [OF U]) (simp_all add: followed_def)
  from starts_with_piece [OF this] show ?thesis using n(2) h by (simp add: is_web_def)
next
  assume h: "starts_with (lit ''https://'') (lower_string U (t @ r)) \<and> n = 5"
  then have "starts_with (lit ''https://'') (map to_ascii_lower (t @ r))"
    by (intro ascii_loweringD [OF U]) (simp_all add: followed_def)
  from starts_with_piece [OF this] show ?thesis using n(2) h by (simp add: is_web_def)
qed

lemma token_scheme_safe:
  assumes U: "ascii_lowering U" and s: "s \<in> set ALLOWED_SCHEMES" "starts_with s (lower_string U (t @ r))"
    and t: "length t > str_bytes s"
  shows "list_ex (\<lambda>s. starts_with s (map to_ascii_lower t)) ALLOWED_SCHEMES"
proof -
  have "list_all (\<lambda>s. s \<in> set followed \<and> list_all (\<lambda>c. c < 128) s \<and> str_bytes s = length s) ALLOWED_SCHEMES"
    by code_simp
  then have f: "s \<in> set followed" and a: "list_all (\<lambda>c. c < 128) s" and l: "str_bytes s = length s"
    using s(1) unfolding list_all_iff by blast+
  have "starts_with s (map to_ascii_lower (t @ r))" by (rule ascii_loweringD [OF U s(2) f])
  then have "starts_with s (map to_ascii_lower t)" using a t [unfolded l] by (blast intro: starts_with_piece)
  then show ?thesis using s(1) by (auto simp: list_ex_iff)
qed

lemma email_Some:
  assumes "email U token = Some (t, target)"
  shows "t \<noteq> [] \<and> (\<exists>r. token = t @ r) \<and> safe_target target"
  using assms trim_end_prefix [of token False]
  by (auto simp: email_def Let_def ALLOWED_SCHEMES_def starts_with_iff to_ascii_lower_def is_ascii_upper_def
      split: option.splits prod.splits if_splits)

lemma token_target_Some:
  assumes "token_target U token = Some (t, target)"
  shows "t \<noteq> [] \<and> (\<exists>r. token = t @ r) \<and> (ascii_lowering U \<longrightarrow> safe_target target)"
proof -
  obtain r1 where r1: "token = trim_end True token @ r1" using trim_end_prefix by blast
  obtain r2 where r2: "token = trim_end False token @ r2" using trim_end_prefix by blast
  show ?thesis
  proof (cases "is_web (lower_string U token)")
    case True
    then obtain n where n: "find_str (lit ''://'') (lower_string U token) = Some n" "str_bytes t > n + 3"
      "t = trim_end True token" "target = Web t"
      using assms by (auto simp: token_target_def Let_def split: option.splits if_splits)
    then have "ascii_lowering U \<Longrightarrow> is_web (map to_ascii_lower t)"
      using token_web_safe [of U t r1 n] True r1 by simp
    moreover have "t \<noteq> []" using n(2) by (auto simp: str_bytes_def)
    ultimately show ?thesis using n(3,4) r1 by auto
  next
    case web: False
    show ?thesis
    proof (cases "starts_with (lit ''file:'') (lower_string U token)")
      case True
      then show ?thesis using assms web r1 file_uri_path_plain split_position_neq_Nil
        by (fastforce simp: token_target_def Let_def split: option.splits)
    next
      case uri: False
      show ?thesis
      proof (cases "List.find (\<lambda>s. starts_with s (lower_string U token)) ALLOWED_SCHEMES")
        case (Some s)
        then have t: "t = trim_end False token" "target = Scheme t" "length t > str_bytes s"
          using assms web uri by (auto simp: token_target_def Let_def split: if_splits)
        then have "ascii_lowering U \<Longrightarrow> safe_target target"
          using token_scheme_safe [of U s t r2] find_Some [OF Some] r2 by simp
        then show ?thesis using t r2 by auto
      next
        case None
        then show ?thesis using assms web uri r2 email_Some [of U token t target] looks_like_path_plain split_position_neq_Nil
          by (fastforce simp: token_target_def Let_def split: option.splits if_splits)
      qed
    qed
  qed
qed

section \<open>Links do not overlap\<close>

lemma token_link_Some:
  assumes "token_link U i token = Some l"
  shows "i \<le> l_start l \<and> l_start l < l_end l \<and> l_end l \<le> i + length token \<and> (ascii_lowering U \<longrightarrow> safe_target (l_target l))"
proof -
  let ?lead = "takeWhile (\<lambda>c. c \<in> set (lit ''([{,;'')) token"
  let ?rest = "dropWhile (\<lambda>c. c \<in> set (lit ''([{,;'')) token"
  obtain t target where t: "token_target U ?rest = Some (t, target)"
    and l: "l = \<lparr>l_start = i + length ?lead, l_end = i + length ?lead + length t, l_target = target\<rparr>"
    using assms by (auto simp: token_link_def Let_def simp del: lit_Cons)
  obtain r where "?rest = t @ r" "t \<noteq> []" "ascii_lowering U \<longrightarrow> safe_target target"
    using token_target_Some [OF t] by blast
  moreover have "length token = length ?lead + length ?rest" by (metis length_append takeWhile_dropWhile_id)
  ultimately show ?thesis using l by (cases t) auto
qed

text \<open>A quoted link stands between two quotes, the first at or after \<open>i\<close>.\<close>

definition between_quotes :: "nat \<Rightarrow> rstring \<Rightarrow> nat \<Rightarrow> link \<Rightarrow> bool" where
  "between_quotes n t i l \<longleftrightarrow>
     i < l_start l \<and> l_start l < l_end l \<and> l_end l < n + length t \<and> n < l_start l \<and>
     is_quote (t ! (l_start l - 1 - n))"

definition links_apart :: "link \<Rightarrow> link \<Rightarrow> bool" where
  "links_apart a b \<longleftrightarrow> l_end a \<le> l_start b \<or> l_end b \<le> l_start a"

lemma links_apart_sym: "links_apart a b = links_apart b a"
  by (auto simp: links_apart_def)

lemma quoted_target_Some: "quoted_target U inner = Some t \<Longrightarrow> inner \<noteq> [] \<and> safe_target t"
  using looks_like_path_plain by (fastforce simp: quoted_target_def split: if_splits option.splits prod.splits)

lemma between_quotes_shift:
  "between_quotes (n + length p) t i l \<Longrightarrow> between_quotes n (p @ t) i l"
proof -
  assume b: "between_quotes (n + length p) t i l"
  have "l_start l - 1 - n = length p + (l_start l - 1 - (n + length p))" using b by (simp add: between_quotes_def)
  then have "(p @ t) ! (l_start l - 1 - n) = t ! (l_start l - 1 - (n + length p))" by (metis nth_append_length_plus)
  with b show ?thesis by (auto simp: between_quotes_def)
qed

lemma quoted_links:
  "(\<forall>l \<in> set (quoted U i t). between_quotes i t i l \<and> safe_target (l_target l)) \<and> sorted_wrt links_apart (quoted U i t)"
proof (induction U i t rule: quoted.induct)
  case (2 U i q cs)
  have step: "between_quotes (Suc i) cs (Suc i) l \<Longrightarrow> between_quotes i (q # cs) i l" for l
    using between_quotes_shift [of i "[q]" cs "Suc i" l] by (simp add: between_quotes_def)
  show ?case
  proof (cases "is_quote q")
    case False
    then show ?thesis using 2(1) step by simp
  next
    case quote: True
    show ?thesis
    proof (cases "split_once q cs")
      case None
      then show ?thesis using 2(2) quote step by simp
    next
      case (Some x)
      then obtain inner rest where x: "split_once q cs = Some (inner, rest)" by (cases x) auto
      then have cs: "cs = inner @ q # rest" by (simp add: split_once_Some)
      let ?c = "i + 1 + length inner"
      have IH: "\<forall>l \<in> set (quoted U (Suc ?c) rest). between_quotes (Suc ?c) rest (Suc ?c) l \<and> safe_target (l_target l)"
        "sorted_wrt links_apart (quoted U (Suc ?c) rest)"
        using 2(3) [OF _ x refl] quote by auto
      have later: "between_quotes i (q # cs) i l \<and> ?c < l_start l" if "between_quotes (Suc ?c) rest (Suc ?c) l" for l
        using between_quotes_shift [of i "q # inner @ [q]" rest "Suc ?c" l] that cs by (simp add: between_quotes_def)
      show ?thesis
      proof (cases "quoted_target U inner")
        case None
        then show ?thesis using IH later quote x by (simp add: Let_def)
      next
        case (Some t)
        then have t: "inner \<noteq> []" "safe_target t" using quoted_target_Some by blast+
        let ?l = "\<lparr>l_start = i + 1, l_end = ?c, l_target = t\<rparr>"
        have "between_quotes i (q # cs) i ?l" using t cs quote by (simp add: between_quotes_def)
        moreover have "\<forall>l \<in> set (quoted U (Suc ?c) rest). links_apart ?l l" using IH(1) later by (force simp: links_apart_def)
        moreover have "quoted U i (q # cs) = ?l # quoted U (Suc ?c) rest" using quote x Some by (simp add: Let_def)
        ultimately show ?thesis using t IH later by simp
      qed
    qed
  qed
qed simp

text \<open>What the search for tokens keeps: \<open>i\<close> is where it stands in the line \<open>full\<close>.\<close>

definition tokens_inv :: "rstring \<Rightarrow> nat \<Rightarrow> link list \<Rightarrow> bool" where
  "tokens_inv full i out \<longleftrightarrow>
     sorted_wrt links_apart out \<and>
     (\<forall>l \<in> set out. l_start l < l_end l \<and> l_end l \<le> length full \<and>
        (i \<le> l_start l \<longrightarrow> 0 < l_start l \<and> ends_token (full ! (l_start l - 1))))"

lemma tokens_inv_mono: "tokens_inv full i out \<Longrightarrow> i \<le> j \<Longrightarrow> tokens_inv full j out"
  by (auto simp: tokens_inv_def)

lemma tokens_inv_add:
  assumes inv: "tokens_inv full i out" and c: "\<not> inside_link out i"
    and l: "i \<le> l_start l" "l_start l < l_end l" "l_end l \<le> j" "j \<le> length full"
    and tok: "\<And>k. i \<le> k \<Longrightarrow> k < j \<Longrightarrow> \<not> ends_token (full ! k)"
  shows "tokens_inv full j (out @ [l])"
proof -
  have "links_apart m l" if m: "m \<in> set out" for m
  proof (cases "i \<le> l_start m")
    case True
    then have "0 < l_start m" "ends_token (full ! (l_start m - 1))" using inv m by (auto simp: tokens_inv_def)
    then have "j \<le> l_start m - 1 \<or> l_start m - 1 < i" using tok [of "l_start m - 1"] by (meson not_le)
    moreover have "l_start m \<noteq> i" using c m inv by (auto simp: inside_link_def list_ex_iff tokens_inv_def)
    ultimately have "j \<le> l_start m" using True \<open>0 < l_start m\<close> by linarith
    then show ?thesis using l(3) by (simp add: links_apart_def)
  next
    case False
    then have "l_end m \<le> i" using c m by (auto simp: inside_link_def list_ex_iff not_less)
    then show ?thesis using l(1) by (simp add: links_apart_def)
  qed
  then show ?thesis using inv l by (auto simp: tokens_inv_def sorted_wrt_append)
qed

lemma tokens_links:
  assumes "tokens_inv (p @ t) (length p) out" "ascii_lowering U \<longrightarrow> (\<forall>l \<in> set out. safe_target (l_target l))"
  shows "tokens_inv (p @ t) (length p + length t) (tokens U out (length p) t)
    \<and> (ascii_lowering U \<longrightarrow> (\<forall>l \<in> set (tokens U out (length p) t). safe_target (l_target l)))"
  using assms
proof (induction U out "length p" t arbitrary: p rule: tokens.induct)
  case (2 U out c cs)
  show ?case
  proof (cases "ends_token c \<or> inside_link out (length p)")
    case True
    then show ?thesis using 2(1) [OF True, of "p @ [c]"] 2(3,4) tokens_inv_mono [of "p @ c # cs" "length p" out "Suc (length p)"]
      by simp
  next
    case False
    define token where "token = takeWhile (\<lambda>c. \<not> ends_token c) (c # cs)"
    define rest where "rest = dropWhile (\<lambda>c. \<not> ends_token c) (c # cs)"
    define out' where "out' = (case token_link U (length p) token of None \<Rightarrow> out | Some l \<Rightarrow> out @ [l])"
    have split: "c # cs = token @ rest" unfolding token_def rest_def by (rule takeWhile_dropWhile_id [symmetric])
    have tok: "\<not> ends_token ((p @ c # cs) ! k)" if "length p \<le> k" "k < length p + length token" for k
    proof -
      have "k - length p < length token" using that by linarith
      then have k: "(p @ c # cs) ! k = token ! (k - length p)" using that(1) unfolding split by (simp add: nth_append)
      have "token ! (k - length p) \<in> set token" using that by (intro nth_mem) simp
      then show ?thesis unfolding k token_def using set_takeWhileD by fast
    qed
    have inv: "tokens_inv (p @ c # cs) (length p + length token) out'"
    proof (cases "token_link U (length p) token")
      case None
      then show ?thesis using 2(3) tokens_inv_mono by (simp add: out'_def)
    next
      case (Some l)
      have "length p + length token \<le> length (p @ c # cs)" unfolding split by simp
      then show ?thesis using tokens_inv_add [OF 2(3) _ _ _ _ _ tok] token_link_Some [OF Some] False Some
        by (simp add: out'_def)
    qed
    have safe: "ascii_lowering U \<longrightarrow> (\<forall>l \<in> set out'. safe_target (l_target l))"
      using 2(4) token_link_Some unfolding out'_def by (fastforce split: option.splits)
    have T: "tokens U out (length p) (c # cs) = tokens U out' (length (p @ token)) rest"
      using False unfolding token_def rest_def out'_def by (simp add: Let_def)
    have e: "p @ c # cs = (p @ token) @ rest" "length p + length (c # cs) = length (p @ token) + length rest"
      unfolding split by simp_all
    have "length p + length token = length (p @ token)" by simp
    note IH = 2(2) [OF False token_def rest_def this, folded out'_def]
    have "tokens_inv ((p @ token) @ rest) (length (p @ token)) out'" using inv unfolding e(1) by simp
    then show ?thesis unfolding T e using IH safe by blast
  qed
qed simp

lemma insert_by_sym:
  assumes "\<And>a b. R a b = R b a"
  shows "sorted_wrt R (insert_by le x xs) \<longleftrightarrow> (\<forall>y \<in> set xs. R x y) \<and> sorted_wrt R xs"
  using assms by (induction xs) auto

lemma sort_by_sym:
  assumes "\<And>a b. R a b = R b a"
  shows "sorted_wrt R (sort_by le xs) = sorted_wrt R xs"
  by (induction xs) (simp_all add: insert_by_sym [where R = R, OF assms])

lemma find_links_inv:
  "tokens_inv t (length t) (find_links U t) \<and> (ascii_lowering U \<longrightarrow> (\<forall>l \<in> set (find_links U t). safe_target (l_target l)))"
proof -
  have "is_quote c \<Longrightarrow> ends_token c" for c by (auto simp: is_quote_def ends_token_def)
  then have "tokens_inv ([] @ t) (length ([] :: rstring)) (quoted U 0 t)"
    using quoted_links [of U 0 t] by (fastforce simp: tokens_inv_def between_quotes_def)
  from tokens_links [OF this] have "tokens_inv t (length t) (tokens U (quoted U 0 t) 0 t)
    \<and> (ascii_lowering U \<longrightarrow> (\<forall>l \<in> set (tokens U (quoted U 0 t) 0 t). safe_target (l_target l)))"
    using quoted_links [of U 0 t] by simp
  then show ?thesis by (simp add: tokens_inv_def find_links_def sort_by_sym [where R = links_apart, OF links_apart_sym])
qed

lemma links_apart_sorted:
  assumes "sorted_wrt links_apart ls" "sorted_wrt (\<lambda>a b. l_start a \<le> l_start b) ls" "\<forall>l \<in> set ls. l_start l < l_end l"
  shows "sorted_wrt (\<lambda>a b. l_end a \<le> l_start b) ls"
  using assms by (induction ls) (fastforce simp: links_apart_def)+

lemma find_links_sorted: "sorted_wrt (\<lambda>a b. l_end a \<le> l_start b) (find_links U t)"
proof -
  have a: "sorted_wrt links_apart (find_links U t)" "\<forall>l \<in> set (find_links U t). l_start l < l_end l"
    using find_links_inv [of t U] by (auto simp: tokens_inv_def)
  have "sorted_wrt (\<lambda>a b. l_start a \<le> l_start b) (find_links U t)"
    unfolding find_links_def by (rule sorted_sort_by) auto
  then show ?thesis using a links_apart_sorted by blast
qed

section \<open>Explicit targets\<close>

lemma classify_link_safe: "classify_link s = Some t \<Longrightarrow> safe_target t"
  using file_uri_path_plain
  by (auto simp: classify_link_def Let_def split: if_splits option.splits)

section \<open>Positions read back\<close>

lemma number_show: "n < 2 ^ 32 \<Longrightarrow> number (show_nat n) = Some n"
  by (simp add: number_def show_nat_digits)

lemma rsplit_once_show: "\<not> is_ascii_digit c \<Longrightarrow> rsplit_once c (p @ c # show_nat n) = Some (p, show_nat n)"
  by (simp add: rsplit_once_Some show_nat_no)

lemma split_brackets_show: "split_brackets (p @ show_nat n) = None"
proof -
  have "41 \<notin> set (show_nat n)" by (rule show_nat_no) (simp add: is_ascii_digit_def)
  then have "last (show_nat n) \<noteq> 41" by (metis last_in_set show_nat_neq_Nil)
  then have "\<not> ends_with [41] (p @ show_nat n)" by (auto simp: ends_with_iff) (metis last_appendR last_snoc show_nat_neq_Nil)
  then show ?thesis by (auto simp: split_brackets_def split: option.split)
qed

lemma split_position_line_column:
  assumes "p \<noteq> []" "l < 2 ^ 32" "c < 2 ^ 32"
  shows "split_position (p @ 58 # show_nat l @ 58 # show_nat c) = Some (p, Some l, Some c)"
proof -
  have d: "\<not> is_ascii_digit 58" by (simp add: is_ascii_digit_def)
  have b: "split_brackets (p @ 58 # show_nat l @ 58 # show_nat c) = None"
    using split_brackets_show [of "p @ 58 # show_nat l @ [58]" c] by simp
  have "rsplit_once 58 ((p @ 58 # show_nat l) @ 58 # show_nat c) = Some (p @ 58 # show_nat l, show_nat c)"
    by (rule rsplit_once_show [OF d])
  then have "strip_numbers (Suc (Suc 0)) (p @ 58 # show_nat l @ 58 # show_nat c) [] = (p, [l, c])"
    using assms(2,3) rsplit_once_show [OF d, of p l] by (simp add: number_show)
  then have n: "strip_numbers 2 (p @ 58 # show_nat l @ 58 # show_nat c) [] = (p, [l, c])"
    by (simp only: numeral_2_eq_2)
  show ?thesis using assms(1) unfolding split_position_def b n by (simp add: nth_opt_def)
qed
end
