(* ===== verification/Osc7.thy ===== *)
theory Osc7
  imports Links
begin

text \<open>
  Directory reports (OSC 7, \<open>throng-app/src/term/osc7.rs\<close>): the scanner that finds them in output
  arriving in pieces, and the directory of this machine that a report names. A report whose start
  was seen is found wherever the pieces end; a plain path is reported as it is written, but one that
  ends like a position in a file loses that end.
\<close>

section \<open>The scanner\<close>

definition OSC7_LIMIT :: nat where
  "OSC7_LIMIT = 4096"

definition OSC7_START :: "byte list" where
  "OSC7_START = [27, 93, 55, 59]"

record osc7 =
  o_partial :: "byte list option"
  o_escape :: bool

definition osc7_default :: osc7 where
  "osc7_default = \<lparr>o_partial = None, o_escape = False\<rparr>"

text \<open>What follows the first introducer.\<close>

fun after_start :: "byte list \<Rightarrow> byte list option" where
  "after_start [] = None"
| "after_start (b # bs) =
     (case strip_prefix OSC7_START (b # bs) of Some rest \<Rightarrow> Some rest | None \<Rightarrow> after_start bs)"

lemma length_after_start: "after_start bs = Some rest \<Longrightarrow> length rest + length OSC7_START \<le> length bs"
proof (induction bs)
  case (Cons b bs)
  show ?case
  proof (cases "strip_prefix OSC7_START (b # bs)")
    case (Some r)
    then have "r = rest" using Cons.prems by simp
    moreover have "b # bs = OSC7_START @ r" using Some unfolding strip_prefix_Some .
    ultimately have "b # bs = OSC7_START @ rest" by simp
    then show ?thesis by (metis add.commute length_append order_refl)
  qed (use Cons in simp)
qed simp

lemma after_start_shorter: "after_start bs = Some rest \<Longrightarrow> length rest < length bs"
  using length_after_start by (fastforce simp: OSC7_START_def)

text \<open>One byte of a report that has begun: the scanner after it, and the report when it ended.\<close>

definition osc7_byte :: "byte \<Rightarrow> byte list \<Rightarrow> bool \<Rightarrow> osc7 \<times> rstring option option" where
  "osc7_byte b partial escape =
     (if b = 0x07 \<or> (escape \<and> b = 92) then
        (\<lparr>o_partial = None, o_escape = False\<rparr>,
         Some (case from_utf8 (if escape then butlast partial else partial) of Inl e \<Rightarrow> None | Inr s \<Rightarrow> Some s))
      else if length (partial @ [b]) > OSC7_LIMIT then (\<lparr>o_partial = None, o_escape = False\<rparr>, None)
      else (\<lparr>o_partial = Some (partial @ [b]), o_escape = (b = 0x1b)\<rparr>, None))"

function osc7_loop :: "byte list \<Rightarrow> osc7 \<Rightarrow> rstring option \<Rightarrow> rstring option \<times> osc7" where
  "osc7_loop [] st found = (found, st)"
| "osc7_loop (b # bs) st found =
     (case o_partial st of
        Some partial \<Rightarrow>
          (case osc7_byte b partial (o_escape st) of
             (st', ended) \<Rightarrow> osc7_loop bs st' (case ended of None \<Rightarrow> found | Some r \<Rightarrow> r))
      | None \<Rightarrow>
          (case after_start (b # bs) of
             None \<Rightarrow> (found, st)
           | Some rest \<Rightarrow> osc7_loop rest \<lparr>o_partial = Some [], o_escape = False\<rparr> found))"
  by pat_completeness auto
termination
  by (relation "measure (\<lambda>(bs, st, found). length bs)") (auto dest: after_start_shorter simp del: after_start.simps)

definition osc7_scan :: "byte list \<Rightarrow> osc7 \<Rightarrow> rstring option \<times> osc7" where
  "osc7_scan data st = osc7_loop data st None"

definition local_directory :: "rstring \<Rightarrow> rstring option \<Rightarrow> path option" where
  "local_directory uri hostname =
     (case strip_prefix (lit ''file://'') uri of
        None \<Rightarrow> None
      | Some rest \<Rightarrow>
          if 47 \<notin> set rest then None
          else
            (let host = takeWhile (\<lambda>c. c \<noteq> 47) rest;
                 path = dropWhile (\<lambda>c. c \<noteq> 47) rest;
                 is_local = (host = [] \<or> map to_ascii_lower host = lit ''localhost''
                   \<or> (case hostname of None \<Rightarrow> False | Some h \<Rightarrow> map to_ascii_lower host = map to_ascii_lower h))
             in if \<not> is_local then None
                else case classify_link (lit ''file://'' @ path) of
                       Some (File path line column) \<Rightarrow> Some path
                     | _ \<Rightarrow> None))"

section \<open>Reports in pieces\<close>

lemma strip_prefix_longer:
  "length p \<le> length s \<Longrightarrow> strip_prefix p (s @ t) = map_option (\<lambda>r. r @ t) (strip_prefix p s)"
  by (induction p s rule: strip_prefix.induct) auto

lemma after_start_append: "after_start cs = Some rest \<Longrightarrow> after_start (cs @ ds) = Some (rest @ ds)"
proof (induction cs)
  case (Cons c cs)
  then have "length OSC7_START \<le> length (c # cs)" using length_after_start [OF Cons.prems] by simp
  from strip_prefix_longer [OF this, of ds] show ?case
    using Cons by (cases "strip_prefix OSC7_START (c # cs)") simp_all
qed simp

text \<open>Cutting the output inside a report changes nothing.\<close>

lemma osc7_loop_append:
  assumes "osc7_loop a st found = (f, st')" "o_partial st' \<noteq> None"
  shows "osc7_loop (a @ b) st found = osc7_loop b st' f"
  using assms
proof (induction a st found rule: osc7_loop.induct)
  case (2 x bs st found)
  show ?case
  proof (cases "o_partial st")
    case (Some partial)
    then show ?thesis using 2 by (cases "osc7_byte x partial (o_escape st)") simp
  next
    case None
    show ?thesis
    proof (cases "after_start (x # bs)")
      case (Some rest)
      then show ?thesis using 2 None after_start_append [OF Some, of b] by (simp del: after_start.simps)
    qed (use 2 None in \<open>simp del: after_start.simps\<close>)
  qed
qed simp

definition clean_report :: "byte list \<Rightarrow> bool" where
  "clean_report bs \<longleftrightarrow> list_all (\<lambda>b. b \<noteq> 0x07 \<and> b \<noteq> 0x1b) bs"

lemma osc7_loop_partial:
  assumes "clean_report bs" "length partial + length bs \<le> OSC7_LIMIT"
  shows "osc7_loop bs \<lparr>o_partial = Some partial, o_escape = False\<rparr> found
    = (found, \<lparr>o_partial = Some (partial @ bs), o_escape = False\<rparr>)"
  using assms by (induction bs arbitrary: partial) (simp_all add: osc7_byte_def clean_report_def)

lemma osc7_loop_end:
  assumes "is_str uri"
  shows "osc7_loop (7 # post) \<lparr>o_partial = Some (utf8 uri), o_escape = False\<rparr> found = osc7_loop post osc7_default (Some uri)"
  using assms by (simp add: osc7_byte_def osc7_default_def from_utf8_encoded)

lemma osc7_loop_none: "after_start bs = None \<Longrightarrow> osc7_loop bs osc7_default found = (found, osc7_default)"
  by (cases bs) (simp_all add: osc7_default_def del: after_start.simps)

lemma osc7_loop_start:
  assumes "after_start (pre @ OSC7_START @ bs) = Some bs"
  shows "osc7_loop (pre @ OSC7_START @ bs) osc7_default found = osc7_loop bs \<lparr>o_partial = Some [], o_escape = False\<rparr> found"
proof -
  have "pre @ OSC7_START @ bs \<noteq> []" by (simp add: OSC7_START_def)
  then obtain x xs where x: "pre @ OSC7_START @ bs = x # xs" by (cases "pre @ OSC7_START @ bs") auto
  show ?thesis using assms unfolding x by (simp add: osc7_default_def del: after_start.simps)
qed

lemma after_start_first: "27 \<notin> set pre \<Longrightarrow> after_start (pre @ OSC7_START @ bs) = Some bs"
  by (induction pre) (simp_all add: OSC7_START_def)

lemma osc7_pieces:
  assumes "27 \<notin> set pre" "is_str uri" "clean_report (utf8 uri)" "length (utf8 uri) \<le> OSC7_LIMIT" "k \<le> length (utf8 uri)"
    and "after_start post = None"
  shows "\<exists>st. osc7_scan (pre @ OSC7_START @ take k (utf8 uri)) osc7_default = (None, st)
     \<and> osc7_scan (drop k (utf8 uri) @ 7 # post) st = (Some uri, osc7_default)"
proof -
  let ?t = "take k (utf8 uri)" and ?d = "drop k (utf8 uri)"
  let ?st = "\<lparr>o_partial = Some ?t, o_escape = False\<rparr>"
  have c: "clean_report ?t" "clean_report ?d" using assms(3) by (auto simp: clean_report_def list_all_iff dest: in_set_takeD in_set_dropD)
  have "osc7_scan (pre @ OSC7_START @ ?t) osc7_default = (None, ?st)"
    using osc7_loop_start [OF after_start_first [OF assms(1)]] osc7_loop_partial [OF c(1), of "[]"] assms(4)
    by (simp add: osc7_scan_def)
  moreover have "osc7_loop ?d ?st None = (None, \<lparr>o_partial = Some (utf8 uri), o_escape = False\<rparr>)"
    using osc7_loop_partial [OF c(2), of ?t] assms(4,5) by simp
  then have "osc7_scan (?d @ 7 # post) ?st = (Some uri, osc7_default)"
    using osc7_loop_append [of ?d ?st None] osc7_loop_end [OF assms(2)] osc7_loop_none [OF assms(6)]
    by (simp add: osc7_scan_def)
  ultimately show ?thesis by blast
qed

section \<open>The directory of a report\<close>

lemma utf8_char_ascii_byte:
  assumes "is_scalar c" "b \<in> set (utf8_char c)" "unat b < 128"
  shows "c = unat b"
proof (cases "c < 128")
  case True
  then show ?thesis using assms(2) by (simp add: utf8_char_def)
next
  case False
  have "128 \<le> unat (cont_byte n)" for n by simp
  moreover have "c < 0x110000" using assms(1) by (auto simp: is_scalar_def)
  then have "c < 0x800 \<Longrightarrow> 128 \<le> unat (to_byte (0xC0 + c div 64))" "c < 0x10000 \<Longrightarrow> 128 \<le> unat (to_byte (0xE0 + c div 4096))"
    "128 \<le> unat (to_byte (0xF0 + c div 262144))"
    by (subst unat_to_byte; linarith)+
  ultimately show ?thesis using False assms(2,3) by (auto simp: utf8_char_def split: if_splits)
qed

lemma percent_bytes_plain: "37 \<notin> set bs \<Longrightarrow> percent_bytes bs = Some bs"
  by (induction bs) auto

lemma percent_decode_plain:
  assumes "is_str s" "37 \<notin> set s"
  shows "percent_decode s = Some s"
proof -
  have "37 \<notin> set (utf8 s)"
  proof
    assume "37 \<in> set (utf8 s)"
    then obtain c where "c \<in> set s" "37 \<in> set (utf8_char c)" by (auto simp: utf8_def)
    then have "c = 37" using utf8_char_ascii_byte [of c 37] assms(1) by (auto simp: list_all_iff)
    then show False using \<open>c \<in> set s\<close> assms(2) by simp
  qed
  then show ?thesis using assms(1) by (simp add: percent_decode_def percent_bytes_plain from_utf8_encoded)
qed

definition plain_path :: "path \<Rightarrow> bool" where
  "plain_path p \<longleftrightarrow>
     is_str p \<and> starts_with [47] p \<and> \<not> is_whitespace (last p) \<and>
     list_all (\<lambda>c. \<not> is_control c \<and> c \<notin> {37, 40, 58}) p"

lemma plain_path_uri:
  assumes "plain_path p"
  shows "file_uri_path (lit ''file://'' @ p) = Some p"
proof -
  obtain q where q: "p = 47 # q" using assms by (auto simp: plain_path_def starts_with_iff)
  have d: "percent_decode (47 # 47 # p) = Some (47 # 47 # p)"
    using assms by (intro percent_decode_plain) (auto simp: plain_path_def is_scalar_def list_all_iff)
  have w: "without_host (47 # 47 # p) = p" using q by (simp add: without_host_def)
  have "58 \<notin> set p" "\<not> list_ex is_control p" using assms by (auto simp: plain_path_def list_all_iff list_ex_iff)
  then have "drive_path p = p" "\<not> list_ex is_control p"
    by (auto simp: drive_path_def split: list.split)
  then show ?thesis using d w q by (simp add: file_uri_path_def len_utf8_def)
qed

lemma classify_file:
  assumes "list_all (\<lambda>c. \<not> is_control c) p" "p \<noteq> []" "\<not> is_whitespace (last p)"
    and "split_position (lit ''file://'' @ p) = Some (uri, line, column)" "file_uri_path uri = Some path"
  shows "classify_link (lit ''file://'' @ p) = Some (File path line column)"
proof -
  have t: "trim (lit ''file://'' @ p) = lit ''file://'' @ p"
    by (rule trim_id) (use assms(2,3) in \<open>simp_all add: is_whitespace_def\<close>)
  have "\<not> list_ex is_control (lit ''file://'' @ p)" using assms(1) by (simp add: list_all_iff list_ex_iff is_control_def)
  moreover have "\<not> is_web (map to_ascii_lower (lit ''file://'' @ p))" "starts_with (lit ''file:'') (map to_ascii_lower (lit ''file://'' @ p))"
    by (simp_all add: is_web_def starts_with_def to_ascii_lower_def is_ascii_upper_def)
  ultimately show ?thesis using assms(4,5) unfolding classify_link_def t Let_def by simp
qed

lemma number_slash: "number (47 # s) = None"
  by (simp add: number_def is_ascii_digit_def)

lemma plain_position:
  assumes "plain_path p"
  shows "split_position (lit ''file://'' @ p) = Some (lit ''file://'' @ p, None, None)"
proof -
  have n: "40 \<notin> set p" "58 \<notin> set p" using assms by (auto simp: plain_path_def list_all_iff)
  have "rsplit_once 40 (lit ''file://'' @ p) = None"
  proof (cases "rsplit_once 40 (lit ''file://'' @ p)")
    case (Some x)
    obtain a b where "lit ''file://'' @ p = a @ 40 # b" using Some by (cases x) (auto simp: rsplit_once_Some)
    then have "40 \<in> set (lit ''file://'' @ p)" by simp
    then show ?thesis using n by simp
  qed simp
  then have b: "split_brackets (lit ''file://'' @ p) = None" by (simp add: split_brackets_def)
  have r: "rsplit_once 58 (lit ''file://'' @ p) = Some (lit ''file'', 47 # 47 # p)"
    using n by (simp add: rsplit_once_Some)
  have "strip_numbers (Suc (Suc 0)) (lit ''file://'' @ p) [] = (lit ''file://'' @ p, [])"
    unfolding strip_numbers.simps r by (simp add: number_slash)
  then have s: "strip_numbers 2 (lit ''file://'' @ p) [] = (lit ''file://'' @ p, [])" by (simp only: numeral_2_eq_2)
  show ?thesis unfolding split_position_def b s by (simp add: nth_opt_def)
qed

lemma bracket_position:
  assumes "n < 2 ^ 32"
  shows "split_position (lit ''file://'' @ p @ 40 # show_nat n @ [41]) = Some (lit ''file://'' @ p, Some n, None)"
proof -
  have no: "c \<notin> set (show_nat n)" if "\<not> is_ascii_digit c" for c by (rule show_nat_no [OF that])
  have "rsplit_once 40 ((lit ''file://'' @ p) @ 40 # (show_nat n @ [41])) = Some (lit ''file://'' @ p, show_nat n @ [41])"
    unfolding rsplit_once_Some using no [of 40] by (simp add: is_ascii_digit_def)
  then have r: "rsplit_once 40 (lit ''file://'' @ p @ 40 # show_nat n @ [41]) = Some (lit ''file://'' @ p, show_nat n @ [41])"
    by simp
  have s: "split_once 44 (show_nat n) = None"
  proof (cases "split_once 44 (show_nat n)")
    case (Some x)
    then have "44 \<in> set (show_nat n)" by (cases x) (auto simp: split_once_Some)
    then show ?thesis using no [of 44] by (simp add: is_ascii_digit_def)
  qed simp
  have "is_ascii_digit c \<Longrightarrow> \<not> is_whitespace c" for c by (auto simp: is_ascii_digit_def is_whitespace_def)
  then have "trim (show_nat n) = show_nat n"
    using show_nat_digits [of n] by (intro trim_id) (auto simp: list_all_iff)
  moreover have "ends_with [41] (lit ''file://'' @ p @ 40 # show_nat n @ [41])" by (auto simp: ends_with_iff intro: exI [of _ "lit ''file://'' @ p @ 40 # show_nat n"])
  ultimately show ?thesis unfolding split_position_def split_brackets_def r using assms s by (simp add: number_show)
qed

lemma local_directory_plain:
  assumes "plain_path p"
  shows "local_directory (lit ''file://'' @ p) h = Some p"
proof -
  obtain q where q: "p = 47 # q" using assms by (auto simp: plain_path_def starts_with_iff)
  have "classify_link (lit ''file://'' @ p) = Some (File p None None)"
    using assms q by (intro classify_file [OF _ _ _ plain_position [OF assms] plain_path_uri [OF assms]])
      (auto simp: plain_path_def list_all_iff)
  then show ?thesis using q by (simp add: local_directory_def Let_def)
qed

lemma local_directory_cut:
  assumes "plain_path p" "n < 2 ^ 32"
  shows "local_directory (lit ''file://'' @ p @ 40 # show_nat n @ [41]) h = Some p"
proof -
  obtain q where q: "p = 47 # q" using assms by (auto simp: plain_path_def starts_with_iff)
  have "is_ascii_digit c \<Longrightarrow> \<not> is_control c" for c by (auto simp: is_ascii_digit_def is_control_def)
  then have "list_all (\<lambda>c. \<not> is_control c) (p @ 40 # show_nat n @ [41])"
    using assms(1) show_nat_digits [of n] by (auto simp: plain_path_def list_all_iff is_control_def)
  then have "classify_link (lit ''file://'' @ p @ 40 # show_nat n @ [41]) = Some (File p (Some n) None)"
    by (intro classify_file [OF _ _ _ bracket_position [OF assms(2)] plain_path_uri [OF assms(1)]])
      (simp_all add: is_whitespace_def)
  then show ?thesis using q by (simp add: local_directory_def Let_def)
qed

end
