(* ===== verification/TermView.thy ===== *)
theory TermView
  imports DaemonInv Osc7
begin

text \<open>
  A terminal as a client shows it (\<open>TerminalView\<close> of \<open>throng-app/src/term/mod.rs\<close>): the bytes fed to
  the emulator and how far they reach. Between a session and its view lie the client's queue and the
  wire; however attaching, output and the writer interleave, the view shows the session's output
  without a gap and without a repeat, or has been told to attach again.
\<close>

section \<open>The view\<close>

datatype status = Connecting | Running | HasExited exit_status | Failed rstring | Dormant

record terminal_view =
  tv_fed :: "byte list"
  tv_seen_until :: "64 word"
  tv_status :: status
  tv_elevated :: bool
  tv_size :: "16 word \<times> 16 word"
  tv_cwd :: "path option"
  tv_process_cwd :: "path option"
  tv_reported :: "path option"
  tv_osc7 :: osc7

definition view_new :: terminal_view where
  "view_new = \<lparr>tv_fed = [], tv_seen_until = 0, tv_status = Connecting, tv_elevated = False, tv_size = (80, 24),
     tv_cwd = None, tv_process_cwd = None, tv_reported = None, tv_osc7 = osc7_default\<rparr>"

definition scan_reports :: "rstring option \<Rightarrow> byte list \<Rightarrow> terminal_view \<Rightarrow> terminal_view" where
  "scan_reports host data v =
     (case osc7_scan data (tv_osc7 v) of
        (found, st) \<Rightarrow>
          (let v' = v\<lparr>tv_osc7 := st\<rparr>
           in case Option.bind found (\<lambda>uri. local_directory uri host) of
                None \<Rightarrow> v'
              | Some dir \<Rightarrow> v'\<lparr>tv_reported := Some dir\<rparr>))"

lemma scan_reports_fields [simp]:
  "tv_fed (scan_reports host data v) = tv_fed v" "tv_seen_until (scan_reports host data v) = tv_seen_until v"
  by (simp_all add: scan_reports_def Let_def split: prod.split option.split)

lemma scan_reports_none:
  "after_start data = None \<Longrightarrow> tv_osc7 v = osc7_default \<Longrightarrow> scan_reports host data v = v"
  by (simp add: scan_reports_def osc7_scan_def osc7_loop_none)

definition apply_snapshot :: "rstring option \<Rightarrow> snapshot \<Rightarrow> terminal_view \<Rightarrow> terminal_view" where
  "apply_snapshot host sn v =
     (scan_reports host (sn_tail sn) (v\<lparr>tv_fed := sn_tail sn\<rparr>))
       \<lparr>tv_seen_until := of_nat (sn_end_offset sn), tv_elevated := sn_elevated sn,
        tv_status := (case sn_exited sn of Some st \<Rightarrow> HasExited st | None \<Rightarrow> Running)\<rparr>"

definition feed :: "rstring option \<Rightarrow> 64 word \<Rightarrow> byte list \<Rightarrow> terminal_view \<Rightarrow> terminal_view" where
  "feed host offset data v =
     (let fresh = unseen offset data (tv_seen_until v);
          v1 = (if fresh \<noteq> [] then scan_reports host fresh (v\<lparr>tv_fed := tv_fed v @ fresh\<rparr>) else v)
      in v1\<lparr>tv_seen_until := max (tv_seen_until v) (offset + of_nat (length data))\<rparr>)"

definition view_resize :: "16 word \<Rightarrow> 16 word \<Rightarrow> terminal_view \<Rightarrow> bool \<times> terminal_view" where
  "view_resize cols rows v =
     (let size = (max cols 2, max rows 1) in if size = tv_size v then (False, v) else (True, v\<lparr>tv_size := size\<rparr>))"

definition settle_directory :: "terminal_view \<Rightarrow> path option \<times> terminal_view" where
  "settle_directory v =
     (let now = (case tv_reported v of Some p \<Rightarrow> Some p | None \<Rightarrow> tv_process_cwd v)
      in if now \<noteq> None \<and> now \<noteq> tv_cwd v then (now, v\<lparr>tv_cwd := now\<rparr>) else (None, v))"

section \<open>A session and one of its views\<close>

text \<open>
  One session, every client's queue, the wire to client \<open>c\<close>, and that client's view. \<open>w_stream\<close> is
  everything the shell has written, and \<open>w_told\<close> says that the view has been told to attach again
  and has had no snapshot since (at first it has none).
\<close>

record world =
  w_session :: session
  w_stream :: "byte list"
  w_registry :: registry
  w_wire :: "server_msg list"
  w_view :: terminal_view
  w_told :: bool

text \<open>What the message says about the terminal.\<close>

fun receive :: "rstring option \<Rightarrow> terminal_id \<Rightarrow> server_msg \<Rightarrow> terminal_view \<times> bool \<Rightarrow> terminal_view \<times> bool" where
  "receive host t (Output u offset data) (v, told) = (if u = t then (feed host (of_nat offset) data v, told) else (v, told))"
| "receive host t (Reply i (Inr (SnapshotReply sn))) (v, told) =
     (if sn_terminal sn = t then (apply_snapshot host sn v, False) else (v, told))"
| "receive host t (Resync u) (v, told) = (v, told \<or> u = t)"
| "receive host t (Exited u st) (v, told) = ((if u = t then v\<lparr>tv_status := HasExited st\<rparr> else v), told)"
| "receive host t _ vt = vt"

fun about :: "terminal_id \<Rightarrow> server_msg \<Rightarrow> bool" where
  "about t (Output u offset data) = (u = t)"
| "about t (Reply i (Inr (SnapshotReply sn))) = (sn_terminal sn = t)"
| "about t _ = False"

inductive world_step :: "rstring option \<Rightarrow> client_id \<Rightarrow> world \<Rightarrow> world \<Rightarrow> bool" for host c where
  wrote: "pump_chunk False chunk (w_session w) (w_registry w) = (s', r', fx) \<Longrightarrow>
    length (w_stream w @ chunk) < 2 ^ 64 \<Longrightarrow>
    world_step host c w (w\<lparr>w_session := s', w_registry := r', w_stream := w_stream w @ chunk\<rparr>)"
| attached: "session_attach d i cols rows (w_session w) (w_registry w) = (sn, s', r', fx) \<Longrightarrow>
    world_step host c w (w\<lparr>w_session := s', w_registry := r'\<rparr>)"
| detached: "world_step host c w (w\<lparr>w_session := fst (session_detach d (w_session w))\<rparr>)"
| resized: "world_step host c w (w\<lparr>w_session := fst (session_resize d cols rows (w_session w))\<rparr>)"
| finished: "session_finish code (w_session w) (w_registry w) = (s', r') \<Longrightarrow>
    world_step host c w (w\<lparr>w_session := s', w_registry := r'\<rparr>)"
| killed: "session_end fg (w_session w) (w_registry w) = (s', r', fx) \<Longrightarrow>
    world_step host c w (w\<lparr>w_session := s', w_registry := r'\<rparr>)"
| elsewhere: "\<not> about (ss_id (w_session w)) m \<Longrightarrow>
    world_step host c w (w\<lparr>w_registry := registry_send d m (w_registry w)\<rparr>)"
| other_output: "u \<noteq> ss_id (w_session w) \<Longrightarrow>
    world_step host c w (w\<lparr>w_registry := send_output d u offset data (w_registry w)\<rparr>)"
| sent: "map_of (rg_clients (w_registry w)) c = Some q \<Longrightarrow> write_turn q = (ms, q') \<Longrightarrow>
    world_step host c w (w\<lparr>w_registry := on_queue c (\<lambda>_. q') (w_registry w), w_wire := w_wire w @ ms\<rparr>)"
| other_sent: "d \<noteq> c \<Longrightarrow> world_step host c w (w\<lparr>w_registry := on_queue d (snd \<circ> write_turn) (w_registry w)\<rparr>)"
| received: "w_wire w = m # ms \<Longrightarrow> receive host (ss_id (w_session w)) m (w_view w, w_told w) = (v', told') \<Longrightarrow>
    world_step host c w (w\<lparr>w_wire := ms, w_view := v', w_told := told'\<rparr>)"

text \<open>A session just started, nothing of it on its way to the client.\<close>

definition world_start :: "client_id \<Rightarrow> world \<Rightarrow> bool" where
  "world_start c w \<longleftrightarrow> ss_tail (w_session w) = [] \<and> ss_end_offset (w_session w) = 0 \<and> ss_views (w_session w) = []
     \<and> w_stream w = [] \<and> w_wire w = [] \<and> w_told w
     \<and> (\<forall>q. map_of (rg_clients (w_registry w)) c = Some q \<longrightarrow> (\<forall>m \<in> set (cq_tx q). \<not> about (ss_id (w_session w)) m))"

inductive world_reachable :: "rstring option \<Rightarrow> client_id \<Rightarrow> world \<Rightarrow> bool" for host c where
  start: "world_start c w \<Longrightarrow> world_reachable host c w"
| step: "world_reachable host c w \<Longrightarrow> world_step host c w w' \<Longrightarrow> world_reachable host c w'"

section \<open>Messages in order\<close>

text \<open>
  Where messages take a view that has shown the stream up to a point: \<open>None\<close> is a view told to attach
  again. A message that would leave a gap, repeat or show something else has no result.
\<close>

definition slice :: "byte list \<Rightarrow> nat \<Rightarrow> byte list \<Rightarrow> bool" where
  "slice S offset data \<longleftrightarrow> offset + length data \<le> length S \<and> take (length data) (drop offset S) = data"

definition tail_of :: "byte list \<Rightarrow> snapshot \<Rightarrow> bool" where
  "tail_of S sn \<longleftrightarrow> sn_end_offset sn \<le> length S \<and> (\<exists>k. sn_tail sn = drop k (take (sn_end_offset sn) S))"

fun follow :: "terminal_id \<Rightarrow> byte list \<Rightarrow> server_msg \<Rightarrow> nat option \<Rightarrow> nat option option" where
  "follow t S (Output u offset data) p =
     (if u \<noteq> t then Some p
      else if \<not> slice S offset data then None
      else (case p of None \<Rightarrow> Some None | Some e \<Rightarrow> if offset = e then Some (Some (e + length data)) else None))"
| "follow t S (Reply i (Inr (SnapshotReply sn))) p =
     (if sn_terminal sn \<noteq> t then Some p else if tail_of S sn then Some (Some (sn_end_offset sn)) else None)"
| "follow t S (Resync u) p = (if u = t then Some None else Some p)"
| "follow t S _ p = Some p"

fun follow_all :: "terminal_id \<Rightarrow> byte list \<Rightarrow> server_msg list \<Rightarrow> nat option \<Rightarrow> nat option option" where
  "follow_all t S [] p = Some p"
| "follow_all t S (m # ms) p = (case follow t S m p of None \<Rightarrow> None | Some p' \<Rightarrow> follow_all t S ms p')"

lemma follow_all_append:
  "follow_all t S (ms @ ns) p = (case follow_all t S ms p of None \<Rightarrow> None | Some p' \<Rightarrow> follow_all t S ns p')"
  by (induction ms arbitrary: p) (auto split: option.split)

lemma slice_mono: "slice S offset data \<Longrightarrow> slice (S @ T) offset data"
  by (auto simp: slice_def)

lemma tail_of_mono: "tail_of S sn \<Longrightarrow> tail_of (S @ T) sn"
  by (auto simp: tail_of_def)

lemma follow_mono: "follow t S m p = Some p' \<Longrightarrow> follow t (S @ T) m p = Some p'"
  by (cases "(t, S, m, p)" rule: follow.cases)
    (auto simp: slice_mono tail_of_mono split: if_splits option.splits)

lemma follow_all_mono: "follow_all t S ms p = Some p' \<Longrightarrow> follow_all t (S @ T) ms p = Some p'"
  by (induction ms arbitrary: p) (auto simp: follow_mono split: option.splits)

lemma follow_not_about: "\<not> about t m \<Longrightarrow> follow t S m p = Some p \<or> (m = Resync t \<and> follow t S m p = Some None)"
  by (cases "(t, S, m, p)" rule: follow.cases) auto

section \<open>The invariant\<close>

text \<open>Where the view is, and what the session retains.\<close>

definition position_of :: "world \<Rightarrow> nat option" where
  "position_of w = (if w_told w then None else Some (unat (tv_seen_until (w_view w))))"

definition displays :: "byte list \<Rightarrow> terminal_view \<Rightarrow> bool" where
  "displays S v \<longleftrightarrow> unat (tv_seen_until v) \<le> length S
     \<and> (\<exists>k \<le> unat (tv_seen_until v). tv_fed v = drop k (take (unat (tv_seen_until v)) S))"

definition retains :: "byte list \<Rightarrow> session \<Rightarrow> bool" where
  "retains S s \<longleftrightarrow> ss_end_offset s = length S \<and> (\<exists>k \<le> length S. ss_tail s = drop k S)"

text \<open>What a queue holds leads a view from a point to the end of the stream, unless a resync is owed.\<close>

definition leads :: "client_id \<Rightarrow> session \<Rightarrow> byte list \<Rightarrow> client_queue \<Rightarrow> nat option \<Rightarrow> bool" where
  "leads c s S q p \<longleftrightarrow> (\<exists>p'. follow_all (ss_id s) S (cq_tx q) p = Some p'
     \<and> (c \<in> viewers s \<and> ss_id s \<notin> set (cq_resync q) \<longrightarrow> (\<forall>e. p' = Some e \<longrightarrow> e = length S)))"

definition world_ok :: "client_id \<Rightarrow> world \<Rightarrow> bool" where
  "world_ok c w \<longleftrightarrow> session_ok (w_session w) \<and> length (w_stream w) < 2 ^ 64 \<and> retains (w_stream w) (w_session w)
     \<and> (\<not> w_told w \<longrightarrow> displays (w_stream w) (w_view w))
     \<and> (\<exists>p. follow_all (ss_id (w_session w)) (w_stream w) (w_wire w) (position_of w) = Some p
           \<and> (\<forall>q. map_of (rg_clients (w_registry w)) c = Some q \<longrightarrow> leads c (w_session w) (w_stream w) q p))"

text \<open>What a queue is after a change that leads on as before.\<close>

lemma world_ok_queue:
  assumes ok: "world_ok c w" and s: "session_ok s'" "ss_id s' = ss_id (w_session w)" "retains (w_stream w) s'"
    and q: "\<And>q' p. map_of (rg_clients r') c = Some q' \<Longrightarrow>
      \<exists>q. map_of (rg_clients (w_registry w)) c = Some q \<and> (leads c (w_session w) (w_stream w) q p \<longrightarrow> leads c s' (w_stream w) q' p)"
  shows "world_ok c (w\<lparr>w_session := s', w_registry := r'\<rparr>)"
proof -
  obtain p where p: "follow_all (ss_id (w_session w)) (w_stream w) (w_wire w) (position_of w) = Some p"
    "\<forall>q. map_of (rg_clients (w_registry w)) c = Some q \<longrightarrow> leads c (w_session w) (w_stream w) q p"
    using ok by (auto simp: world_ok_def)
  have "leads c s' (w_stream w) q' p" if "map_of (rg_clients r') c = Some q'" for q'
    using q [OF that, of p] p(2) by blast
  moreover have "position_of (w\<lparr>w_session := s', w_registry := r'\<rparr>) = position_of w" by (simp add: position_of_def)
  ultimately show ?thesis using ok s p(1) by (auto simp: world_ok_def)
qed

lemma leads_session:
  "leads c s S q p \<Longrightarrow> ss_id s' = ss_id s \<Longrightarrow> c \<in> viewers s' \<longrightarrow> c \<in> viewers s \<Longrightarrow> leads c s' S q p"
  by (auto simp: leads_def)

lemma leads_enqueue:
  assumes "leads c s S q p" "ss_id s' = ss_id s" "c \<in> viewers s' \<longrightarrow> c \<in> viewers s" "\<not> about (ss_id s) m"
  shows "leads c s' S (enqueue m q) p"
proof -
  obtain p' where p': "follow_all (ss_id s) S (cq_tx q) p = Some p'"
    "c \<in> viewers s \<and> ss_id s \<notin> set (cq_resync q) \<longrightarrow> (\<forall>e. p' = Some e \<longrightarrow> e = length S)"
    using assms(1) by (auto simp: leads_def)
  have "follow (ss_id s) S m p' = Some p' \<or> follow (ss_id s) S m p' = Some None"
    using follow_not_about [OF assms(4), of S p'] by blast
  then show ?thesis using p' assms(2,3) by (auto simp: leads_def enqueue_def follow_all_append)
qed

text \<open>A message to all views reaches the queue of a viewer once.\<close>

lemma on_queue_other: "c \<noteq> d \<Longrightarrow> map_of (rg_clients (on_queue d f r)) c = map_of (rg_clients r) c"
  by (cases "map_of (rg_clients r) c") (simp_all add: on_queue_lookup)

lemma to_views_lookup:
  assumes "bt_inv (ss_views s)"
  shows "map_of (rg_clients (to_views s (\<lambda>d. on_queue d f) r)) c
    = map_option (if c \<in> viewers s then f else id) (map_of (rg_clients r) c)"
proof -
  have "distinct cs \<Longrightarrow> map_of (rg_clients (fold (\<lambda>d. on_queue d f) cs r)) c
    = map_option (if c \<in> set cs then f else id) (map_of (rg_clients r) c)" for cs
  proof (induction cs arbitrary: r)
    case Nil
    then show ?case by (cases "map_of (rg_clients r) c") simp_all
  next
    case (Cons d cs)
    then show ?case by (cases "map_of (rg_clients r) c") (auto simp: on_queue_lookup)
  qed
  from this [of "map fst (ss_views s)"] show ?thesis
    using bt_inv_distinct [OF assms] by (simp add: to_views_def viewers_def)
qed

lemma retains_push:
  assumes "retains S s"
  shows "retains (S @ chunk) (session_push chunk s)"
proof -
  obtain k where k: "k \<le> length S" "ss_tail s = drop k S" using assms by (auto simp: retains_def)
  obtain j where j: "push_tail (ss_capacity s) (ss_tail s) chunk = drop j (ss_tail s @ chunk)"
    using push_tail_suffix by blast
  have "ss_tail s @ chunk = drop k (S @ chunk)" using k by simp
  then have "push_tail (ss_capacity s) (ss_tail s) chunk = drop (j + k) (S @ chunk)" by (simp only: j drop_drop)
  moreover have "drop n X = drop (min n (length X)) X" for n and X :: "byte list" by (simp add: min_def)
  ultimately have "\<exists>i \<le> length (S @ chunk). push_tail (ss_capacity s) (ss_tail s) chunk = drop i (S @ chunk)"
    by (metis min.cobounded2)
  then show ?thesis using assms by (simp add: retains_def session_push_def)
qed

lemma world_wrote:
  assumes ok: "world_ok c w" and p: "pump_chunk False chunk (w_session w) (w_registry w) = (s', r', fx)"
    and len: "length (w_stream w @ chunk) < 2 ^ 64"
  shows "world_ok c (w\<lparr>w_session := s', w_registry := r', w_stream := w_stream w @ chunk\<rparr>)"
proof -
  let ?s = "w_session w" and ?S = "w_stream w" and ?t = "ss_id (w_session w)"
  let ?f = "queue_output ?t (length ?S) chunk"
  have s: "session_ok ?s" "retains ?S ?s" using ok by (simp_all add: world_ok_def)
  then have bt: "bt_inv (ss_views ?s)" by (simp add: session_ok_def)
  have off: "ss_end_offset ?s = length ?S" using s(2) by (simp add: retains_def)
  note pc = pump_chunk_ok [OF s(1) p]
  have so: "(\<lambda>d. send_output d ?t (length ?S) chunk) = (\<lambda>d. on_queue d ?f)" by (simp add: fun_eq_iff send_output_def)
  have r': "r' = to_views ?s (\<lambda>d. on_queue d ?f) (w_registry w)"
    and rt: "retains (?S @ chunk) s'"
    using p retains_push [OF s(2), of chunk]
    by (auto simp: pump_chunk_def Let_def off so retains_def)
  obtain p0 where p0: "follow_all ?t ?S (w_wire w) (position_of w) = Some p0"
    "\<forall>q. map_of (rg_clients (w_registry w)) c = Some q \<longrightarrow> leads c ?s ?S q p0"
    using ok by (auto simp: world_ok_def)
  have "leads c s' (?S @ chunk) q' p0" if q': "map_of (rg_clients r') c = Some q'" for q'
  proof -
    obtain q where q: "map_of (rg_clients (w_registry w)) c = Some q" "q' = (if c \<in> viewers ?s then ?f q else q)"
      using q' to_views_lookup [OF bt, of ?f "w_registry w" c] by (auto simp: r')
    obtain p1 where p1: "follow_all ?t ?S (cq_tx q) p0 = Some p1"
      "c \<in> viewers ?s \<and> ?t \<notin> set (cq_resync q) \<longrightarrow> (\<forall>e. p1 = Some e \<longrightarrow> e = length ?S)"
      using p0(2) q(1) by (auto simp: leads_def)
    note p1' = follow_all_mono [OF p1(1), of chunk]
    have sl: "slice (?S @ chunk) (length ?S) chunk" by (simp add: slice_def)
    show ?thesis
    proof (cases "c \<in> viewers ?s")
      case False
      then show ?thesis using q(2) p1' pc by (auto simp: leads_def)
    next
      case True
      show ?thesis
      proof (cases "?t \<in> set (cq_resync q) \<or> cq_queued q + length chunk > MAX_QUEUED_BYTES")
        case drop: True
        then have "cq_tx q' = cq_tx q" "?t \<in> set (cq_resync q')" using q(2) True by (auto simp: queue_output_def)
        then show ?thesis using p1' pc by (auto simp: leads_def)
      next
        case False
        then have e: "q' = enqueue (Output ?t (length ?S) chunk) q" using q(2) True by (simp add: queue_output_def)
        show ?thesis using p1(2) p1' sl pc True False
          by (cases p1) (auto simp: e leads_def enqueue_def follow_all_append)
      qed
    qed
  qed
  moreover have "follow_all ?t (?S @ chunk) (w_wire w) (position_of w) = Some p0" by (rule follow_all_mono [OF p0(1)])
  moreover have "displays ?S v \<Longrightarrow> displays (?S @ chunk) v" for v by (auto simp: displays_def)
  ultimately show ?thesis using ok pc rt len by (auto simp: world_ok_def position_of_def)
qed

lemma tail_of_snapshot: "retains S s \<Longrightarrow> tail_of S (session_snapshot s)"
  by (auto simp: retains_def tail_of_def session_snapshot_def)

lemma world_attached:
  assumes ok: "world_ok c w" and a: "session_attach d i cols rows (w_session w) (w_registry w) = (sn, s', r', fx)"
  shows "world_ok c (w\<lparr>w_session := s', w_registry := r'\<rparr>)"
proof (rule world_ok_queue [OF ok])
  have s: "session_ok (w_session w)" "retains (w_stream w) (w_session w)" using ok by (simp_all add: world_ok_def)
  note at = session_attach_ok [OF s(1) a]
  show "session_ok s'" "ss_id s' = ss_id (w_session w)" by (fact at)+
  show "retains (w_stream w) s'"
  proof -
    have "s' = (if ss_exited (w_session w) = None
      then fst (apply_size (w_session w\<lparr>ss_views := bt_insert d (max cols 1, max rows 1) (ss_views (w_session w))\<rparr>))
      else w_session w)"
      using a by (auto simp: session_attach_def Let_def split: prod.splits if_splits)
    then show ?thesis using s(2) by (simp add: retains_def)
  qed
  fix q' p assume q': "map_of (rg_clients r') c = Some q'"
  let ?m = "Reply i (Inr (SnapshotReply (session_snapshot (w_session w))))"
  show "\<exists>q. map_of (rg_clients (w_registry w)) c = Some q \<and> (leads c (w_session w) (w_stream w) q p \<longrightarrow> leads c s' (w_stream w) q' p)"
  proof (cases "d = c")
    case True
    then obtain q where q: "map_of (rg_clients (w_registry w)) c = Some q" "q' = enqueue ?m q"
      using q' by (auto simp: at(6) registry_send_def on_queue_lookup)
    have "leads c s' (w_stream w) q' p" if "leads c (w_session w) (w_stream w) q p"
      using that tail_of_snapshot [OF s(2)] s(2) at(3)
      by (auto simp: leads_def q(2) enqueue_def follow_all_append session_snapshot_def retains_def)
    then show ?thesis using q(1) by blast
  next
    case False
    then have "map_of (rg_clients (w_registry w)) c = Some q'"
      using q' by (simp add: at(6) registry_send_def on_queue_other)
    moreover have "c \<in> viewers s' \<longrightarrow> c \<in> viewers (w_session w)" using at(2) False by blast
    ultimately show ?thesis using leads_session [OF _ at(3)] by blast
  qed
qed

lemma world_detached: "world_ok c w \<Longrightarrow> world_ok c (w\<lparr>w_session := fst (session_detach d (w_session w))\<rparr>)"
proof -
  assume ok: "world_ok c w"
  let ?s = "fst (session_detach d (w_session w))"
  have s: "session_ok (w_session w)" "retains (w_stream w) (w_session w)" using ok by (simp_all add: world_ok_def)
  note sd = session_detach_ok [OF s(1), of d]
  have "world_ok c (w\<lparr>w_session := ?s, w_registry := w_registry w\<rparr>)"
  proof (rule world_ok_queue [OF ok sd(1,3)])
    show "retains (w_stream w) ?s" using s(2) by (simp add: session_detach_def retains_def)
    show "\<exists>q. map_of (rg_clients (w_registry w)) c = Some q \<and> (leads c (w_session w) (w_stream w) q p \<longrightarrow> leads c ?s (w_stream w) q' p)"
      if "map_of (rg_clients (w_registry w)) c = Some q'" for q' p
      using that leads_session [OF _ sd(3)] sd(2) by blast
  qed
  then show ?thesis by simp
qed

lemma world_resized: "world_ok c w \<Longrightarrow> world_ok c (w\<lparr>w_session := fst (session_resize d cols rows (w_session w))\<rparr>)"
proof -
  assume ok: "world_ok c w"
  let ?s = "fst (session_resize d cols rows (w_session w))"
  have s: "session_ok (w_session w)" "retains (w_stream w) (w_session w)" using ok by (simp_all add: world_ok_def)
  note sd = session_resize_ok [OF s(1), of d cols rows]
  have "world_ok c (w\<lparr>w_session := ?s, w_registry := w_registry w\<rparr>)"
  proof (rule world_ok_queue [OF ok sd(1,3)])
    show "retains (w_stream w) ?s" using s(2) by (simp add: session_resize_def retains_def)
    show "\<exists>q. map_of (rg_clients (w_registry w)) c = Some q \<and> (leads c (w_session w) (w_stream w) q p \<longrightarrow> leads c ?s (w_stream w) q' p)"
      if "map_of (rg_clients (w_registry w)) c = Some q'" for q' p
      using that leads_session [OF _ sd(3)] sd(2) by blast
  qed
  then show ?thesis by simp
qed

text \<open>The last message to every view, and no views after it.\<close>

lemma world_announced:
  assumes ok: "world_ok c w" and s': "session_ok s'" "ss_id s' = ss_id (w_session w)" "retains (w_stream w) s'" "viewers s' = {}"
    and r': "r' = to_views (w_session w) (\<lambda>d. on_queue d (enqueue m)) (w_registry w) \<or> r' = w_registry w"
    and m: "\<not> about (ss_id (w_session w)) m"
  shows "world_ok c (w\<lparr>w_session := s', w_registry := r'\<rparr>)"
proof (rule world_ok_queue [OF ok s'(1-3)])
  have bt: "bt_inv (ss_views (w_session w))" using ok by (simp add: world_ok_def session_ok_def)
  fix q' p assume "map_of (rg_clients r') c = Some q'"
  then obtain q where q: "map_of (rg_clients (w_registry w)) c = Some q" "q' = enqueue m q \<or> q' = q"
    using r' to_views_lookup [OF bt, of "enqueue m" "w_registry w" c] by (auto split: if_splits)
  have "leads c s' (w_stream w) q' p" if "leads c (w_session w) (w_stream w) q p"
    using q(2) leads_enqueue [OF that s'(2) _ m] leads_session [OF that s'(2)] s'(4) by auto
  then show "\<exists>q. map_of (rg_clients (w_registry w)) c = Some q \<and> (leads c (w_session w) (w_stream w) q p \<longrightarrow> leads c s' (w_stream w) q' p)"
    using q(1) by blast
qed

lemma world_finished:
  assumes ok: "world_ok c w" and f: "session_finish code (w_session w) (w_registry w) = (s', r')"
  shows "world_ok c (w\<lparr>w_session := s', w_registry := r'\<rparr>)"
proof (rule world_announced [OF ok])
  have s: "session_ok (w_session w)" "retains (w_stream w) (w_session w)" using ok by (simp_all add: world_ok_def)
  note sf = session_finish_ok [OF s(1), of code "w_registry w", unfolded f fst_conv]
  show "session_ok s'" "ss_id s' = ss_id (w_session w)" "viewers s' = {}" using sf by simp_all
  let ?m = "Exited (ss_id (w_session w)) \<lparr>es_code = code, user_killed = ss_user_killed (w_session w)\<rparr>"
  have so: "(\<lambda>d. registry_send d ?m) = (\<lambda>d. on_queue d (enqueue ?m))" by (simp add: fun_eq_iff registry_send_def)
  show "r' = to_views (w_session w) (\<lambda>d. on_queue d (enqueue ?m)) (w_registry w) \<or> r' = w_registry w"
    using f by (simp add: session_finish_def Let_def so)
  show "retains (w_stream w) s'" using f s(2) by (auto simp: session_finish_def Let_def retains_def)
qed simp

lemma world_killed:
  assumes ok: "world_ok c w" and f: "session_end fg (w_session w) (w_registry w) = (s', r', fx)"
  shows "world_ok c (w\<lparr>w_session := s', w_registry := r'\<rparr>)"
proof (rule world_announced [OF ok])
  have s: "session_ok (w_session w)" "retains (w_stream w) (w_session w)" using ok by (simp_all add: world_ok_def)
  show "session_ok s'" "viewers s' = {}" by (rule session_end_ok [OF s(1) f])+
  let ?m = "Exited (ss_id (w_session w)) \<lparr>es_code = None, user_killed = True\<rparr>"
  have so: "(\<lambda>d. registry_send d ?m) = (\<lambda>d. on_queue d (enqueue ?m))" by (simp add: fun_eq_iff registry_send_def)
  show "r' = to_views (w_session w) (\<lambda>d. on_queue d (enqueue ?m)) (w_registry w) \<or> r' = w_registry w"
    using f by (auto simp: session_end_def Let_def so split: prod.splits if_splits)
  show "ss_id s' = ss_id (w_session w)" "retains (w_stream w) s'"
    using f s(2) by (auto simp: session_end_def session_kill_def Let_def retains_def split: prod.splits if_splits)
qed simp

lemma world_registry:
  assumes ok: "world_ok c w"
    and q: "\<And>q' p. map_of (rg_clients r') c = Some q' \<Longrightarrow>
      \<exists>q. map_of (rg_clients (w_registry w)) c = Some q
        \<and> (leads c (w_session w) (w_stream w) q p \<longrightarrow> leads c (w_session w) (w_stream w) q' p)"
  shows "world_ok c (w\<lparr>w_registry := r'\<rparr>)"
proof -
  have "session_ok (w_session w)" "retains (w_stream w) (w_session w)" using ok by (simp_all add: world_ok_def)
  then have "world_ok c (w\<lparr>w_session := w_session w, w_registry := r'\<rparr>)"
    by (intro world_ok_queue [OF ok _ refl] q)
  then show ?thesis by simp
qed

lemma world_elsewhere:
  assumes ok: "world_ok c w" and m: "\<not> about (ss_id (w_session w)) m"
  shows "world_ok c (w\<lparr>w_registry := registry_send d m (w_registry w)\<rparr>)"
proof (rule world_registry [OF ok])
  fix q' p assume "map_of (rg_clients (registry_send d m (w_registry w))) c = Some q'"
  then obtain q where "map_of (rg_clients (w_registry w)) c = Some q" "q' = q \<or> q' = enqueue m q"
    by (auto simp: registry_send_def on_queue_lookup split: if_splits)
  then show "\<exists>q. map_of (rg_clients (w_registry w)) c = Some q
        \<and> (leads c (w_session w) (w_stream w) q p \<longrightarrow> leads c (w_session w) (w_stream w) q' p)"
    using leads_enqueue [OF _ refl _ m] by blast
qed

lemma leads_other_output:
  "u \<noteq> ss_id s \<Longrightarrow> leads c s S q p \<Longrightarrow> leads c s S (queue_output u offset data q) p"
  by (auto simp: queue_output_def leads_def enqueue_def follow_all_append)

lemma world_other_output:
  assumes ok: "world_ok c w" and u: "u \<noteq> ss_id (w_session w)"
  shows "world_ok c (w\<lparr>w_registry := send_output d u offset data (w_registry w)\<rparr>)"
proof (rule world_registry [OF ok])
  fix q' p assume "map_of (rg_clients (send_output d u offset data (w_registry w))) c = Some q'"
  then obtain q where "map_of (rg_clients (w_registry w)) c = Some q" "q' = q \<or> q' = queue_output u offset data q"
    by (auto simp: send_output_def on_queue_lookup split: if_splits)
  then show "\<exists>q. map_of (rg_clients (w_registry w)) c = Some q
        \<and> (leads c (w_session w) (w_stream w) q p \<longrightarrow> leads c (w_session w) (w_stream w) q' p)"
    using leads_other_output [OF u] by blast
qed

text \<open>A turn of the writer: what goes out, then what is left, lead where the queue did.\<close>

lemma follow_resyncs:
  "follow_all t S (map Resync ts) p = Some (if t \<in> set ts then None else p)"
  by (induction ts arbitrary: p) auto

lemma leads_taken:
  assumes "take_resyncs q = (ts, q')" "cq_tx q = []" "leads c s S q p"
  shows "\<exists>p'. follow_all (ss_id s) S (map Resync ts) p = Some p' \<and> leads c s S q' p'"
  using assms by (auto simp: take_resyncs_def leads_def follow_resyncs split: if_splits)

lemma leads_turn:
  assumes "write_turn q = (ms, q')" "leads c s S q p"
  shows "\<exists>p'. follow_all (ss_id s) S ms p = Some p' \<and> leads c s S q' p'"
proof (cases "cq_tx q")
  case Nil
  show ?thesis
  proof (cases "cq_closed q")
    case True
    then show ?thesis using assms Nil by (simp add: write_turn_def)
  next
    case False
    then obtain ts where "take_resyncs q = (ts, q')" "ms = map Resync ts"
      using assms(1) Nil by (auto simp: write_turn_def split: prod.splits)
    then show ?thesis using leads_taken [OF _ Nil assms(2)] by blast
  qed
next
  case (Cons m rest)
  let ?q = "queue_written m (q\<lparr>cq_tx := rest\<rparr>)"
  obtain p1 where p1: "follow (ss_id s) S m p = Some p1"
    using assms(2) Cons by (auto simp: leads_def split: option.splits)
  then have l: "leads c s S ?q p1" using assms(2) Cons by (auto simp: leads_def queue_written_def)
  show ?thesis
  proof (cases "rest = []")
    case False
    then show ?thesis using assms(1) Cons p1 l by (auto simp: write_turn_def Let_def)
  next
    case True
    then obtain ts where ts: "take_resyncs ?q = (ts, q')" "ms = m # map Resync ts"
      using assms(1) Cons by (auto simp: write_turn_def Let_def split: prod.splits)
    have "cq_tx ?q = []" using True by (simp add: queue_written_def)
    then show ?thesis using leads_taken [OF ts(1) _ l] p1 ts(2) by simp
  qed
qed

lemma world_sent:
  assumes ok: "world_ok c w" and q: "map_of (rg_clients (w_registry w)) c = Some q" "write_turn q = (ms, q')"
  shows "world_ok c (w\<lparr>w_registry := on_queue c (\<lambda>_. q') (w_registry w), w_wire := w_wire w @ ms\<rparr>)"
proof -
  obtain p where p: "follow_all (ss_id (w_session w)) (w_stream w) (w_wire w) (position_of w) = Some p"
    "leads c (w_session w) (w_stream w) q p" using ok q(1) by (auto simp: world_ok_def)
  obtain p' where p': "follow_all (ss_id (w_session w)) (w_stream w) ms p = Some p'" "leads c (w_session w) (w_stream w) q' p'"
    using leads_turn [OF q(2) p(2)] by blast
  have "position_of (w\<lparr>w_registry := on_queue c (\<lambda>_. q') (w_registry w), w_wire := w_wire w @ ms\<rparr>) = position_of w"
    by (simp add: position_of_def)
  then show ?thesis using ok p(1) p' q(1) by (auto simp: world_ok_def follow_all_append on_queue_lookup)
qed

text \<open>A message received takes the view where it leads.\<close>

lemma feed_displays:
  assumes "displays S v" "slice S (unat (tv_seen_until v)) data" "length S < 2 ^ 64"
  shows "displays S (feed host (tv_seen_until v) data v)"
    and "unat (tv_seen_until (feed host (tv_seen_until v) data v)) = unat (tv_seen_until v) + length data"
proof -
  let ?e = "unat (tv_seen_until v)"
  have le: "?e + length data \<le> length S" and sl: "take (length data) (drop ?e S) = data"
    using assms(2) by (simp_all add: slice_def)
  have lt: "?e + length data < 2 ^ 64" using le assms(3) by (rule le_less_trans)
  have fresh: "unseen (tv_seen_until v) data (tv_seen_until v) = data"
    using unseen_spec [OF lt, of "tv_seen_until v"] by simp
  have l: "unat (of_nat (length data) :: 64 word) = length data" using lt by (simp add: unat_of_nat)
  then have sum: "unat (tv_seen_until v + of_nat (length data)) = ?e + length data"
    using lt by (simp add: unat_word_ariths)
  then have mx: "max (tv_seen_until v) (tv_seen_until v + of_nat (length data)) = tv_seen_until v + of_nat (length data)"
    by (simp add: max_def word_le_nat_alt)
  have seen: "tv_seen_until (feed host (tv_seen_until v) data v) = tv_seen_until v + of_nat (length data)"
    by (simp add: feed_def Let_def mx)
  then show u: "unat (tv_seen_until (feed host (tv_seen_until v) data v)) = ?e + length data" by (simp add: sum)
  have fed: "tv_fed (feed host (tv_seen_until v) data v) = tv_fed v @ data"
    by (simp add: feed_def Let_def fresh)
  obtain k where k: "k \<le> ?e" "tv_fed v = drop k (take ?e S)" using assms(1) by (auto simp: displays_def)
  have "take (?e + length data) S = take ?e S @ data" using sl by (simp add: take_add)
  moreover have "length (take ?e S) = ?e" using le by simp
  ultimately have "tv_fed v @ data = drop k (take (?e + length data) S)" using k by simp
  then show "displays S (feed host (tv_seen_until v) data v)"
    using k(1) le unfolding displays_def u fed by (intro conjI exI [of _ k]) simp_all
qed

lemma snapshot_displays:
  assumes "tail_of S sn" "length S < 2 ^ 64"
  shows "displays S (apply_snapshot host sn v)" "unat (tv_seen_until (apply_snapshot host sn v)) = sn_end_offset sn"
proof -
  obtain k where k: "sn_end_offset sn \<le> length S" "sn_tail sn = drop k (take (sn_end_offset sn) S)"
    using assms(1) by (auto simp: tail_of_def)
  have lt: "sn_end_offset sn < 2 ^ 64" using k(1) assms(2) by (rule le_less_trans)
  then show e: "unat (tv_seen_until (apply_snapshot host sn v)) = sn_end_offset sn"
    by (simp add: apply_snapshot_def unat_of_nat)
  have "tv_fed (apply_snapshot host sn v) = sn_tail sn"
    by (simp add: apply_snapshot_def)
  moreover have "sn_tail sn = drop (min k (sn_end_offset sn)) (take (sn_end_offset sn) S)"
    using k by (simp add: min_def)
  ultimately show "displays S (apply_snapshot host sn v)"
    using k(1) unfolding displays_def e by (intro conjI exI [of _ "min k (sn_end_offset sn)"]) simp_all
qed

lemma receive_follows:
  assumes "receive host t m (v, told) = (v', told')" "follow t S m (if told then None else Some (unat (tv_seen_until v))) = Some p"
    and "\<not> told \<longrightarrow> displays S v" "length S < 2 ^ 64"
  shows "(\<not> told' \<longrightarrow> displays S v') \<and> p = (if told' then None else Some (unat (tv_seen_until v')))"
proof (cases "(t, m)" rule: about.cases)
  case (1 t' u offset data)
  have "unat (tv_seen_until v) = offset \<Longrightarrow> (of_nat offset :: 64 word) = tv_seen_until v" by auto
  then show ?thesis using 1 assms feed_displays [of S v data host]
    by (auto split: if_splits)
next
  case (2 t' i sn)
  then show ?thesis using assms snapshot_displays [of S sn host v] by (auto split: if_splits)
qed (use assms in \<open>auto simp: displays_def split: if_splits\<close>)

lemma world_received:
  assumes ok: "world_ok c w" and m: "w_wire w = m # ms"
    and r: "receive host (ss_id (w_session w)) m (w_view w, w_told w) = (v', told')"
  shows "world_ok c (w\<lparr>w_wire := ms, w_view := v', w_told := told'\<rparr>)"
proof -
  let ?t = "ss_id (w_session w)" and ?S = "w_stream w"
  obtain p0 p where p: "follow ?t ?S m (position_of w) = Some p0" "follow_all ?t ?S ms p0 = Some p"
    "\<forall>q. map_of (rg_clients (w_registry w)) c = Some q \<longrightarrow> leads c (w_session w) ?S q p"
    using ok m by (auto simp: world_ok_def split: option.splits)
  have "(\<not> told' \<longrightarrow> displays ?S v') \<and> p0 = (if told' then None else Some (unat (tv_seen_until v')))"
    by (rule receive_follows [OF r]) (use ok p(1) in \<open>auto simp: world_ok_def position_of_def\<close>)
  then show ?thesis using ok p(2,3) by (auto simp: world_ok_def position_of_def)
qed

lemmas world_ops_ok = world_wrote world_attached world_detached world_resized world_finished world_killed
  world_elsewhere world_other_output world_sent world_received

lemma world_step_ok: "world_step host c w w' \<Longrightarrow> world_ok c w \<Longrightarrow> world_ok c w'"
proof (induction rule: world_step.induct)
  case (other_sent d w)
  then show ?case by (intro world_registry) (auto simp: on_queue_other)
qed (blast intro: world_ops_ok)+

lemma world_start_ok: "world_start c w \<Longrightarrow> world_ok c w"
proof -
  assume w: "world_start c w"
  have none: "\<forall>m \<in> set ms. \<not> about t m \<Longrightarrow> follow_all t S ms None = Some None" for t S ms
  proof (induction ms)
    case (Cons m ms)
    then show ?case using follow_not_about [of t m S None] by auto
  qed simp
  show ?thesis using w none
    by (auto simp: world_start_def world_ok_def session_ok_def retains_def position_of_def leads_def viewers_def)
qed

lemma world_reachable_ok: "world_reachable host c w \<Longrightarrow> world_ok c w"
  by (induction rule: world_reachable.induct) (blast intro: world_start_ok world_step_ok)+

section \<open>A shell that says hello\<close>

text \<open>One view attaches before the shell writes two bytes; what is queued is sent and received.\<close>

definition sample_session :: "(client_id \<times> view_size) list \<Rightarrow> byte list \<Rightarrow> session" where
  "sample_session vs out =
     \<lparr>ss_id = 7, ss_project = 1, ss_label = [], ss_pid = None, ss_elevated = False, ss_tail = out, ss_capacity = 4096,
      ss_end_offset = length out, ss_exited = None, ss_user_killed = False, ss_views = vs, ss_size = (80, 24),
      ss_alt = scanner_default, ss_seen_output = (out \<noteq> []), ss_startup = None\<rparr>"

definition sample_busy :: session where
  "sample_busy = (sample_session [] [])\<lparr>ss_pid := Some 42\<rparr>"

definition sample_registry :: "server_msg list \<Rightarrow> registry" where
  "sample_registry ms =
     \<lparr>rg_clients = [(1, \<lparr>cq_tx = ms, cq_queued = sum_list (map size_of ms), cq_resync = [], cq_closed = False\<rparr>)], rg_next = 1\<rparr>"

definition sample_snapshot :: server_msg where
  "sample_snapshot = Reply 5 (Inr (SnapshotReply (session_snapshot (sample_session [] []))))"

definition sample_world :: world where
  "sample_world =
     \<lparr>w_session = sample_session [(1, 80, 24)] [104, 105], w_stream = [104, 105], w_registry = sample_registry [],
      w_wire = [], w_view = view_new\<lparr>tv_status := Running, tv_fed := [104, 105], tv_seen_until := 2\<rparr>, w_told = False\<rparr>"

lemma sample_world_reachable: "world_reachable None 1 sample_world"
proof -
  define at where "at = (\<lambda>vs out ms wire v told. \<lparr>w_session = sample_session vs out, w_stream = out,
    w_registry = sample_registry ms, w_wire = wire, w_view = v, w_told = told\<rparr>)"
  let ?vs = "[(1, 80, 24)] :: (client_id \<times> view_size) list"
  let ?S = "[104, 105] :: byte list"
  let ?hi = "Output 7 0 ?S"
  let ?v = "view_new\<lparr>tv_status := Running\<rparr>"
  let ?osc = "None :: rstring option"
  have 0: "world_reachable ?osc 1 (at [] [] [] [] view_new True)"
    by (rule world_reachable.start) (simp add: at_def world_start_def sample_session_def sample_registry_def)
  have "session_attach 1 5 80 24 (sample_session [] []) (sample_registry []) =
    (session_snapshot (sample_session [] []), sample_session ?vs [], sample_registry [sample_snapshot], [])"
    by (simp add: session_attach_def sample_session_def sample_registry_def sample_snapshot_def apply_size_def
         registry_send_def on_queue_def enqueue_def Let_def)
  then have 1: "world_step ?osc 1 (at [] [] [] [] view_new True) (at ?vs [] [sample_snapshot] [] view_new True)"
    using world_step.attached [where w = "at [] [] [] [] view_new True"] by (simp add: at_def)
  have "pump_chunk False ?S (sample_session ?vs []) (sample_registry [sample_snapshot]) =
    (sample_session ?vs ?S, sample_registry [sample_snapshot, ?hi], [])"
    by (simp add: pump_chunk_def sample_session_def sample_registry_def sample_snapshot_def session_push_def
         push_tail_def scan_def scan_byte_def scanner_default_def ESC_def to_views_def send_output_def on_queue_def
         queue_output_def enqueue_def MAX_QUEUED_BYTES_def session_snapshot_def Let_def)
  then have 2: "world_step ?osc 1 (at ?vs [] [sample_snapshot] [] view_new True) (at ?vs ?S [sample_snapshot, ?hi] [] view_new True)"
    using world_step.wrote [where w = "at ?vs [] [sample_snapshot] [] view_new True"] by (simp add: at_def)
  have q: "map_of (rg_clients (sample_registry (m # ms))) 1 =
      Some \<lparr>cq_tx = m # ms, cq_queued = size_of m + sum_list (map size_of ms), cq_resync = [], cq_closed = False\<rparr>"
    "write_turn \<lparr>cq_tx = m # ms, cq_queued = size_of m + sum_list (map size_of ms), cq_resync = [], cq_closed = False\<rparr> =
      ([m], \<lparr>cq_tx = ms, cq_queued = sum_list (map size_of ms), cq_resync = [], cq_closed = False\<rparr>)"
    "on_queue 1 (\<lambda>_. \<lparr>cq_tx = ms, cq_queued = sum_list (map size_of ms), cq_resync = [], cq_closed = False\<rparr>) (sample_registry (m # ms))
      = sample_registry ms" for m ms
    by (simp_all add: sample_registry_def write_turn_def queue_written_def take_resyncs_def on_queue_def Let_def)
  have sent: "world_step ?osc 1 (at ?vs ?S (m # ms) wire v told) (at ?vs ?S ms (wire @ [m]) v told)" for m ms wire v told
  proof -
    have "w_registry (at ?vs ?S (m # ms) wire v told) = sample_registry (m # ms)" by (simp add: at_def)
    from world_step.sent [where w = "at ?vs ?S (m # ms) wire v told" and c = 1 and ?host = ?osc, unfolded this, OF q(1,2)]
    show ?thesis using q(3) [of ms m] by (simp add: at_def)
  qed
  have got: "receive ?osc 7 m (v, told) = (v', told') \<Longrightarrow>
      world_step ?osc 1 (at ?vs ?S [] (m # wire) v told) (at ?vs ?S [] wire v' told')" for m wire v told v' told'
    using world_step.received [where w = "at ?vs ?S [] (m # wire) v told" and c = 1 and ?host = ?osc]
    by (simp add: at_def sample_session_def)
  have r1: "receive ?osc 7 sample_snapshot (view_new, True) = (?v, False)"
    by (simp add: sample_snapshot_def session_snapshot_def sample_session_def apply_snapshot_def scan_reports_none view_new_def)
  have r2: "receive ?osc 7 ?hi (?v, False) = (?v\<lparr>tv_fed := ?S, tv_seen_until := 2\<rparr>, False)"
    by (simp add: feed_def unseen_def scan_reports_none OSC7_START_def view_new_def Let_def)
  note step = world_reachable.step [where ?host = ?osc and c = 1]
  have "world_reachable ?osc 1 (at ?vs ?S [] (([] @ [sample_snapshot]) @ [?hi]) view_new True)"
    by (rule step [OF step [OF step [OF step [OF 0 1] 2] sent] sent])
  then have "world_reachable ?osc 1 (at ?vs ?S [] [sample_snapshot, ?hi] view_new True)" by (simp only: append.simps)
  from step [OF step [OF this got [OF r1]] got [OF r2]] show ?thesis by (simp add: at_def sample_world_def)
qed

end
