(* ===== verification/PropsDaemon.thy ===== *)
theory PropsDaemon
  imports TermView
begin

text \<open>
  The properties of the daemon and its protocol: frames, the sessions and the clients, the output a
  view shows, and when the daemon closes what it owns. Each rests on the lemmas of the theory that
  models its part.
\<close>

section \<open>What a terminal's view shows\<close>

text \<open>C1: whatever the shell writes and however its output is chunked, queued, dropped at the queue's
  limit and resynchronised, attached and detached, a view that need not attach again shows a part of
  the shell's output that ends where the view says: no byte twice, none missing, none of another
  terminal. When nothing is on its way to an attached view any more, it shows the end of the output.\<close>

theorem output_shown_once:
  assumes "world_reachable host c w" "\<not> w_told w"
  shows "unat (tv_seen_until (w_view w)) \<le> length (w_stream w)
    \<and> (\<exists>k \<le> unat (tv_seen_until (w_view w)).
        tv_fed (w_view w) = drop k (take (unat (tv_seen_until (w_view w))) (w_stream w)))
    \<and> (w_wire w = [] \<and> map_of (rg_clients (w_registry w)) c = Some q \<and> cq_tx q = []
        \<and> ss_id (w_session w) \<notin> set (cq_resync q) \<and> c \<in> viewers (w_session w)
      \<longrightarrow> unat (tv_seen_until (w_view w)) = length (w_stream w))"
proof -
  have ok: "world_ok c w" by (rule world_reachable_ok [OF assms(1)])
  then have "displays (w_stream w) (w_view w)" using assms(2) by (simp add: world_ok_def)
  moreover have "unat (tv_seen_until (w_view w)) = length (w_stream w)"
    if "w_wire w = [] \<and> map_of (rg_clients (w_registry w)) c = Some q \<and> cq_tx q = []
        \<and> ss_id (w_session w) \<notin> set (cq_resync q) \<and> c \<in> viewers (w_session w)"
    using ok that assms(2) by (auto simp: world_ok_def leads_def position_of_def)
  ultimately show ?thesis by (simp add: displays_def)
qed

theorem output_shown_once_witness:
  "w_wire sample_world = [] \<and> unat (tv_seen_until (w_view sample_world)) = length (w_stream sample_world)
   \<and> w_stream sample_world = [104, 105]"
proof -
  have w: "w_wire sample_world = []" "\<not> w_told sample_world" "w_stream sample_world = [104, 105]"
    "map_of (rg_clients (w_registry sample_world)) 1 = Some empty_queue"
    "ss_id (w_session sample_world) = 7" "1 \<in> viewers (w_session sample_world)"
    by (simp_all add: sample_world_def viewers_def sample_session_def sample_registry_def empty_queue_def)
  then show ?thesis
    using output_shown_once [OF sample_world_reachable, of empty_queue] by (simp add: empty_queue_def)
qed

section \<open>Frames\<close>

text \<open>C21: the messages written one after another are the messages read, in order, and then the
  connection is closed.\<close>

theorem frames_round_trip:
  assumes "\<forall>m \<in> set ms. fst (write_frame enc (\<lambda>_. None) m) = None \<and> dec (projr (enc m)) = Inr m"
  shows "read_frames (Suc (length ms)) dec \<lparr>rd_bytes = sent_frames enc ms, rd_fails = None\<rparr> = (ms, Some FrameClosed)"
  using assms by (intro read_frames_sent) auto

theorem frames_round_trip_witness:
  "read_frames (Suc (Suc (Suc 0))) (\<lambda>bs. Inr bs) \<lparr>rd_bytes = sent_frames (\<lambda>m. Inr m) [[1, 2], []], rd_fails = None\<rparr>
   = ([[1, 2], []], Some FrameClosed)"
  using frames_round_trip [of "[[1, 2], []]" "\<lambda>m. Inr m" "\<lambda>bs. Inr bs"]
  by (simp add: write_frame_def MAX_FRAME_def)

text \<open>A frame that would be too long is never written nor read past its announced length, and a
  frame cut short at any byte is a closed connection, never a message.\<close>

lemma bad_frames_refused:
  "(\<forall>payload. enc m = Inr payload \<and> length payload > MAX_FRAME \<longrightarrow>
      write_frame enc accepts m = (Some (TooLarge (length payload)), []))
   \<and> (length (rd_bytes r) \<ge> 4 \<and> from_le32 (take 4 (rd_bytes r)) > MAX_FRAME \<longrightarrow>
      read_frame dec r = (Inl (TooLarge (from_le32 (take 4 (rd_bytes r)))), r\<lparr>rd_bytes := drop 4 (rd_bytes r)\<rparr>))
   \<and> (\<forall>frame n. write_frame enc accepts m = (None, frame) \<and> n < length frame \<longrightarrow>
      fst (read_frame dec \<lparr>rd_bytes = take n frame, rd_fails = None\<rparr>) = Inl FrameClosed)"
  using read_frame_too_large [of r dec] read_frame_cut [of enc accepts m _ _ dec] by (auto simp: write_frame_def)

lemma bad_frames_refused_witness:
  "fst (read_frame (\<lambda>bs. Inr bs) \<lparr>rd_bytes = take 5 [2, 0, 0, 0, 7, 8], rd_fails = None\<rparr>) = Inl FrameClosed"
proof -
  have "write_frame (\<lambda>m. Inr m) (\<lambda>_. None) [7, 8] = (None, [2, 0, 0, 0, 7, 8])"
    by (simp add: write_frame_def MAX_FRAME_def le32_def to_byte_def)
  then show ?thesis
    using bad_frames_refused [of "\<lambda>m. Inr m" "[7, 8]" "\<lambda>_. None" "\<lparr>rd_bytes = [], rd_fails = None\<rparr>" "\<lambda>bs. Inr bs"] by force
qed

section \<open>The daemon\<close>

text \<open>C2: in every state the daemon reaches, each session is kept under its own id and one id has one
  session; its retained output is within its capacity; its views are of connected clients, none once
  it has exited; its PTY has the smallest of their sizes, never empty; no session its user ended is
  still listed once it has exited; and no client has more than the limit of output queued.\<close>

theorem daemon_invariant:
  assumes "daemon_reachable cf d"
  shows "distinct (map fst (dm_sessions d))
    \<and> (\<forall>(t, s) \<in> set (dm_sessions d). ss_id s = t \<and> length (ss_tail s) \<le> ss_capacity s
        \<and> viewers s \<subseteq> clients (dm_registry d) \<and> (ss_exited s \<noteq> None \<longrightarrow> ss_views s = [])
        \<and> (ss_views s \<noteq> [] \<longrightarrow> ss_size s = views_size (ss_views s))
        \<and> (\<forall>st. ss_exited s = Some st \<longrightarrow> \<not> user_killed st))
    \<and> (\<forall>(c, q) \<in> set (rg_clients (dm_registry d)). sum_list (map output_bytes (cq_tx q)) \<le> MAX_QUEUED_BYTES)"
proof (intro conjI)
  have ok: "daemon_ok d" by (rule daemon_reachable_ok [OF assms])
  show "distinct (map fst (dm_sessions d))" using daemon_okD(1) [OF ok] by (rule bt_inv_distinct)
  show "\<forall>(t, s) \<in> set (dm_sessions d). ss_id s = t \<and> length (ss_tail s) \<le> ss_capacity s
        \<and> viewers s \<subseteq> clients (dm_registry d) \<and> (ss_exited s \<noteq> None \<longrightarrow> ss_views s = [])
        \<and> (ss_views s \<noteq> [] \<longrightarrow> ss_size s = views_size (ss_views s))
        \<and> (\<forall>st. ss_exited s = Some st \<longrightarrow> \<not> user_killed st)"
    using daemon_okD(3) [OF ok] unfolding entry_ok_def session_ok_def by blast
  show "\<forall>(c, q) \<in> set (rg_clients (dm_registry d)). sum_list (map output_bytes (cq_tx q)) \<le> MAX_QUEUED_BYTES"
    using daemon_okD(2) [OF ok] by (auto simp: registry_ok_def queue_ok_def)
qed

theorem daemon_invariant_witness: "distinct (map fst (dm_sessions (sample_killed (config_new []))))"
  using daemon_invariant [OF sample_killed_reachable] by blast

text \<open>C19: closing the idle terminals never touches one that is busy, nor one already over, nor one it
  was not asked to close.\<close>

theorem close_idle_spares_busy:
  assumes "get_session t d = Some s" "is_busy (an_foreground an s) s \<or> ss_exited s \<noteq> None \<or> t \<notin> set ts"
  shows "get_session t (fst (snd (handle cf an c i (CloseIdleTerminals ts) d))) = Some s
    \<and> fst (handle cf an c i (CloseIdleTerminals ts) d) = Some (Inr (Closed (fst (close_idle an ts d))))
    \<and> t \<notin> set (fst (close_idle an ts d))"
  using close_idle_spares [OF assms] by (simp add: split_beta)

theorem close_idle_spares_busy_witness:
  "get_session 7 (fst (snd (handle (config_new []) (sample_answers\<lparr>an_foreground := (\<lambda>_. Some 99)\<rparr>) 1 2 (CloseIdleTerminals [7])
     (daemon_start\<lparr>dm_sessions := [(7, sample_busy)]\<rparr>)))) = Some sample_busy"
proof -
  have "get_session 7 (daemon_start\<lparr>dm_sessions := [(7, sample_busy)]\<rparr>) = Some sample_busy" by (simp add: get_session_def)
  moreover have "is_busy (Some 99) sample_busy" by (simp add: is_busy_def sample_busy_def sample_session_def)
  ultimately show ?thesis
    using close_idle_spares_busy [of 7 "daemon_start\<lparr>dm_sessions := [(7, sample_busy)]\<rparr>" sample_busy
      "sample_answers\<lparr>an_foreground := (\<lambda>_. Some 99)\<rparr>" "[7]"] by simp
qed

text \<open>C20: the daemon stops for idleness only when no client is connected and no shell runs, those
  being ended included, unless its endpoint is no longer its own.\<close>

theorem idle_stop_is_safe:
  assumes "watch_idle checked cf True now since d = Some (StopIdle, d')"
  shows "rg_clients (dm_registry d) = [] \<and> (\<forall>(t, s) \<in> set (dm_sessions d). ss_exited s \<noteq> None)
    \<and> (\<forall>s \<in> set (dm_ending d). ss_exited s \<noteq> None)"
  using watch_idle_stops [OF assms] by (simp add: registry_count_def)

theorem idle_stop_is_safe_witness:
  "rg_clients (dm_registry daemon_start) = []"
proof -
  have "watch_idle True (config_new []) True 30 (Some 10) daemon_start = Some (StopIdle, daemon_start\<lparr>dm_stopping := True\<rparr>)"
    by (simp add: watch_idle_def config_new_def daemon_start_def live_sessions_def registry_count_def
        registry_default_def sub_usize_def Let_def)
  from idle_stop_is_safe [OF this] show ?thesis by blast
qed

text \<open>A client's writer, left to run, sends everything queued for it in order and then every
  resync it owes, as long as the connection is not being closed.\<close>

lemma writer_delivers:
  assumes "queue_ok q" "\<not> cq_closed q"
  shows "\<exists>n q'. write_turns n q = (cq_tx q @ map Resync (cq_resync q), q') \<and> cq_tx q' = [] \<and> cq_resync q' = [] \<and> cq_queued q' = 0"
  using write_turns_delivers [OF assms] by (intro exI conjI) auto

lemma writer_delivers_witness:
  "\<exists>n q'. write_turns n \<lparr>cq_tx = [Resync 3], cq_queued = 64, cq_resync = [7], cq_closed = False\<rparr> = ([Resync 3, Resync 7], q')"
  using writer_delivers [of "\<lparr>cq_tx = [Resync 3], cq_queued = 64, cq_resync = [7], cq_closed = False\<rparr>"]
  by (fastforce simp: queue_ok_def)

text \<open>C40: the watch for idleness can underflow: after one terminal is started and killed, and before
  its shell has exited, \<open>sessions - live\<close> is less than zero, and a build that checks overflow loses
  the watching thread.\<close>

theorem idle_watch_underflows:
  "\<exists>d. daemon_reachable cf d \<and> (\<forall>now since. watch_idle True cf True now since d = None)"
  using sample_killed_reachable [of cf] watch_idle_underflow [of cf] by blast

end
