(* ===== verification/Settings.thy ===== *)
theory Settings
  imports Json TextCodec
begin

text \<open>
  Application settings (\<open>throng-core/src/settings.rs\<close>): every setting with its type, bounds and
  default; reading a document with each bad value clamped or replaced; writing it with the keys
  throng does not model kept. \<open>serde_json\<close> reads and prints the document, a parameter. The labels and
  help texts are not modelled. A float is a finite rational or not finite.
\<close>

section \<open>Definitions of the settings\<close>

datatype setting_kind =
  KBool bool
| KInt int int int
| KFloat rat rat rat rat
| KChoice "string list" string
| KOptText
| KText string
| KList "string list"

type_synonym setting_def = "string \<times> setting_kind"

definition STYLES :: "string list" where
  "STYLES = [''classic'', ''soft'', ''compact'', ''elevated'']"

definition appearance_settings :: "setting_def list" where
  "appearance_settings =
     [(''appearance.theme'', KText ''throng''),
      (''appearance.style'', KChoice STYLES ''elevated''),
      (''appearance.interfaceFont'', KText ''Inter''),
      (''appearance.codeFont'', KText ''JetBrains Mono''),
      (''appearance.iconPack'', KText ''''),
      (''appearance.uiScale'', KFloat (3 / 4) (2) (1) (3602879701896397 / 72057594037927936)),
      (''appearance.projectsSide'', KChoice [''left'', ''right''] ''left''),
      (''appearance.fileTreeSide'', KChoice [''left'', ''right''] ''left'')]"

definition terminal_settings :: "setting_def list" where
  "terminal_settings =
     [(''terminal.fontSize'', KFloat (8) (36) (14) (1 / 2)),
      (''terminal.scrollbackLines'', KInt 1000 200000 10000),
      (''terminal.defaultShell'', KOptText),
      (''terminal.defaultRememberDirectory'', KBool True),
      (''terminal.reloadMode'', KChoice [''automatic'', ''manual''] ''automatic''),
      (''terminal.showStatusBar'', KBool True),
      (''terminal.copyOnSelect'', KBool False)]"

definition editor_settings :: "setting_def list" where
  "editor_settings =
     [(''editor.fontSize'', KFloat (8) (36) (14) (1 / 2)),
      (''editor.tabSize'', KInt 1 16 4),
      (''editor.wordWrap'', KBool True),
      (''editor.defaultLineEnding'', KChoice [''lf'', ''crlf''] ''lf''),
      (''editor.persistUndoHistory'', KBool True),
      (''editor.autoSave'', KBool False),
      (''editor.autoSaveDebounceMs'', KInt 0 10000 300),
      (''editor.links.detectInEditors'', KBool True),
      (''editor.links.detectInTerminals'', KBool True),
      (''editor.previews.updateDelayMs'', KInt 0 5000 300),
      (''editor.previews.maxWaitMs'', KInt 0 10000 1000),
      (''editor.previews.loadRemoteImages'', KBool True),
      (''editor.previews.syncScroll'', KBool True),
      (''editor.navigationHistorySize'', KInt 1 100 10),
      (''editor.showStatusBar'', KBool True),
      (''editor.statusBar.showCursorPosition'', KBool True),
      (''editor.statusBar.showCounts'', KBool True),
      (''editor.maxOpenFileBytes'', KInt 5242880 1073741824 10485760)]"

definition other_settings :: "setting_def list" where
  "other_settings =
     [(''explorer.exclude'', KList [''.git'', ''.svn'', ''.hg'', ''CVS'', ''.DS_Store'', ''Thumbs.db'', ''node_modules'']),
      (''search.settleMs'', KInt 100 5000 500),
      (''search.warnIrreversibleCommit'', KBool True),
      (''search.quickOpenExcludeHidden'', KBool True),
      (''updates.check'', KBool True)]"

definition SETTINGS :: "setting_def list" where
  "SETTINGS = appearance_settings @ terminal_settings @ editor_settings @ other_settings"

definition RETIRED_KEYS :: "string list" where
  "RETIRED_KEYS = []"

datatype f64 = Fin rat | NonFin

datatype setting_value =
  VBool bool
| VInt int
| VFloat f64
| VText rstring
| VOptText "rstring option"
| VList "rstring list"

fun value_json :: "setting_value \<Rightarrow> json" where
  "value_json (VBool b) = JBool b"
| "value_json (VInt i) = JNumber (number_of_int i)"
| "value_json (VFloat (Fin q)) = JNumber (Real q)"
| "value_json (VFloat NonFin) = JNull"
| "value_json (VText s) = JString s"
| "value_json (VOptText None) = JNull"
| "value_json (VOptText (Some s)) = JString s"
| "value_json (VList l) = JArray (map JString l)"

datatype read_outcome = Missing | Malformed rstring | Loaded "string list"

fun needs_write :: "read_outcome \<Rightarrow> bool" where
  "needs_write Missing = True"
| "needs_write (Malformed r) = False"
| "needs_write (Loaded corrected) = (corrected \<noteq> [])"

type_synonym object = "(rstring \<times> json) list"

record settings =
  s_doc :: object
  s_values :: "(string \<times> setting_value) list"

section \<open>Values\<close>

fun default_value :: "setting_kind \<Rightarrow> setting_value" where
  "default_value (KBool d) = VBool d"
| "default_value (KInt lo hi d) = VInt d"
| "default_value (KFloat lo hi d st) = VFloat (Fin d)"
| "default_value (KChoice os d) = VText (lit d)"
| "default_value KOptText = VOptText None"
| "default_value (KText d) = VText (lit d)"
| "default_value (KList d) = VList (map lit d)"

text \<open>The strings of an array, when all of its elements are.\<close>

definition strings_of :: "json list \<Rightarrow> rstring list option" where
  "strings_of items =
     (if list_all (\<lambda>v. json_str v \<noteq> None) items then Some (List.map_filter json_str items) else None)"

text \<open>One value read against its definition, and whether it had to be corrected.\<close>

fun coerce_raw :: "setting_kind \<Rightarrow> json \<Rightarrow> setting_value \<times> bool" where
  "coerce_raw (KBool d) raw =
     (case json_bool raw of Some b \<Rightarrow> (VBool b, False) | None \<Rightarrow> (VBool d, True))"
| "coerce_raw (KInt lo hi d) raw =
     (case json_f64 raw of
        Some f \<Rightarrow>
          (let clamped = max lo (min hi (to_i64 (round_away f))) in (VInt clamped, of_int clamped \<noteq> f))
      | None \<Rightarrow> (VInt d, True))"
| "coerce_raw (KFloat lo hi d st) raw =
     (case json_f64 raw of
        Some f \<Rightarrow> (let clamped = max lo (min hi f) in (VFloat (Fin clamped), clamped \<noteq> f))
      | None \<Rightarrow> (VFloat (Fin d), True))"
| "coerce_raw (KChoice os d) raw =
     (case json_str raw of
        Some s \<Rightarrow> if s \<in> lit ` set os then (VText s, False) else (VText (lit d), True)
      | None \<Rightarrow> (VText (lit d), True))"
| "coerce_raw KOptText raw =
     (case raw of
        JNull \<Rightarrow> (VOptText None, False)
      | JString s \<Rightarrow> if trim s = [] then (VOptText None, False) else (VOptText (Some s), False)
      | _ \<Rightarrow> (VOptText None, True))"
| "coerce_raw (KText d) raw =
     (case json_str raw of Some s \<Rightarrow> (VText s, False) | None \<Rightarrow> (VText (lit d), True))"
| "coerce_raw (KList d) raw =
     (case Option.bind (json_array raw) strings_of of
        Some l \<Rightarrow> (VList l, False)
      | None \<Rightarrow> (VList (map lit d), True))"

definition coerce :: "setting_kind \<Rightarrow> json option \<Rightarrow> setting_value \<times> bool" where
  "coerce kind raw = (case raw of None \<Rightarrow> (default_value kind, False) | Some v \<Rightarrow> coerce_raw kind v)"

section \<open>Dotted paths\<close>

definition key_parts :: "string \<Rightarrow> rstring list" where
  "key_parts k = map lit (split_on (CHR ''.'') k)"

fun get_parts :: "rstring list \<Rightarrow> object \<Rightarrow> json option" where
  "get_parts [] doc = None"
| "get_parts [p] doc = map_of doc p"
| "get_parts (p # q # ps) doc =
     (case Option.bind (map_of doc p) json_object of
        None \<Rightarrow> None
      | Some sub \<Rightarrow> get_parts (q # ps) sub)"

text \<open>An entry on the way that is not an object is replaced by one.\<close>

fun set_parts :: "rstring list \<Rightarrow> json \<Rightarrow> object \<Rightarrow> object" where
  "set_parts [] v doc = doc"
| "set_parts [p] v doc = im_insert p v doc"
| "set_parts (p # q # ps) v doc =
     (let sub = (case Option.bind (map_of doc p) json_object of None \<Rightarrow> [] | Some sub \<Rightarrow> sub)
      in im_insert p (JObject (set_parts (q # ps) v sub)) doc)"

fun remove_parts :: "rstring list \<Rightarrow> object \<Rightarrow> object" where
  "remove_parts [] doc = doc"
| "remove_parts [p] doc = im_remove p doc"
| "remove_parts (p # q # ps) doc =
     (case Option.bind (map_of doc p) json_object of
        None \<Rightarrow> doc
      | Some sub \<Rightarrow> im_insert p (JObject (remove_parts (q # ps) sub)) doc)"

definition get_path :: "object \<Rightarrow> string \<Rightarrow> json option" where
  "get_path doc k = get_parts (key_parts k) doc"

definition set_path :: "string \<Rightarrow> json \<Rightarrow> object \<Rightarrow> object" where
  "set_path k v doc = set_parts (key_parts k) v doc"

definition remove_path :: "string \<Rightarrow> object \<Rightarrow> object" where
  "remove_path k doc = remove_parts (key_parts k) doc"

section \<open>Reading, writing, changing\<close>

definition settings_default :: settings where
  "settings_default =
     fold (\<lambda>(k, kind) s. s\<lparr>s_doc := set_path k (value_json (default_value kind)) (s_doc s),
                           s_values := s_values s @ [(k, default_value kind)]\<rparr>)
       SETTINGS \<lparr>s_doc = [], s_values = []\<rparr>"

text \<open>One setting of \<open>read\<close>: the value, and the document corrected when it has to be.\<close>

definition read_one :: "setting_def \<Rightarrow> settings \<times> string list \<Rightarrow> settings \<times> string list" where
  "read_one d st =
     (case (d, st) of ((k, kind), (s, corrected)) \<Rightarrow>
        (case coerce kind (get_path (s_doc s) k) of
           (value, fixed) \<Rightarrow>
             (s\<lparr>s_doc := (if fixed then set_path k (value_json value) (s_doc s) else s_doc s),
                s_values := s_values s @ [(k, value)]\<rparr>,
              if fixed then corrected @ [k] else corrected)))"

definition not_an_object :: rstring where
  "not_an_object = lit ''settings must be a JSON object''"

definition settings_read :: "(rstring \<Rightarrow> rstring + json) \<Rightarrow> rstring option \<Rightarrow> settings \<times> read_outcome" where
  "settings_read J doc =
     (case doc of
        None \<Rightarrow> (settings_default, Missing)
      | Some t \<Rightarrow>
          (case J t of
             Inl e \<Rightarrow> (settings_default, Malformed e)
           | Inr v \<Rightarrow>
               (case json_object v of
                  None \<Rightarrow> (settings_default, Malformed not_an_object)
                | Some doc \<Rightarrow>
                    (case fold read_one SETTINGS (\<lparr>s_doc = doc, s_values = []\<rparr>, []) of
                       (s, corrected) \<Rightarrow> (s, Loaded corrected)))))"

definition written :: "settings \<Rightarrow> object" where
  "written s = fold (\<lambda>(k, v). set_path k (value_json v)) (s_values s) (fold remove_path RETIRED_KEYS (s_doc s))"

definition settings_to_json :: "(json \<Rightarrow> rstring) \<Rightarrow> settings \<Rightarrow> rstring" where
  "settings_to_json pretty s = pretty (JObject (written s)) @ [LF]"

fun same_discriminant :: "setting_value \<Rightarrow> setting_value \<Rightarrow> bool" where
  "same_discriminant (VBool _) (VBool _) = True"
| "same_discriminant (VInt _) (VInt _) = True"
| "same_discriminant (VFloat _) (VFloat _) = True"
| "same_discriminant (VText _) (VText _) = True"
| "same_discriminant (VOptText _) (VOptText _) = True"
| "same_discriminant (VList _) (VList _) = True"
| "same_discriminant _ _ = False"

text \<open>The first entry with the key, when there is one.\<close>

fun put_value :: "string \<Rightarrow> setting_value \<Rightarrow> (string \<times> setting_value) list \<Rightarrow> (string \<times> setting_value) list" where
  "put_value k v [] = []"
| "put_value k v ((k', v') # vs) = (if k' = k then (k', v) # vs else (k', v') # put_value k v vs)"

definition settings_set :: "string \<Rightarrow> setting_value \<Rightarrow> settings \<Rightarrow> bool \<times> settings" where
  "settings_set k value s =
     (case map_of SETTINGS k of
        None \<Rightarrow> (False, s)
      | Some kind \<Rightarrow>
          (case coerce kind (Some (value_json value)) of
             (coerced, rejected) \<Rightarrow>
               if rejected \<and> \<not> same_discriminant coerced value then (False, s)
               else (True, s\<lparr>s_values := put_value k coerced (s_values s),
                             s_doc := set_path k (value_json coerced) (s_doc s)\<rparr>)))"

definition settings_reset :: "string \<Rightarrow> settings \<Rightarrow> settings" where
  "settings_reset k s =
     (case map_of SETTINGS k of None \<Rightarrow> s | Some kind \<Rightarrow> snd (settings_set k (default_value kind) s))"

definition settings_get :: "string \<Rightarrow> settings \<Rightarrow> setting_value option" where
  "settings_get k s = map_of (s_values s) k"

section \<open>Typed accessors\<close>

definition get_bool :: "settings \<Rightarrow> string \<Rightarrow> bool" where
  "get_bool s k = (settings_get k s = Some (VBool True))"

text \<open>An \<open>f32\<close>.\<close>

definition get_float :: "settings \<Rightarrow> string \<Rightarrow> f64" where
  "get_float s k =
     (case settings_get k s of
        Some (VFloat (Fin q)) \<Rightarrow> Fin (nearest 24 q)
      | Some (VFloat NonFin) \<Rightarrow> NonFin
      | Some (VInt i) \<Rightarrow> Fin (nearest 24 (of_int i))
      | _ \<Rightarrow> Fin 0)"

definition get_int :: "settings \<Rightarrow> string \<Rightarrow> int" where
  "get_int s k = (case settings_get k s of Some (VInt i) \<Rightarrow> i | _ \<Rightarrow> 0)"

definition get_text :: "settings \<Rightarrow> string \<Rightarrow> rstring" where
  "get_text s k = (case settings_get k s of Some (VText t) \<Rightarrow> t | _ \<Rightarrow> [])"

text \<open>\<open>try_from(..).unwrap_or(..)\<close> into an unsigned type.\<close>

definition unsigned_or :: "nat \<Rightarrow> int \<Rightarrow> nat" where
  "unsigned_or d i = (if i \<ge> 0 then nat i else d)"

definition theme_name :: "settings \<Rightarrow> rstring" where
  "theme_name s =
     get_text s ''appearance.theme''"

definition interface_style :: "settings \<Rightarrow> rstring" where
  "interface_style s =
     get_text s ''appearance.style''"

definition interface_font :: "settings \<Rightarrow> rstring" where
  "interface_font s =
     get_text s ''appearance.interfaceFont''"

definition code_font :: "settings \<Rightarrow> rstring" where
  "code_font s =
     get_text s ''appearance.codeFont''"

definition icon_pack :: "settings \<Rightarrow> rstring" where
  "icon_pack s =
     get_text s ''appearance.iconPack''"

definition ui_scale :: "settings \<Rightarrow> f64" where
  "ui_scale s =
     get_float s ''appearance.uiScale''"

definition projects_on_right :: "settings \<Rightarrow> bool" where
  "projects_on_right s =
     (get_text s ''appearance.projectsSide'' = lit ''right'')"

definition file_tree_on_right :: "settings \<Rightarrow> bool" where
  "file_tree_on_right s =
     (get_text s ''appearance.fileTreeSide'' = lit ''right'')"

definition terminal_font_size :: "settings \<Rightarrow> f64" where
  "terminal_font_size s =
     get_float s ''terminal.fontSize''"

definition scrollback_lines :: "settings \<Rightarrow> nat" where
  "scrollback_lines s =
     unsigned_or 10000 (get_int s ''terminal.scrollbackLines'')"

definition default_shell :: "settings \<Rightarrow> rstring option" where
  "default_shell s =
     (case settings_get ''terminal.defaultShell'' s of Some (VOptText t) \<Rightarrow> t | _ \<Rightarrow> None)"

definition copy_on_select :: "settings \<Rightarrow> bool" where
  "copy_on_select s =
     get_bool s ''terminal.copyOnSelect''"

definition editor_font_size :: "settings \<Rightarrow> f64" where
  "editor_font_size s =
     get_float s ''editor.fontSize''"

definition tab_size :: "settings \<Rightarrow> nat" where
  "tab_size s =
     unsigned_or 4 (get_int s ''editor.tabSize'')"

definition word_wrap :: "settings \<Rightarrow> bool" where
  "word_wrap s =
     get_bool s ''editor.wordWrap''"

definition default_line_ending :: "settings \<Rightarrow> line_ending" where
  "default_line_ending s =
     (if get_text s ''editor.defaultLineEnding'' = lit ''crlf'' then CrLf else Lf)"

definition max_open_file_bytes :: "settings \<Rightarrow> nat" where
  "max_open_file_bytes s =
     unsigned_or 10485760 (get_int s ''editor.maxOpenFileBytes'')"

definition persist_undo_history :: "settings \<Rightarrow> bool" where
  "persist_undo_history s =
     get_bool s ''editor.persistUndoHistory''"

definition links_in_editors :: "settings \<Rightarrow> bool" where
  "links_in_editors s =
     get_bool s ''editor.links.detectInEditors''"

definition links_in_terminals :: "settings \<Rightarrow> bool" where
  "links_in_terminals s =
     get_bool s ''editor.links.detectInTerminals''"

definition preview_timing :: "settings \<Rightarrow> nat \<times> nat" where
  "preview_timing s =
     (let delay = unsigned_or 300 (get_int s ''editor.previews.updateDelayMs'');
          wait = unsigned_or 1000 (get_int s ''editor.previews.maxWaitMs'')
      in (delay, max wait delay))"

definition remember_directory_default :: "settings \<Rightarrow> bool" where
  "remember_directory_default s =
     get_bool s ''terminal.defaultRememberDirectory''"

definition navigation_history_size :: "settings \<Rightarrow> nat" where
  "navigation_history_size s =
     unsigned_or 10 (get_int s ''editor.navigationHistorySize'')"

definition preview_sync_scroll :: "settings \<Rightarrow> bool" where
  "preview_sync_scroll s =
     get_bool s ''editor.previews.syncScroll''"

definition preview_remote_images :: "settings \<Rightarrow> bool" where
  "preview_remote_images s =
     get_bool s ''editor.previews.loadRemoteImages''"

definition manual_reload :: "settings \<Rightarrow> bool" where
  "manual_reload s =
     (get_text s ''terminal.reloadMode'' = lit ''manual'')"

definition editor_status_bar :: "settings \<Rightarrow> bool \<times> bool \<times> bool" where
  "editor_status_bar s =
     (get_bool s ''editor.showStatusBar'', get_bool s ''editor.statusBar.showCursorPosition'',
      get_bool s ''editor.statusBar.showCounts'')"

definition check_for_updates :: "settings \<Rightarrow> bool" where
  "check_for_updates s =
     get_bool s ''updates.check''"

definition terminal_status_bar :: "settings \<Rightarrow> bool" where
  "terminal_status_bar s =
     get_bool s ''terminal.showStatusBar''"

definition auto_save :: "settings \<Rightarrow> bool" where
  "auto_save s =
     get_bool s ''editor.autoSave''"

definition auto_save_debounce_ms :: "settings \<Rightarrow> nat" where
  "auto_save_debounce_ms s =
     unsigned_or 300 (get_int s ''editor.autoSaveDebounceMs'')"

definition search_settle_ms :: "settings \<Rightarrow> nat" where
  "search_settle_ms s =
     unsigned_or 500 (get_int s ''search.settleMs'')"

definition warn_irreversible_commit :: "settings \<Rightarrow> bool" where
  "warn_irreversible_commit s =
     get_bool s ''search.warnIrreversibleCommit''"

definition quick_open_exclude_hidden :: "settings \<Rightarrow> bool" where
  "quick_open_exclude_hidden s =
     get_bool s ''search.quickOpenExcludeHidden''"

definition explorer_exclude :: "settings \<Rightarrow> rstring list" where
  "explorer_exclude s =
     (case settings_get ''explorer.exclude'' s of Some (VList l) \<Rightarrow> l | _ \<Rightarrow> [])"

section \<open>Paths into the document\<close>

text \<open>Two paths neither of which leads through the other.\<close>

fun apart_paths :: "'a list \<Rightarrow> 'a list \<Rightarrow> bool" where
  "apart_paths (p # ps) (q # qs) = (p \<noteq> q \<or> apart_paths ps qs)"
| "apart_paths _ _ = False"

lemma apart_paths_sym: "apart_paths ps qs = apart_paths qs ps"
  by (induction ps qs rule: apart_paths.induct) auto

lemma apart_paths_map: "inj f \<Longrightarrow> apart_paths (map f ps) (map f qs) = apart_paths ps qs"
  by (induction ps qs rule: apart_paths.induct) (auto simp: inj_eq)

lemma get_set_same: "ps \<noteq> [] \<Longrightarrow> get_parts ps (set_parts ps v doc) = Some v"
  by (induction ps v doc rule: set_parts.induct) (simp_all add: map_of_im_insert Let_def)

lemma get_parts_Nil: "get_parts ps [] = None"
  by (cases "(ps, [] :: object)" rule: get_parts.cases) simp_all

lemma get_set_apart: "apart_paths ps qs \<Longrightarrow> get_parts ps (set_parts qs v doc) = get_parts ps doc"
proof (induction qs v doc arbitrary: ps rule: set_parts.induct)
  case (1 v doc)
  then show ?case by (cases ps) simp_all
next
  case (2 p v doc)
  then obtain r rs where r: "ps = r # rs" "r \<noteq> p" by (cases ps) auto
  then show ?case by (cases rs) (simp_all add: map_of_im_insert)
next
  case (3 p q qs v doc)
  then obtain r rs where r: "ps = r # rs" "r \<noteq> p \<or> apart_paths rs (q # qs)" by (cases ps) auto
  define sub where "sub = (case Option.bind (map_of doc p) json_object of None \<Rightarrow> [] | Some sub \<Rightarrow> sub)"
  show ?case
  proof (cases "r = p")
    case True
    then obtain r' rs' where rs: "rs = r' # rs'" using r(2) by (cases rs) auto
    have "get_parts rs (set_parts (q # qs) v sub) = get_parts rs sub"
      using r(2) True by (intro "3.IH" [OF sub_def]) auto
    moreover have "get_parts ps doc = get_parts rs sub"
      using r(1) True rs by (simp add: sub_def get_parts_Nil split: option.split)
    ultimately show ?thesis using r(1) True rs by (simp add: map_of_im_insert Let_def sub_def)
  next
    case False
    then show ?thesis using r(1) by (cases rs) (simp_all add: map_of_im_insert Let_def)
  qed
qed

definition keys_apart :: "string \<Rightarrow> string \<Rightarrow> bool" where
  "keys_apart k l = apart_paths (split_on (CHR ''.'') k) (split_on (CHR ''.'') l)"

lemma keys_apart_sym: "keys_apart k l = keys_apart l k"
  by (simp add: keys_apart_def apart_paths_sym)

lemma get_path_set_same: "get_path (set_path k v doc) k = Some v"
  by (simp add: get_path_def set_path_def key_parts_def get_set_same)

lemma get_path_set_apart: "keys_apart k l \<Longrightarrow> get_path (set_path l v doc) k = get_path doc k"
  by (simp add: get_path_def set_path_def key_parts_def get_set_apart keys_apart_def apart_paths_map [OF lit_inj])

text \<open>No setting's key leads through another's.\<close>

lemma settings_apart: "sorted_wrt keys_apart (map fst SETTINGS)"
  by code_simp

section \<open>Values fit their settings\<close>

fun fits :: "setting_kind \<Rightarrow> setting_value \<Rightarrow> bool" where
  "fits (KBool d) (VBool b) = True"
| "fits (KInt lo hi d) (VInt i) = (lo \<le> i \<and> i \<le> hi)"
| "fits (KFloat lo hi d st) (VFloat (Fin q)) = (lo \<le> q \<and> q \<le> hi)"
| "fits (KChoice os d) (VText s) = (s \<in> lit ` set os)"
| "fits KOptText (VOptText t) = (case t of None \<Rightarrow> True | Some s \<Rightarrow> trim s \<noteq> [])"
| "fits (KText d) (VText s) = True"
| "fits (KList d) (VList l) = True"
| "fits _ _ = False"

text \<open>Bounds the right way round, around the default, and exact as floats.\<close>

fun kind_ok :: "setting_kind \<Rightarrow> bool" where
  "kind_ok (KInt lo hi d) = (lo \<le> d \<and> d \<le> hi \<and> - (2 ^ 53) \<le> lo \<and> hi \<le> 2 ^ 53)"
| "kind_ok (KFloat lo hi d st) = (lo \<le> d \<and> d \<le> hi)"
| "kind_ok (KChoice os d) = (d \<in> set os)"
| "kind_ok _ = True"

lemma settings_kinds_ok: "list_all (kind_ok \<circ> snd) SETTINGS"
  by (simp add: SETTINGS_def appearance_settings_def terminal_settings_def editor_settings_def other_settings_def STYLES_def)

lemma default_fits: "kind_ok kind \<Longrightarrow> fits kind (default_value kind)"
  by (cases kind) auto

lemma coerce_raw_fits: "kind_ok kind \<Longrightarrow> fits kind (fst (coerce_raw kind raw))"
  by (cases kind) (auto simp: Let_def max_def min_def split: option.split json.split)

lemma coerce_fits: "kind_ok kind \<Longrightarrow> fits kind (fst (coerce kind raw))"
  by (auto simp: coerce_def default_fits coerce_raw_fits split: option.split)

lemma strings_of_strings [simp]: "strings_of (map JString l) = Some l"
proof -
  have "List.map_filter json_str (map JString l) = l" by (induction l) (simp_all add: List.map_filter_simps)
  then show ?thesis by (simp add: strings_of_def list_all_iff)
qed

lemma coerce_written:
  assumes "kind_ok kind" "fits kind v"
  shows "coerce kind (Some (value_json v)) = (v, False)"
proof (cases "(kind, v)" rule: fits.cases)
  case (2 lo hi d i)
  then have b: "\<bar>i\<bar> \<le> 2 ^ 53" "lo \<le> i" "i \<le> hi" using assms by auto
  then have "number_f64 (number_of_int i) = of_int i" by (intro number_f64_of_int)
  moreover have "to_i64 i = i" using b(1) by (intro to_i64_id) auto
  ultimately show ?thesis using 2 b by (simp add: coerce_def Let_def)
qed (use assms in \<open>auto simp: coerce_def Let_def split: option.splits\<close>)

definition settings_ok :: "settings \<Rightarrow> bool" where
  "settings_ok s \<longleftrightarrow> list_all2 (\<lambda>d e. fst e = fst d \<and> fits (snd d) (snd e)) SETTINGS (s_values s)"

lemma settings_keys: "settings_ok s \<Longrightarrow> map fst (s_values s) = map fst SETTINGS"
  by (simp add: settings_ok_def list_all2_conv_all_nth list_eq_iff_nth_eq)

text \<open>Any loop that adds one fitting value for each setting ends with values that fit.\<close>

lemma fold_fitting:
  assumes "\<And>d x. d \<in> set ds \<Longrightarrow> \<exists>v. vals (f d x) = vals x @ [(fst d, v)] \<and> fits (snd d) v"
  shows "\<exists>vs. vals (fold f ds x) = vals x @ vs \<and> list_all2 (\<lambda>d e. fst e = fst d \<and> fits (snd d) (snd e)) ds vs"
  using assms
proof (induction ds arbitrary: x)
  case (Cons d ds)
  obtain v where v: "vals (f d x) = vals x @ [(fst d, v)]" "fits (snd d) v" using Cons.prems [of d x] by auto
  obtain vs where "vals (fold f ds (f d x)) = vals (f d x) @ vs"
    "list_all2 (\<lambda>d e. fst e = fst d \<and> fits (snd d) (snd e)) ds vs"
    using Cons.IH [of "f d x"] Cons.prems by auto
  then show ?case using v by (intro exI [of _ "(fst d, v) # vs"]) simp
qed simp

lemma settings_kind_ok: "d \<in> set SETTINGS \<Longrightarrow> kind_ok (snd d)"
  using settings_kinds_ok by (simp add: list_all_iff)

lemma settings_default_ok: "settings_ok settings_default"
proof -
  let ?f = "\<lambda>d (s :: settings). case d of (k, kind) \<Rightarrow>
    s\<lparr>s_doc := set_path k (value_json (default_value kind)) (s_doc s), s_values := s_values s @ [(k, default_value kind)]\<rparr>"
  have "\<exists>vs. s_values (fold ?f SETTINGS \<lparr>s_doc = [], s_values = []\<rparr>) = [] @ vs
     \<and> list_all2 (\<lambda>d e. fst e = fst d \<and> fits (snd d) (snd e)) SETTINGS vs"
    using fold_fitting [of SETTINGS s_values ?f "\<lparr>s_doc = [], s_values = []\<rparr>"] default_fits settings_kind_ok
    by (simp add: split_beta)
  then show ?thesis unfolding settings_ok_def settings_default_def by (simp add: case_prod_unfold)
qed

lemma read_one_values: "s_values (fst (read_one d x)) = s_values (fst x) @ [(fst d, fst (coerce (snd d) (get_path (s_doc (fst x)) (fst d))))]"
  by (simp add: read_one_def split_beta)

lemma fold_read_ok:
  "\<exists>vs. s_values (fst (fold read_one SETTINGS x)) = s_values (fst x) @ vs
     \<and> list_all2 (\<lambda>d e. fst e = fst d \<and> fits (snd d) (snd e)) SETTINGS vs"
  by (rule fold_fitting) (use coerce_fits settings_kind_ok read_one_values in blast)

lemma settings_read_ok: "settings_ok (fst (settings_read J doc))"
proof -
  have "settings_ok (fst (fold read_one SETTINGS (\<lparr>s_doc = m, s_values = []\<rparr>, [])))" for m
    using fold_read_ok [of "(\<lparr>s_doc = m, s_values = []\<rparr>, [])"] by (auto simp: settings_ok_def)
  then show ?thesis
    by (auto simp: settings_read_def settings_default_ok split_beta split: option.split sum.split)
qed

lemma list_all2_put:
  assumes "list_all2 (\<lambda>d e. fst e = fst d \<and> fits (snd d) (snd e)) ds vs" "map_of ds k = Some kind" "fits kind v"
  shows "list_all2 (\<lambda>d e. fst e = fst d \<and> fits (snd d) (snd e)) ds (put_value k v vs)"
  using assms by (induction rule: list_all2_induct) (auto split: if_splits)

lemma settings_set_ok: "settings_ok s \<Longrightarrow> settings_ok (snd (settings_set k v s))"
proof -
  assume s: "settings_ok s"
  show ?thesis
  proof (cases "map_of SETTINGS k")
    case (Some kind)
    then have "(k, kind) \<in> set SETTINGS" by (rule map_of_SomeD)
    then have "fits kind (fst (coerce kind (Some (value_json v))))" using coerce_fits settings_kind_ok by fastforce
    then show ?thesis using s list_all2_put [OF _ Some] Some
      by (auto simp: settings_set_def settings_ok_def split: prod.split)
  qed (simp add: settings_set_def s)
qed

lemma settings_reset_ok: "settings_ok s \<Longrightarrow> settings_ok (settings_reset k s)"
  by (simp add: settings_reset_def settings_set_ok split: option.split)

section \<open>What is written is read back\<close>

lemma fold_set_get:
  assumes "sorted_wrt keys_apart (map fst vs)" "(k, v) \<in> set vs"
  shows "get_path (fold (\<lambda>(k, v). set_path k (value_json v)) vs doc) k = Some (value_json v)"
  using assms
proof (induction vs arbitrary: doc)
  case (Cons e vs)
  have other: "\<forall>l \<in> fst ` set vs'. keys_apart k l \<Longrightarrow>
    get_path (fold (\<lambda>(k, v). set_path k (value_json v)) vs' doc') k = get_path doc' k" for vs' doc'
    by (induction vs' arbitrary: doc') (simp_all add: get_path_set_apart split_beta)
  show ?case
  proof (cases "(k, v) = e")
    case True
    then show ?thesis using Cons.prems(1) other [of vs] get_path_set_same by auto
  next
    case False
    then show ?thesis using Cons by (simp add: split_beta)
  qed
qed simp

lemma fold_read_written:
  assumes "list_all2 (\<lambda>d e. fst e = fst d \<and> fits (snd d) (snd e)) ds vs" "list_all (kind_ok \<circ> snd) ds"
    and "\<forall>(k, v) \<in> set vs. get_path doc k = Some (value_json v)"
  shows "fold read_one ds (\<lparr>s_doc = doc, s_values = us\<rparr>, c) = (\<lparr>s_doc = doc, s_values = us @ vs\<rparr>, c)"
  using assms
proof (induction arbitrary: us rule: list_all2_induct)
  case (Cons d ds e vs)
  then have "coerce (snd d) (get_path doc (fst d)) = (snd e, False)"
    using coerce_written by (cases e) auto
  then have "read_one d (\<lparr>s_doc = doc, s_values = us\<rparr>, c) = (\<lparr>s_doc = doc, s_values = us @ [e]\<rparr>, c)"
    using Cons.hyps by (cases d, cases e) (simp add: read_one_def)
  then show ?case using Cons by simp
qed simp

lemma written_read:
  assumes s: "settings_ok s" and J: "J (settings_to_json pretty s) = Inr (JObject (written s))"
  shows "settings_read J (Some (settings_to_json pretty s)) = (\<lparr>s_doc = written s, s_values = s_values s\<rparr>, Loaded [])"
proof -
  have "sorted_wrt keys_apart (map fst (s_values s))" using settings_apart settings_keys [OF s] by simp
  then have "\<forall>(k, v) \<in> set (s_values s). get_path (written s) k = Some (value_json v)"
    unfolding written_def using fold_set_get by blast
  with fold_read_written [OF s [unfolded settings_ok_def] settings_kinds_ok] show ?thesis
    by (simp add: settings_read_def J)
qed

text \<open>Entries of the document that no setting names survive reading and writing.\<close>

definition unmodelled :: "rstring list \<Rightarrow> bool" where
  "unmodelled ps \<longleftrightarrow> list_all (\<lambda>d. apart_paths ps (key_parts (fst d))) SETTINGS"

lemma set_path_unmodelled: "apart_paths ps (key_parts k) \<Longrightarrow> get_parts ps (set_path k v doc) = get_parts ps doc"
  by (simp add: set_path_def get_set_apart)

lemma fold_set_unmodelled:
  "\<forall>e \<in> set vs. apart_paths ps (key_parts (fst e)) \<Longrightarrow>
   get_parts ps (fold (\<lambda>(k, v). set_path k (value_json v)) vs doc) = get_parts ps doc"
  by (induction vs arbitrary: doc) (simp_all add: set_path_unmodelled split_beta)

lemma written_unmodelled:
  assumes "settings_ok s" "unmodelled ps"
  shows "get_parts ps (written s) = get_parts ps (s_doc s)"
proof -
  have "fst ` set (s_values s) = fst ` set SETTINGS" using settings_keys [OF assms(1)] by (metis list.set_map)
  then have "\<forall>e \<in> set (s_values s). apart_paths ps (key_parts (fst e))"
    using assms(2) unfolding unmodelled_def list_all_iff by (metis image_iff)
  then show ?thesis by (simp add: written_def fold_set_unmodelled RETIRED_KEYS_def)
qed

lemma fold_read_unmodelled:
  "\<forall>d \<in> set ds. apart_paths ps (key_parts (fst d)) \<Longrightarrow>
   get_parts ps (s_doc (fst (fold read_one ds x))) = get_parts ps (s_doc (fst x))"
  by (induction ds arbitrary: x) (simp_all add: read_one_def split_beta set_path_unmodelled)

lemma read_unmodelled:
  assumes "J t = Inr (JObject m)" "unmodelled ps"
  shows "get_parts ps (s_doc (fst (settings_read J (Some t)))) = get_parts ps m"
  using fold_read_unmodelled [of SETTINGS ps "(\<lparr>s_doc = m, s_values = []\<rparr>, [])"] assms
  by (simp add: settings_read_def unmodelled_def list_all_iff split_beta)

lemma set_unmodelled:
  assumes "unmodelled ps"
  shows "get_parts ps (s_doc (snd (settings_set k v s))) = get_parts ps (s_doc s)"
proof (cases "map_of SETTINGS k")
  case (Some kind)
  then have "(k, kind) \<in> set SETTINGS" by (rule map_of_SomeD)
  then have "apart_paths ps (key_parts k)" using assms by (fastforce simp: unmodelled_def list_all_iff)
  then show ?thesis by (simp add: settings_set_def Some set_path_unmodelled split: prod.split)
qed (simp add: settings_set_def)

text \<open>What is set is what is got, within its bounds.\<close>

lemma put_value_get: "k \<in> fst ` set vs \<Longrightarrow> map_of (put_value k v vs) = (map_of vs)(k \<mapsto> v)"
proof (induction k v vs rule: put_value.induct)
  case (2 k v k' v' vs)
  then show ?case by (cases "k' = k") (auto simp: fun_upd_twist)
qed simp

lemma set_get:
  assumes "settings_ok s" "settings_set k v s = (True, s')" "map_of SETTINGS k = Some kind"
  shows "settings_get l s' = (if l = k then Some (fst (coerce kind (Some (value_json v)))) else settings_get l s)"
    and "fits kind (fst (coerce kind (Some (value_json v))))"
proof -
  have m: "(k, kind) \<in> set SETTINGS" using assms(3) by (rule map_of_SomeD)
  show "fits kind (fst (coerce kind (Some (value_json v))))" using coerce_fits settings_kind_ok [OF m] by simp
  have "k \<in> fst ` set (s_values s)"
    using settings_keys [OF assms(1)] m by (metis fst_conv image_eqI list.set_map)
  with assms(2,3) show "settings_get l s' = (if l = k then Some (fst (coerce kind (Some (value_json v)))) else settings_get l s)"
    using put_value_get [of k "s_values s" "fst (coerce kind (Some (value_json v)))"]
    by (cases "coerce kind (Some (value_json v))") (auto simp: settings_set_def settings_get_def split: if_splits)
qed

end
