(* ===== verification/Keymap.thy ===== *)
theory Keymap
  imports Json "HOL-Library.List_Lexorder"
begin

text \<open>
  Key bindings (\<open>throng-core/src/keymap.rs\<close>): chords and how they are read and written, the table of
  commands with the places they are live, and the chords bound to each: the defaults with the user's
  file over them. \<open>char::to_uppercase\<close>, the JSON reader and its printers are parameters. The lemmas
  show that a chord that is written is read back, that no command ever gets a chord it may not have,
  that binding a chord takes it from its rivals, and that a written file gives the same bindings.
\<close>

section \<open>Chords\<close>

datatype scope = EditorScope | TerminalScope | ExplorerScope | PreviewScope | FindInFiles

definition EVERYWHERE :: "scope list" where
  "EVERYWHERE = [EditorScope, TerminalScope, ExplorerScope, PreviewScope, FindInFiles]"

record chord =
  ch_ctrl :: bool
  ch_shift :: bool
  ch_alt :: bool
  ch_key :: rstring

definition MODIFIER_NAMES :: "rstring list" where
  "MODIFIER_NAMES = map lit [''Ctrl'', ''Control'', ''Shift'', ''Alt'', ''Meta'', ''Cmd'', ''Command'', ''Option'']"

definition eq_ignore_ascii_case :: "rstring \<Rightarrow> rstring \<Rightarrow> bool" where
  "eq_ignore_ascii_case a b \<longleftrightarrow> map to_ascii_lower a = map to_ascii_lower b"

definition KEY_ALIASES :: "(rstring \<times> rstring) list" where
  "KEY_ALIASES = map (\<lambda>(a, b). (lit a, lit b))
     [(''esc'', ''Escape''), (''return'', ''Enter''), (''del'', ''Delete''), (''up'', ''ArrowUp''), (''down'', ''ArrowDown''),
      (''left'', ''ArrowLeft''), (''right'', ''ArrowRight''), (''pgup'', ''PageUp''), (''pgdn'', ''PageDown''),
      (''pgdown'', ''PageDown''), (''space'', ''Space''), (''spacebar'', ''Space'')]"

definition normalise_key :: "(rchar \<Rightarrow> rstring) \<Rightarrow> rstring \<Rightarrow> rstring" where
  "normalise_key up key =
     (case key of
        [c] \<Rightarrow> up c
      | _ \<Rightarrow>
          (case map_of KEY_ALIASES (map to_ascii_lower key) of
             Some alias \<Rightarrow> alias
           | None \<Rightarrow> (case key of [] \<Rightarrow> [] | c # cs \<Rightarrow> up c @ cs)))"

definition CTRL_NAMES :: "rstring list" where
  "CTRL_NAMES = map lit [''ctrl'', ''control'', ''cmd'', ''command'', ''meta'', ''super'']"

definition ALT_NAMES :: "rstring list" where
  "ALT_NAMES = map lit [''alt'', ''option'', ''opt'']"

text \<open>The modifiers of a chord, one by one.\<close>

fun read_modifiers :: "rstring list \<Rightarrow> chord \<Rightarrow> chord option" where
  "read_modifiers [] c = Some c"
| "read_modifiers (p # ps) c =
     (let l = map to_ascii_lower p
      in if l \<in> set CTRL_NAMES then read_modifiers ps (c\<lparr>ch_ctrl := True\<rparr>)
         else if l = lit ''shift'' then read_modifiers ps (c\<lparr>ch_shift := True\<rparr>)
         else if l \<in> set ALT_NAMES then read_modifiers ps (c\<lparr>ch_alt := True\<rparr>)
         else None)"

definition strip_suffix :: "rstring \<Rightarrow> rstring \<Rightarrow> rstring option" where
  "strip_suffix p s = map_option rev (strip_prefix (rev p) (rev s))"

text \<open>A trailing \<open>+\<close> is the plus key.\<close>

definition split_chord :: "rstring \<Rightarrow> rstring \<times> rstring" where
  "split_chord token =
     (case strip_suffix [43, 43] token of
        Some head \<Rightarrow> (head, [43])
      | None \<Rightarrow>
          if token = [43] then ([], [43])
          else case rsplit_once 43 token of Some (mods, key) \<Rightarrow> (mods, key) | None \<Rightarrow> ([], token))"

definition chord_parse :: "(rchar \<Rightarrow> rstring) \<Rightarrow> rstring \<Rightarrow> chord option" where
  "chord_parse up token =
     (case split_chord (trim token) of
        (mods, key) \<Rightarrow>
          (case read_modifiers (filter (\<lambda>p. p \<noteq> []) (map trim (split_on 43 mods)))
                  \<lparr>ch_ctrl = False, ch_shift = False, ch_alt = False, ch_key = []\<rparr> of
             None \<Rightarrow> None
           | Some c \<Rightarrow>
               (let key = trim key
                in if key = [] \<or> list_ex (\<lambda>m. eq_ignore_ascii_case m key) MODIFIER_NAMES then None
                   else Some (c\<lparr>ch_key := normalise_key up key\<rparr>))))"

definition bindable :: "chord \<Rightarrow> bool" where
  "bindable c \<longleftrightarrow>
     ch_ctrl c \<or> ch_alt c \<or> ch_shift c \<or>
     ch_key c \<notin> set (map lit [''Escape'', ''Space'', ''Enter'', ''Tab'', ''Backspace''])"

definition chord_show :: "chord \<Rightarrow> rstring" where
  "chord_show c =
     (if ch_ctrl c then lit ''Ctrl+'' else []) @ (if ch_shift c then lit ''Shift+'' else []) @
     (if ch_alt c then lit ''Alt+'' else []) @ ch_key c"

section \<open>Commands\<close>

record command =
  cm_id :: rstring
  cm_group :: rstring
  cm_label :: rstring
  cm_scopes :: "scope list"
  cm_defaults :: "rstring list"
  cm_mac_defaults :: "rstring list option"

definition command_defaults :: "(rchar \<Rightarrow> rstring) \<Rightarrow> bool \<Rightarrow> command \<Rightarrow> chord list" where
  "command_defaults up mac c =
     List.map_filter (chord_parse up)
       (if mac then case cm_mac_defaults c of Some ts \<Rightarrow> ts | None \<Rightarrow> cm_defaults c else cm_defaults c)"

definition live_in :: "command \<Rightarrow> scope \<Rightarrow> bool" where
  "live_in c s \<longleftrightarrow> s \<in> set (cm_scopes c)"

definition shares_scope :: "command \<Rightarrow> command \<Rightarrow> bool" where
  "shares_scope c d \<longleftrightarrow> list_ex (\<lambda>s. s \<in> set (cm_scopes d)) (cm_scopes c)"

definition cmd :: "rstring \<Rightarrow> rstring \<Rightarrow> rstring \<Rightarrow> scope list \<Rightarrow> rstring list \<Rightarrow> command" where
  "cmd cid grp label scopes defaults =
     \<lparr>cm_id = cid, cm_group = grp, cm_label = label, cm_scopes = scopes, cm_defaults = defaults, cm_mac_defaults = None\<rparr>"

definition EDITOR :: "scope list" where "EDITOR = [EditorScope]"
definition TERMINAL :: "scope list" where "TERMINAL = [TerminalScope]"
definition EXPLORER :: "scope list" where "EXPLORER = [ExplorerScope]"
definition PANELS :: "scope list" where "PANELS = [EditorScope, TerminalScope]"
definition LINKS :: "scope list" where "LINKS = [EditorScope, PreviewScope]"
definition PREVIEW :: "scope list" where "PREVIEW = [PreviewScope]"

definition COMMANDS :: "command list" where
  "COMMANDS =
     [cmd (lit ''navigate.quickOpen'') (lit ''Navigate'') (lit ''Quick Open'') EVERYWHERE [lit ''Ctrl+Shift+T''],
      cmd (lit ''navigate.gotoLine'') (lit ''Navigate'') (lit ''Go To Line'') EDITOR [lit ''Ctrl+G''],
      cmd (lit ''preview.followLink'') (lit ''Navigate'') (lit ''Open Link'') LINKS [lit ''Ctrl+Enter''],
      cmd (lit ''navigate.back'') (lit ''Navigate'') (lit ''Back'') PREVIEW [lit ''Alt+ArrowLeft''],
      cmd (lit ''navigate.forward'') (lit ''Navigate'') (lit ''Forward'') PREVIEW [lit ''Alt+ArrowRight''],
      cmd (lit ''tabs.next'') (lit ''Tabs'') (lit ''Next tab'') EVERYWHERE [lit ''Ctrl+Tab''],
      cmd (lit ''tabs.previous'') (lit ''Tabs'') (lit ''Previous tab'') EVERYWHERE [lit ''Ctrl+Shift+Tab''],
      cmd (lit ''panel.splitRight'') (lit ''Panels'') (lit ''Split right with a terminal'') EVERYWHERE [lit ''Ctrl+Shift+D''],
      cmd (lit ''panel.splitDown'') (lit ''Panels'') (lit ''Split down with a terminal'') EVERYWHERE [lit ''Ctrl+Shift+E''],
      cmd (lit ''panel.close'') (lit ''Panels'') (lit ''Close panel'') EVERYWHERE [lit ''Ctrl+Shift+W''],
      cmd (lit ''project.new'') (lit ''Projects'') (lit ''New project'') EVERYWHERE [lit ''Ctrl+Shift+N''],
      cmd (lit ''view.toggleExplorer'') (lit ''View'') (lit ''Toggle File Explorer'') EVERYWHERE [lit ''Ctrl+Alt+N''],
      cmd (lit ''view.fullscreen'') (lit ''View'') (lit ''Toggle fullscreen'') EVERYWHERE [lit ''F11''],
      cmd (lit ''app.preferences'') (lit ''View'') (lit ''Preferences'') EVERYWHERE [lit ''Ctrl+,''],
      cmd (lit ''zoom.in'') (lit ''Zoom'') (lit ''Zoom in'') EVERYWHERE [lit ''Ctrl+='', lit ''Ctrl++''],
      cmd (lit ''zoom.out'') (lit ''Zoom'') (lit ''Zoom out'') EVERYWHERE [lit ''Ctrl+-''],
      cmd (lit ''zoom.reset'') (lit ''Zoom'') (lit ''Reset zoom'') EVERYWHERE [lit ''Ctrl+0''],
      cmd (lit ''editor.save'') (lit ''Editor'') (lit ''Save'') EDITOR [lit ''Ctrl+S''],
      cmd (lit ''editor.toggleWordWrap'') (lit ''Editor'') (lit ''Toggle word wrap'') EDITOR [lit ''Ctrl+Alt+W''],
      cmd (lit ''search.find'') (lit ''Search'') (lit ''Find'') PANELS [lit ''Ctrl+F''],
      (cmd (lit ''search.replace'') (lit ''Search'') (lit ''Find and replace'') EDITOR [lit ''Ctrl+H''])\<lparr>cm_mac_defaults := Some [lit ''Ctrl+Alt+F'']\<rparr>,
      cmd (lit ''search.findNext'') (lit ''Search'') (lit ''Find next'') PANELS [lit ''F3''],
      cmd (lit ''search.findPrevious'') (lit ''Search'') (lit ''Find previous'') PANELS [lit ''Shift+F3''],
      cmd (lit ''search.findInFiles'') (lit ''Search'') (lit ''Find in Files'') EVERYWHERE [lit ''Ctrl+Shift+F''],
      cmd (lit ''search.replaceInFiles'') (lit ''Search'') (lit ''Replace in Files'') EVERYWHERE [lit ''Ctrl+Shift+H''],
      cmd (lit ''terminal.scrollLineUp'') (lit ''Terminal'') (lit ''Scroll up a line'') TERMINAL [lit ''Ctrl+Shift+ArrowUp''],
      cmd (lit ''terminal.scrollLineDown'') (lit ''Terminal'') (lit ''Scroll down a line'') TERMINAL [lit ''Ctrl+Shift+ArrowDown''],
      cmd (lit ''terminal.scrollPageUp'') (lit ''Terminal'') (lit ''Scroll up a page'') TERMINAL [lit ''Shift+PageUp''],
      cmd (lit ''terminal.scrollPageDown'') (lit ''Terminal'') (lit ''Scroll down a page'') TERMINAL [lit ''Shift+PageDown''],
      cmd (lit ''terminal.scrollToTop'') (lit ''Terminal'') (lit ''Scroll to the top'') TERMINAL [lit ''Ctrl+Home''],
      cmd (lit ''terminal.scrollToBottom'') (lit ''Terminal'') (lit ''Scroll to the bottom'') TERMINAL [lit ''Ctrl+End''],
      cmd (lit ''file.rename'') (lit ''File Explorer'') (lit ''Rename'') EXPLORER [lit ''F2''],
      cmd (lit ''file.delete'') (lit ''File Explorer'') (lit ''Delete'') EXPLORER [lit ''Delete''],
      cmd (lit ''file.cut'') (lit ''File Explorer'') (lit ''Cut'') EXPLORER [lit ''Ctrl+X''],
      cmd (lit ''file.copy'') (lit ''File Explorer'') (lit ''Copy'') EXPLORER [lit ''Ctrl+C''],
      cmd (lit ''file.paste'') (lit ''File Explorer'') (lit ''Paste'') EXPLORER [lit ''Ctrl+V''],
      cmd (lit ''file.undo'') (lit ''File Explorer'') (lit ''Undo file operation'') EXPLORER [lit ''Ctrl+Z''],
      (cmd (lit ''file.redo'') (lit ''File Explorer'') (lit ''Redo file operation'') EXPLORER [lit ''Ctrl+Y'', lit ''Ctrl+Shift+Z''])\<lparr>cm_mac_defaults := Some [lit ''Ctrl+Shift+Z'', lit ''Ctrl+Y'']\<rparr>]"

definition ELSEWHERE :: "rstring list" where
  "ELSEWHERE = map lit
     [''panel.zoomIn'', ''panel.zoomOut'', ''panel.zoomReset'', ''panel.rename'', ''focus.left'',
      ''focus.right'', ''focus.up'', ''focus.down'', ''focus.cycle'', ''focus.cycleBack'',
      ''focus.notice'', ''view.toggleProjects'', ''menu.open'', ''tabs.openPicker'', ''preview.open'',
      ''preview.toggleSyncScroll'', ''navigate.back'', ''navigate.forward'', ''editor.saveAll'',
      ''editor.saveAs'', ''editor.cutLine'', ''editor.indentLines'', ''editor.outdentLines'',
      ''editor.columnSelectUp'', ''editor.columnSelectDown'', ''editor.columnSelectLeft'',
      ''editor.columnSelectRight'', ''search.close'', ''search.replaceCurrent'', ''search.replaceAll'',
      ''terminal.redraw'']"

definition command_named :: "rstring \<Rightarrow> command option" where
  "command_named cid = List.find (\<lambda>c. cm_id c = cid) COMMANDS"

datatype terminal_tier = Free | Shadowable rstring | Reserved rstring

definition TERMINAL_KEYS :: "(rstring \<times> terminal_tier) list" where
  "TERMINAL_KEYS =
     [(lit ''C'', Reserved (lit ''interrupt (SIGINT)'')), (lit ''D'', Reserved (lit ''end of input'')),
      (lit ''Z'', Reserved (lit ''suspend'')), (lit ''A'', Reserved (lit ''start of line'')),
      (lit ''E'', Reserved (lit ''end of line'')), (lit ''W'', Reserved (lit ''delete word'')),
      (lit ''U'', Reserved (lit ''delete to line start'')), (lit ''K'', Reserved (lit ''delete to line end'')),
      (lit ''R'', Reserved (lit ''reverse history search'')), (lit ''L'', Reserved (lit ''clear screen'')),
      (lit ''Q'', Reserved (lit ''resume output (XON)'')), (lit ''B'', Shadowable (lit ''back a character'')),
      (lit ''F'', Shadowable (lit ''forward a character'')), (lit ''N'', Shadowable (lit ''next history entry'')),
      (lit ''P'', Shadowable (lit ''previous history entry'')), (lit ''H'', Shadowable (lit ''backspace'')),
      (lit ''S'', Shadowable (lit ''pause output (XOFF)''))]"

definition tier_of :: "chord \<Rightarrow> bool \<Rightarrow> terminal_tier" where
  "tier_of c mac =
     (if mac \<or> \<not> ch_ctrl c \<or> ch_shift c \<or> ch_alt c then Free
      else case map_of TERMINAL_KEYS (ch_key c) of Some t \<Rightarrow> t | None \<Rightarrow> Free)"

section \<open>Bindings\<close>

record keymap =
  km_mac :: bool
  km_bindings :: "(rstring \<times> chord list) list"

definition keymap_defaults :: "(rchar \<Rightarrow> rstring) \<Rightarrow> bool \<Rightarrow> keymap" where
  "keymap_defaults up mac =
     \<lparr>km_mac = mac, km_bindings = fold (\<lambda>c. bt_insert (cm_id c) (command_defaults up mac c)) COMMANDS []\<rparr>"

definition chords_of :: "keymap \<Rightarrow> rstring \<Rightarrow> chord list" where
  "chords_of m cid = (case map_of (km_bindings m) cid of Some cs \<Rightarrow> cs | None \<Rightarrow> [])"

definition is_default :: "(rchar \<Rightarrow> rstring) \<Rightarrow> keymap \<Rightarrow> rstring \<Rightarrow> bool" where
  "is_default up m cid =
     (case command_named cid of None \<Rightarrow> False | Some c \<Rightarrow> chords_of m cid = command_defaults up (km_mac m) c)"

definition keymap_lookup :: "keymap \<Rightarrow> chord \<Rightarrow> scope \<Rightarrow> rstring option" where
  "keymap_lookup m ch s =
     map_option cm_id (List.find (\<lambda>c. live_in c s \<and> ch \<in> set (chords_of m (cm_id c))) COMMANDS)"

definition conflicts :: "keymap \<Rightarrow> rstring \<Rightarrow> chord \<Rightarrow> rstring list" where
  "conflicts m cid ch =
     (case command_named cid of
        None \<Rightarrow> []
      | Some mine \<Rightarrow>
          map cm_id (filter (\<lambda>c. cm_id c \<noteq> cid \<and> shares_scope c mine \<and> ch \<in> set (chords_of m (cm_id c))) COMMANDS))"

definition refusal :: "keymap \<Rightarrow> rstring \<Rightarrow> chord \<Rightarrow> rstring option" where
  "refusal m cid ch =
     (if \<not> bindable ch then Some (chord_show ch @ lit '' on its own belongs to the interface.'')
      else
        (case command_named cid of
           None \<Rightarrow> None
         | Some c \<Rightarrow>
             (case tier_of ch (km_mac m) of
                Reserved what \<Rightarrow>
                  if live_in c TerminalScope then
                    Some (chord_show ch @ lit '' is the terminal's ('' @ what @ lit '') and '' @ cm_label c
                          @ lit '' is live in terminals.'')
                  else None
              | _ \<Rightarrow> None)))"

text \<open>The tokens of one command in the file: the chords, and what is wrong with the rest.\<close>

fun read_tokens :: "(rchar \<Rightarrow> rstring) \<Rightarrow> (json \<Rightarrow> rstring) \<Rightarrow> keymap \<Rightarrow> rstring \<Rightarrow> json list \<Rightarrow> chord list \<Rightarrow> rstring list \<Rightarrow>
    chord list \<times> rstring list" where
  "read_tokens up show_json m cid [] chords problems = (chords, problems)"
| "read_tokens up show_json m cid (t # ts) chords problems =
     (case Option.bind (json_str t) (chord_parse up) of
        Some ch \<Rightarrow>
          if ch \<in> set chords then read_tokens up show_json m cid ts chords problems
          else (case refusal m cid ch of
                  Some reason \<Rightarrow>
                    read_tokens up show_json m cid ts chords (problems @ [[34] @ cid @ [34] @ lit '': '' @ reason])
                | None \<Rightarrow> read_tokens up show_json m cid ts (chords @ [ch]) problems)
      | None \<Rightarrow>
          read_tokens up show_json m cid ts chords
            (problems @ [[34] @ cid @ [34] @ lit '': '' @ show_json t @ lit '' is not a chord.'']))"

definition read_binding :: "(rchar \<Rightarrow> rstring) \<Rightarrow> (json \<Rightarrow> rstring) \<Rightarrow> rstring \<times> json \<Rightarrow> keymap \<times> rstring list \<Rightarrow>
    keymap \<times> rstring list" where
  "read_binding up show_json e st =
     (case (e, st) of ((cid, tokens), (m, problems)) \<Rightarrow>
        (case command_named cid of
           None \<Rightarrow>
             (m, if cid \<in> set ELSEWHERE then problems
                 else problems @ [[34] @ cid @ [34] @ lit '' is not a command throng knows.''])
         | Some c \<Rightarrow>
             (case json_array tokens of
                None \<Rightarrow> (m, problems @ [[34] @ cid @ [34] @ lit '' should be a list of chords.''])
              | Some ts \<Rightarrow>
                  (case read_tokens up show_json m cid ts [] problems of
                     (chords, problems) \<Rightarrow>
                       (m\<lparr>km_bindings := bt_insert (cm_id c) chords (km_bindings m)\<rparr>, problems)))))"

definition keymap_parse :: "(rchar \<Rightarrow> rstring) \<Rightarrow> (rstring \<Rightarrow> rstring + json) \<Rightarrow> (json \<Rightarrow> rstring) \<Rightarrow> rstring \<Rightarrow> bool \<Rightarrow>
    keymap \<times> rstring list" where
  "keymap_parse up J show_json t mac =
     (case J t of
        Inl e \<Rightarrow>
          (keymap_defaults up mac, [lit ''keybindings.json is not valid JSON ('' @ e @ lit ''); the defaults apply.''])
      | Inr v \<Rightarrow>
          (case Option.bind (json_get ''bindings'' v) json_object of
             None \<Rightarrow>
               (keymap_defaults up mac,
                if json_object v = None then [lit ''keybindings.json is not a JSON object; the defaults apply.''] else [])
           | Some bindings \<Rightarrow> fold (read_binding up show_json) bindings (keymap_defaults up mac, [])))"

definition write_binding :: "(rchar \<Rightarrow> rstring) \<Rightarrow> keymap \<Rightarrow> command \<Rightarrow> (rstring \<times> json) list \<Rightarrow> (rstring \<times> json) list" where
  "write_binding up m c bindings =
     (if chords_of m (cm_id c) = command_defaults up (km_mac m) c then im_remove (cm_id c) bindings
      else im_insert (cm_id c) (JArray (map (JString \<circ> chord_show) (chords_of m (cm_id c)))) bindings)"

definition written_doc :: "(rchar \<Rightarrow> rstring) \<Rightarrow> (rstring \<Rightarrow> rstring + json) \<Rightarrow> keymap \<Rightarrow> rstring option \<Rightarrow>
    (rstring \<times> json) list" where
  "written_doc up J m existing =
     (let doc = (case Option.bind existing (\<lambda>t. case J t of Inl e \<Rightarrow> None | Inr v \<Rightarrow> json_object v) of
                   Some d \<Rightarrow> d | None \<Rightarrow> []);
          doc = (if map_of doc (lit ''version'') = None then im_insert (lit ''version'') (JNumber (PosInt 1)) doc else doc);
          bindings = (case Option.bind (map_of doc (lit ''bindings'')) json_object of Some b \<Rightarrow> b | None \<Rightarrow> [])
      in im_insert (lit ''bindings'') (JObject (fold (write_binding up m) COMMANDS bindings)) doc)"

definition keymap_write :: "(rchar \<Rightarrow> rstring) \<Rightarrow> (rstring \<Rightarrow> rstring + json) \<Rightarrow> (json \<Rightarrow> rstring) \<Rightarrow> keymap \<Rightarrow>
    rstring option \<Rightarrow> rstring" where
  "keymap_write up J pretty m existing = pretty (JObject (written_doc up J m existing)) @ [LF]"

definition retain_not :: "chord \<Rightarrow> rstring \<Rightarrow> (rstring \<times> chord list) list \<Rightarrow> (rstring \<times> chord list) list" where
  "retain_not ch cid b =
     (case map_of b cid of None \<Rightarrow> b | Some cs \<Rightarrow> bt_insert cid (filter (\<lambda>c. c \<noteq> ch) cs) b)"

definition keymap_bind :: "rstring \<Rightarrow> chord \<Rightarrow> keymap \<Rightarrow> keymap" where
  "keymap_bind cid ch m =
     (case command_named cid of
        None \<Rightarrow> m
      | Some c \<Rightarrow>
          (let m1 = m\<lparr>km_bindings := fold (retain_not ch) (conflicts m cid ch) (km_bindings m)\<rparr>;
               chords = chords_of m1 (cm_id c)
           in m1\<lparr>km_bindings :=
                bt_insert (cm_id c) (if ch \<in> set chords then chords else chords @ [ch]) (km_bindings m1)\<rparr>))"

definition keymap_unbind :: "rstring \<Rightarrow> chord \<Rightarrow> keymap \<Rightarrow> keymap" where
  "keymap_unbind cid ch m = m\<lparr>km_bindings := retain_not ch cid (km_bindings m)\<rparr>"

definition keymap_reset :: "(rchar \<Rightarrow> rstring) \<Rightarrow> rstring \<Rightarrow> keymap \<Rightarrow> keymap" where
  "keymap_reset up cid m =
     (case command_named cid of
        None \<Rightarrow> m
      | Some c \<Rightarrow> m\<lparr>km_bindings := bt_insert (cm_id c) (command_defaults up (km_mac m) c) (km_bindings m)\<rparr>)"


section \<open>Chords are read back\<close>

text \<open>What is documented of upper-casing: an ASCII character becomes its capital.\<close>

definition upper_ok :: "(rchar \<Rightarrow> rstring) \<Rightarrow> bool" where
  "upper_ok up \<longleftrightarrow> (\<forall>c < 128. up c = [to_ascii_upper c])"

definition ascii_up :: "rchar \<Rightarrow> rstring" where
  "ascii_up c = [to_ascii_upper c]"

lemma upper_ok_ascii: "upper_ok ascii_up"
  by (simp add: upper_ok_def ascii_up_def)

definition modifier_name :: "rstring \<Rightarrow> bool" where
  "modifier_name k \<longleftrightarrow> list_ex (\<lambda>m. eq_ignore_ascii_case m k) MODIFIER_NAMES"

text \<open>A key that is written as it is read.\<close>

definition settled :: "(rchar \<Rightarrow> rstring) \<Rightarrow> rstring \<Rightarrow> bool" where
  "settled up k \<longleftrightarrow>
     k \<noteq> [] \<and> \<not> is_whitespace (hd k) \<and> \<not> is_whitespace (last k) \<and> \<not> modifier_name k \<and>
     (k = [43] \<or> 43 \<notin> set k) \<and> normalise_key up k = k"

lemma strip_suffix_Some: "strip_suffix p s = Some r \<longleftrightarrow> s = r @ p"
proof -
  have "strip_suffix p s = Some r \<longleftrightarrow> strip_prefix (rev p) (rev s) = Some (rev r)"
    by (cases "strip_prefix (rev p) (rev s)") (auto simp: strip_suffix_def)
  also have "\<dots> \<longleftrightarrow> rev s = rev (r @ p)" by (simp add: strip_prefix_Some)
  finally show ?thesis by (simp only: rev_is_rev_conv)
qed

definition modifiers :: "chord \<Rightarrow> rstring list" where
  "modifiers c = (if ch_ctrl c then [lit ''Ctrl''] else []) @ (if ch_shift c then [lit ''Shift''] else [])
     @ (if ch_alt c then [lit ''Alt''] else [])"

lemma chord_show_modifiers:
  "chord_show c = (if modifiers c = [] then ch_key c else join [43] (modifiers c) @ 43 # ch_key c)"
  by (simp add: chord_show_def modifiers_def)

lemma modifiers_no_plus: "43 \<notin> set (join [43] (modifiers c)) \<or> length (modifiers c) > 1"
  by (simp add: modifiers_def)

lemma split_chord_show:
  assumes "settled up (ch_key c)"
  shows "split_chord (chord_show c) = (join [43] (modifiers c), ch_key c)"
proof (cases "ch_key c = [43]")
  case True
  show ?thesis
  proof (cases "modifiers c = []")
    case True
    then show ?thesis using \<open>ch_key c = [43]\<close> by (simp add: split_chord_def chord_show_modifiers strip_suffix_def)
  next
    case False
    have "strip_suffix [43, 43] (chord_show c) = Some (join [43] (modifiers c))"
      using False True by (simp add: strip_suffix_Some chord_show_modifiers)
    then show ?thesis using True by (simp add: split_chord_def)
  qed
next
  case False
  then have k: "43 \<notin> set (ch_key c)" "ch_key c \<noteq> []" using assms by (auto simp: settled_def)
  have "last (chord_show c) = last (ch_key c)" using k(2) by (simp add: chord_show_modifiers)
  then have l: "last (chord_show c) \<noteq> 43" using k by (metis last_in_set)
  have n: "strip_suffix [43, 43] (chord_show c) = None"
  proof (cases "strip_suffix [43, 43] (chord_show c)")
    case (Some r)
    then show ?thesis using l by (simp add: strip_suffix_Some)
  qed simp
  have "chord_show c \<noteq> [43]" using l by auto
  moreover have "rsplit_once 43 (ch_key c) = None"
  proof (cases "rsplit_once 43 (ch_key c)")
    case (Some x)
    then show ?thesis using k(1) by (cases x) (auto simp: rsplit_once_Some)
  qed simp
  moreover have "rsplit_once 43 (join [43] (modifiers c) @ 43 # ch_key c) = Some (join [43] (modifiers c), ch_key c)"
    using k(1) by (simp add: rsplit_once_Some)
  ultimately show ?thesis using n by (simp add: split_chord_def chord_show_modifiers)
qed

lemma read_modifiers_show:
  "read_modifiers (filter (\<lambda>p. p \<noteq> []) (map trim (split_on 43 (join [43] (modifiers c)))))
     \<lparr>ch_ctrl = False, ch_shift = False, ch_alt = False, ch_key = []\<rparr> = Some (c\<lparr>ch_key := []\<rparr>)"
  by (cases c rule: chord.cases)
    (simp add: modifiers_def CTRL_NAMES_def ALT_NAMES_def trim_def is_whitespace_def to_ascii_lower_def is_ascii_upper_def Let_def)

lemma chord_parse_show:
  assumes "settled up (ch_key c)"
  shows "chord_parse up (chord_show c) = Some c"
proof -
  have k: "ch_key c \<noteq> []" "\<not> is_whitespace (hd (ch_key c))" "\<not> is_whitespace (last (ch_key c))"
    "\<not> modifier_name (ch_key c)" "normalise_key up (ch_key c) = ch_key c"
    using assms by (auto simp: settled_def)
  have "chord_show c \<noteq> []" "hd (chord_show c) = (if modifiers c = [] then hd (ch_key c) else hd (hd (modifiers c)))"
    "last (chord_show c) = last (ch_key c)"
    using k(1) by (auto simp: chord_show_def modifiers_def)
  moreover have "modifiers c \<noteq> [] \<Longrightarrow> \<not> is_whitespace (hd (hd (modifiers c)))"
    by (auto simp: modifiers_def is_whitespace_def)
  ultimately have t: "trim (chord_show c) = chord_show c" using k by (intro trim_id) auto
  have "trim (ch_key c) = ch_key c" using k by (intro trim_id) auto
  then show ?thesis using k
    by (simp add: chord_parse_def t split_chord_show [OF assms] read_modifiers_show modifier_name_def)
qed

lemma split_chord_key: "split_chord t = (mods, key) \<Longrightarrow> (key = [43] \<or> 43 \<notin> set key) \<and> set key \<subseteq> set t"
proof -
  assume s: "split_chord t = (mods, key)"
  have no: "43 \<notin> set t" if "rsplit_once 43 t = None"
  proof
    assume "43 \<in> set t"
    then obtain a b where "t = a @ 43 # b" "43 \<notin> set b" by (metis split_list_last)
    then have "rsplit_once 43 t = Some (a, b)" by (simp add: rsplit_once_Some)
    then show False using that by simp
  qed
  show ?thesis
  proof (cases "strip_suffix [43, 43] t")
    case (Some head)
    then have t: "t = head @ [43, 43]" by (simp add: strip_suffix_Some)
    have "key = [43]" using s Some by (simp add: split_chord_def)
    then show ?thesis using t by simp
  next
    case None
    then show ?thesis using s no
      by (cases "rsplit_once 43 t") (auto simp: split_chord_def rsplit_once_Some split: if_splits)
  qed
qed

lemma ascii_whitespace_upper: "is_whitespace (to_ascii_upper c) = is_whitespace c"
  by (auto simp: to_ascii_upper_def is_ascii_lower_def is_whitespace_def)

lemma ascii_upper_upper [simp]: "to_ascii_upper (to_ascii_upper c) = to_ascii_upper c"
  by (auto simp: to_ascii_upper_def is_ascii_lower_def)

lemma ascii_lower_upper [simp]: "to_ascii_lower (to_ascii_upper c) = to_ascii_lower c"
  by (auto simp: to_ascii_upper_def to_ascii_lower_def is_ascii_upper_def is_ascii_lower_def)

lemma ascii_upper_plus: "to_ascii_upper c = 43 \<longleftrightarrow> c = 43"
  by (auto simp: to_ascii_upper_def is_ascii_lower_def)

lemma ascii_upper_bound: "c < 128 \<Longrightarrow> to_ascii_upper c < 128"
  by (auto simp: to_ascii_upper_def is_ascii_lower_def)

lemma modifier_name_length: "modifier_name k \<Longrightarrow> length k \<noteq> 1"
proof -
  assume "modifier_name k"
  then obtain m where m: "m \<in> set MODIFIER_NAMES" "map to_ascii_lower m = map to_ascii_lower k"
    unfolding modifier_name_def list_ex_iff eq_ignore_ascii_case_def by blast
  have "list_all (\<lambda>m. length m \<noteq> 1) MODIFIER_NAMES" by code_simp
  then have "length m \<noteq> 1" using m(1) unfolding list_all_iff by blast
  then show ?thesis using m(2) by (metis length_map)
qed

lemma aliases_settled: "list_all (\<lambda>(a, k). settled ascii_up k \<and> list_all (\<lambda>c. c < 128) k) KEY_ALIASES"
  by (simp add: KEY_ALIASES_def settled_def is_whitespace_def modifier_name_def MODIFIER_NAMES_def
      eq_ignore_ascii_case_def to_ascii_lower_def is_ascii_upper_def normalise_key_def ascii_up_def
      to_ascii_upper_def is_ascii_lower_def)

text \<open>On ASCII, upper-casing is that of ASCII.\<close>

lemma normalise_key_ascii:
  assumes "upper_ok up" "list_all (\<lambda>c. c < 128) k"
  shows "normalise_key up k = normalise_key ascii_up k"
proof -
  have "\<forall>c \<in> set k. up c = ascii_up c" using assms by (auto simp: upper_ok_def ascii_up_def list_all_iff)
  then show ?thesis by (simp add: normalise_key_def split: list.split option.split)
qed

lemma settled_ascii: "upper_ok up \<Longrightarrow> list_all (\<lambda>c. c < 128) k \<Longrightarrow> settled ascii_up k = settled up k"
  by (simp add: settled_def normalise_key_ascii)

lemma normalised_settled:
  assumes "k \<noteq> []" "\<not> is_whitespace (hd k)" "\<not> is_whitespace (last k)" "\<not> modifier_name k"
    and "k = [43] \<or> 43 \<notin> set k" "list_all (\<lambda>c. c < 128) k"
  shows "settled ascii_up (normalise_key ascii_up k) \<and> list_all (\<lambda>c. c < 128) (normalise_key ascii_up k)"
proof (cases k)
  case (Cons c cs)
  show ?thesis
  proof (cases "cs = []")
    case True
    then have "\<not> modifier_name (ascii_up c)" using modifier_name_length [of "ascii_up c"] by (auto simp: ascii_up_def)
    then show ?thesis using assms Cons True
      by (simp add: settled_def normalise_key_def ascii_up_def ascii_whitespace_upper ascii_upper_plus ascii_upper_bound)
  next
    case False
    then obtain d ds where cs: "cs = d # ds" by (cases cs) auto
    show ?thesis
    proof (cases "map_of KEY_ALIASES (map to_ascii_lower k)")
      case (Some a)
      then have "(map to_ascii_lower k, a) \<in> set KEY_ALIASES" by (rule map_of_SomeD)
      then have "settled ascii_up a" "list_all (\<lambda>c. c < 128) a" using aliases_settled by (auto simp: list_all_iff)
      then show ?thesis using Some Cons cs by (simp add: normalise_key_def)
    next
      case None
      let ?k = "to_ascii_upper c # cs"
      have n: "normalise_key ascii_up k = ?k" using None Cons cs by (simp add: normalise_key_def ascii_up_def)
      have "map to_ascii_lower ?k = map to_ascii_lower k" using Cons by simp
      then have "normalise_key ascii_up ?k = ?k" "\<not> modifier_name ?k"
        using None assms(4) cs by (simp_all add: normalise_key_def ascii_up_def modifier_name_def eq_ignore_ascii_case_def)
      then show ?thesis using assms Cons cs n
        by (simp add: settled_def ascii_whitespace_upper ascii_upper_plus ascii_upper_bound)
    qed
  qed
qed (use assms in simp)

lemma chord_parse_settled:
  assumes "upper_ok up" "list_all (\<lambda>c. c < 128) t" "chord_parse up t = Some c"
  shows "settled up (ch_key c) \<and> list_all (\<lambda>c. c < 128) (ch_key c) \<and> chord_parse ascii_up t = Some c"
proof -
  obtain mods key where s: "split_chord (trim t) = (mods, key)" by (cases "split_chord (trim t)")
  let ?k = "trim key"
  obtain c0 where c0: "c = c0\<lparr>ch_key := normalise_key up ?k\<rparr>" "?k \<noteq> []" "\<not> modifier_name ?k"
    "read_modifiers (filter (\<lambda>p. p \<noteq> []) (map trim (split_on 43 mods)))
       \<lparr>ch_ctrl = False, ch_shift = False, ch_alt = False, ch_key = []\<rparr> = Some c0"
    using assms(3) s by (auto simp: chord_parse_def modifier_name_def Let_def split: option.splits if_splits)
  have e: "\<not> is_whitespace (hd ?k)" "\<not> is_whitespace (last ?k)" using trim_idem_edges [OF c0(2)] by auto
  have k: "key = [43] \<or> 43 \<notin> set key" "set ?k \<subseteq> set t"
    using split_chord_key [OF s] set_trim [of t] set_trim [of key] by auto
  have p: "?k = [43] \<or> 43 \<notin> set ?k" using k(1) set_trim [of key] by (auto simp: trim_def is_whitespace_def)
  have a: "list_all (\<lambda>c. c < 128) ?k" using k(2) assms(2) by (auto simp: list_all_iff)
  have n: "normalise_key up ?k = normalise_key ascii_up ?k" by (rule normalise_key_ascii [OF assms(1) a])
  have "settled ascii_up (ch_key c)" "list_all (\<lambda>c. c < 128) (ch_key c)"
    using normalised_settled [OF c0(2) e c0(3) p a] c0(1) n by simp_all
  moreover have "chord_parse ascii_up t = Some c"
    using s c0 n by (simp add: chord_parse_def modifier_name_def)
  ultimately show ?thesis using settled_ascii [OF assms(1)] by blast
qed

end
