(* ===== verification/KeymapInv.thy ===== *)
theory KeymapInv
  imports Keymap
begin

text \<open>
  What holds of every keymap: its chords are ones its commands may have, the defaults have no
  conflicts, binding a chord takes it from its rivals, and a file that was written gives the same
  chords again. The table of commands is checked column by column.
\<close>

section \<open>The defaults\<close>

definition chd :: "bool \<Rightarrow> bool \<Rightarrow> bool \<Rightarrow> string \<Rightarrow> chord" where
  "chd ctrl shift alt key = \<lparr>ch_ctrl = ctrl, ch_shift = shift, ch_alt = alt, ch_key = lit key\<rparr>"

type_synonym chord_row = "bool \<times> bool \<times> bool \<times> string"

definition row_chord :: "chord_row \<Rightarrow> chord" where
  "row_chord r = (case r of (ctrl, shift, alt, key) \<Rightarrow> chd ctrl shift alt key)"

lemma row_chord_inj: "inj row_chord"
proof (rule injI)
  fix r q assume "row_chord r = row_chord q"
  then show "r = q" by (cases r; cases q) (auto simp: row_chord_def chd_def inj_eq [OF lit_inj])
qed

text \<open>The chords the defaults' tokens stand for.\<close>

definition DEFAULT_ROWS :: "chord_row list list" where
  "DEFAULT_ROWS =
     [[(True, True, False, ''T'')], [(True, False, False, ''G'')], [(True, False, False, ''Enter'')],
      [(False, False, True, ''ArrowLeft'')], [(False, False, True, ''ArrowRight'')],
      [(True, False, False, ''Tab'')], [(True, True, False, ''Tab'')], [(True, True, False, ''D'')],
      [(True, True, False, ''E'')], [(True, True, False, ''W'')], [(True, True, False, ''N'')],
      [(True, False, True, ''N'')], [(False, False, False, ''F11'')], [(True, False, False, '','')],
      [(True, False, False, ''=''), (True, False, False, ''+'')], [(True, False, False, ''-'')],
      [(True, False, False, ''0'')], [(True, False, False, ''S'')], [(True, False, True, ''W'')],
      [(True, False, False, ''F'')], [(True, False, False, ''H'')], [(False, False, False, ''F3'')],
      [(False, True, False, ''F3'')], [(True, True, False, ''F'')], [(True, True, False, ''H'')],
      [(True, True, False, ''ArrowUp'')], [(True, True, False, ''ArrowDown'')],
      [(False, True, False, ''PageUp'')], [(False, True, False, ''PageDown'')], [(True, False, False, ''Home'')],
      [(True, False, False, ''End'')], [(False, False, False, ''F2'')], [(False, False, False, ''Delete'')],
      [(True, False, False, ''X'')], [(True, False, False, ''C'')], [(True, False, False, ''V'')],
      [(True, False, False, ''Z'')], [(True, False, False, ''Y''), (True, True, False, ''Z'')]]"

definition MAC_ROWS :: "chord_row list list" where
  "MAC_ROWS = DEFAULT_ROWS
     [20 := [(True, False, True, ''F'')], 37 := [(True, True, False, ''Z''), (True, False, False, ''Y'')]]"

definition default_rows :: "bool \<Rightarrow> chord_row list list" where
  "default_rows mac = (if mac then MAC_ROWS else DEFAULT_ROWS)"

definition default_chords :: "bool \<Rightarrow> chord list list" where
  "default_chords mac = map (map row_chord) (default_rows mac)"

definition mac_tokens :: "command \<Rightarrow> rstring list" where
  "mac_tokens c = (case cm_mac_defaults c of Some ts \<Rightarrow> ts | None \<Rightarrow> cm_defaults c)"

definition row_show :: "chord_row \<Rightarrow> string" where
  "row_show r = (case r of (ctrl, shift, alt, key) \<Rightarrow>
     (if ctrl then ''Ctrl+'' else []) @ (if shift then ''Shift+'' else []) @ (if alt then ''Alt+'' else []) @ key)"

lemma chord_show_row: "chord_show (row_chord r) = lit (row_show r)"
  by (cases r) (simp add: chord_show_def row_chord_def chd_def row_show_def lit_def)

text \<open>The columns of the table.\<close>

definition COMMAND_IDS :: "string list" where
  "COMMAND_IDS =
     [''navigate.quickOpen'', ''navigate.gotoLine'', ''preview.followLink'', ''navigate.back'',
      ''navigate.forward'', ''tabs.next'', ''tabs.previous'', ''panel.splitRight'', ''panel.splitDown'',
      ''panel.close'', ''project.new'', ''view.toggleExplorer'', ''view.fullscreen'', ''app.preferences'',
      ''zoom.in'', ''zoom.out'', ''zoom.reset'', ''editor.save'', ''editor.toggleWordWrap'', ''search.find'',
      ''search.replace'', ''search.findNext'', ''search.findPrevious'', ''search.findInFiles'',
      ''search.replaceInFiles'', ''terminal.scrollLineUp'', ''terminal.scrollLineDown'',
      ''terminal.scrollPageUp'', ''terminal.scrollPageDown'', ''terminal.scrollToTop'',
      ''terminal.scrollToBottom'', ''file.rename'', ''file.delete'', ''file.cut'', ''file.copy'', ''file.paste'',
      ''file.undo'', ''file.redo'']"

definition COMMAND_TOKENS :: "string list list" where
  "COMMAND_TOKENS =
     [[''Ctrl+Shift+T''], [''Ctrl+G''], [''Ctrl+Enter''], [''Alt+ArrowLeft''], [''Alt+ArrowRight''],
      [''Ctrl+Tab''], [''Ctrl+Shift+Tab''], [''Ctrl+Shift+D''], [''Ctrl+Shift+E''], [''Ctrl+Shift+W''],
      [''Ctrl+Shift+N''], [''Ctrl+Alt+N''], [''F11''], [''Ctrl+,''], [''Ctrl+='', ''Ctrl++''], [''Ctrl+-''],
      [''Ctrl+0''], [''Ctrl+S''], [''Ctrl+Alt+W''], [''Ctrl+F''], [''Ctrl+H''], [''F3''], [''Shift+F3''],
      [''Ctrl+Shift+F''], [''Ctrl+Shift+H''], [''Ctrl+Shift+ArrowUp''], [''Ctrl+Shift+ArrowDown''],
      [''Shift+PageUp''], [''Shift+PageDown''], [''Ctrl+Home''], [''Ctrl+End''], [''F2''], [''Delete''],
      [''Ctrl+X''], [''Ctrl+C''], [''Ctrl+V''], [''Ctrl+Z''], [''Ctrl+Y'', ''Ctrl+Shift+Z'']]"

definition MAC_TOKENS :: "string list list" where
  "MAC_TOKENS =
     [[''Ctrl+Shift+T''], [''Ctrl+G''], [''Ctrl+Enter''], [''Alt+ArrowLeft''], [''Alt+ArrowRight''],
      [''Ctrl+Tab''], [''Ctrl+Shift+Tab''], [''Ctrl+Shift+D''], [''Ctrl+Shift+E''], [''Ctrl+Shift+W''],
      [''Ctrl+Shift+N''], [''Ctrl+Alt+N''], [''F11''], [''Ctrl+,''], [''Ctrl+='', ''Ctrl++''], [''Ctrl+-''],
      [''Ctrl+0''], [''Ctrl+S''], [''Ctrl+Alt+W''], [''Ctrl+F''], [''Ctrl+Alt+F''], [''F3''], [''Shift+F3''],
      [''Ctrl+Shift+F''], [''Ctrl+Shift+H''], [''Ctrl+Shift+ArrowUp''], [''Ctrl+Shift+ArrowDown''],
      [''Shift+PageUp''], [''Shift+PageDown''], [''Ctrl+Home''], [''Ctrl+End''], [''F2''], [''Delete''],
      [''Ctrl+X''], [''Ctrl+C''], [''Ctrl+V''], [''Ctrl+Z''], [''Ctrl+Shift+Z'', ''Ctrl+Y'']]"

lemmas column = COMMANDS_def cmd_def list.map command.simps

lemma command_ids: "map cm_id COMMANDS = map lit COMMAND_IDS"
  by (simp only: column COMMAND_IDS_def)

lemma command_scopes: "map cm_scopes COMMANDS =
     [EVERYWHERE, EDITOR, LINKS, PREVIEW, PREVIEW, EVERYWHERE, EVERYWHERE, EVERYWHERE, EVERYWHERE, EVERYWHERE,
      EVERYWHERE, EVERYWHERE, EVERYWHERE, EVERYWHERE, EVERYWHERE, EVERYWHERE, EVERYWHERE, EDITOR, EDITOR, PANELS,
      EDITOR, PANELS, PANELS, EVERYWHERE, EVERYWHERE, TERMINAL, TERMINAL, TERMINAL, TERMINAL, TERMINAL, TERMINAL,
      EXPLORER, EXPLORER, EXPLORER, EXPLORER, EXPLORER, EXPLORER, EXPLORER]"
  by (simp only: column)

lemma command_tokens: "map cm_defaults COMMANDS = map (map lit) COMMAND_TOKENS"
  by (simp only: column COMMAND_TOKENS_def)

lemma command_mac_tokens: "map mac_tokens COMMANDS = map (map lit) MAC_TOKENS"
  by (simp only: column MAC_TOKENS_def mac_tokens_def option.case)

lemma token_rows: "map (map row_show) (default_rows mac) = (if mac then MAC_TOKENS else COMMAND_TOKENS)"
  by (cases mac; simp only: default_rows_def if_True if_False; code_simp)

lemma default_tokens: "map (\<lambda>c. if mac then mac_tokens c else cm_defaults c) COMMANDS = map (map chord_show) (default_chords mac)"
proof -
  have "map (map chord_show) (default_chords mac) = map (map lit) (map (map row_show) (default_rows mac))"
    by (simp add: default_chords_def chord_show_row)
  then show ?thesis unfolding token_rows by (simp add: command_tokens command_mac_tokens)
qed

definition LONG_KEYS :: "string list" where
  "LONG_KEYS =
     [''Enter'', ''ArrowLeft'', ''ArrowRight'', ''Tab'', ''F11'', ''F3'', ''ArrowUp'', ''ArrowDown'', ''PageUp'', ''PageDown'',
      ''Home'', ''End'', ''F2'', ''Delete'']"

definition SHORT_KEYS :: "string" where
  "SHORT_KEYS = ''TGDEWN,=+-0SFHXCVZY''"

definition DEFAULT_KEYS :: "string list" where
  "DEFAULT_KEYS = LONG_KEYS @ map (\<lambda>c. [c]) SHORT_KEYS"

lemma default_keys: "list_all (list_all (\<lambda>r. snd (snd (snd r)) \<in> set DEFAULT_KEYS)) (default_rows mac)"
  by (cases mac; simp only: default_rows_def if_True if_False; code_simp)

lemma long_keys_ascii: "list_all (\<lambda>k. list_all (\<lambda>c. c < 128) (lit k) \<and> lit k \<noteq> [] \<and> 43 \<notin> set (lit k) \<and>
    \<not> is_whitespace (hd (lit k)) \<and> \<not> is_whitespace (last (lit k))) LONG_KEYS"
  by (simp add: LONG_KEYS_def is_whitespace_def)

lemma long_keys_modifiers: "list_all (\<lambda>k. \<not> modifier_name (lit k)) LONG_KEYS"
  by (simp add: LONG_KEYS_def modifier_name_def MODIFIER_NAMES_def eq_ignore_ascii_case_def to_ascii_lower_def is_ascii_upper_def)

lemma long_keys_normal: "list_all (\<lambda>k. normalise_key ascii_up (lit k) = lit k) LONG_KEYS"
  by (simp add: LONG_KEYS_def normalise_key_def ascii_up_def to_ascii_lower_def is_ascii_upper_def
      to_ascii_upper_def is_ascii_lower_def KEY_ALIASES_def)

lemma settled_single: "c < 128 \<Longrightarrow> \<not> is_whitespace c \<Longrightarrow> to_ascii_upper c = c \<Longrightarrow> settled ascii_up [c]"
  using modifier_name_length [of "[c]"] by (auto simp: settled_def normalise_key_def ascii_up_def)

lemma short_keys_settled: "list_all (\<lambda>c. settled ascii_up [of_char c] \<and> (of_char c :: nat) < 128) SHORT_KEYS"
  by (simp add: SHORT_KEYS_def settled_single is_whitespace_def to_ascii_upper_def is_ascii_lower_def)

lemma default_keys_settled: "k \<in> set DEFAULT_KEYS \<Longrightarrow> settled ascii_up (lit k) \<and> list_all (\<lambda>c. c < 128) (lit k)"
  using long_keys_ascii long_keys_modifiers long_keys_normal short_keys_settled
  by (auto simp: DEFAULT_KEYS_def list_all_iff settled_def)

lemma default_chord_settled:
  assumes "upper_ok up" "cs \<in> set (default_chords mac)" "c \<in> set cs"
  shows "settled up (ch_key c)"
proof -
  obtain rs r where r: "rs \<in> set (default_rows mac)" "r \<in> set rs" "c = row_chord r"
    using assms(2,3) by (auto simp: default_chords_def)
  then have k: "snd (snd (snd r)) \<in> set DEFAULT_KEYS" using default_keys unfolding list_all_iff by blast
  have "ch_key c = lit (snd (snd (snd r)))" using r(3) by (simp add: row_chord_def chd_def split_beta)
  then have "settled ascii_up (ch_key c)" "list_all (\<lambda>c. c < 128) (ch_key c)"
    using default_keys_settled [OF k] by simp_all
  then show ?thesis using settled_ascii [OF assms(1)] by blast
qed

lemma map_filter_parse: "\<forall>c \<in> set cs. settled up (ch_key c) \<Longrightarrow> List.map_filter (chord_parse up) (map chord_show cs) = cs"
  by (induction cs) (simp_all add: List.map_filter_simps chord_parse_show)

lemma command_defaults_tokens:
  "command_defaults up mac c = List.map_filter (chord_parse up) (if mac then mac_tokens c else cm_defaults c)"
  by (simp add: command_defaults_def mac_tokens_def)

text \<open>Whatever upper-casing does outside ASCII, the defaults are these chords.\<close>

lemma command_defaults:
  assumes "upper_ok up"
  shows "map (command_defaults up mac) COMMANDS = default_chords mac"
proof -
  let ?P = "List.map_filter (chord_parse up)"
  have "map (\<lambda>c. if mac then mac_tokens c else cm_defaults c) COMMANDS = map (map chord_show) (default_chords mac)"
    by (rule default_tokens)
  then have "map ?P (map (\<lambda>c. if mac then mac_tokens c else cm_defaults c) COMMANDS) = map ?P (map (map chord_show) (default_chords mac))"
    by (rule arg_cong)
  moreover have "map ?P (map (map chord_show) (default_chords mac)) = default_chords mac"
    using default_chord_settled [OF assms] map_filter_parse unfolding map_map comp_def by (intro map_idI) blast
  ultimately show ?thesis by (simp add: command_defaults_tokens [abs_def] comp_def)
qed

lemma command_ids_distinct: "distinct (map cm_id COMMANDS)"
proof -
  have "distinct COMMAND_IDS" by code_simp
  then show ?thesis using lit_inj by (simp add: command_ids distinct_map inj_on_def inj_def)
qed

text \<open>No default chord is refused, none is listed twice, and no two commands with a place in common
  have one in common.\<close>

definition row_reserved :: "chord_row \<Rightarrow> bool" where
  "row_reserved r \<longleftrightarrow>
     (case r of (ctrl, shift, alt, key) \<Rightarrow>
        ctrl \<and> \<not> shift \<and> \<not> alt \<and> key \<in> set [''C'', ''D'', ''Z'', ''A'', ''E'', ''W'', ''U'', ''K'', ''R'', ''L'', ''Q''])"

definition row_bindable :: "chord_row \<Rightarrow> bool" where
  "row_bindable r \<longleftrightarrow>
     (case r of (ctrl, shift, alt, key) \<Rightarrow>
        ctrl \<or> alt \<or> shift \<or> key \<notin> set [''Escape'', ''Space'', ''Enter'', ''Tab'', ''Backspace''])"

definition key_rows_ok :: "bool \<Rightarrow> bool" where
  "key_rows_ok mac \<longleftrightarrow>
     list_all2 (\<lambda>ss rs. distinct rs \<and> list_all (\<lambda>r. row_bindable r \<and> \<not> (TerminalScope \<in> set ss \<and> row_reserved r)) rs)
       (map cm_scopes COMMANDS) (default_rows mac)"

lemma key_rows_ok: "key_rows_ok mac"
  by (cases mac; simp only: key_rows_ok_def command_scopes default_rows_def if_True if_False; code_simp)

definition key_rows_apart :: "bool \<Rightarrow> bool" where
  "key_rows_apart mac \<longleftrightarrow>
     sorted_wrt (\<lambda>(ss, rs) (ts, qs). \<not> list_ex (\<lambda>s. s \<in> set ts) ss \<or> list_all (\<lambda>r. r \<notin> set qs) rs)
       (zip (map cm_scopes COMMANDS) (default_rows mac))"

lemma key_rows_apart: "key_rows_apart mac"
  by (cases mac; simp only: key_rows_apart_def command_scopes default_rows_def if_True if_False; code_simp)

section \<open>What every keymap keeps\<close>

lemma command_named_Some: "command_named i = Some c \<Longrightarrow> c \<in> set COMMANDS \<and> cm_id c = i"
  by (auto simp: command_named_def find_Some_iff)

lemma command_id_inj: "c \<in> set COMMANDS \<Longrightarrow> d \<in> set COMMANDS \<Longrightarrow> cm_id c = cm_id d \<Longrightarrow> c = d"
  using command_ids_distinct by (auto simp: distinct_map dest: inj_onD)

lemma command_named_mem:
  assumes "c \<in> set COMMANDS"
  shows "command_named (cm_id c) = Some c"
proof (cases "command_named (cm_id c)")
  case None
  then show ?thesis using assms by (auto simp: command_named_def find_None_iff)
next
  case (Some d)
  then have "d \<in> set COMMANDS" "cm_id d = cm_id c" using command_named_Some by blast+
  then have "d = c" using command_id_inj [OF _ assms] by blast
  then show ?thesis using Some by simp
qed

lemma refusal_mac: "km_mac m = km_mac m' \<Longrightarrow> refusal m = refusal m'"
proof (intro ext)
  fix i ch assume "km_mac m = km_mac m'"
  then show "refusal m i ch = refusal m' i ch" unfolding refusal_def by (rule ssubst) (rule refl)
qed

lemma lit_eq: "lit a = lit b \<longleftrightarrow> a = b"
  using lit_inj by (simp add: inj_eq)

lemma row_bindable: "row_bindable r \<Longrightarrow> bindable (row_chord r)"
proof -
  assume r: "row_bindable r"
  obtain ctrl shift alt k where k: "r = (ctrl, shift, alt, k)" by (cases r)
  show ?thesis using r unfolding k row_bindable_def bindable_def row_chord_def chd_def
    by (simp only: chord.simps prod.case set_map image_iff lit_eq) blast
qed

lemma row_reserved:
  assumes "tier_of (row_chord r) mac = Reserved w"
  shows "row_reserved r"
proof -
  obtain ctrl shift alt k where k: "r = (ctrl, shift, alt, k)" by (cases r)
  have f: "ctrl" "\<not> shift" "\<not> alt" and "map_of TERMINAL_KEYS (lit k) = Some (Reserved w)"
    using assms unfolding k by (auto simp: tier_of_def row_chord_def chd_def split: if_splits option.splits)
  then have "(lit k, Reserved w) \<in> set TERMINAL_KEYS" by (intro map_of_SomeD)
  then have "k \<in> set [''C'', ''D'', ''Z'', ''A'', ''E'', ''W'', ''U'', ''K'', ''R'', ''L'', ''Q'']"
    unfolding TERMINAL_KEYS_def by (simp only: list.set insert_iff prod.inject lit_eq terminal_tier.distinct terminal_tier.inject empty_iff) blast
  then show ?thesis unfolding k row_reserved_def using f by simp
qed

lemma default_nth:
  assumes "upper_ok up" "i < length COMMANDS"
  shows "command_defaults up mac (COMMANDS ! i) = map row_chord (default_rows mac ! i)" "i < length (default_rows mac)"
proof -
  have m: "map (command_defaults up mac) COMMANDS = default_chords mac" by (rule command_defaults [OF assms(1)])
  then have "length COMMANDS = length (default_rows mac)" unfolding default_chords_def by (metis length_map)
  then show l: "i < length (default_rows mac)" using assms(2) by simp
  have "command_defaults up mac (COMMANDS ! i) = default_chords mac ! i" using m assms(2) by (metis nth_map)
  then show "command_defaults up mac (COMMANDS ! i) = map row_chord (default_rows mac ! i)"
    using l by (simp add: default_chords_def)
qed

lemma default_ok:
  assumes "upper_ok up" "c \<in> set COMMANDS" "km_mac m = mac"
  shows "distinct (command_defaults up mac c)" "\<forall>ch \<in> set (command_defaults up mac c). refusal m (cm_id c) ch = None"
proof -
  obtain i where i: "i < length COMMANDS" "c = COMMANDS ! i" using assms(2) by (auto simp: in_set_conv_nth)
  have d: "command_defaults up mac c = map row_chord (default_rows mac ! i)" using default_nth(1) [OF assms(1) i(1)] i(2) by simp
  have o: "distinct (default_rows mac ! i)"
    "list_all (\<lambda>r. row_bindable r \<and> \<not> (TerminalScope \<in> set (cm_scopes c) \<and> row_reserved r)) (default_rows mac ! i)"
    using key_rows_ok [of mac] i unfolding key_rows_ok_def list_all2_conv_all_nth by auto
  show "distinct (command_defaults up mac c)"
    unfolding d using o(1) inj_on_subset [OF row_chord_inj subset_UNIV] by (simp add: distinct_map)
  show "\<forall>ch \<in> set (command_defaults up mac c). refusal m (cm_id c) ch = None"
  proof
    fix ch assume "ch \<in> set (command_defaults up mac c)"
    then obtain r where r: "r \<in> set (default_rows mac ! i)" "ch = row_chord r" unfolding d by auto
    then have b: "bindable ch" "live_in c TerminalScope \<Longrightarrow> \<not> row_reserved r"
      using o(2) row_bindable unfolding list_all_iff live_in_def by blast+
    then have "live_in c TerminalScope \<Longrightarrow> tier_of ch (km_mac m) \<noteq> Reserved w" for w using row_reserved r(2) by blast
    then show "refusal m (cm_id c) ch = None" using b(1) command_named_mem [OF assms(2)]
      by (auto simp: refusal_def split: terminal_tier.split)
  qed
qed

lemma default_apart:
  assumes "upper_ok up" "c \<in> set COMMANDS" "d \<in> set COMMANDS" "c \<noteq> d" "shares_scope c d"
  shows "set (command_defaults up mac c) \<inter> set (command_defaults up mac d) = {}"
proof -
  obtain i j where i: "i < length COMMANDS" "c = COMMANDS ! i" and j: "j < length COMMANDS" "d = COMMANDS ! j"
    using assms(2,3) by (auto simp: in_set_conv_nth)
  have sym: "shares_scope d c" using assms(5) by (auto simp: shares_scope_def list_ex_iff)
  have *: "set (default_rows mac ! k) \<inter> set (default_rows mac ! l) = {}"
    if "k < l" "l < length COMMANDS" "shares_scope (COMMANDS ! k) (COMMANDS ! l)" for k l
  proof -
    have "l < length (default_rows mac)" "k < length (default_rows mac)"
      using default_nth(2) [OF assms(1)] that by auto
    then show ?thesis using key_rows_apart [of mac] that
      unfolding key_rows_apart_def sorted_wrt_iff_nth_less shares_scope_def
      by (fastforce simp: list_all_iff)
  qed
  have "i \<noteq> j" using assms(4) i j by auto
  then have "set (default_rows mac ! i) \<inter> set (default_rows mac ! j) = {}"
    using * [of i j] * [of j i] i j assms(5) sym by (cases "i < j") auto
  then show ?thesis using default_nth(1) [OF assms(1)] i j inj_eq [OF row_chord_inj] by auto
qed

definition keymap_ok :: "keymap \<Rightarrow> bool" where
  "keymap_ok m \<longleftrightarrow>
     bt_inv (km_bindings m) \<and> dom (map_of (km_bindings m)) = cm_id ` set COMMANDS \<and>
     (\<forall>i. distinct (chords_of m i) \<and> (\<forall>ch \<in> set (chords_of m i). refusal m i ch = None))"

lemma chords_of_insert:
  "chords_of (m\<lparr>km_bindings := bt_insert k v b\<rparr>) i = (if i = k then v else chords_of (m\<lparr>km_bindings := b\<rparr>) i)"
  by (simp add: chords_of_def map_of_bt_insert)

lemma keymap_ok_insert:
  assumes "keymap_ok m" "c \<in> set COMMANDS" "distinct cs" "\<forall>ch \<in> set cs. refusal m (cm_id c) ch = None"
  shows "keymap_ok (m\<lparr>km_bindings := bt_insert (cm_id c) cs (km_bindings m)\<rparr>)"
proof -
  let ?m = "m\<lparr>km_bindings := bt_insert (cm_id c) cs (km_bindings m)\<rparr>"
  have "refusal ?m = refusal m" by (rule refusal_mac) simp
  moreover have "chords_of ?m i = (if i = cm_id c then cs else chords_of m i)" for i
    using chords_of_insert [where m = m and b = "km_bindings m"] by simp
  ultimately show ?thesis using assms by (auto simp: keymap_ok_def bt_inv_insert map_of_bt_insert)
qed

lemma fold_bt_insert:
  assumes "bt_inv b"
  shows "bt_inv (fold (\<lambda>c. bt_insert (f c) (g c)) cs b)"
    and "dom (map_of (fold (\<lambda>c. bt_insert (f c) (g c)) cs b)) = f ` set cs \<union> dom (map_of b)"
    and "distinct (map f cs) \<Longrightarrow> map_of (fold (\<lambda>c. bt_insert (f c) (g c)) cs b) k =
      (case List.find (\<lambda>c. f c = k) cs of Some c \<Rightarrow> Some (g c) | None \<Rightarrow> map_of b k)"
proof -
  show "bt_inv (fold (\<lambda>c. bt_insert (f c) (g c)) cs b)"
    using assms by (induction cs arbitrary: b) (simp_all add: bt_inv_insert)
  show "dom (map_of (fold (\<lambda>c. bt_insert (f c) (g c)) cs b)) = f ` set cs \<union> dom (map_of b)"
    by (induction cs arbitrary: b) (auto simp: map_of_bt_insert)
  show "distinct (map f cs) \<Longrightarrow> map_of (fold (\<lambda>c. bt_insert (f c) (g c)) cs b) k =
      (case List.find (\<lambda>c. f c = k) cs of Some c \<Rightarrow> Some (g c) | None \<Rightarrow> map_of b k)"
  proof (induction cs arbitrary: b)
    case (Cons c cs)
    have "f c = k \<Longrightarrow> List.find (\<lambda>c. f c = k) cs = None" using Cons.prems
      unfolding find_None_iff by (metis distinct.simps(2) image_eqI list.set_map list.simps(9))
    then show ?case using Cons by (auto simp: map_of_bt_insert split: option.split)
  qed simp
qed

lemma keymap_defaults_chords:
  "chords_of (keymap_defaults up mac) i = (case command_named i of Some c \<Rightarrow> command_defaults up mac c | None \<Rightarrow> [])"
proof -
  have "map_of (km_bindings (keymap_defaults up mac)) i = map_option (command_defaults up mac) (command_named i)"
    using fold_bt_insert(3) [OF bt_inv_Nil command_ids_distinct, of "command_defaults up mac" i]
    by (cases "command_named i") (simp_all add: keymap_defaults_def command_named_def)
  then show ?thesis by (simp add: chords_of_def split: option.split)
qed

lemma keymap_defaults_ok: "upper_ok up \<Longrightarrow> keymap_ok (keymap_defaults up mac)"
proof -
  assume up: "upper_ok up"
  have k: "km_mac (keymap_defaults up mac) = mac" by (simp add: keymap_defaults_def)
  show ?thesis unfolding keymap_ok_def
  proof (intro conjI allI)
    show "bt_inv (km_bindings (keymap_defaults up mac))" by (simp add: keymap_defaults_def fold_bt_insert(1))
    show "dom (map_of (km_bindings (keymap_defaults up mac))) = cm_id ` set COMMANDS"
      by (simp add: keymap_defaults_def fold_bt_insert(2))
    fix i
    show "distinct (chords_of (keymap_defaults up mac) i)"
      using default_ok(1) [OF up _ k] command_named_Some [of i] by (simp add: keymap_defaults_chords split: option.split)
    show "\<forall>ch \<in> set (chords_of (keymap_defaults up mac) i). refusal (keymap_defaults up mac) i ch = None"
    proof (cases "command_named i")
      case (Some c)
      then show ?thesis using default_ok(2) [OF up _ k, of c] command_named_Some [OF Some] by (simp add: keymap_defaults_chords)
    qed (simp add: keymap_defaults_chords)
  qed
qed

lemma retain_not_chords:
  "chords_of (m\<lparr>km_bindings := retain_not ch k b\<rparr>) i =
     (if i = k then filter (\<lambda>c. c \<noteq> ch) (chords_of (m\<lparr>km_bindings := b\<rparr>) i) else chords_of (m\<lparr>km_bindings := b\<rparr>) i)"
  by (simp add: retain_not_def chords_of_def map_of_bt_insert split: option.split)

lemma keymap_ok_retain:
  assumes "keymap_ok m"
  shows "keymap_ok (m\<lparr>km_bindings := retain_not ch k (km_bindings m)\<rparr>)"
proof (cases "map_of (km_bindings m) k")
  case (Some cs)
  then have "k \<in> cm_id ` set COMMANDS" using assms by (auto simp: keymap_ok_def)
  then obtain c where c: "c \<in> set COMMANDS" "k = cm_id c" by auto
  have "cs = chords_of m k" using Some by (simp add: chords_of_def)
  then have "distinct cs" "\<forall>ch \<in> set cs. refusal m (cm_id c) ch = None" using assms c(2) by (auto simp: keymap_ok_def)
  then show ?thesis using keymap_ok_insert [OF assms c(1), of "filter (\<lambda>c. c \<noteq> ch) cs"] Some c(2)
    by (simp add: retain_not_def)
qed (simp add: retain_not_def assms)

lemma fold_retain_not:
  "keymap_ok m \<Longrightarrow> keymap_ok (m\<lparr>km_bindings := fold (retain_not ch) ks (km_bindings m)\<rparr>)"
  "chords_of (m\<lparr>km_bindings := fold (retain_not ch) ks b\<rparr>) i =
     (if i \<in> set ks then filter (\<lambda>c. c \<noteq> ch) (chords_of (m\<lparr>km_bindings := b\<rparr>) i) else chords_of (m\<lparr>km_bindings := b\<rparr>) i)"
proof (induction ks arbitrary: m b)
  case (Cons k ks)
  { case 1
    then show ?case using Cons(1) [OF keymap_ok_retain [OF 1, of ch k]] by simp
  next
    case 2
    then show ?case using Cons(2) [where m = m and b = "retain_not ch k b"] retain_not_chords [where m = m and ch = ch and k = k and b = b and i = i] by auto }
qed simp_all

definition after_bind :: "rstring \<Rightarrow> chord \<Rightarrow> keymap \<Rightarrow> rstring \<Rightarrow> chord list" where
  "after_bind i ch m j =
     (if j = i then if ch \<in> set (chords_of m i) then chords_of m i else chords_of m i @ [ch]
      else if j \<in> set (conflicts m i ch) then filter (\<lambda>c. c \<noteq> ch) (chords_of m j)
      else chords_of m j)"

lemma conflicts_other: "i \<notin> set (conflicts m i ch)"
  by (auto simp: conflicts_def split: option.split)

lemma keymap_bind_chords: "command_named i \<noteq> None \<Longrightarrow> chords_of (keymap_bind i ch m) j = after_bind i ch m j"
proof -
  assume "command_named i \<noteq> None"
  then obtain c where c: "command_named i = Some c" by blast
  have [simp]: "cm_id c = i" using command_named_Some [OF c] by simp
  let ?b = "fold (retain_not ch) (conflicts m i ch) (km_bindings m)"
  have f: "chords_of (m\<lparr>km_bindings := ?b\<rparr>) k = (if k \<in> set (conflicts m i ch) then filter (\<lambda>c. c \<noteq> ch) (chords_of m k) else chords_of m k)" for k
    using fold_retain_not(2) [where m = m and ch = ch and ks = "conflicts m i ch" and b = "km_bindings m" and i = k] by simp
  show ?thesis using conflicts_other [of i m ch]
    by (simp add: keymap_bind_def c Let_def chords_of_insert f after_bind_def)
qed

lemma keymap_bind_ok:
  assumes "keymap_ok m" "refusal m i ch = None"
  shows "keymap_ok (keymap_bind i ch m)"
proof (cases "command_named i")
  case (Some c)
  have c: "c \<in> set COMMANDS" "cm_id c = i" using command_named_Some [OF Some] by auto
  let ?m = "m\<lparr>km_bindings := fold (retain_not ch) (conflicts m i ch) (km_bindings m)\<rparr>"
  have ok: "keymap_ok ?m" by (rule fold_retain_not(1) [OF assms(1)])
  have "refusal ?m = refusal m" by (rule refusal_mac) simp
  then have "keymap_ok (?m\<lparr>km_bindings := bt_insert (cm_id c)
      (if ch \<in> set (chords_of ?m i) then chords_of ?m i else chords_of ?m i @ [ch]) (km_bindings ?m)\<rparr>)"
    using ok assms(2) c by (intro keymap_ok_insert [OF ok c(1)]) (auto simp: keymap_ok_def)
  then show ?thesis using Some c(2) by (simp add: keymap_bind_def Let_def)
qed (simp add: keymap_bind_def assms)

lemma keymap_reset_ok: "upper_ok up \<Longrightarrow> keymap_ok m \<Longrightarrow> keymap_ok (keymap_reset up i m)"
  using keymap_ok_insert default_ok command_named_Some by (fastforce simp: keymap_reset_def split: option.split)

lemma keymap_unbind_ok: "keymap_ok m \<Longrightarrow> keymap_ok (keymap_unbind i ch m)"
  by (simp add: keymap_unbind_def keymap_ok_retain)

section \<open>Reading a file\<close>

lemma read_tokens_Cons:
  "\<exists>p q. read_tokens up sj m i (t # ts) cs ps =
     (case Option.bind (json_str t) (chord_parse up) of
        Some ch \<Rightarrow>
          if ch \<in> set cs then read_tokens up sj m i ts cs ps
          else if refusal m i ch = None then read_tokens up sj m i ts (cs @ [ch]) ps
          else read_tokens up sj m i ts cs (ps @ [p])
      | None \<Rightarrow> read_tokens up sj m i ts cs (ps @ [q]))"
proof (cases "Option.bind (json_str t) (chord_parse up)")
  case None
  then show ?thesis by (simp del: lit_Cons) blast
next
  case (Some ch)
  then show ?thesis by (cases "refusal m i ch") (auto simp del: lit_Cons)
qed

lemma read_tokens_ok:
  assumes "distinct cs" "\<forall>ch \<in> set cs. refusal m i ch = None"
  shows "distinct (fst (read_tokens up sj m i ts cs ps)) \<and> (\<forall>ch \<in> set (fst (read_tokens up sj m i ts cs ps)). refusal m i ch = None)"
  using assms
proof (induction ts arbitrary: cs ps)
  case (Cons t ts)
  obtain p q where e: "read_tokens up sj m i (t # ts) cs ps =
     (case Option.bind (json_str t) (chord_parse up) of
        Some ch \<Rightarrow>
          if ch \<in> set cs then read_tokens up sj m i ts cs ps
          else if refusal m i ch = None then read_tokens up sj m i ts (cs @ [ch]) ps
          else read_tokens up sj m i ts cs (ps @ [p])
      | None \<Rightarrow> read_tokens up sj m i ts cs (ps @ [q]))"
    using read_tokens_Cons by blast
  show ?case unfolding e using Cons.prems Cons.IH [of cs] Cons.IH [of "cs @ [c]" for c]
    by (cases "Option.bind (json_str t) (chord_parse up)") simp_all
qed simp

text \<open>One entry of the file, as what it does to the bindings.\<close>

lemma read_binding_cases:
  "\<exists>ps'. read_binding up sj (i, v) (m, ps) =
     (case (command_named i, json_array v) of
        (Some c, Some ts) \<Rightarrow> (m\<lparr>km_bindings := bt_insert i (fst (read_tokens up sj m i ts [] ps)) (km_bindings m)\<rparr>, ps')
      | _ \<Rightarrow> (m, ps'))"
proof (cases "command_named i")
  case None
  then show ?thesis by (simp add: read_binding_def del: lit_Cons)
next
  case (Some c)
  then have "cm_id c = i" using command_named_Some by blast
  then show ?thesis using Some
    by (cases "json_array v") (simp_all add: read_binding_def split_beta del: lit_Cons)
qed

lemma read_binding_mac: "km_mac (fst (read_binding up sj e st)) = km_mac (fst st)"
proof -
  obtain i v m ps where e: "e = (i, v)" "st = (m, ps)" by (cases e; cases st)
  show ?thesis using read_binding_cases [of up sj i v m ps] e by (auto split: option.splits)
qed

lemma read_binding_ok: "keymap_ok (fst st) \<Longrightarrow> keymap_ok (fst (read_binding up sj e st))"
proof -
  assume ok: "keymap_ok (fst st)"
  obtain i v m ps where e: "e = (i, v)" "st = (m, ps)" by (cases e; cases st)
  show ?thesis
  proof (cases "command_named i")
    case (Some c)
    have c: "c \<in> set COMMANDS" "cm_id c = i" using command_named_Some [OF Some] by auto
    have "keymap_ok (m\<lparr>km_bindings := bt_insert i (fst (read_tokens up sj m i ts [] ps)) (km_bindings m)\<rparr>)" for ts
      using keymap_ok_insert [OF _ c(1)] read_tokens_ok [of "[]" m i up sj ts ps] ok e c(2) by simp
    then show ?thesis using read_binding_cases [of up sj i v m ps] e ok Some by (auto split: option.splits)
  qed (use read_binding_cases [of up sj i v m ps] e ok in auto)
qed

lemma keymap_parse_ok: "upper_ok up \<Longrightarrow> keymap_ok (fst (keymap_parse up J sj t mac))"
proof -
  assume up: "upper_ok up"
  have "keymap_ok (fst st) \<Longrightarrow> keymap_ok (fst (fold (read_binding up sj) es st))" for es st
    by (induction es arbitrary: st) (simp_all add: read_binding_ok)
  then show ?thesis using keymap_defaults_ok [OF up]
    by (simp add: keymap_parse_def split: sum.split option.split)
qed

lemma keymap_parse_mac: "km_mac (fst (keymap_parse up J sj t mac)) = mac"
proof -
  have "km_mac (fst (fold (read_binding up sj) es st)) = km_mac (fst st)" for es st
    by (induction es arbitrary: st) (simp_all add: read_binding_mac)
  then show ?thesis by (simp add: keymap_parse_def keymap_defaults_def split: sum.split option.split)
qed

section \<open>Reading what was written\<close>

lemma read_tokens_shown:
  assumes "distinct (acc @ cs)" "\<forall>ch \<in> set cs. settled up (ch_key ch) \<and> refusal m i ch = None"
  shows "read_tokens up sj m i (map (JString \<circ> chord_show) cs) acc ps = (acc @ cs, ps)"
  using assms by (induction cs arbitrary: acc) (simp_all add: chord_parse_show del: lit_Cons)

text \<open>The bindings a file gives a command: those of its entry, when it has one that is a list.\<close>

lemma read_tokens_fst:
  assumes "km_mac m = km_mac m'"
  shows "fst (read_tokens up sj m i ts cs ps) = fst (read_tokens up sj m' i ts cs qs)"
proof (induction ts arbitrary: cs ps qs)
  case (Cons t ts)
  obtain p q where e: "read_tokens up sj m i (t # ts) cs ps =
     (case Option.bind (json_str t) (chord_parse up) of
        Some ch \<Rightarrow>
          if ch \<in> set cs then read_tokens up sj m i ts cs ps
          else if refusal m i ch = None then read_tokens up sj m i ts (cs @ [ch]) ps
          else read_tokens up sj m i ts cs (ps @ [p])
      | None \<Rightarrow> read_tokens up sj m i ts cs (ps @ [q]))"
    using read_tokens_Cons by blast
  obtain p' q' where e': "read_tokens up sj m' i (t # ts) cs qs =
     (case Option.bind (json_str t) (chord_parse up) of
        Some ch \<Rightarrow>
          if ch \<in> set cs then read_tokens up sj m' i ts cs qs
          else if refusal m' i ch = None then read_tokens up sj m' i ts (cs @ [ch]) qs
          else read_tokens up sj m' i ts cs (qs @ [p'])
      | None \<Rightarrow> read_tokens up sj m' i ts cs (qs @ [q']))"
    using read_tokens_Cons by blast
  show ?case unfolding e e' refusal_mac [OF assms]
    using Cons.IH by (cases "Option.bind (json_str t) (chord_parse up)") simp_all
qed simp

definition entry_chords :: "(rchar \<Rightarrow> rstring) \<Rightarrow> (json \<Rightarrow> rstring) \<Rightarrow> keymap \<Rightarrow> rstring \<Rightarrow> json option \<Rightarrow> chord list" where
  "entry_chords up sj m i v =
     (case Option.bind v json_array of
        None \<Rightarrow> chords_of m i
      | Some ts \<Rightarrow> fst (read_tokens up sj m i ts [] []))"

lemma read_binding_chords:
  assumes "command_named i = Some c"
  shows "chords_of (fst (read_binding up sj (j, v) (m, ps))) i = (if j = i then entry_chords up sj m i (Some v) else chords_of m i)"
proof -
  obtain ps' where e: "read_binding up sj (j, v) (m, ps) =
     (case (command_named j, json_array v) of
        (Some c, Some ts) \<Rightarrow> (m\<lparr>km_bindings := bt_insert j (fst (read_tokens up sj m j ts [] ps)) (km_bindings m)\<rparr>, ps')
      | _ \<Rightarrow> (m, ps'))" using read_binding_cases by blast
  show ?thesis unfolding e entry_chords_def
    using assms read_tokens_fst [of m m up sj j _ "[]" ps "[]"]
    by (auto simp: chords_of_insert split: option.split)
qed

lemma read_bindings_chords:
  assumes "distinct (map fst es)" "command_named i = Some c"
  shows "chords_of (fst (fold (read_binding up sj) es (m, ps))) i = entry_chords up sj m i (map_of es i)"
  using assms(1)
proof (induction es arbitrary: m ps)
  case (Cons e es)
  obtain j v where j: "e = (j, v)" by (cases e)
  obtain m' ps' where m': "read_binding up sj (j, v) (m, ps) = (m', ps')" by (cases "read_binding up sj (j, v) (m, ps)")
  have mac: "km_mac m' = km_mac m" using read_binding_mac [of up sj "(j, v)" "(m, ps)"] m' by simp
  have c: "chords_of m' i = (if j = i then entry_chords up sj m i (Some v) else chords_of m i)"
    using read_binding_chords [OF assms(2), of up sj j v m ps] m' by simp
  show ?case
  proof (cases "j = i")
    case True
    then have "map_of es i = None" using Cons.prems j by (simp add: map_of_eq_None_iff)
    then show ?thesis using Cons j m' c True by (simp add: entry_chords_def)
  next
    case False
    then have "chords_of m' i = chords_of m i" using c by simp
    then have "entry_chords up sj m' i x = entry_chords up sj m i x" for x
      unfolding entry_chords_def using read_tokens_fst [OF mac, of up sj i _ "[]" "[]" "[]"] by (cases "Option.bind x json_array") simp_all
    then show ?thesis using Cons j m' False by simp
  qed
qed (simp add: entry_chords_def)

definition written_tokens :: "(rchar \<Rightarrow> rstring) \<Rightarrow> keymap \<Rightarrow> command \<Rightarrow> json option" where
  "written_tokens up m c =
     (if chords_of m (cm_id c) = command_defaults up (km_mac m) c then None
      else Some (JArray (map (JString \<circ> chord_show) (chords_of m (cm_id c)))))"

lemma write_binding_at:
  assumes "im_inv b"
  shows "im_inv (write_binding up m d b)"
    and "map_of (write_binding up m d b) k = (if k = cm_id d then written_tokens up m d else map_of b k)"
  using assms by (simp_all add: write_binding_def im.invar_ins im.invar_del im.lookup_ins im.lookup_del written_tokens_def)

lemma fold_write_binding_inv: "im_inv b \<Longrightarrow> im_inv (fold (write_binding up m) cs b)"
  by (induction cs arbitrary: b) (simp_all add: write_binding_at)

lemma fold_write_binding_other:
  "im_inv b \<Longrightarrow> k \<notin> cm_id ` set cs \<Longrightarrow> map_of (fold (write_binding up m) cs b) k = map_of b k"
  by (induction cs arbitrary: b) (simp_all add: write_binding_at)

lemma fold_write_binding_at:
  "im_inv b \<Longrightarrow> distinct (map cm_id cs) \<Longrightarrow> c \<in> set cs \<Longrightarrow>
   map_of (fold (write_binding up m) cs b) (cm_id c) = written_tokens up m c"
proof (induction cs arbitrary: b)
  case (Cons d ds)
  show ?case
  proof (cases "c = d")
    case True
    then have "cm_id c \<notin> cm_id ` set ds" using Cons.prems(2) by simp
    then show ?thesis using fold_write_binding_other write_binding_at [OF Cons.prems(1)] True by simp
  qed (use Cons write_binding_at [OF Cons.prems(1)] in simp)
qed simp

text \<open>The bindings of the document that is written over.\<close>

definition old_bindings :: "(rstring \<Rightarrow> rstring + json) \<Rightarrow> rstring option \<Rightarrow> (rstring \<times> json) list" where
  "old_bindings J existing =
     (case Option.bind existing (\<lambda>t. case J t of Inl e \<Rightarrow> None | Inr v \<Rightarrow> Option.bind (json_get ''bindings'' v) json_object) of
        Some b \<Rightarrow> b | None \<Rightarrow> [])"

lemma written_bindings:
  "map_of (written_doc up J m existing) (lit ''bindings'') = Some (JObject (fold (write_binding up m) COMMANDS (old_bindings J existing)))"
proof -
  have v: "lit ''bindings'' \<noteq> lit ''version''" by (simp add: lit_eq del: lit_Cons)
  have g: "Option.bind (json_get ''bindings'' w) json_object =
      Option.bind (Option.bind (json_object w) (\<lambda>d. map_of d (lit ''bindings''))) json_object" for w
    by (cases w) (simp_all del: lit_Cons)
  have n: "map_of [] k = None" for k :: rstring by simp
  show ?thesis using v
    by (cases existing; simp add: written_doc_def old_bindings_def Let_def map_of_im_insert g del: lit_Cons split: sum.split)
      (auto simp: map_of_im_insert g simp del: lit_Cons split: option.split)
qed

lemma written_read_chords:
  assumes up: "upper_ok up" and ok: "keymap_ok m" and s: "\<forall>i. \<forall>ch \<in> set (chords_of m i). settled up (ch_key ch)"
    and J: "J (keymap_write up J pretty m existing) = Inr (JObject (written_doc up J m existing))"
    and old: "im_inv (old_bindings J existing)"
  shows "chords_of (fst (keymap_parse up J sj (keymap_write up J pretty m existing) (km_mac m))) i = chords_of m i"
proof (cases "command_named i")
  case None
  have "i \<notin> cm_id ` set COMMANDS" using command_named_mem None by force
  then have "chords_of n i = []" if "keymap_ok n" for n
    using that by (auto simp: keymap_ok_def chords_of_def split: option.split)
  then show ?thesis using keymap_parse_ok [OF up] ok by simp
next
  case (Some c)
  have c: "c \<in> set COMMANDS" "cm_id c = i" using command_named_Some [OF Some] by auto
  let ?d = "keymap_defaults up (km_mac m)" and ?b = "fold (write_binding up m) COMMANDS (old_bindings J existing)"
  have "json_get ''bindings'' (JObject (written_doc up J m existing)) = Some (JObject ?b)"
    using written_bindings by simp
  then have p: "fst (keymap_parse up J sj (keymap_write up J pretty m existing) (km_mac m)) = fst (fold (read_binding up sj) ?b (?d, []))"
    by (simp add: keymap_parse_def J del: lit_Cons)
  have "distinct (map fst ?b)" using fold_write_binding_inv [OF old] by (simp add: im_inv_def)
  then have e: "chords_of (fst (fold (read_binding up sj) ?b (?d, []))) i = entry_chords up sj ?d i (written_tokens up m c)"
    using read_bindings_chords [OF _ Some] fold_write_binding_at [OF old command_ids_distinct c(1)] c(2) by simp
  show ?thesis
  proof (cases "chords_of m i = command_defaults up (km_mac m) c")
    case True
    then show ?thesis unfolding p e using c Some by (simp add: written_tokens_def entry_chords_def keymap_defaults_chords)
  next
    case False
    have "km_mac ?d = km_mac m" by (simp add: keymap_defaults_def)
    then have "refusal ?d = refusal m" by (rule refusal_mac)
    then have "\<forall>ch \<in> set (chords_of m i). settled up (ch_key ch) \<and> refusal ?d i ch = None" using ok s by (simp add: keymap_ok_def)
    moreover have "distinct ([] @ chords_of m i)" using ok by (simp add: keymap_ok_def)
    ultimately show ?thesis unfolding p e using read_tokens_shown [of "[]" "chords_of m i" up ?d i sj "[]"] False c
      by (simp add: written_tokens_def entry_chords_def)
  qed
qed

section \<open>One command for a chord\<close>

definition one_command :: "keymap \<Rightarrow> bool" where
  "one_command m \<longleftrightarrow>
     (\<forall>c \<in> set COMMANDS. \<forall>d \<in> set COMMANDS. c \<noteq> d \<longrightarrow> shares_scope c d \<longrightarrow>
        set (chords_of m (cm_id c)) \<inter> set (chords_of m (cm_id d)) = {})"

lemma conflicts_set:
  "command_named i = Some c \<Longrightarrow> set (conflicts m i ch) =
     cm_id ` {d \<in> set COMMANDS. d \<noteq> c \<and> shares_scope d c \<and> ch \<in> set (chords_of m (cm_id d))}"
  using command_named_Some [of i c] command_id_inj by (fastforce simp: conflicts_def)

lemma defaults_one_command: "upper_ok up \<Longrightarrow> one_command (keymap_defaults up mac)"
  using default_apart by (auto simp: one_command_def keymap_defaults_chords command_named_mem)

lemma shares_scope_sym: "shares_scope c d = shares_scope d c"
  by (auto simp: shares_scope_def list_ex_iff)

text \<open>Binding a chord: its command gets it, the rivals lose it, and nothing else changes.\<close>

lemma bind_chords:
  assumes "command_named i = Some c" "d \<in> set COMMANDS"
  shows "ch' \<in> set (chords_of (keymap_bind i ch m) (cm_id d)) \<longleftrightarrow>
    (if ch' = ch then d = c \<or> (\<not> shares_scope d c \<and> ch \<in> set (chords_of m (cm_id d)))
     else ch' \<in> set (chords_of m (cm_id d)))"
proof -
  have c: "c \<in> set COMMANDS" "cm_id c = i" using command_named_Some [OF assms(1)] by auto
  have "cm_id d = i \<longleftrightarrow> d = c" using command_id_inj [OF assms(2) c(1)] c(2) by auto
  moreover have "cm_id d \<in> set (conflicts m i ch) \<longleftrightarrow> d \<noteq> c \<and> shares_scope d c \<and> ch \<in> set (chords_of m (cm_id d))"
    unfolding conflicts_set [OF assms(1)] using command_id_inj assms(2) by blast
  ultimately show ?thesis using keymap_bind_chords [of i ch m "cm_id d"] assms(1) c(2)
    by (auto simp: after_bind_def)
qed

lemma bind_one_command:
  assumes "one_command m"
  shows "one_command (keymap_bind i ch m)"
proof (cases "command_named i")
  case (Some c)
  then show ?thesis using assms shares_scope_sym
    unfolding one_command_def by (auto simp: bind_chords) (metis disjoint_iff)+
qed (simp add: keymap_bind_def assms)

lemma unbind_one_command:
  assumes "one_command m"
  shows "one_command (keymap_unbind i ch m)"
proof -
  have sub: "set (chords_of (keymap_unbind i ch m) j) \<subseteq> set (chords_of m j)" for j
    by (simp add: keymap_unbind_def retain_not_chords [where m = m and b = "km_bindings m"])
  show ?thesis unfolding one_command_def
  proof (intro ballI impI)
    fix c d assume "c \<in> set COMMANDS" "d \<in> set COMMANDS" "c \<noteq> d" "shares_scope c d"
    then have "set (chords_of m (cm_id c)) \<inter> set (chords_of m (cm_id d)) = {}"
      using assms unfolding one_command_def by blast
    then show "set (chords_of (keymap_unbind i ch m) (cm_id c)) \<inter> set (chords_of (keymap_unbind i ch m) (cm_id d)) = {}"
      using sub by blast
  qed
qed

lemma lookup_Some:
  assumes "keymap_lookup m ch s = Some i"
  shows "\<exists>c \<in> set COMMANDS. cm_id c = i \<and> live_in c s \<and> ch \<in> set (chords_of m i)"
  using assms by (auto simp: keymap_lookup_def find_Some_iff)

lemma lookup_None: "keymap_lookup m ch s = None \<longleftrightarrow> (\<forall>c \<in> set COMMANDS. live_in c s \<longrightarrow> ch \<notin> set (chords_of m (cm_id c)))"
  by (auto simp: keymap_lookup_def find_None_iff)

lemma live_shares: "live_in c s \<Longrightarrow> live_in d s \<Longrightarrow> shares_scope c d"
  by (auto simp: live_in_def shares_scope_def list_ex_iff)

lemma lookup_exact:
  assumes "one_command m" "c \<in> set COMMANDS" "live_in c s"
  shows "keymap_lookup m ch s = Some (cm_id c) \<longleftrightarrow> ch \<in> set (chords_of m (cm_id c))"
proof
  assume "keymap_lookup m ch s = Some (cm_id c)"
  then show "ch \<in> set (chords_of m (cm_id c))" using lookup_Some by blast
next
  assume ch: "ch \<in> set (chords_of m (cm_id c))"
  then have "keymap_lookup m ch s \<noteq> None" using assms(2,3) unfolding lookup_None by blast
  then obtain i where i: "keymap_lookup m ch s = Some i" by blast
  obtain d where d: "d \<in> set COMMANDS" "cm_id d = i" "live_in d s" "ch \<in> set (chords_of m i)"
    using lookup_Some [OF i] by blast
  then have "d = c" using assms ch live_shares [OF d(3) assms(3)] unfolding one_command_def by blast
  then show "keymap_lookup m ch s = Some (cm_id c)" using i d(2) by simp
qed

end
