(* ===== verification/PropsConfig.thy ===== *)
theory PropsConfig
  imports Settings KeymapInv
begin

text \<open>
  The properties of what the user configures: the settings document (\<open>Settings\<close>) and key bindings
  (\<open>Keymap\<close>).
\<close>

section \<open>Settings\<close>

text \<open>The settings a window can come to hold: read from a document, whatever is in it, and then set
  and reset. \<open>J\<close> is the reader of JSON.\<close>

inductive settings_reachable :: "(rstring \<Rightarrow> rstring + json) \<Rightarrow> settings \<Rightarrow> bool" for J where
  loaded: "settings_reachable J (fst (settings_read J doc))"
| set: "settings_reachable J s \<Longrightarrow> settings_reachable J (snd (settings_set k v s))"
| reset: "settings_reachable J s \<Longrightarrow> settings_reachable J (settings_reset k s)"

lemma settings_reachable_ok: "settings_reachable J s \<Longrightarrow> settings_ok s"
  by (induction rule: settings_reachable.induct) (simp_all add: settings_read_ok settings_set_ok settings_reset_ok)

lemma settings_distinct: "distinct (map fst SETTINGS)"
  by code_simp

lemma settings_ok_get:
  assumes "settings_ok s" "(k, kind) \<in> set SETTINGS"
  shows "\<exists>v. settings_get k s = Some v \<and> fits kind v"
proof -
  obtain i where i: "i < length SETTINGS" "SETTINGS ! i = (k, kind)" using assms(2) by (auto simp: in_set_conv_nth)
  have l: "list_all2 (\<lambda>d e. fst e = fst d \<and> fits (snd d) (snd e)) SETTINGS (s_values s)"
    using assms(1) by (simp add: settings_ok_def)
  from list_all2_nthD [OF this i(1)] i(2) obtain v where v: "s_values s ! i = (k, v)" "fits kind v"
    by (cases "s_values s ! i") auto
  have "distinct (map fst (s_values s))" using settings_keys [OF assms(1)] settings_distinct by simp
  moreover have "(k, v) \<in> set (s_values s)" using v(1) i(1) list_all2_lengthD [OF l] nth_mem by metis
  ultimately have "settings_get k s = Some v" by (simp add: settings_get_def)
  with v(2) show ?thesis by blast
qed

text \<open>C26: whatever document the settings were read from and whatever was set or reset since, every
  setting of the table has a value of its own kind and within its own bounds: a number inside its
  range, a choice among its options, an optional text that is not blank.\<close>

theorem settings_stay_in_bounds:
  assumes "settings_reachable J s" "(k, kind) \<in> set SETTINGS"
  shows "\<exists>v. settings_get k s = Some v \<and> fits kind v"
  using settings_ok_get [OF settings_reachable_ok [OF assms(1)] assms(2)] .

theorem settings_stay_in_bounds_witness:
  "tab_size (fst (settings_read (\<lambda>_. Inr (JObject [(lit ''editor'', JObject [(lit ''tabSize'', JNumber (PosInt 400))])])) (Some []))) \<le> 16"
proof -
  let ?J = "\<lambda>_. Inr (JObject [(lit ''editor'', JObject [(lit ''tabSize'', JNumber (PosInt 400))])])"
  have "(''editor.tabSize'', KInt 1 16 4) \<in> set SETTINGS"
    by (simp add: SETTINGS_def editor_settings_def)
  from settings_stay_in_bounds [OF settings_reachable.loaded this, of ?J "Some []"]
  obtain v where "settings_get ''editor.tabSize'' (fst (settings_read ?J (Some []))) = Some v" "fits (KInt 1 16 4) v" by blast
  then show ?thesis by (cases v) (auto simp: tab_size_def get_int_def unsigned_or_def)
qed



text \<open>An entry of the settings document that no setting names or leads through is still there,
  unchanged, after the document was read, a setting set, and the settings written.\<close>

lemma foreign_entries_survive:
  assumes "unmodelled ps" "J t = Inr (JObject m)"
  shows "get_parts ps (written (snd (settings_set k v (fst (settings_read J (Some t)))))) = get_parts ps m"
  using written_unmodelled [OF settings_set_ok [OF settings_read_ok] assms(1)] set_unmodelled [OF assms(1)]
    read_unmodelled [of J t m, OF assms(2,1)] by simp

lemma foreign_entries_survive_witness:
  "get_parts [lit ''editor'', lit ''future''] (written (snd (settings_set ''editor.tabSize'' (VInt 99)
     (fst (settings_read (\<lambda>_. Inr (JObject [(lit ''editor'', JObject [(lit ''future'', JBool True)])])) (Some []))))))
   = Some (JBool True)"
proof -
  have "unmodelled [lit ''editor'', lit ''future'']" by code_simp
  from foreign_entries_survive [OF this refl] show ?thesis by (simp add: lit_def)
qed

text \<open>A value that is set is the value that is got, brought within its bounds, and no other
  setting changes; what does not fit the setting's kind is refused and changes nothing.\<close>

lemma set_then_get:
  assumes "settings_reachable J s" "(k, kind) \<in> set SETTINGS"
  shows "(case settings_set k v s of
     (True, s') \<Rightarrow> settings_get k s' = Some (fst (coerce kind (Some (value_json v))))
       \<and> (\<forall>l. l \<noteq> k \<longrightarrow> settings_get l s' = settings_get l s)
   | (False, s') \<Rightarrow> s' = s \<and> \<not> fits kind v)"
proof -
  have m: "map_of SETTINGS k = Some kind" using assms(2) settings_distinct by simp
  have k: "kind_ok kind" using settings_kind_ok [OF assms(2)] by simp
  obtain b s' where s': "settings_set k v s = (b, s')" by (cases "settings_set k v s")
  show ?thesis
  proof (cases b)
    case True
    then show ?thesis using s' set_get(1) [OF settings_reachable_ok [OF assms(1)] _ m, of v s'] by simp
  next
    case False
    then have "s' = s" "fits kind v \<Longrightarrow> False"
      using s' m coerce_written [OF k, of v] by (auto simp: settings_set_def split: prod.splits if_splits)
    then show ?thesis using s' False by auto
  qed
qed

lemma set_then_get_witness:
  "tab_size (snd (settings_set ''editor.tabSize'' (VInt 99) settings_default)) = 16"
proof -
  let ?s = "settings_set ''editor.tabSize'' (VInt 99) settings_default"
  have t: "(''editor.tabSize'', KInt 1 16 4) \<in> set SETTINGS" by (simp add: SETTINGS_def editor_settings_def)
  have r: "settings_reachable (\<lambda>_. Inl []) settings_default"
    using settings_reachable.loaded [of "\<lambda>_. Inl []" None] by (simp add: settings_read_def)
  have "fst ?s" using settings_distinct t by (simp add: settings_set_def coerce_def Let_def split: prod.splits)
  with set_then_get [OF r t, of "VInt 99"] have "settings_get ''editor.tabSize'' (snd ?s) = Some (VInt 16)"
    using round_away_int [of 99] by (cases ?s) (simp add: coerce_def Let_def number_f64_of_int to_i64_def)
  then show ?thesis by (simp add: tab_size_def get_int_def unsigned_or_def)
qed

section \<open>Key bindings\<close>

text \<open>The keymaps a window can come to hold: read from a file, whatever is in it, then changed as the
  key bindings editor changes them, which asks for a reason to refuse before it binds.\<close>

inductive keymap_reachable :: "(rchar \<Rightarrow> rstring) \<Rightarrow> keymap \<Rightarrow> bool" for up where
  keys_defaults: "keymap_reachable up (keymap_defaults up mac)"
| keys_read: "keymap_reachable up (fst (keymap_parse up J sj t mac))"
| keys_bound: "keymap_reachable up m \<Longrightarrow> refusal m i ch = None \<Longrightarrow> keymap_reachable up (keymap_bind i ch m)"
| keys_unbound: "keymap_reachable up m \<Longrightarrow> keymap_reachable up (keymap_unbind i ch m)"
| keys_reset: "keymap_reachable up m \<Longrightarrow> keymap_reachable up (keymap_reset up i m)"

lemma keymap_reachable_ok: "keymap_reachable up m \<Longrightarrow> upper_ok up \<Longrightarrow> keymap_ok m"
  by (induction rule: keymap_reachable.induct)
    (simp_all add: keymap_defaults_ok keymap_parse_ok keymap_bind_ok keymap_unbind_ok keymap_reset_ok)

text \<open>C28: whatever the user's file holds and whatever is bound, unbound and reset, no command has a
  chord that is refused to it: no key that the interface needs bare, and outside macOS none of the
  terminal's own chords (interrupt, end of input, suspend and the rest) where a terminal has the
  keyboard.\<close>

theorem refused_chords_never_run:
  assumes "keymap_reachable up m" "upper_ok up" "keymap_lookup m ch s = Some i"
  shows "bindable ch \<and> (s = TerminalScope \<longrightarrow> (\<forall>w. tier_of ch (km_mac m) \<noteq> Reserved w))"
proof -
  obtain c where c: "c \<in> set COMMANDS" "cm_id c = i" "live_in c s" "ch \<in> set (chords_of m i)"
    using lookup_Some [OF assms(3)] by blast
  have "refusal m i ch = None" using keymap_reachable_ok [OF assms(1,2)] c(4) by (simp add: keymap_ok_def)
  then show ?thesis using command_named_mem [OF c(1)] c(2,3)
    by (auto simp: refusal_def split: if_splits terminal_tier.splits)
qed

theorem refused_chords_never_run_witness:
  "bindable \<lparr>ch_ctrl = True, ch_shift = True, ch_alt = False, ch_key = lit ''F5''\<rparr>"
proof -
  let ?ch = "\<lparr>ch_ctrl = True, ch_shift = True, ch_alt = False, ch_key = lit ''F5''\<rparr>"
  let ?m = "keymap_bind (lit ''tabs.next'') ?ch (keymap_defaults ascii_up False)"
  have i: "lit ''tabs.next'' \<in> set (map cm_id COMMANDS)"
    unfolding command_ids COMMAND_IDS_def by (simp only: list.set set_map image_insert insert_iff) blast
  then obtain c where c: "c \<in> set COMMANDS" "cm_id c = lit ''tabs.next''" by auto
  have "refusal (keymap_defaults ascii_up False) (lit ''tabs.next'') ?ch = None"
    by (simp add: refusal_def bindable_def tier_of_def del: lit_Cons split: option.split)
  then have r: "keymap_reachable ascii_up ?m" by (intro keymap_reachable.intros)
  have n: "command_named (lit ''tabs.next'') = Some c" using command_named_mem [OF c(1)] unfolding c(2) .
  have ch: "?ch \<in> set (chords_of ?m (cm_id c))" unfolding bind_chords [OF n c(1)] by simp
  have "list_all (\<lambda>ss. ss \<noteq> []) (map cm_scopes COMMANDS)" unfolding command_scopes by code_simp
  then have "cm_scopes c \<noteq> []" using c(1) by (simp add: list_all_iff)
  then obtain s where "live_in c s" by (cases "cm_scopes c") (auto simp: live_in_def)
  then have "keymap_lookup ?m ?ch s \<noteq> None" unfolding lookup_None using c(1) ch by blast
  then obtain j where "keymap_lookup ?m ?ch s = Some j" by blast
  from refused_chords_never_run [OF r upper_ok_ascii this] show ?thesis by blast
qed



text \<open>C30: the file a keymap is written to gives the same bindings again, whatever the file held before;
  the keys bound are assumed to be ones whose names are read as they are written.\<close>

theorem keymap_round_trip:
  assumes "upper_ok up" "keymap_reachable up m" "\<forall>i. \<forall>ch \<in> set (chords_of m i). settled up (ch_key ch)"
    and "J (keymap_write up J pretty m existing) = Inr (JObject (written_doc up J m existing))"
    and "im_inv (old_bindings J existing)"
  shows "chords_of (fst (keymap_parse up J sj (keymap_write up J pretty m existing) (km_mac m))) i = chords_of m i"
  using written_read_chords [where J = J and pretty = pretty, OF assms(1) keymap_reachable_ok [OF assms(2,1)] assms(3,4,5)] .

lemma defaults_settled: "upper_ok up \<Longrightarrow> ch \<in> set (chords_of (keymap_defaults up mac) i) \<Longrightarrow> settled up (ch_key ch)"
proof -
  assume up: "upper_ok up" and ch: "ch \<in> set (chords_of (keymap_defaults up mac) i)"
  obtain c where n: "command_named i = Some c" "ch \<in> set (command_defaults up mac c)"
    using ch by (cases "command_named i") (auto simp: keymap_defaults_chords)
  then have c: "c \<in> set COMMANDS" "ch \<in> set (command_defaults up mac c)" using command_named_Some by blast+
  then have "command_defaults up mac c \<in> set (default_chords mac)"
    using command_defaults [OF up, of mac] by (metis image_eqI list.set_map)
  then show ?thesis using default_chord_settled [OF up] c(2) by blast
qed

theorem keymap_round_trip_witness:
  "let m = keymap_bind (lit ''tabs.next'') (chd True False True ''T'') (keymap_defaults ascii_up False);
       J = (\<lambda>_. Inr (JObject (written_doc ascii_up (\<lambda>_. Inl []) m None)))
   in chords_of (fst (keymap_parse ascii_up J (\<lambda>_. []) (keymap_write ascii_up J (\<lambda>_. []) m None) False)) (lit ''tabs.next'')
      = chords_of m (lit ''tabs.next'')"
proof -
  let ?ch = "chd True False True ''T''"
  let ?m = "keymap_bind (lit ''tabs.next'') ?ch (keymap_defaults ascii_up False)"
  let ?J = "\<lambda>_. Inr (JObject (written_doc ascii_up (\<lambda>_. Inl []) ?m None))"
  have "refusal (keymap_defaults ascii_up False) (lit ''tabs.next'') ?ch = None"
    by (simp add: refusal_def bindable_def tier_of_def chd_def del: lit_Cons split: option.split)
  then have r: "keymap_reachable ascii_up ?m" by (intro keymap_reachable.intros)
  have "settled ascii_up (ch_key ?ch)"
    by (simp add: chd_def settled_single is_whitespace_def to_ascii_upper_def is_ascii_lower_def)
  then have s: "\<forall>i. \<forall>ch \<in> set (chords_of ?m i). settled ascii_up (ch_key ch)"
    using defaults_settled [OF upper_ok_ascii, of _ False] keymap_bind_chords [of "lit ''tabs.next''" ?ch "keymap_defaults ascii_up False"]
    by (cases "command_named (lit ''tabs.next'')")
      (fastforce simp: after_bind_def keymap_bind_def simp del: lit_Cons split: if_splits)+
  have d: "written_doc ascii_up ?J ?m None = written_doc ascii_up (\<lambda>_. Inl []) ?m None" by (simp only: written_doc_def bind.simps)
  have "km_mac ?m = False" by (simp add: keymap_bind_def keymap_defaults_def Let_def split: option.split)
  then show ?thesis using keymap_round_trip [OF upper_ok_ascii r s, of ?J "\<lambda>_. []" None] d
    by (simp add: old_bindings_def im_inv_def Let_def del: lit_Cons)
qed

text \<open>A chord read from a token of ASCII characters is read again from how it is written.\<close>

lemma chord_round_trip:
  assumes "upper_ok up" "list_all (\<lambda>c. c < 128) t" "chord_parse up t = Some c"
  shows "chord_parse up (chord_show c) = Some c"
  using chord_parse_show chord_parse_settled [OF assms] by blast

lemma chord_round_trip_witness:
  "chord_parse ascii_up (chord_show (chd True False False ''+'')) = Some (chd True False False ''+'')"
proof -
  have "settled ascii_up (ch_key (chd True False False ''+''))"
    by (simp add: chd_def settled_single is_whitespace_def to_ascii_upper_def is_ascii_lower_def)
  from chord_parse_show [OF this] have "chord_parse ascii_up (lit ''Ctrl++'') = Some (chd True False False ''+'')"
    by (simp add: chord_show_def chd_def)
  from chord_round_trip [OF upper_ok_ascii _ this] show ?thesis by simp
qed

end
