(* ===== verification/PropsLinks.thy ===== *)
theory PropsLinks
  imports Osc7
begin

text \<open>
  The properties of what is opened from text and reported by shells: links (\<open>Links\<close>) and directory
  reports (\<open>Osc7\<close>).
\<close>

section \<open>Links\<close>

text \<open>The links of a line are not empty, lie inside it, come from left to right, and no two of
  them share a character.\<close>

lemma links_never_overlap:
  "sorted_wrt (\<lambda>a b. l_end a \<le> l_start b) (find_links U t)
   \<and> list_all (\<lambda>l. l_start l < l_end l \<and> l_end l \<le> length t) (find_links U t)"
  using find_links_sorted [of U t] find_links_inv [of t U] by (simp add: tokens_inv_def list_all_iff)

text \<open>C31: whatever the text, what is found in it or read from an explicit hyperlink leads only to an
  \<open>http\<close> or \<open>https\<close> address, a \<open>mailto:\<close> or \<open>tel:\<close> address, or a path that is not empty and has no
  control character in it, percent-encoded or not. The lower-casing of Unicode is assumed to make
  the schemes' prefixes of no other letters.\<close>

theorem links_are_safe:
  assumes "ascii_lowering U"
  shows "list_all (\<lambda>l. safe_target (l_target l)) (find_links U t)
    \<and> (case classify_link t of None \<Rightarrow> True | Some target \<Rightarrow> safe_target target)"
  using find_links_inv [of t U] classify_link_safe [of t] assms by (simp add: list_all_iff split: option.split)

theorem links_are_safe_witness:
  "list_all (\<lambda>l. safe_target (l_target l)) (find_links ascii_tables (lit ''run javascript:alert(1) or file:///tmp/a%20b''))"
proof -
  have "ascii_lowering ascii_tables"
    by (simp only: ascii_lowering_def ascii_tables_def ascii_unicode_def unicode.defs link_tables.simps unicode.simps) blast
  from links_are_safe [OF this] show ?thesis by (blast dest: conjunct1)
qed

text \<open>A line and column written behind a path are read back, and leave the path as it was.\<close>

lemma position_round_trip:
  assumes "path \<noteq> []" "line < 2 ^ 32" "column < 2 ^ 32"
  shows "split_position (path @ 58 # show_nat line @ 58 # show_nat column) = Some (path, Some line, Some column)"
  using split_position_line_column [OF assms] .

lemma position_round_trip_witness:
  "split_position (lit ''C:'' @ 58 # show_nat 3 @ 58 # show_nat 14) = Some (lit ''C:'', Some 3, Some 14)"
  using position_round_trip [of "lit ''C:''" 3 14] by simp

section \<open>Directory reports\<close>

text \<open>A shell's directory report is found however the output around it is cut into pieces, as
  long as its introducer is in one piece, and the scanner is then ready for the next.\<close>

lemma report_found_in_pieces:
  assumes "27 \<notin> set pre" "is_str uri" "clean_report (utf8 uri)" "length (utf8 uri) \<le> OSC7_LIMIT" "k \<le> length (utf8 uri)"
    and "after_start post = None"
  shows "\<exists>st. osc7_scan (pre @ OSC7_START @ take k (utf8 uri)) osc7_default = (None, st)
     \<and> osc7_scan (drop k (utf8 uri) @ 7 # post) st = (Some uri, osc7_default)"
  using osc7_pieces [OF assms] .

lemma report_found_in_pieces_witness:
  "\<exists>st. osc7_scan ([36, 32] @ OSC7_START @ take 6 (utf8 (lit ''file:///tmp''))) osc7_default = (None, st)
     \<and> osc7_scan (drop 6 (utf8 (lit ''file:///tmp'')) @ [7, 36]) st = (Some (lit ''file:///tmp''), osc7_default)"
proof -
  have u: "utf8 (lit ''file:///tmp'') = map to_byte (lit ''file:///tmp'')" by (simp add: utf8_def utf8_char_def)
  then have "clean_report (utf8 (lit ''file:///tmp''))" "length (utf8 (lit ''file:///tmp'')) = 11"
    by (simp_all add: clean_report_def to_byte_def)
  moreover have "after_start [36] = None" by (simp add: OSC7_START_def)
  ultimately show ?thesis
    using report_found_in_pieces [of "[36, 32]" "lit ''file:///tmp''" 6 "[36]"] by (simp add: is_scalar_def OSC7_LIMIT_def)
qed

text \<open>The directory a shell reports is taken as it is written when no character of it has a
  meaning in the grammar of links; but the reported path is read by that grammar, so a directory
  whose name ends in a number in brackets, \<open>/tmp/a(1)\<close>, is taken for line 1 of \<open>/tmp/a\<close>, and
  \<open>/tmp/a\<close> becomes the working directory.\<close>

lemma reported_directory:
  assumes "plain_path p" "n < 2 ^ 32"
  shows "local_directory (lit ''file://'' @ p) host = Some p
    \<and> local_directory (lit ''file://'' @ p @ 40 # show_nat n @ [41]) host = Some p"
  using local_directory_plain [OF assms(1)] local_directory_cut [OF assms] by blast

lemma reported_directory_witness:
  "local_directory (lit ''file:///tmp/a(1)'') None = Some (lit ''/tmp/a'')"
proof -
  have "plain_path (lit ''/tmp/a'')"
    by (simp add: plain_path_def is_scalar_def is_whitespace_def is_control_def starts_with_def)
  moreover have "show_nat 1 = [49]" by (simp add: show_nat.simps)
  ultimately show ?thesis using reported_directory [of "lit ''/tmp/a''" 1 None] by simp
qed

end
