(* ===== verification/OpenDocs.thy ===== *)
theory OpenDocs
  imports Doc Lines TextCodec Notice "HOL-Library.AList"
begin

text \<open>
  The documents behind editor panels (\<open>throng-app/src/editor.rs\<close>): how one is opened, saved,
  compared with its file, reloaded and restored, the store of open documents, and the automatic
  save of \<open>app.rs\<close>. The disk is explicit: files by location, the location a path names (symbolic
  links resolved), and the errors calls on a path meet. The widgets' views, the highlighter and the
  clipboard are left out. Times are milliseconds.
\<close>

section \<open>The disk\<close>

record disk_file =
  df_bytes :: "byte list"
  df_modified :: "nat option"

record disk =
  dk_files :: "path \<Rightarrow> disk_file option"
  dk_location :: "path \<Rightarrow> path"
  dk_stat_error :: "path \<Rightarrow> io_error option"
  dk_read_error :: "path \<Rightarrow> io_error option"
  dk_write_error :: "path \<Rightarrow> io_error option"
  dk_clock :: "nat option"

type_synonym file_stamp = "nat \<times> nat option"

definition not_found :: io_error where
  "not_found = \<lparr>e_kind = KNotFound, e_text = lit ''No such file or directory (os error 2)''\<rparr>"

definition disk_stat :: "disk \<Rightarrow> path \<Rightarrow> io_error + disk_file" where
  "disk_stat dk p =
     (case dk_stat_error dk p of Some e \<Rightarrow> Inl e
      | None \<Rightarrow> (case dk_files dk (dk_location dk p) of None \<Rightarrow> Inl not_found | Some f \<Rightarrow> Inr f))"

definition disk_read :: "disk \<Rightarrow> path \<Rightarrow> io_error + byte list" where
  "disk_read dk p =
     (case disk_stat dk p of Inl e \<Rightarrow> Inl e
      | Inr f \<Rightarrow> (case dk_read_error dk p of Some e \<Rightarrow> Inl e | None \<Rightarrow> Inr (df_bytes f)))"

definition path_exists :: "disk \<Rightarrow> path \<Rightarrow> bool" where
  "path_exists dk p \<longleftrightarrow> (case disk_stat dk p of Inl e \<Rightarrow> False | Inr f \<Rightarrow> True)"

text \<open>The target is replaced whole, in one rename, or not at all.\<close>

definition atomic_write :: "path \<Rightarrow> byte list \<Rightarrow> disk \<Rightarrow> io_error + disk" where
  "atomic_write p bs dk =
     (case dk_write_error dk p of Some e \<Rightarrow> Inl e
      | None \<Rightarrow> Inr (dk\<lparr>dk_files := (dk_files dk)(dk_location dk p \<mapsto>
                      \<lparr>df_bytes = bs, df_modified = dk_clock dk\<rparr>)\<rparr>))"

definition stamp_of :: "disk \<Rightarrow> path \<Rightarrow> file_stamp option" where
  "stamp_of dk p =
     (case disk_stat dk p of Inl e \<Rightarrow> None | Inr f \<Rightarrow> Some (length (df_bytes f), df_modified f))"

section \<open>A document\<close>

datatype disk_state = InSync | Changed | Deleted

datatype open_error = OpenTooLarge nat nat | NotText rstring | OpenIo rstring

fun decode_error_text :: "decode_error \<Rightarrow> rstring" where
  "decode_error_text Binary = lit ''This looks like a binary file.''"
| "decode_error_text (InvalidUtf8 offset) =
     lit ''This file is not valid UTF-8 (first bad byte at offset '' @ show_nat offset
     @ lit ''). throng will not open it, so it cannot be re-encoded by accident.''"
| "decode_error_text InvalidUtf16 = lit ''This file is not valid UTF-16.''"

fun open_error_text :: "open_error \<Rightarrow> rstring" where
  "open_error_text (OpenTooLarge sz mx) =
     lit ''This file is '' @ show_nat (sz div 1048576) @ lit '' MB, larger than the ''
     @ show_nat (mx div 1048576) @ lit '' MB editor limit (editor.maxOpenFileBytes).''"
| "open_error_text (NotText reason) = reason"
| "open_error_text (OpenIo reason) = reason"

record 'r document =
  doc_path :: "path option"
  buf :: "'r textdoc"
  doc_format :: text_format
  on_disk :: disk_state
  doc_stamp :: "file_stamp option"
  doc_indent :: "indent option"
  doc_error :: "rstring option"
  doc_language :: "rstring option"
  doc_wrap :: "bool option"
  doc_counts :: "(nat \<times> nat \<times> nat \<times> nat) option"

definition read_decoded ::
  "utf16_decoder \<Rightarrow> disk \<Rightarrow> path \<Rightarrow> nat \<Rightarrow> line_ending \<Rightarrow> open_error + decoded \<times> file_stamp option" where
  "read_decoded U dk p max_bytes eol =
     (case disk_stat dk p of
        Inl e \<Rightarrow> Inl (OpenIo (describe_failure e OpRead p))
      | Inr f \<Rightarrow>
          (if length (df_bytes f) > max_bytes then Inl (OpenTooLarge (length (df_bytes f)) max_bytes)
           else (case disk_read dk p of
                   Inl e \<Rightarrow> Inl (OpenIo (describe_failure e OpRead p))
                 | Inr bs \<Rightarrow>
                     (case decode U bs eol of
                        Inl e \<Rightarrow> Inl (NotText (decode_error_text e))
                      | Inr d \<Rightarrow> Inr (d, stamp_of dk p)))))"

definition read_text :: "utf16_decoder \<Rightarrow> disk \<Rightarrow> path \<Rightarrow> nat \<Rightarrow> open_error + rstring" where
  "read_text U dk p max_bytes =
     (case read_decoded U dk p max_bytes Lf of Inl e \<Rightarrow> Inl e | Inr (d, st) \<Rightarrow> Inr (d_text d))"

definition untitled :: "'r ropey \<Rightarrow> line_ending \<Rightarrow> 'r document" where
  "untitled R eol =
     \<lparr>doc_path = None, buf = doc_new R [], doc_format = new_document eol, on_disk = InSync,
      doc_stamp = None, doc_indent = None, doc_error = None, doc_language = None, doc_wrap = None,
      doc_counts = None\<rparr>"

definition open_document ::
  "'r ropey \<Rightarrow> utf16_decoder \<Rightarrow> disk \<Rightarrow> path \<Rightarrow> nat \<Rightarrow> line_ending \<Rightarrow> open_error + 'r document" where
  "open_document R U dk p max_bytes eol =
     (case read_decoded U dk p max_bytes eol of
        Inl e \<Rightarrow> Inl e
      | Inr (d, st) \<Rightarrow> Inr ((untitled R eol)
          \<lparr>doc_indent := infer_indent (d_text d), buf := doc_new R (d_text d),
           doc_format := d_format d, doc_stamp := st, doc_path := Some p\<rparr>))"

definition document_counts :: "'r ropey \<Rightarrow> nat \<Rightarrow> 'r document \<Rightarrow> (nat \<times> nat) \<times> 'r document" where
  "document_counts R now doc =
     (let fresh = (let c = counts R (rope (buf doc))
                   in (c, doc\<lparr>doc_counts := Some (version (buf doc), now, c)\<rparr>))
      in case doc_counts doc of
           None \<Rightarrow> fresh
         | Some (v, at_ms, c) \<Rightarrow>
             if v = version (buf doc) \<or> now - at_ms < 150 then (c, doc) else fresh)"

definition buf_dirty :: "'r ropey \<Rightarrow> 'r document \<Rightarrow> bool \<times> 'r document" where
  "buf_dirty R doc = (case is_dirty R (buf doc) of (b, d) \<Rightarrow> (b, doc\<lparr>buf := d\<rparr>))"

text \<open>Unsaved: the text differs from the disk copy, or the file was deleted.\<close>

definition document_dirty :: "'r ropey \<Rightarrow> 'r document \<Rightarrow> bool \<times> 'r document" where
  "document_dirty R doc =
     (case buf_dirty R doc of (b, doc') \<Rightarrow> (b \<or> on_disk doc' = Deleted, doc'))"

definition unsaved :: "'r ropey \<Rightarrow> 'r document \<Rightarrow> bool" where
  "unsaved R doc = fst (document_dirty R doc)"

definition document_name :: "'r document \<Rightarrow> rstring" where
  "document_name doc =
     (case Option.bind (doc_path doc) (\<lambda>p. file_name (components p)) of
        None \<Rightarrow> lit ''Untitled'' | Some n \<Rightarrow> n)"

definition restore_text :: "'r ropey \<Rightarrow> rstring \<Rightarrow> 'r document \<Rightarrow> 'r document" where
  "restore_text R s doc = doc\<lparr>buf := restore_unsaved R s (buf doc),
     doc_indent := (case infer_indent s of None \<Rightarrow> doc_indent doc | Some i \<Rightarrow> Some i)\<rparr>"

definition reload_from :: "'r ropey \<Rightarrow> decoded \<Rightarrow> 'r document \<Rightarrow> 'r document" where
  "reload_from R fresh doc = doc
     \<lparr>buf := doc_reset R (d_text fresh) (buf doc), doc_format := d_format fresh,
      doc_indent := (case infer_indent (d_text fresh) of None \<Rightarrow> doc_indent doc | Some i \<Rightarrow> Some i),
      on_disk := InSync\<rparr>"

definition reload_document ::
  "'r ropey \<Rightarrow> utf16_decoder \<Rightarrow> disk \<Rightarrow> nat \<Rightarrow> 'r document \<Rightarrow> rstring + 'r document" where
  "reload_document R U dk max_bytes doc =
     (case doc_path doc of
        None \<Rightarrow> Inl (lit ''This document has never been saved.'')
      | Some p \<Rightarrow>
          (case read_decoded U dk p max_bytes (tf_eol (doc_format doc)) of
             Inl e \<Rightarrow> Inl (open_error_text e)
           | Inr (fresh, st) \<Rightarrow> Inr (reload_from R fresh (doc\<lparr>doc_stamp := st\<rparr>))))"

text \<open>Saving captures the text first; the format is read back from what was written.\<close>

definition save_to ::
  "'r ropey \<Rightarrow> utf16_decoder \<Rightarrow> diff \<Rightarrow> path option \<Rightarrow> disk \<Rightarrow> 'r document
   \<Rightarrow> rstring + disk \<times> 'r document" where
  "save_to R U D to_path dk doc =
     (case (case to_path of None \<Rightarrow> doc_path doc | Some p \<Rightarrow> Some p) of
        None \<Rightarrow> Inl (lit ''Choose where to save.'')
      | Some target \<Rightarrow>
          (let snap = rope (buf doc);
               bytes = encode D (to_string R snap) (doc_format doc)
           in case atomic_write target bytes dk of
                Inl e \<Rightarrow> Inl (describe_failure e OpWrite target)
              | Inr dk' \<Rightarrow>
                  Inr (dk', doc
                    \<lparr>doc_format := (case decode U bytes (tf_eol (doc_format doc)) of
                        Inl e \<Rightarrow> doc_format doc | Inr d \<Rightarrow> d_format d),
                     buf := mark_saved snap (buf doc), doc_path := Some target,
                     doc_stamp := stamp_of dk' target, on_disk := InSync, doc_error := None\<rparr>)))"

definition check_disk ::
  "'r ropey \<Rightarrow> utf16_decoder \<Rightarrow> disk \<Rightarrow> nat \<Rightarrow> 'r document \<Rightarrow> 'r document" where
  "check_disk R U dk max_bytes doc =
     (case doc_path doc of None \<Rightarrow> doc | Some p \<Rightarrow>
      (case stamp_of dk p of
         None \<Rightarrow> if path_exists dk p then doc else doc\<lparr>on_disk := Deleted, doc_stamp := None\<rparr>
       | Some st \<Rightarrow>
           if Some st = doc_stamp doc \<and> on_disk doc \<noteq> Deleted then doc
           else (case read_decoded U dk p max_bytes (tf_eol (doc_format doc)) of
                   Inl e \<Rightarrow> doc
                 | Inr (fresh, st') \<Rightarrow>
                     (let doc = doc\<lparr>doc_stamp := st'\<rparr>
                      in if to_string R (saved (buf doc)) = d_text fresh then
                           (case (if on_disk doc = Deleted then buf_dirty R doc else (False, doc)) of
                              (True, doc') \<Rightarrow> doc'\<lparr>on_disk := Changed\<rparr>
                            | (False, doc') \<Rightarrow> doc'\<lparr>on_disk := InSync, doc_format := d_format fresh\<rparr>)
                         else
                           (case buf_dirty R doc of
                              (True, doc') \<Rightarrow> doc'\<lparr>on_disk := Changed\<rparr>
                            | (False, doc') \<Rightarrow> reload_from R fresh doc')))))"

definition keep_mine :: "disk \<Rightarrow> 'r document \<Rightarrow> 'r document" where
  "keep_mine dk doc =
     (let doc = (case doc_path doc of None \<Rightarrow> doc | Some p \<Rightarrow> doc\<lparr>doc_stamp := stamp_of dk p\<rparr>)
      in doc\<lparr>on_disk := InSync\<rparr>)"

definition moved_to :: "disk \<Rightarrow> path \<Rightarrow> 'r document \<Rightarrow> 'r document" where
  "moved_to dk p doc = doc\<lparr>doc_stamp := stamp_of dk p, doc_path := Some p\<rparr>"

definition transact ::
  "'r ropey \<Rightarrow> selection \<Rightarrow> transaction \<Rightarrow> nat \<Rightarrow> 'r document \<Rightarrow> applied option \<times> 'r document" where
  "transact R bef tx now doc =
     (case doc_edit R tx bef (sel_map tx bef) Other now (buf doc) of
        (a, d) \<Rightarrow> (a, doc\<lparr>buf := d\<rparr>))"

definition document_indent :: "nat \<Rightarrow> 'r document \<Rightarrow> bool \<times> nat" where
  "document_indent tab_size doc =
     (case doc_indent doc of
        Some Tabs \<Rightarrow> (True, tab_size) | Some (Spaces n) \<Rightarrow> (False, n) | None \<Rightarrow> (False, tab_size))"

section \<open>The store\<close>

text \<open>The hash map of documents is a list of entries, one for each key, in the order it is iterated.\<close>

datatype doc_key = FileKey rstring | UntitledKey nat

text \<open>What a recovery file holds (\<open>recovery.rs\<close>).\<close>

record recovery_record =
  rr_format :: nat
  rr_path :: "path option"
  rr_untitled :: "nat option"
  rr_text :: rstring
  rr_history :: "history option"
  rr_language :: "rstring option"
  rr_wrap :: "bool option"

record 'r documents =
  doc_entries :: "(doc_key \<times> 'r document) list"
  doc_languages :: "(doc_key \<times> rstring) list"
  doc_recovered :: "(doc_key \<times> recovery_record) list"

definition key_for :: "folding \<Rightarrow> path_rules \<Rightarrow> disk \<Rightarrow> path \<Rightarrow> doc_key" where
  "key_for F rules dk p =
     FileKey (key F rules (if path_exists dk p then dk_location dk p else p))"

definition panel_key :: "folding \<Rightarrow> path_rules \<Rightarrow> disk \<Rightarrow> nat \<Rightarrow> path option \<Rightarrow> doc_key" where
  "panel_key F rules dk panel p =
     (case p of None \<Rightarrow> UntitledKey panel | Some p \<Rightarrow> key_for F rules dk p)"

text \<open>Put a recovery record's text, history and choices back.\<close>

definition restore_record :: "'r ropey \<Rightarrow> recovery_record \<Rightarrow> 'r document \<Rightarrow> 'r document" where
  "restore_record R r doc =
     (let doc = restore_text R (rr_text r) doc;
          doc = (case rr_history r of None \<Rightarrow> doc | Some h \<Rightarrow> doc\<lparr>buf := set_history h (buf doc)\<rparr>);
          doc = (if rr_language r \<noteq> None then doc\<lparr>doc_language := rr_language r\<rparr> else doc)
      in doc\<lparr>doc_wrap := rr_wrap r\<rparr>)"

definition get_doc :: "doc_key \<Rightarrow> 'r documents \<Rightarrow> 'r document option" where
  "get_doc k ds = map_of (doc_entries ds) k"

definition insert_doc :: "doc_key \<Rightarrow> 'r document \<Rightarrow> 'r documents \<Rightarrow> 'r documents" where
  "insert_doc k doc ds = ds\<lparr>doc_entries := AList.update k doc (doc_entries ds)\<rparr>"

definition remove_doc :: "doc_key \<Rightarrow> 'r documents \<Rightarrow> 'r document option \<times> 'r documents" where
  "remove_doc k ds = (get_doc k ds, ds\<lparr>doc_entries := AList.delete k (doc_entries ds)\<rparr>)"

definition rekey_doc :: "doc_key \<Rightarrow> doc_key \<Rightarrow> 'r documents \<Rightarrow> 'r documents" where
  "rekey_doc k k' ds =
     (case remove_doc k ds of (None, ds') \<Rightarrow> ds' | (Some doc, ds') \<Rightarrow> insert_doc k' doc ds')"

definition take_recovered :: "doc_key \<Rightarrow> 'r documents \<Rightarrow> recovery_record option \<times> 'r documents" where
  "take_recovered k ds =
     (map_of (doc_recovered ds) k, ds\<lparr>doc_recovered := AList.delete k (doc_recovered ds)\<rparr>)"

definition ensure_file ::
  "'r ropey \<Rightarrow> utf16_decoder \<Rightarrow> folding \<Rightarrow> path_rules \<Rightarrow> disk \<Rightarrow> path \<Rightarrow> nat \<Rightarrow> line_ending
   \<Rightarrow> 'r documents \<Rightarrow> (open_error + doc_key) \<times> 'r documents" where
  "ensure_file R U F rules dk p max_bytes eol ds =
     (let k = key_for F rules dk p
      in if get_doc k ds \<noteq> None then (Inr k, ds)
         else (case take_recovered k ds of (rc, ds) \<Rightarrow>
           (let opened =
                 (case open_document R U dk p max_bytes eol of
                    Inr doc \<Rightarrow> Inr doc
                  | Inl e \<Rightarrow>
                      if rc \<noteq> None \<and> \<not> path_exists dk p
                      then Inr ((untitled R eol)\<lparr>doc_path := Some p, on_disk := Deleted\<rparr>)
                      else Inl e)
            in case opened of
                 Inl e \<Rightarrow> (Inl e, ds)
               | Inr doc \<Rightarrow>
                   (let doc = (case map_of (doc_languages ds) k of
                                 None \<Rightarrow> doc | Some l \<Rightarrow> doc\<lparr>doc_language := Some l\<rparr>);
                        doc = (case rc of None \<Rightarrow> doc | Some r \<Rightarrow> restore_record R r doc)
                    in (Inr k, insert_doc k doc ds)))))"

definition ensure_untitled ::
  "'r ropey \<Rightarrow> nat \<Rightarrow> line_ending \<Rightarrow> 'r documents \<Rightarrow> doc_key \<times> 'r documents" where
  "ensure_untitled R panel eol ds =
     (let k = UntitledKey panel
      in if get_doc k ds \<noteq> None then (k, ds)
         else (case take_recovered k ds of (rc, ds) \<Rightarrow>
           (let doc = (case rc of None \<Rightarrow> untitled R eol
                       | Some r \<Rightarrow> restore_record R r (untitled R eol))
            in (k, insert_doc k doc ds))))"

section \<open>Saving automatically\<close>

text \<open>For each document waiting: the version it waits at, since when, and whether it was tried.\<close>

type_synonym save_waits = "(doc_key \<times> nat \<times> nat \<times> bool) list"

definition soonest :: "nat option \<Rightarrow> nat \<Rightarrow> nat option" where
  "soonest nxt wait = Some (case nxt of None \<Rightarrow> wait | Some n \<Rightarrow> min n wait)"

record 'r saving =
  sv_disk :: disk
  sv_waits :: save_waits
  sv_live :: "doc_key list"
  sv_next :: "nat option"

definition auto_save_one ::
  "'r ropey \<Rightarrow> utf16_decoder \<Rightarrow> diff \<Rightarrow> nat \<Rightarrow> nat \<Rightarrow> doc_key \<Rightarrow> 'r document \<Rightarrow> 'r saving
   \<Rightarrow> 'r document \<times> 'r saving" where
  "auto_save_one R U D now debounce k doc s =
     (if doc_path doc = None \<or> on_disk doc \<noteq> InSync then (doc, s)
      else case document_dirty R doc of
        (False, doc) \<Rightarrow> (doc, s)
      | (True, doc) \<Rightarrow>
          (let s = s\<lparr>sv_live := k # sv_live s\<rparr>;
               ver = version (buf doc);
               (v, at_ms, tried) =
                 (case map_of (sv_waits s) k of
                    None \<Rightarrow> (ver, now, False)
                  | Some (v, at_ms, tried) \<Rightarrow>
                      if v \<noteq> ver then (ver, now, False) else (v, at_ms, tried));
               s = s\<lparr>sv_waits := AList.update k (v, at_ms, tried) (sv_waits s)\<rparr>
           in if tried then (doc, s)
              else if now - at_ms < debounce then
                (doc, s\<lparr>sv_next := soonest (sv_next s) (debounce - (now - at_ms))\<rparr>)
              else
                (let s = s\<lparr>sv_waits := AList.update k (v, at_ms, True) (sv_waits s)\<rparr>
                 in case save_to R U D None (sv_disk s) doc of
                      Inl e \<Rightarrow> (doc\<lparr>doc_error := Some e\<rparr>, s)
                    | Inr (dk, doc) \<Rightarrow> (doc\<lparr>doc_error := None\<rparr>, s\<lparr>sv_disk := dk\<rparr>))))"

fun auto_save_all ::
  "'r ropey \<Rightarrow> utf16_decoder \<Rightarrow> diff \<Rightarrow> nat \<Rightarrow> nat \<Rightarrow> (doc_key \<times> 'r document) list \<Rightarrow> 'r saving
   \<Rightarrow> (doc_key \<times> 'r document) list \<times> 'r saving" where
  "auto_save_all R U D now debounce [] s = ([], s)"
| "auto_save_all R U D now debounce ((k, doc) # es) s =
     (case auto_save_one R U D now debounce k doc s of (doc, s) \<Rightarrow>
        (case auto_save_all R U D now debounce es s of (es, s) \<Rightarrow> ((k, doc) # es, s)))"

definition auto_save_tick ::
  "'r ropey \<Rightarrow> utf16_decoder \<Rightarrow> diff \<Rightarrow> bool \<Rightarrow> nat \<Rightarrow> nat \<Rightarrow> save_waits \<Rightarrow> disk \<Rightarrow> 'r documents
   \<Rightarrow> save_waits \<times> disk \<times> 'r documents \<times> nat option" where
  "auto_save_tick R U D enabled now debounce waits dk ds =
     (if \<not> enabled then ([], dk, ds, None)
      else (case auto_save_all R U D now debounce (doc_entries ds)
              \<lparr>sv_disk = dk, sv_waits = waits, sv_live = [], sv_next = None\<rparr> of
        (es, s) \<Rightarrow> (filter (\<lambda>w. fst w \<in> set (sv_live s)) (sv_waits s), sv_disk s,
                    ds\<lparr>doc_entries := es\<rparr>, sv_next s)))"

end
