(* ===== verification/Recovery.thy ===== *)
theory Recovery
  imports OpenDocs Workspace Project
begin

text \<open>
  Crash recovery of unsaved edits (\<open>throng-app/src/recovery.rs\<close>, and \<open>start_recovery\<close> and
  \<open>tick_recovery\<close> of \<open>app.rs\<close>). The recovery folder is a list of named files, each a record or
  something that is none: the JSON of a record is read back as it was written. The writer thread's
  queue is part of the state, and it may run its jobs at any time. How an identity is written is a
  parameter \<open>I\<close>, and \<open>refuses\<close> are the files the system will not let be written or removed.
  Times are milliseconds.
\<close>

unbundle bit_operations_syntax

definition DEBOUNCE :: nat where "DEBOUNCE = 400"
definition HISTORY_BYTES :: nat where "HISTORY_BYTES = 2 ^ 20"
definition RECOVERY_FORMAT :: nat where "RECOVERY_FORMAT = 1"

type_synonym show_id = "nat \<Rightarrow> rstring"

definition record_key :: "folding \<Rightarrow> path_rules \<Rightarrow> disk \<Rightarrow> recovery_record \<Rightarrow> doc_key option" where
  "record_key F rules dk r =
     (case rr_path r of
        Some p \<Rightarrow> Some (key_for F rules dk p)
      | None \<Rightarrow> map_option UntitledKey (rr_untitled r))"

section \<open>A record's file name\<close>

definition fnv_step :: "64 word \<Rightarrow> byte \<Rightarrow> 64 word" where
  "fnv_step h b = (h XOR ucast b) * 0x100000001b3"

definition fnv1a :: "byte list \<Rightarrow> 64 word" where
  "fnv1a bs = foldl fnv_step 0xcbf29ce484222325 bs"

definition hex16 :: "64 word \<Rightarrow> rstring" where
  "hex16 w = map (\<lambda>i. hex_char (unat (drop_bit (4 * i) w) mod 16)) (rev [0..<16])"

fun key_text :: "show_id \<Rightarrow> doc_key \<Rightarrow> rstring" where
  "key_text I (FileKey k) = lit ''file:'' @ k"
| "key_text I (UntitledKey panel) = lit ''untitled:'' @ I panel"

definition record_file_name :: "show_id \<Rightarrow> doc_key \<Rightarrow> rstring" where
  "record_file_name I k = hex16 (fnv1a (utf8 (key_text I k))) @ lit ''.json''"

section \<open>The state\<close>

record 'r pending =
  pd_path :: "path option"
  pd_untitled :: "nat option"
  pd_rope :: 'r
  pd_history :: "history option"
  pd_language :: "rstring option"
  pd_wrap :: "bool option"

datatype 'r job = WriteJob rstring "'r pending" | DeleteJob rstring | StripJob | FlushJob

record 'r recovery =
  rv_written :: "(doc_key \<times> nat) list"
  rv_changed :: "(doc_key \<times> nat \<times> nat) list"
  rv_adopted :: "doc_key list"
  rv_queue :: "'r job list"

definition recovery_new :: "'r recovery" where
  "recovery_new = \<lparr>rv_written = [], rv_changed = [], rv_adopted = [], rv_queue = []\<rparr>"

definition send_job :: "'r job \<Rightarrow> 'r recovery \<Rightarrow> 'r recovery" where
  "send_job j rv = rv\<lparr>rv_queue := rv_queue rv @ [j]\<rparr>"

section \<open>Bringing the files up to date\<close>

definition tick_version :: "'r document \<Rightarrow> nat" where
  "tick_version doc = version (buf doc) + (if on_disk doc = Deleted then 1 else 0)"

definition pending_of :: "bool \<Rightarrow> doc_key \<Rightarrow> 'r document \<Rightarrow> 'r pending" where
  "pending_of persist k doc =
     \<lparr>pd_path = doc_path doc,
      pd_untitled = (case k of UntitledKey panel \<Rightarrow> Some panel | FileKey f \<Rightarrow> None),
      pd_rope = rope (buf doc),
      pd_history = (if persist then Some (trimmed_to (doc_history (buf doc)) HISTORY_BYTES) else None),
      pd_language = doc_language doc, pd_wrap = doc_wrap doc\<rparr>"

text \<open>A document with nothing unsaved loses its record.\<close>

definition tick_clean :: "show_id \<Rightarrow> doc_key \<Rightarrow> 'r recovery \<Rightarrow> 'r recovery" where
  "tick_clean I k rv =
     (let wrote = map_of (rv_written rv) k \<noteq> None; kept = k \<in> set (rv_adopted rv);
          rv = rv\<lparr>rv_written := AList.delete k (rv_written rv),
                  rv_adopted := removeAll k (rv_adopted rv),
                  rv_changed := AList.delete k (rv_changed rv)\<rparr>
      in if kept \<or> wrote then send_job (DeleteJob (record_file_name I k)) rv else rv)"

text \<open>Since when the document has stood at this version.\<close>

definition changed_since :: "nat \<Rightarrow> doc_key \<Rightarrow> nat \<Rightarrow> 'r recovery \<Rightarrow> nat \<times> 'r recovery" where
  "changed_since now k ver rv =
     (let fresh = (now, rv\<lparr>rv_changed := AList.update k (ver, now) (rv_changed rv)\<rparr>)
      in case map_of (rv_changed rv) k of
           None \<Rightarrow> fresh
         | Some (v, at_ms) \<Rightarrow> if v = ver then (at_ms, rv) else fresh)"

definition tick_doc ::
  "show_id \<Rightarrow> 'r ropey \<Rightarrow> nat \<Rightarrow> bool \<Rightarrow> bool \<Rightarrow> doc_key \<Rightarrow> 'r document
   \<Rightarrow> 'r recovery \<times> nat option \<Rightarrow> 'r recovery \<times> nat option" where
  "tick_doc I R now persist flush k doc st =
     (case st of (rv, nxt) \<Rightarrow>
        let ver = tick_version doc
        in if \<not> unsaved R doc then (tick_clean I k rv, nxt)
           else if map_of (rv_written rv) k = Some ver then (rv, nxt)
           else (case changed_since now k ver rv of (since, rv) \<Rightarrow>
             if \<not> flush \<and> now - since < DEBOUNCE then (rv, soonest nxt (DEBOUNCE - (now - since)))
             else ((send_job (WriteJob (record_file_name I k) (pending_of persist k doc)) rv)
                     \<lparr>rv_written := AList.update k ver (rv_written rv),
                      rv_adopted := removeAll k (rv_adopted rv)\<rparr>, nxt)))"

text \<open>A document closed since the last time loses its file.\<close>

definition tick_gone :: "show_id \<Rightarrow> doc_key \<Rightarrow> 'r recovery \<Rightarrow> 'r recovery" where
  "tick_gone I k rv =
     send_job (DeleteJob (record_file_name I k))
       (rv\<lparr>rv_written := AList.delete k (rv_written rv), rv_changed := AList.delete k (rv_changed rv)\<rparr>)"

definition recovery_tick ::
  "show_id \<Rightarrow> 'r ropey \<Rightarrow> nat \<Rightarrow> bool \<Rightarrow> bool \<Rightarrow> 'r documents \<Rightarrow> 'r recovery \<Rightarrow> 'r recovery \<times> nat option" where
  "recovery_tick I R now persist flush ds rv =
     (case fold (\<lambda>(k, doc). tick_doc I R now persist flush k doc) (doc_entries ds) (rv, None) of
        (rv, nxt) \<Rightarrow>
          (let gone = filter (\<lambda>k. k \<notin> fst ` set (doc_entries ds)) (map fst (rv_written rv));
               rv = fold (tick_gone I) gone rv
           in (if flush then send_job FlushJob rv else rv, nxt)))"

definition adopt :: "doc_key \<Rightarrow> 'r recovery \<Rightarrow> 'r recovery" where
  "adopt k rv = rv\<lparr>rv_adopted := List.insert k (rv_adopted rv)\<rparr>"

definition drop_histories :: "'r recovery \<Rightarrow> 'r recovery" where
  "drop_histories rv = send_job StripJob (rv\<lparr>rv_written := []\<rparr>)"

definition forget_record :: "show_id \<Rightarrow> doc_key \<Rightarrow> 'r recovery \<Rightarrow> 'r recovery" where
  "forget_record I k rv =
     send_job (DeleteJob (record_file_name I k))
       (rv\<lparr>rv_written := AList.delete k (rv_written rv), rv_changed := AList.delete k (rv_changed rv)\<rparr>)"

section \<open>The writer and its folder\<close>

datatype rec_file = Readable recovery_record | Unreadable

type_synonym rec_folder = "(rstring \<times> rec_file) list"

definition record_of :: "'r ropey \<Rightarrow> 'r pending \<Rightarrow> recovery_record" where
  "record_of R p =
     \<lparr>rr_format = RECOVERY_FORMAT, rr_path = pd_path p, rr_untitled = pd_untitled p,
      rr_text = to_string R (pd_rope p), rr_history = pd_history p, rr_language = pd_language p,
      rr_wrap = pd_wrap p\<rparr>"

definition remove_file :: "(rstring \<Rightarrow> bool) \<Rightarrow> rstring \<Rightarrow> rec_folder \<Rightarrow> rec_folder" where
  "remove_file refuses n fo = (if refuses n then fo else AList.delete n fo)"

fun strip_history :: "rec_file \<Rightarrow> rec_file" where
  "strip_history (Readable r) = Readable (r\<lparr>rr_history := None\<rparr>)"
| "strip_history Unreadable = Unreadable"

definition strip_histories :: "(rstring \<Rightarrow> bool) \<Rightarrow> rec_folder \<Rightarrow> rec_folder" where
  "strip_histories refuses fo = map (\<lambda>(n, f). (n, if refuses n then f else strip_history f)) fo"

fun run_job :: "'r ropey \<Rightarrow> (rstring \<Rightarrow> bool) \<Rightarrow> 'r job \<Rightarrow> rec_folder \<Rightarrow> rec_folder" where
  "run_job R refuses (WriteJob n p) fo =
     (if refuses n then fo else AList.update n (Readable (record_of R p)) fo)"
| "run_job R refuses (DeleteJob n) fo = remove_file refuses n fo"
| "run_job R refuses StripJob fo = strip_histories refuses fo"
| "run_job R refuses FlushJob fo = fo"

section \<open>At launch\<close>

definition is_json :: "rstring \<Rightarrow> bool" where
  "is_json n \<longleftrightarrow> snd (split_extension n) = lit ''.json''"

text \<open>Every record in the folder; what cannot be read is removed.\<close>

fun load_all :: "(rstring \<Rightarrow> bool) \<Rightarrow> rec_folder \<Rightarrow> recovery_record list \<times> rec_folder" where
  "load_all refuses [] = ([], [])"
| "load_all refuses ((n, f) # fo) =
     (case load_all refuses fo of (rs, fo') \<Rightarrow>
        if \<not> is_json n then (rs, (n, f) # fo')
        else (case f of
                Readable r \<Rightarrow>
                  if rr_format r = RECOVERY_FORMAT then (r # rs, (n, f) # fo')
                  else (rs, if refuses n then (n, f) # fo' else fo')
              | Unreadable \<Rightarrow> (rs, if refuses n then (n, f) # fo' else fo')))"

fun remove_matching :: "(rstring \<Rightarrow> bool) \<Rightarrow> (recovery_record \<Rightarrow> bool) \<Rightarrow> rec_folder \<Rightarrow> rec_folder" where
  "remove_matching refuses P [] = []"
| "remove_matching refuses P ((n, f) # fo) =
     (case f of
        Readable r \<Rightarrow> if P r \<and> \<not> refuses n then remove_matching refuses P fo
                      else (n, f) # remove_matching refuses P fo
      | Unreadable \<Rightarrow> (n, f) # remove_matching refuses P fo)"

definition record_at_path :: "path \<Rightarrow> recovery_record \<Rightarrow> bool" where
  "record_at_path p r \<longleftrightarrow> (case rr_path r of None \<Rightarrow> False | Some q \<Rightarrow> components q = components p)"

definition reconcile_one ::
  "show_id \<Rightarrow> (rstring \<Rightarrow> bool) \<Rightarrow> (recovery_record \<Rightarrow> bool) \<Rightarrow> recovery_record \<Rightarrow> rec_folder \<Rightarrow> rec_folder" where
  "reconcile_one I refuses keep r fo =
     (if keep r then fo
      else case rr_path r of
        Some p \<Rightarrow> remove_matching refuses (record_at_path p) fo
      | None \<Rightarrow> (case rr_untitled r of
                   Some panel \<Rightarrow> remove_file refuses (record_file_name I (UntitledKey panel)) fo
                 | None \<Rightarrow> fo))"

definition reconcile ::
  "show_id \<Rightarrow> (rstring \<Rightarrow> bool) \<Rightarrow> recovery_record list \<Rightarrow> (recovery_record \<Rightarrow> bool) \<Rightarrow> rec_folder \<Rightarrow> rec_folder" where
  "reconcile I refuses rs keep fo = fold (reconcile_one I refuses keep) rs fo"

text \<open>Every document an editor panel of a saved layout shows.\<close>

definition shown_documents :: "folding \<Rightarrow> path_rules \<Rightarrow> disk \<Rightarrow> layout list \<Rightarrow> doc_key list" where
  "shown_documents F rules dk ls =
     concat (map (\<lambda>l. List.map_filter (\<lambda>(i, p). case p_kind p of
         Editor c \<Rightarrow> Some (panel_key F rules dk (p_id p) (ed_path c)) | _ \<Rightarrow> None) (panels l)) ls)"

definition take_record ::
  "folding \<Rightarrow> path_rules \<Rightarrow> disk \<Rightarrow> bool \<Rightarrow> doc_key list \<Rightarrow> recovery_record
   \<Rightarrow> 'r recovery \<times> 'r documents \<Rightarrow> 'r recovery \<times> 'r documents" where
  "take_record F rules dk persist shown r st =
     (case st of (rv, ds) \<Rightarrow>
        (case record_key F rules dk r of
           Some k \<Rightarrow>
             if k \<in> set shown then
               (let r = (if persist then r else r\<lparr>rr_history := None\<rparr>)
                in (adopt k rv, ds\<lparr>doc_recovered := AList.update k r (doc_recovered ds)\<rparr>))
             else (rv, ds)
         | None \<Rightarrow> (rv, ds)))"

definition start_recovery ::
  "show_id \<Rightarrow> (rstring \<Rightarrow> bool) \<Rightarrow> folding \<Rightarrow> path_rules \<Rightarrow> disk \<Rightarrow> bool \<Rightarrow> layout list \<Rightarrow> rec_folder
   \<Rightarrow> 'r documents \<Rightarrow> ('r recovery \<times> 'r documents) \<times> rec_folder" where
  "start_recovery I refuses F rules dk persist ls fo ds =
     (let shown = shown_documents F rules dk ls
      in case load_all refuses fo of (rs, fo) \<Rightarrow>
        (fold (take_record F rules dk persist shown) rs (recovery_new, ds),
         reconcile I refuses rs
           (\<lambda>r. case record_key F rules dk r of None \<Rightarrow> False | Some k \<Rightarrow> k \<in> set shown) fo))"

text \<open>Each frame; \<open>kept\<close> is whether histories were kept when last applied.\<close>

definition tick_recovery ::
  "show_id \<Rightarrow> 'r ropey \<Rightarrow> nat \<Rightarrow> bool \<Rightarrow> bool \<Rightarrow> bool \<Rightarrow> 'r documents \<Rightarrow> 'r recovery
   \<Rightarrow> 'r documents \<times> 'r recovery \<times> nat option" where
  "tick_recovery I R now persist kept flush ds rv =
     (case (if kept \<and> \<not> persist
            then (drop_histories rv, ds\<lparr>doc_recovered :=
                    map (\<lambda>(k, r). (k, r\<lparr>rr_history := None\<rparr>)) (doc_recovered ds)\<rparr>)
            else (rv, ds)) of
        (rv, ds) \<Rightarrow> (ds, recovery_tick I R now persist flush ds rv))"

end
