(* ===== verification/RecoveryInv.thy ===== *)
theory RecoveryInv
  imports Recovery
begin

text \<open>
  What crash recovery promises. Between frames documents are opened, edited, saved, compared with
  the disk and closed, and the writer thread works through its queue; the invariant says that a
  version noted as written has its text on the way to disk. From it: after a flush every unsaved
  text is in its file, and the next session puts it back. The promise leaves out files that are
  deleted (see \<open>advances\<close>), where the code's version numbers repeat.
\<close>

section \<open>A folder as a map\<close>

abbreviation accepts :: "rstring \<Rightarrow> bool" where "accepts \<equiv> \<lambda>_. False"

definition drained :: "'r ropey \<Rightarrow> 'r recovery \<Rightarrow> rec_folder \<Rightarrow> rec_folder" where
  "drained R rv fo = fold (run_job R accepts) (rv_queue rv) fo"

lemma strip_histories_map:
  "map_of (strip_histories accepts fo) n = map_option strip_history (map_of fo n)"
  by (induction fo) (auto simp: strip_histories_def)

lemma run_job_map:
  "map_of (run_job R accepts (WriteJob n p) fo) = (map_of fo)(n \<mapsto> Readable (record_of R p))"
  "map_of (run_job R accepts (DeleteJob n) fo) = (map_of fo)(n := None)"
  by (simp_all add: update_conv' remove_file_def delete_conv')

lemma run_job_names:
  "distinct (map fst fo) \<Longrightarrow> distinct (map fst (run_job R accepts j fo))"
  by (cases j)
    (simp_all add: remove_file_def distinct_update distinct_delete strip_histories_def case_prod_unfold o_def)

lemma drained_send [simp]: "drained R (send_job j rv) fo = run_job R accepts j (drained R rv fo)"
  by (simp add: drained_def send_job_def)

lemma drained_queue: "rv_queue rv' = rv_queue rv \<Longrightarrow> drained R rv' fo = drained R rv fo"
  by (simp add: drained_def)

lemma drained_names: "distinct (map fst fo) \<Longrightarrow> distinct (map fst (drained R rv fo))"
proof -
  have "distinct (map fst fo) \<Longrightarrow> distinct (map fst (fold (run_job R accepts) js fo))" for js
    by (induction js arbitrary: fo) (simp_all add: run_job_names)
  then show "distinct (map fst fo) \<Longrightarrow> ?thesis" by (simp add: drained_def)
qed

fun job_file :: "'r job \<Rightarrow> rstring option" where
  "job_file (WriteJob n p) = Some n"
| "job_file (DeleteJob n) = Some n"
| "job_file StripJob = None"
| "job_file FlushJob = None"

section \<open>A record that restores its document\<close>

definition history_restorable :: "history \<Rightarrow> rstring \<Rightarrow> bool" where
  "history_restorable h s \<longleftrightarrow> history_fits h s \<and> history_bounded h \<and> history_clean h"

definition good_record :: "'r ropey \<Rightarrow> doc_key \<Rightarrow> 'r document \<Rightarrow> recovery_record \<Rightarrow> bool" where
  "good_record R k doc r \<longleftrightarrow>
     rr_format r = RECOVERY_FORMAT \<and> rr_text r = doc_text R (buf doc) \<and> rr_path r = doc_path doc
     \<and> rr_untitled r = (case k of UntitledKey panel \<Rightarrow> Some panel | FileKey f \<Rightarrow> None)
     \<and> (\<forall>h. rr_history r = Some h \<longrightarrow> history_restorable h (rr_text r))"

definition good_at :: "show_id \<Rightarrow> 'r ropey \<Rightarrow> doc_key \<Rightarrow> 'r document \<Rightarrow> rec_folder \<Rightarrow> bool" where
  "good_at I R k doc fo \<longleftrightarrow>
     (\<exists>r. map_of fo (record_file_name I k) = Some (Readable r) \<and> good_record R k doc r)"

lemma good_at_job:
  assumes "good_at I R k doc fo" "job_file j \<noteq> Some (record_file_name I k)"
  shows "good_at I R k doc (run_job R accepts j fo)"
proof -
  obtain r where "map_of fo (record_file_name I k) = Some (Readable r)" "good_record R k doc r"
    using assms(1) by (auto simp: good_at_def)
  then show ?thesis using assms(2)
  proof (cases j)
    case StripJob
    have "good_record R k doc (r\<lparr>rr_history := None\<rparr>)"
      using \<open>good_record R k doc r\<close> by (simp add: good_record_def)
    then show ?thesis
      using StripJob \<open>map_of fo _ = _\<close> by (auto simp: good_at_def strip_histories_map)
  qed (auto simp: good_at_def run_job_map simp del: run_job.simps(1,2))
qed

lemma history_restorable_trim:
  assumes "history_restorable h s"
  shows "history_restorable (trimmed_to h m) s"
proof (rule trimmed_to_spec [of h m])
  fix ds es
  assume d: "h_redo h = ds @ h_redo (trimmed_to h m)" and e: "h_undo h = es @ h_undo (trimmed_to h m)"
  have "history_fits (trimmed_to h m) s"
    using assms undo_ok_take [of "rev (h_undo (trimmed_to h m))" "rev es" s]
      redo_ok_take [of "rev (h_redo (trimmed_to h m))" "rev ds" s]
    unfolding history_restorable_def history_fits_def d e by simp
  moreover have "history_bounded (trimmed_to h m)"
    using assms d e unfolding history_restorable_def history_bounded_def by (simp add: d e)
  moreover have "history_clean (trimmed_to h m)"
    using assms d e unfolding history_restorable_def history_clean_def by (metis UnCI UnE set_append)
  ultimately show ?thesis by (simp add: history_restorable_def)
qed

lemma pending_good:
  assumes "doc_inv R (buf doc)"
  shows "good_record R k doc (record_of R (pending_of persist k doc))"
  using assms history_restorable_trim [of "doc_history (buf doc)" "doc_text R (buf doc)"]
  by (auto simp: good_record_def record_of_def pending_of_def doc_text_def doc_inv_def history_restorable_def)

section \<open>One round\<close>

lemma changed_since_fields:
  "changed_since now k ver rv = (since, rv') \<Longrightarrow>
     rv_written rv' = rv_written rv \<and> rv_queue rv' = rv_queue rv \<and> rv_adopted rv' = rv_adopted rv"
  by (auto simp: changed_since_def Let_def split: option.splits if_splits)

lemma tick_doc_cases:
  assumes "tick_doc I R now persist flush k doc (rv, nxt) = (rv', nxt')"
  obtains (clean) "\<not> unsaved R doc" "rv' = tick_clean I k rv"
    | (same) "unsaved R doc" "map_of (rv_written rv) k = Some (tick_version doc)" "rv' = rv"
    | (waits) "unsaved R doc" "\<not> flush" "rv_written rv' = rv_written rv" "rv_queue rv' = rv_queue rv"
    | (writes) "unsaved R doc" "rv_written rv' = AList.update k (tick_version doc) (rv_written rv)"
        "rv_queue rv' = rv_queue rv @ [WriteJob (record_file_name I k) (pending_of persist k doc)]"
proof (cases "unsaved R doc \<and> map_of (rv_written rv) k \<noteq> Some (tick_version doc)")
  case True
  obtain since rv1 where c: "changed_since now k (tick_version doc) rv = (since, rv1)" by fastforce
  show ?thesis
    using assms True changed_since_fields [OF c] c that(3,4)
    by (auto simp: tick_doc_def send_job_def Let_def split: if_splits)
next
  case False
  then show ?thesis
    using assms that(1,2) by (auto simp: tick_doc_def Let_def split: if_splits)
qed

lemma tick_clean_settled:
  "rv_written (tick_clean I k rv) = AList.delete k (rv_written rv)"
  "drained R (tick_clean I k rv) fo = drained R rv fo
   \<or> drained R (tick_clean I k rv) fo = run_job R accepts (DeleteJob (record_file_name I k)) (drained R rv fo)"
  by (auto simp: tick_clean_def Let_def send_job_def drained_def)

lemma drained_queued:
  "rv_queue rv' = rv_queue rv @ [j] \<Longrightarrow> drained R rv' fo = run_job R accepts j (drained R rv fo)"
  by (simp add: drained_def)

definition doc_entry_ok :: "show_id \<Rightarrow> 'r ropey \<Rightarrow> 'r recovery \<Rightarrow> rec_folder \<Rightarrow> doc_key \<Rightarrow> 'r document \<Rightarrow> bool" where
  "doc_entry_ok I R rv fo k doc \<longleftrightarrow>
     (\<forall>v. map_of (rv_written rv) k = Some v \<longrightarrow>
        v \<le> tick_version doc \<and> (v = tick_version doc \<longrightarrow> good_at I R k doc (drained R rv fo)))"

text \<open>A round on one document leaves every other document's record alone.\<close>

lemma tick_doc_other:
  assumes t: "tick_doc I R now persist flush k doc (rv, nxt) = (rv', nxt')"
    and "k' \<noteq> k" and n: "record_file_name I k' \<noteq> record_file_name I k"
  shows "map_of (rv_written rv') k' = map_of (rv_written rv) k'"
    and "good_at I R k' d (drained R rv fo) \<Longrightarrow> good_at I R k' d (drained R rv' fo)"
  using t
proof (atomize (full), cases rule: tick_doc_cases)
  case clean
  then show "map_of (rv_written rv') k' = map_of (rv_written rv) k' \<and>
      (good_at I R k' d (drained R rv fo) \<longrightarrow> good_at I R k' d (drained R rv' fo))"
    using tick_clean_settled(1) [of I k rv] tick_clean_settled(2) [of R I k rv fo] assms(2) n good_at_job [of I R k' d _ "DeleteJob (record_file_name I k)"]
    by (auto simp: delete_conv')
next
  case writes
  then show "map_of (rv_written rv') k' = map_of (rv_written rv) k' \<and>
      (good_at I R k' d (drained R rv fo) \<longrightarrow> good_at I R k' d (drained R rv' fo))"
    using assms(2) n drained_queued [OF writes(3)] good_at_job [of I R k' d]
    by (auto simp: update_conv' simp del: run_job.simps)
qed (auto simp: drained_def)

lemma tick_doc_self:
  assumes t: "tick_doc I R now persist flush k doc (rv, nxt) = (rv', nxt')"
    and "doc_inv R (buf doc)" "doc_entry_ok I R rv fo k doc"
  shows "doc_entry_ok I R rv' fo k doc"
    and "flush \<Longrightarrow> unsaved R doc \<Longrightarrow> good_at I R k doc (drained R rv' fo)"
  using t
proof (atomize (full), cases rule: tick_doc_cases)
  case clean
  then show "doc_entry_ok I R rv' fo k doc \<and> (flush \<longrightarrow> unsaved R doc \<longrightarrow> good_at I R k doc (drained R rv' fo))"
    using tick_clean_settled(1) [of I k rv] by (simp add: doc_entry_ok_def delete_conv')
next
  case writes
  have "good_at I R k doc (drained R rv' fo)"
    using pending_good [OF assms(2)]
    by (auto simp: drained_queued [OF writes(3)] run_job_map good_at_def simp del: run_job.simps)
  then show "doc_entry_ok I R rv' fo k doc \<and> (flush \<longrightarrow> unsaved R doc \<longrightarrow> good_at I R k doc (drained R rv' fo))"
    using writes(2) by (simp add: doc_entry_ok_def update_conv')
qed (use assms(3) in \<open>auto simp: doc_entry_ok_def drained_def\<close>)

lemma tick_gone_other:
  assumes "k' \<noteq> k" "record_file_name I k' \<noteq> record_file_name I k"
  shows "map_of (rv_written (tick_gone I k rv)) k' = map_of (rv_written rv) k'"
    and "good_at I R k' d (drained R rv fo) \<Longrightarrow> good_at I R k' d (drained R (tick_gone I k rv) fo)"
  using assms good_at_job [of I R k' d _ "DeleteJob (record_file_name I k)"]
  by (auto simp: tick_gone_def send_job_def delete_conv' drained_def)

section \<open>A whole round\<close>

text \<open>\<open>K\<close> are the keys in use; their file names must differ, as 64-bit hashes do in practice.\<close>

definition entries_ok :: "show_id \<Rightarrow> 'r ropey \<Rightarrow> 'r recovery \<Rightarrow> rec_folder \<Rightarrow> (doc_key \<times> 'r document) list \<Rightarrow> bool" where
  "entries_ok I R rv fo es \<longleftrightarrow>
     distinct (map fst es) \<and> (\<forall>(k, doc) \<in> set es. doc_inv R (buf doc) \<and> doc_entry_ok I R rv fo k doc)"

lemma doc_entry_ok_other:
  assumes "map_of (rv_written rv') k = map_of (rv_written rv) k"
    and "good_at I R k d (drained R rv fo) \<Longrightarrow> good_at I R k d (drained R rv' fo)"
    and "doc_entry_ok I R rv fo k d"
  shows "doc_entry_ok I R rv' fo k d"
  using assms by (auto simp: doc_entry_ok_def)

lemma tick_fold:
  assumes "fold (\<lambda>(k, doc). tick_doc I R now persist flush k doc) es (rv, nxt) = (rv', nxt')"
    and "entries_ok I R rv fo es" "inj_on (record_file_name I) (fst ` set es \<union> L)"
    and "\<forall>(k, d) \<in> set done. k \<in> L \<and> k \<notin> fst ` set es \<and> doc_entry_ok I R rv fo k d
           \<and> (flush \<and> unsaved R d \<longrightarrow> good_at I R k d (drained R rv fo))"
  shows "\<forall>(k, d) \<in> set (es @ done). doc_entry_ok I R rv' fo k d
           \<and> (flush \<and> unsaved R d \<longrightarrow> good_at I R k d (drained R rv' fo))"
  using assms
proof (induction es arbitrary: rv nxt "done" L)
  case Nil
  then show ?case by auto
next
  case (Cons e es)
  obtain k doc where e: "e = (k, doc)" by fastforce
  obtain rv1 nxt1 where t: "tick_doc I R now persist flush k doc (rv, nxt) = (rv1, nxt1)" by fastforce
  have k: "k \<notin> fst ` set es" "doc_inv R (buf doc)" "doc_entry_ok I R rv fo k doc"
    using Cons.prems(2) e by (auto simp: entries_ok_def image_iff)
  have other: "map_of (rv_written rv1) k' = map_of (rv_written rv) k'"
    "good_at I R k' d (drained R rv fo) \<Longrightarrow> good_at I R k' d (drained R rv1 fo)"
    if "k' \<in> fst ` set es \<union> L" "k' \<noteq> k" for k' d
  proof -
    have "record_file_name I k' \<noteq> record_file_name I k"
      using inj_on_eq_iff [OF Cons.prems(3), of k' k] that e by auto
    then show "map_of (rv_written rv1) k' = map_of (rv_written rv) k'"
      "good_at I R k' d (drained R rv fo) \<Longrightarrow> good_at I R k' d (drained R rv1 fo)"
      using tick_doc_other [OF t that(2)] by simp_all
  qed
  have "entries_ok I R rv1 fo es"
    using Cons.prems(2) k(1) other e doc_entry_ok_other [of rv1 _ rv]
    by (fastforce simp: entries_ok_def image_iff)
  moreover have "inj_on (record_file_name I) (fst ` set es \<union> insert k L)"
    using Cons.prems(3) e by (auto elim: inj_on_subset)
  moreover have "\<forall>(k', d) \<in> set (done @ [(k, doc)]). k' \<in> insert k L \<and> k' \<notin> fst ` set es
      \<and> doc_entry_ok I R rv1 fo k' d \<and> (flush \<and> unsaved R d \<longrightarrow> good_at I R k' d (drained R rv1 fo))"
  proof -
    have "k' \<in> L \<and> k' \<notin> fst ` set es \<and> doc_entry_ok I R rv1 fo k' d
        \<and> (flush \<and> unsaved R d \<longrightarrow> good_at I R k' d (drained R rv1 fo))" if "(k', d) \<in> set done" for k' d
    proof -
      have "k' \<in> L" "k' \<noteq> k" "k' \<notin> fst ` set es" "doc_entry_ok I R rv fo k' d"
        "flush \<and> unsaved R d \<longrightarrow> good_at I R k' d (drained R rv fo)"
        using Cons.prems(4) that e by auto
      then show ?thesis using other(1) [of k'] other(2) [of k' d] doc_entry_ok_other [of rv1 k' rv I R d fo] by auto
    qed
    then show ?thesis using k(1) tick_doc_self [OF t k(2,3)] by auto
  qed
  moreover have "fold (\<lambda>(k, doc). tick_doc I R now persist flush k doc) es (rv1, nxt1) = (rv', nxt')"
    using Cons.prems(1) e t by simp
  ultimately have "\<forall>(k, d) \<in> set (es @ (done @ [(k, doc)])). doc_entry_ok I R rv' fo k d
      \<and> (flush \<and> unsaved R d \<longrightarrow> good_at I R k d (drained R rv' fo))"
    using Cons.IH by blast
  then show ?case using e by auto
qed

text \<open>Records of documents never saved lie under their own names.\<close>

definition at_home :: "show_id \<Rightarrow> rstring \<Rightarrow> rec_file \<Rightarrow> bool" where
  "at_home I n f \<longleftrightarrow> (case f of
     Readable r \<Rightarrow> (case rr_untitled r of None \<Rightarrow> True
                    | Some panel \<Rightarrow> rr_path r = None \<longrightarrow> n = record_file_name I (UntitledKey panel))
   | Unreadable \<Rightarrow> True)"

definition folder_ok :: "show_id \<Rightarrow> rec_folder \<Rightarrow> bool" where
  "folder_ok I fo \<longleftrightarrow> distinct (map fst fo) \<and> (\<forall>(n, f) \<in> set fo. at_home I n f)"

definition job_home :: "show_id \<Rightarrow> 'r ropey \<Rightarrow> 'r job \<Rightarrow> bool" where
  "job_home I R j \<longleftrightarrow> (case j of WriteJob n p \<Rightarrow> at_home I n (Readable (record_of R p)) | _ \<Rightarrow> True)"

lemma folder_ok_job: "folder_ok I fo \<Longrightarrow> job_home I R j \<Longrightarrow> folder_ok I (run_job R accepts j fo)"
proof -
  assume f: "folder_ok I fo" and j: "job_home I R j"
  have d: "distinct (map fst (run_job R accepts j fo))"
    using f run_job_names [of fo R j] unfolding folder_ok_def by blast
  have strip: "at_home I n x \<Longrightarrow> at_home I n (strip_history x)" for n x
    by (cases x) (auto simp: at_home_def split: option.splits)
  have "at_home I n x" if "(n, x) \<in> set (run_job R accepts j fo)" for n x
  proof (cases j)
    case (WriteJob m p)
    have "map_of (AList.update m (Readable (record_of R p)) fo) n = Some x"
      using that d WriteJob by (auto intro: map_of_is_SomeI)
    then have "n = m \<and> x = Readable (record_of R p) \<or> map_of fo n = Some x"
      by (auto simp: update_conv' split: if_splits)
    then show ?thesis
      using f j WriteJob by (auto simp: folder_ok_def job_home_def dest: map_of_SomeD)
  next
    case (DeleteJob m)
    then have "(n, x) \<in> set fo" using that by (simp add: remove_file_def AList.delete_eq)
    then show ?thesis using f by (auto simp: folder_ok_def)
  qed (use that f strip in \<open>auto simp: folder_ok_def strip_histories_def\<close>)
  then show ?thesis using d by (auto simp: folder_ok_def)
qed

definition queues :: "show_id \<Rightarrow> 'r ropey \<Rightarrow> 'r recovery \<Rightarrow> 'r recovery \<Rightarrow> bool" where
  "queues I R rv rv' \<longleftrightarrow>
     (\<exists>js. rv_queue rv' = rv_queue rv @ js \<and> (\<forall>j \<in> set js. job_home I R j))"

lemma queues_refl [simp]: "rv_queue rv' = rv_queue rv \<Longrightarrow> queues I R rv rv'"
  by (simp add: queues_def)

lemma queues_trans: "queues I R a b \<Longrightarrow> queues I R b c \<Longrightarrow> queues I R a c"
  by (auto simp: queues_def)

lemma queues_one: "rv_queue rv' = rv_queue rv @ [j] \<Longrightarrow> job_home I R j \<Longrightarrow> queues I R rv rv'"
  by (auto simp: queues_def)

lemma queues_settled: "queues I R rv rv' \<Longrightarrow> folder_ok I (drained R rv fo) \<Longrightarrow> folder_ok I (drained R rv' fo)"
proof -
  have "folder_ok I fo \<Longrightarrow> \<forall>j \<in> set js. job_home I R j \<Longrightarrow> folder_ok I (fold (run_job R accepts) js fo)" for js fo
    by (induction js arbitrary: fo) (simp_all add: folder_ok_job)
  then show "queues I R rv rv' \<Longrightarrow> folder_ok I (drained R rv fo) \<Longrightarrow> ?thesis"
    by (auto simp: queues_def drained_def)
qed

lemma pending_home: "at_home I (record_file_name I k) (Readable (record_of R (pending_of persist k doc)))"
  by (cases k) (simp_all add: at_home_def record_of_def pending_of_def)

lemma tick_doc_queues:
  assumes "tick_doc I R now persist flush k doc (rv, nxt) = (rv', nxt')"
  shows "queues I R rv rv'"
  using assms
proof (cases rule: tick_doc_cases)
  case clean
  then show ?thesis
    by (auto simp: tick_clean_def Let_def send_job_def job_home_def intro: queues_one)
qed (auto intro: queues_one simp: job_home_def pending_home)

lemma tick_docs_queues:
  "fold (\<lambda>(k, doc). tick_doc I R now persist flush k doc) es (rv, nxt) = (rv', nxt') \<Longrightarrow> queues I R rv rv'"
proof (induction es arbitrary: rv nxt)
  case (Cons e es)
  obtain rv1 nxt1 where t: "tick_doc I R now persist flush (fst e) (snd e) (rv, nxt) = (rv1, nxt1)" by fastforce
  then have "queues I R rv1 rv'" using Cons by (simp add: case_prod_unfold)
  then show ?case using tick_doc_queues [OF t] queues_trans by blast
qed simp

lemma tick_docs_written:
  "fold (\<lambda>(k, doc). tick_doc I R now persist flush k doc) es (rv, nxt) = (rv', nxt') \<Longrightarrow>
     fst ` set (rv_written rv') \<subseteq> fst ` set (rv_written rv) \<union> fst ` set es"
proof (induction es arbitrary: rv nxt)
  case (Cons e es)
  obtain rv1 nxt1 where t: "tick_doc I R now persist flush (fst e) (snd e) (rv, nxt) = (rv1, nxt1)" by fastforce
  have "fst ` set (rv_written rv1) \<subseteq> insert (fst e) (fst ` set (rv_written rv))"
    using t
  proof (cases rule: tick_doc_cases)
    case clean
    then show ?thesis by (auto simp: tick_clean_settled(1) AList.delete_eq)
  qed (auto simp: dom_update)
  moreover have "fst ` set (rv_written rv') \<subseteq> fst ` set (rv_written rv1) \<union> fst ` set es"
    using Cons.IH [of rv1 nxt1] Cons.prems t by (simp add: case_prod_unfold)
  ultimately show ?case unfolding list.set image_insert by blast
qed simp

lemma tick_gones:
  assumes "\<forall>k \<in> set ks. \<forall>k' \<in> L. k' \<noteq> k \<and> record_file_name I k' \<noteq> record_file_name I k"
  shows "\<forall>k' \<in> L. map_of (rv_written (fold (tick_gone I) ks rv)) k' = map_of (rv_written rv) k'
      \<and> (good_at I R k' d (drained R rv fo) \<longrightarrow> good_at I R k' d (drained R (fold (tick_gone I) ks rv) fo))"
    and "queues I R rv (fold (tick_gone I) ks rv)"
    and "fst ` set (rv_written (fold (tick_gone I) ks rv)) \<subseteq> fst ` set (rv_written rv)"
  using assms
proof (atomize (full), induction ks arbitrary: rv)
  case (Cons k ks)
  let ?rv = "tick_gone I k rv"
  have q: "queues I R rv ?rv"
    by (auto simp: tick_gone_def send_job_def job_home_def intro: queues_one)
  have w: "fst ` set (rv_written ?rv) \<subseteq> fst ` set (rv_written rv)"
    by (auto simp: tick_gone_def send_job_def AList.delete_eq)
  have o: "map_of (rv_written ?rv) k' = map_of (rv_written rv) k'"
    "good_at I R k' d (drained R rv fo) \<Longrightarrow> good_at I R k' d (drained R ?rv fo)" if "k' \<in> L" for k'
    using that Cons.prems tick_gone_other [of k' k I] by auto
  have ih: "\<forall>k' \<in> L. map_of (rv_written (fold (tick_gone I) ks ?rv)) k' = map_of (rv_written ?rv) k'
      \<and> (good_at I R k' d (drained R ?rv fo) \<longrightarrow> good_at I R k' d (drained R (fold (tick_gone I) ks ?rv) fo))"
    "queues I R ?rv (fold (tick_gone I) ks ?rv)"
    "fst ` set (rv_written (fold (tick_gone I) ks ?rv)) \<subseteq> fst ` set (rv_written ?rv)"
    using Cons.IH [of ?rv] Cons.prems by simp_all
  have "fold (tick_gone I) (k # ks) rv = fold (tick_gone I) ks ?rv" by simp
  then show ?case
    using ih o w queues_trans [OF q ih(2)] by (simp only:) (intro conjI ballI, auto)
qed simp

text \<open>The whole invariant, and what a round does to it.\<close>

definition recovery_ok ::
  "show_id \<Rightarrow> 'r ropey \<Rightarrow> doc_key set \<Rightarrow> 'r documents \<times> 'r recovery \<times> rec_folder \<Rightarrow> bool" where
  "recovery_ok I R K st \<longleftrightarrow>
     (case st of (ds, rv, fo) \<Rightarrow>
        entries_ok I R rv fo (doc_entries ds) \<and> fst ` set (doc_entries ds) \<subseteq> K
        \<and> fst ` set (rv_written rv) \<subseteq> K \<and> folder_ok I (drained R rv fo))"

lemma recovery_tick_ok:
  assumes i: "recovery_ok I R K (ds, rv, fo)" and inj: "inj_on (record_file_name I) K"
    and t: "recovery_tick I R now persist flush ds rv = (rv', nxt)"
  shows "recovery_ok I R K (ds, rv', fo)"
    and "flush \<Longrightarrow> (k, doc) \<in> set (doc_entries ds) \<Longrightarrow> unsaved R doc \<Longrightarrow> good_at I R k doc (drained R rv' fo)"
proof -
  let ?es = "doc_entries ds"
  obtain rv1 where f: "fold (\<lambda>(k, doc). tick_doc I R now persist flush k doc) ?es (rv, None) = (rv1, nxt)"
    using t by (auto simp: recovery_tick_def Let_def split: prod.splits)
  define gone where "gone = filter (\<lambda>k. k \<notin> fst ` set ?es) (map fst (rv_written rv1))"
  define rv2 where "rv2 = fold (tick_gone I) gone rv1"
  have rv': "rv' = (if flush then send_job FlushJob rv2 else rv2)"
    using t f unfolding recovery_tick_def gone_def rv2_def by (simp add: Let_def split: if_splits)
  have es: "entries_ok I R rv fo ?es" "fst ` set ?es \<subseteq> K" "fst ` set (rv_written rv) \<subseteq> K"
    "folder_ok I (drained R rv fo)"
    using i by (simp_all add: recovery_ok_def)
  have w1: "fst ` set (rv_written rv1) \<subseteq> K" using tick_docs_written [OF f] es(2,3) by blast
  have one: "\<forall>(k, d) \<in> set ?es. doc_entry_ok I R rv1 fo k d
      \<and> (flush \<and> unsaved R d \<longrightarrow> good_at I R k d (drained R rv1 fo))"
    using tick_fold [OF f es(1), of "{}" "[]"] inj_on_subset [OF inj es(2)] by simp
  have away: "\<forall>k \<in> set gone. \<forall>k' \<in> fst ` set ?es. k' \<noteq> k \<and> record_file_name I k' \<noteq> record_file_name I k"
  proof (intro ballI)
    fix k k'
    assume k: "k \<in> set gone" "k' \<in> fst ` set ?es"
    then have "k \<notin> fst ` set ?es" "k \<in> fst ` set (rv_written rv1)" by (simp_all add: gone_def)
    then have "k \<in> K" "k' \<in> K" "k' \<noteq> k" using k(2) w1 es(2) by blast+
    then show "k' \<noteq> k \<and> record_file_name I k' \<noteq> record_file_name I k"
      using inj_on_eq_iff [OF inj] by simp
  qed
  have two: "map_of (rv_written rv2) k = map_of (rv_written rv1) k"
    "good_at I R k d (drained R rv1 fo) \<Longrightarrow> good_at I R k d (drained R rv2 fo)"
    if "(k, d) \<in> set ?es" for k d
    using tick_gones(1) [OF away, of rv1 R d fo] that unfolding rv2_def by force+
  have same: "rv_written rv' = rv_written rv2" "drained R rv' fo = drained R rv2 fo"
    by (simp_all add: rv' send_job_def drained_def)
  have "queues I R rv rv2"
    unfolding rv2_def using tick_docs_queues [OF f] tick_gones(2) [OF away] queues_trans by blast
  then have "folder_ok I (drained R rv' fo)" using queues_settled es(4) same(2) by simp
  moreover have "fst ` set (rv_written rv') \<subseteq> K"
    using tick_gones(3) [OF away, of rv1] w1 unfolding same(1) rv2_def by blast
  moreover have "entries_ok I R rv' fo ?es"
    using es(1) one two same by (fastforce simp: entries_ok_def doc_entry_ok_def)
  ultimately show "recovery_ok I R K (ds, rv', fo)" using es(2) by (simp add: recovery_ok_def)
  show "good_at I R k doc (drained R rv' fo)" if "flush" "(k, doc) \<in> set ?es" "unsaved R doc"
    using one two(2) that same(2) by auto
qed

section \<open>Between rounds\<close>

text \<open>
  What an operation on a document does to what is written for it: nothing, or its version grows.
  A file found deleted, or found back, moves the version the rounds use by one while the
  document's own stays, so the two can meet again: that is left out here (see \<open>version_repeats\<close>).
\<close>

definition advances :: "'r ropey \<Rightarrow> 'r document \<Rightarrow> 'r document \<Rightarrow> bool" where
  "advances R doc doc' \<longleftrightarrow>
     (on_disk doc = Deleted \<longleftrightarrow> on_disk doc' = Deleted) \<and> (doc_inv R (buf doc) \<longrightarrow> doc_inv R (buf doc'))
     \<and> (version (buf doc) < version (buf doc')
         \<or> version (buf doc) = version (buf doc') \<and> rope (buf doc) = rope (buf doc') \<and> doc_path doc = doc_path doc')"

lemma advances_entry:
  assumes "advances R doc doc'" "doc_entry_ok I R rv fo k doc"
  shows "doc_entry_ok I R rv fo k doc'"
proof (cases "version (buf doc) < version (buf doc')")
  case True
  then have "tick_version doc < tick_version doc'"
    using assms(1) by (auto simp: advances_def tick_version_def)
  then show ?thesis using assms(2) by (fastforce simp: doc_entry_ok_def)
next
  case False
  then have "tick_version doc = tick_version doc'" "doc_text R (buf doc') = doc_text R (buf doc)"
    "doc_path doc' = doc_path doc"
    using assms(1) by (auto simp: advances_def tick_version_def doc_text_def)
  then show ?thesis using assms(2) by (simp add: doc_entry_ok_def good_at_def good_record_def)
qed

text \<open>
  A session: documents open (their key forgotten by a round since it was last open), move on and
  close; rounds run at any time; the writer does its first job; histories are dropped.
\<close>

inductive session_step ::
  "show_id \<Rightarrow> 'r ropey \<Rightarrow> doc_key set \<Rightarrow> 'r documents \<times> 'r recovery \<times> rec_folder
   \<Rightarrow> 'r documents \<times> 'r recovery \<times> rec_folder \<Rightarrow> bool"
  for I :: show_id and R :: "'r ropey" and K :: "doc_key set" where
  opens: "k \<in> K \<Longrightarrow> map_of (rv_written rv) k = None \<Longrightarrow> doc_inv R (buf doc) \<Longrightarrow>
    session_step I R K (ds, rv, fo) (insert_doc k doc ds, rv, fo)"
| moves_on: "get_doc k ds = Some doc \<Longrightarrow> advances R doc doc' \<Longrightarrow>
    session_step I R K (ds, rv, fo) (insert_doc k doc' ds, rv, fo)"
| closes: "session_step I R K (ds, rv, fo) (snd (remove_doc k ds), rv, fo)"
| rounds: "recovery_tick I R now persist flush ds rv = (rv', nxt) \<Longrightarrow>
    session_step I R K (ds, rv, fo) (ds, rv', fo)"
| drops: "session_step I R K (ds, rv, fo) (ds, drop_histories rv, fo)"
| forgets: "k \<in> K \<Longrightarrow> session_step I R K (ds, rv, fo) (ds, forget_record I k rv, fo)"
| writes: "rv_queue rv = j # js \<Longrightarrow>
    session_step I R K (ds, rv, fo) (ds, rv\<lparr>rv_queue := js\<rparr>, run_job R accepts j fo)"

lemma entries_ok_update:
  assumes "entries_ok I R rv fo es" "doc_inv R (buf doc)" "doc_entry_ok I R rv fo k doc"
  shows "entries_ok I R rv fo (AList.update k doc es)"
proof -
  have d: "distinct (map fst (AList.update k doc es))"
    using assms(1) by (simp add: entries_ok_def distinct_update)
  have "doc_inv R (buf d) \<and> doc_entry_ok I R rv fo j d" if "(j, d) \<in> set (AList.update k doc es)" for j d
  proof -
    have "map_of (AList.update k doc es) j = Some d" using d that by simp
    then have "j = k \<and> d = doc \<or> map_of es j = Some d" by (auto simp: update_conv' split: if_splits)
    then show ?thesis using assms by (auto simp: entries_ok_def dest: map_of_SomeD)
  qed
  then show ?thesis using d by (auto simp: entries_ok_def)
qed

lemma session_step_ok:
  assumes "session_step I R K st st'" "recovery_ok I R K st" "inj_on (record_file_name I) K"
  shows "recovery_ok I R K st'"
  using assms
proof (induction rule: session_step.induct)
  case (opens k rv doc ds fo)
  then have "doc_entry_ok I R rv fo k doc" by (simp add: doc_entry_ok_def)
  then show ?case
    using opens entries_ok_update [of I R rv fo "doc_entries ds" doc k]
    by (auto simp: recovery_ok_def insert_doc_def dom_update)
next
  case (moves_on k ds doc doc' rv fo)
  then have k: "(k, doc) \<in> set (doc_entries ds)" by (simp add: get_doc_def map_of_SomeD)
  then have "doc_inv R (buf doc)" "doc_entry_ok I R rv fo k doc" "k \<in> K"
    using moves_on.prems by (auto simp: recovery_ok_def entries_ok_def)
  then have "doc_inv R (buf doc')" "doc_entry_ok I R rv fo k doc'" "k \<in> K"
    using moves_on.hyps(2) advances_entry [of R doc doc'] by (auto simp: advances_def)
  then show ?case
    using moves_on entries_ok_update [of I R rv fo "doc_entries ds" doc' k]
    by (auto simp: recovery_ok_def insert_doc_def dom_update)
next
  case (closes ds rv fo k)
  have s: "set (AList.delete k (doc_entries ds)) \<subseteq> set (doc_entries ds)" by (auto simp: AList.delete_eq)
  then have "fst ` set (AList.delete k (doc_entries ds)) \<subseteq> fst ` set (doc_entries ds)" by (rule image_mono)
  then show ?case
    using closes s by (simp add: recovery_ok_def remove_doc_def entries_ok_def distinct_delete) blast
next
  case (rounds now persist flush ds rv rv' nxt fo)
  then show ?case using recovery_tick_ok(1) by blast
next
  case (drops ds rv fo)
  have "queues I R rv (drop_histories rv)"
    by (rule queues_one [of _ _ StripJob]) (simp_all add: drop_histories_def send_job_def job_home_def)
  then have "folder_ok I (drained R (drop_histories rv) fo)"
    using drops.prems(1) queues_settled by (auto simp: recovery_ok_def)
  then show ?case
    using drops
    by (auto simp: recovery_ok_def entries_ok_def doc_entry_ok_def drop_histories_def send_job_def)
next
  case (forgets k ds rv fo)
  let ?rv = "forget_record I k rv"
  have "queues I R rv ?rv"
    by (rule queues_one [of _ _ "DeleteJob (record_file_name I k)"])
      (simp_all add: forget_record_def send_job_def job_home_def)
  then have f: "folder_ok I (drained R ?rv fo)"
    using forgets.prems(1) queues_settled by (auto simp: recovery_ok_def)
  have "doc_entry_ok I R ?rv fo j d" if "(j, d) \<in> set (doc_entries ds)" for j d
  proof (cases "j = k")
    case False
    have "j \<in> K" using that forgets.prems(1) by (force simp: recovery_ok_def)
    then have "record_file_name I j \<noteq> record_file_name I k"
      using False forgets inj_on_eq_iff [OF forgets.prems(2), of j k] by simp
    then have "map_of (rv_written ?rv) j = map_of (rv_written rv) j"
      "good_at I R j d (drained R rv fo) \<Longrightarrow> good_at I R j d (drained R ?rv fo)"
      using tick_gone_other [OF False, of I] by (simp_all add: tick_gone_def forget_record_def)
    then show ?thesis using that forgets doc_entry_ok_other by (fastforce simp: recovery_ok_def entries_ok_def)
  qed (simp add: doc_entry_ok_def forget_record_def send_job_def delete_conv')
  then show ?case
    using forgets f
    by (auto simp: recovery_ok_def entries_ok_def forget_record_def send_job_def AList.delete_eq)
next
  case (writes rv j js ds fo)
  then have "drained R (rv\<lparr>rv_queue := js\<rparr>) (run_job R accepts j fo) = drained R rv fo"
    by (simp add: drained_def)
  then show ?case using writes by (simp add: recovery_ok_def entries_ok_def doc_entry_ok_def)
qed

section \<open>What the operations do\<close>

context rope_contract begin

lemma transact_advances:
  assumes "tx_fits (changes tx) (doc_text R (buf doc))" "tx_clean tx"
  shows "advances R doc (snd (transact R bef tx now doc))"
proof -
  obtain a d where e: "doc_edit R tx bef (sel_map tx bef) Other now (buf doc) = (a, d)" by fastforce
  have "doc_inv R (buf doc) \<Longrightarrow> doc_inv R d"
    using doc_edit_inv assms tx_clean_inserts e by (metis snd_conv)
  moreover have "tx_is_empty tx \<and> d = buf doc \<or> version d = version (buf doc) + 1"
    using e by (auto simp: doc_edit_def doc_apply_def Let_def split: if_splits prod.splits)
  ultimately show ?thesis using e by (auto simp: advances_def transact_def)
qed

lemma buf_dirty_fields:
  assumes "buf_dirty R doc = (b, doc')"
  shows "version (buf doc') = version (buf doc)" "rope (buf doc') = rope (buf doc)"
    "saved (buf doc') = saved (buf doc)" "doc_history (buf doc') = doc_history (buf doc)"
    "doc_path doc' = doc_path doc" "on_disk doc' = on_disk doc"
    and "doc_inv R (buf doc) \<Longrightarrow> doc_inv R (buf doc')"
    and "doc_inv R (buf doc) \<Longrightarrow> b \<longleftrightarrow> doc_text R (buf doc) \<noteq> to_string R (saved (buf doc))"
  using assms is_dirty_spec [of "buf doc"]
  by (auto simp: buf_dirty_def is_dirty_def Let_def split: prod.splits option.splits if_splits)

lemma unsaved_spec:
  "doc_inv R (buf doc) \<Longrightarrow>
     unsaved R doc \<longleftrightarrow> doc_text R (buf doc) \<noteq> to_string R (saved (buf doc)) \<or> on_disk doc = Deleted"
proof -
  obtain b doc' where b: "buf_dirty R doc = (b, doc')" by fastforce
  show "doc_inv R (buf doc) \<Longrightarrow> ?thesis"
    using buf_dirty_fields(6,8) [OF b] by (simp add: unsaved_def document_dirty_def b)
qed

lemma save_to_fields:
  assumes "save_to R U D to_path dk doc = Inr (dk', doc')"
  obtains target where "(case to_path of None \<Rightarrow> doc_path doc | Some p \<Rightarrow> Some p) = Some target"
    "atomic_write target (encode D (doc_text R (buf doc)) (doc_format doc)) dk = Inr dk'"
    "buf doc' = mark_saved (rope (buf doc)) (buf doc)" "doc_path doc' = Some target" "on_disk doc' = InSync"
    "doc_stamp doc' = stamp_of dk' target"
proof (cases "case to_path of None \<Rightarrow> doc_path doc | Some p \<Rightarrow> Some p")
  case (Some target)
  then show ?thesis
    using assms that [of target] unfolding save_to_def doc_text_def
    by (auto simp: Let_def split: sum.splits)
qed (use assms in \<open>simp add: save_to_def\<close>)

lemma save_to_advances:
  assumes "save_to R U D None dk doc = Inr (dk', doc')" "on_disk doc \<noteq> Deleted"
  shows "advances R doc doc'"
  using assms(1)
proof (rule save_to_fields)
  fix target
  assume t: "(case None of None \<Rightarrow> doc_path doc | Some p \<Rightarrow> Some p) = Some target"
    "buf doc' = mark_saved (rope (buf doc)) (buf doc)" "doc_path doc' = Some target" "on_disk doc' = InSync"
  have "version (buf doc') = version (buf doc)" "rope (buf doc') = rope (buf doc)"
    by (simp_all add: t(2) mark_saved_def)
  then show ?thesis using t assms(2) mark_saved_inv [of "buf doc"] by (simp add: advances_def)
qed

lemma read_decoded_clean:
  "read_decoded U dk p m eol = Inr (d, st) \<Longrightarrow> no_cr (d_text d)"
  using decode_normalised by (auto simp: read_decoded_def no_cr_def split: sum.splits if_splits)

lemma reload_from_advances:
  "no_cr (d_text fresh) \<Longrightarrow> on_disk doc \<noteq> Deleted \<Longrightarrow> advances R doc (reload_from R fresh doc)"
  using doc_reset_inv [of "d_text fresh" "buf doc"]
  by (auto simp: advances_def reload_from_def doc_reset_def Let_def)

lemma reload_advances:
  assumes "reload_document R U dk m doc = Inr doc'" "on_disk doc \<noteq> Deleted"
  shows "advances R doc doc'"
proof -
  obtain p fresh st where "read_decoded U dk p m (tf_eol (doc_format doc)) = Inr (fresh, st)"
    "doc' = reload_from R fresh (doc\<lparr>doc_stamp := st\<rparr>)"
    using assms(1) by (auto simp: reload_document_def split: option.splits sum.splits)
  then show ?thesis
    using reload_from_advances [OF read_decoded_clean, of U dk p m _ fresh st "doc\<lparr>doc_stamp := st\<rparr>"] assms(2)
    by (simp add: advances_def)
qed

text \<open>A change notification: what the buffer becomes, by what is found on disk.\<close>

lemma check_disk_cases:
  assumes i: "doc_inv R (buf doc)" and c: "check_disk R U dk m doc = doc'"
  obtains (kept) "rope (buf doc') = rope (buf doc)" "doc_history (buf doc') = doc_history (buf doc)"
      "version (buf doc') = version (buf doc)" "saved (buf doc') = saved (buf doc)" "doc_inv R (buf doc')"
      "doc_path doc' = doc_path doc"
      "doc_text R (buf doc) = to_string R (saved (buf doc)) \<or> on_disk doc' = on_disk doc
       \<or> on_disk doc' \<noteq> InSync \<or>
         (\<exists>p d st. doc_path doc = Some p \<and> read_decoded U dk p m (tf_eol (doc_format doc)) = Inr (d, st)
            \<and> d_text d = to_string R (saved (buf doc)))"
    | (followed) p fresh st where "doc_path doc = Some p"
      "read_decoded U dk p m (tf_eol (doc_format doc)) = Inr (fresh, st)"
      "doc_text R (buf doc) = to_string R (saved (buf doc))" "on_disk doc' = InSync"
      "doc_text R (buf doc') = d_text fresh" "doc_inv R (buf doc')" "version (buf doc) < version (buf doc')"
proof (cases "\<exists>p fresh st stamp. doc_path doc = Some p \<and> stamp_of dk p = Some stamp
    \<and> \<not> (Some stamp = doc_stamp doc \<and> on_disk doc \<noteq> Deleted)
    \<and> read_decoded U dk p m (tf_eol (doc_format doc)) = Inr (fresh, st)")
  case False
  then have "doc' = doc \<or> doc' = doc\<lparr>on_disk := Deleted, doc_stamp := None\<rparr>"
    using c by (auto simp: check_disk_def split: option.splits sum.splits if_splits)
  then show ?thesis using kept i by auto
next
  case True
  then obtain p fresh st stamp where r: "doc_path doc = Some p" "stamp_of dk p = Some stamp"
    "\<not> (Some stamp = doc_stamp doc \<and> on_disk doc \<noteq> Deleted)"
    "read_decoded U dk p m (tf_eol (doc_format doc)) = Inr (fresh, st)"
    by blast
  let ?doc = "doc\<lparr>doc_stamp := st\<rparr>"
  obtain b dd where b: "buf_dirty R ?doc = (b, dd)" by fastforce
  note f = buf_dirty_fields [OF b]
  have dirty: "b \<longleftrightarrow> doc_text R (buf doc) \<noteq> to_string R (saved (buf doc))" using f(8) i by simp
  show ?thesis
  proof (cases "to_string R (saved (buf doc)) = d_text fresh")
    case True
    then have "doc' \<in> {?doc\<lparr>on_disk := InSync, doc_format := d_format fresh\<rparr>,
        dd\<lparr>on_disk := Changed\<rparr>, dd\<lparr>on_disk := InSync, doc_format := d_format fresh\<rparr>}"
      using c r b by (auto simp: check_disk_def Let_def split: if_splits bool.splits)
    then show ?thesis using kept i f r True by auto
  next
    case False
    show ?thesis
    proof (cases b)
      case True
      then have "doc' = dd\<lparr>on_disk := Changed\<rparr>"
        using c r b False by (auto simp: check_disk_def Let_def)
      then show ?thesis using kept i f by auto
    next
      case nb: False
      then have d: "doc' = reload_from R fresh dd"
        using c r b False by (auto simp: check_disk_def Let_def)
      have "no_cr (d_text fresh)" using read_decoded_clean [OF r(4)] .
      then have "doc_inv R (buf doc')" by (simp add: d reload_from_def doc_reset_inv)
      then show ?thesis
        using followed [OF r(1,4)] nb dirty f
        by (simp add: d reload_from_def doc_reset_def doc_text_def Let_def)
    qed
  qed
qed

lemma check_disk_advances:
  assumes "on_disk doc \<noteq> Deleted" "on_disk (check_disk R U dk m doc) \<noteq> Deleted" "doc_inv R (buf doc)"
  shows "advances R doc (check_disk R U dk m doc)"
proof (rule check_disk_cases [OF assms(3) refl, of U dk m])
  let ?doc = "check_disk R U dk m doc"
  assume "rope (buf ?doc) = rope (buf doc)" "version (buf ?doc) = version (buf doc)" "doc_inv R (buf ?doc)"
    "doc_path ?doc = doc_path doc"
  then show ?thesis using assms by (simp add: advances_def)
next
  let ?doc = "check_disk R U dk m doc"
  assume "doc_inv R (buf ?doc)" "version (buf doc) < version (buf ?doc)"
  then show ?thesis using assms by (simp add: advances_def)
qed

end

section \<open>The next launch\<close>

lemma json_name: "is_json (record_file_name I k)"
proof -
  obtain n where n: "record_file_name I k = n @ lit ''.json''" "length n = 16"
    by (simp add: record_file_name_def hex16_def)
  then show ?thesis
    by (simp add: is_json_def split_extension_def)
qed

text \<open>What is read from the folder, and what is kept for the documents to open.\<close>

lemma load_all_records:
  "set (fst (load_all accepts fo)) =
     {r. \<exists>n. (n, Readable r) \<in> set fo \<and> is_json n \<and> rr_format r = RECOVERY_FORMAT}"
proof (induction fo)
  case (Cons e fo)
  obtain n f where "e = (n, f)" by fastforce
  then show ?case using Cons by (cases f) (auto split: prod.split)
qed simp

lemma take_records_entries:
  "doc_entries (snd (fold (take_record F rules dk persist shown) rs (rv, ds))) = doc_entries ds"
proof (induction rs arbitrary: rv ds)
  case (Cons r rs)
  obtain rv1 ds1 where t: "take_record F rules dk persist shown r (rv, ds) = (rv1, ds1)" by fastforce
  then have "doc_entries ds1 = doc_entries ds"
    by (auto simp: take_record_def Let_def split: option.splits if_splits)
  then show ?case using Cons.IH t by simp
qed simp

lemma take_record_recovered:
  "map_of (doc_recovered (snd (take_record F rules dk persist shown r (rv, ds)))) k
     = (if record_key F rules dk r = Some k \<and> k \<in> set shown
        then Some (if persist then r else r\<lparr>rr_history := None\<rparr>) else map_of (doc_recovered ds) k)"
  by (cases "record_key F rules dk r") (simp_all add: take_record_def Let_def update_conv')

lemma take_records_recovered:
  assumes "r \<in> set rs" "record_key F rules dk r = Some k" "k \<in> set shown"
    and "\<forall>r' \<in> set rs. record_key F rules dk r' = Some k \<longrightarrow> r' = r"
  shows "map_of (doc_recovered (snd (fold (take_record F rules dk persist shown) rs (rv, ds)))) k
    = Some (if persist then r else r\<lparr>rr_history := None\<rparr>)"
  using assms
proof (induction rs rule: rev_induct)
  case (snoc x rs)
  obtain rv1 ds1 where f: "fold (take_record F rules dk persist shown) rs (rv, ds) = (rv1, ds1)" by fastforce
  then have "map_of (doc_recovered (snd (fold (take_record F rules dk persist shown) (rs @ [x]) (rv, ds)))) k
      = (if record_key F rules dk x = Some k \<and> k \<in> set shown
         then Some (if persist then x else x\<lparr>rr_history := None\<rparr>) else map_of (doc_recovered ds1) k)"
    by (simp only: fold_append fold_simps comp_apply take_record_recovered)
  moreover have "map_of (doc_recovered ds1) k = Some (if persist then r else r\<lparr>rr_history := None\<rparr>)"
    if "record_key F rules dk x \<noteq> Some k"
  proof -
    have r: "r \<in> set rs" using snoc.prems(1,2) that by auto
    have "\<forall>r' \<in> set rs. record_key F rules dk r' = Some k \<longrightarrow> r' = r"
      using snoc.prems(4) unfolding set_append by blast
    then show ?thesis using snoc.IH [OF r snoc.prems(2,3)] unfolding f snd_conv by blast
  qed
  moreover have "record_key F rules dk x = Some k \<longrightarrow> x = r"
    using snoc.prems(4) unfolding set_append list.set by blast
  ultimately show ?case using snoc.prems(3) by (cases "record_key F rules dk x = Some k") simp_all
qed simp

lemma record_key_untitled:
  "record_key F rules dk r = Some (UntitledKey p) \<longleftrightarrow> rr_path r = None \<and> rr_untitled r = Some p"
  by (auto simp: record_key_def key_for_def split: option.splits)

context rope_contract begin

lemma restore_record_ok:
  assumes "no_cr (rr_text r)" "\<forall>h. rr_history r = Some h \<longrightarrow> history_restorable h (rr_text r)"
  shows "doc_text R (buf (restore_record R r (untitled R eol))) = rr_text r"
    and "doc_inv R (buf (restore_record R r (untitled R eol)))"
  using assms
  by (auto simp: restore_record_def restore_text_def restore_unsaved_def untitled_def doc_new_def doc_text_def
      doc_inv_def cache_ok_def set_history_def history_seal_def history_restorable_def history_fits_def
      history_bounded_def history_clean_def history_default_def Let_def split: option.split)

text \<open>A document never saved comes back from a folder that has its record.\<close>

lemma untitled_comes_back:
  assumes "folder_ok I fo" "good_at I R (UntitledKey p) doc fo" "doc_path doc = None" "doc_inv R (buf doc)"
    and "UntitledKey p \<in> set (shown_documents F rules dk ls)" "doc_entries ds0 = []"
    and "start_recovery I accepts F rules dk persist ls fo ds0 = ((rv1, ds1), fo1)"
  obtains doc' ds' where "ensure_untitled R p eol ds1 = (UntitledKey p, ds')"
    "get_doc (UntitledKey p) ds' = Some doc'" "doc_text R (buf doc') = doc_text R (buf doc)" "doc_inv R (buf doc')"
proof -
  let ?k = "UntitledKey p"
  obtain r where r: "map_of fo (record_file_name I ?k) = Some (Readable r)" "good_record R ?k doc r"
    using assms(2) by (auto simp: good_at_def)
  then have m: "(record_file_name I ?k, Readable r) \<in> set fo" by (simp add: map_of_SomeD)
  let ?rs = "fst (load_all accepts fo)"
  have key: "record_key F rules dk r = Some ?k" "rr_format r = RECOVERY_FORMAT"
    using r(2) assms(3) by (simp_all add: record_key_untitled good_record_def)
  then have "r \<in> set ?rs" using m json_name by (auto simp: load_all_records)
  moreover have "r' = r" if "r' \<in> set ?rs" "record_key F rules dk r' = Some ?k" for r'
  proof -
    obtain n where n: "(n, Readable r') \<in> set fo" using \<open>r' \<in> set ?rs\<close> by (auto simp: load_all_records)
    then have "at_home I n (Readable r')" using assms(1) by (auto simp: folder_ok_def)
    then have "n = record_file_name I ?k"
      using that(2) by (simp add: at_home_def record_key_untitled)
    then have "map_of fo (record_file_name I ?k) = Some (Readable r')"
      using n assms(1) by (simp add: folder_ok_def)
    then show ?thesis using r(1) by simp
  qed
  moreover have ds1: "ds1 = snd (fold (take_record F rules dk persist (shown_documents F rules dk ls)) ?rs (recovery_new, ds0))"
    using assms(7) by (simp add: start_recovery_def Let_def split: prod.splits)
  ultimately have rec: "map_of (doc_recovered ds1) ?k = Some (if persist then r else r\<lparr>rr_history := None\<rparr>)"
    using take_records_recovered [of r ?rs F rules dk ?k] key(1) assms(5) by blast
  let ?r = "if persist then r else r\<lparr>rr_history := None\<rparr>"
  have "doc_entries ds1 = []" using take_records_entries assms(6) ds1 by metis
  then have e: "ensure_untitled R p eol ds1 =
      (?k, insert_doc ?k (restore_record R ?r (untitled R eol)) (snd (take_recovered ?k ds1)))"
    using rec by (simp add: ensure_untitled_def get_doc_def take_recovered_def Let_def)
  have "rr_text ?r = doc_text R (buf doc)" "\<forall>h. rr_history ?r = Some h \<longrightarrow> history_restorable h (rr_text ?r)"
    using r(2) by (auto simp: good_record_def)
  moreover have "no_cr (doc_text R (buf doc))" using assms(4) by (simp add: doc_inv_def)
  ultimately show ?thesis
    using that [OF e] restore_record_ok [of ?r] by (simp add: get_doc_def insert_doc_def update_conv')
qed

end

text \<open>A session as it starts: no document open, nothing written, the folder as it was left.\<close>

definition fresh_session :: "show_id \<Rightarrow> 'r documents \<times> 'r recovery \<times> rec_folder \<Rightarrow> bool" where
  "fresh_session I st \<longleftrightarrow>
     (case st of (ds, rv, fo) \<Rightarrow>
        doc_entries ds = [] \<and> rv_written rv = [] \<and> rv_queue rv = [] \<and> folder_ok I fo)"

lemma fresh_session_ok: "fresh_session I st \<Longrightarrow> recovery_ok I R K st"
  by (auto simp: fresh_session_def recovery_ok_def entries_ok_def drained_def)

lemma session_recovery_ok:
  assumes "(session_step I R K)\<^sup>*\<^sup>* st st'" "fresh_session I st" "inj_on (record_file_name I) K"
  shows "recovery_ok I R K st'"
  using assms(1)
proof (induction rule: rtranclp_induct)
  case base
  then show ?case using assms(2) by (rule fresh_session_ok)
next
  case (step y z)
  then show ?case using session_step_ok assms(3) by blast
qed

end
