(* ===== verification/PropsFiles.thy ===== *)
theory PropsFiles
  imports RecoveryInv
begin

text \<open>
  What open documents, their files and crash recovery guarantee together: unsaved text survives a
  crash, the disk never overwrites it, and saved text is what opens again; and where the code falls
  short of that.
\<close>

section \<open>Crash recovery\<close>


definition no_docs :: "'r documents" where
  "no_docs = \<lparr>doc_entries = [], doc_languages = [], doc_recovered = []\<rparr>"

definition draft :: "rstring document" where
  "draft = restore_text list_rope [104, 105] (untitled list_rope Lf)"

lemma draft_inv: "doc_inv list_rope (buf draft)"
  by (simp add: draft_def restore_text_def restore_unsaved_def untitled_def doc_new_def doc_inv_def doc_text_def
      no_cr_def cache_ok_def history_fits_def history_bounded_def history_clean_def history_default_def Let_def)

lemma draft_unsaved: "unsaved list_rope draft" "doc_text list_rope (buf draft) = [104, 105]" "doc_path draft = None"
  by (simp_all add: draft_def unsaved_def document_dirty_def buf_dirty_def is_dirty_def restore_text_def
      restore_unsaved_def untitled_def doc_new_def doc_text_def Let_def)

lemma draft_session:
  "(session_step show_nat list_rope {UntitledKey 1})\<^sup>*\<^sup>* (no_docs, recovery_new, [])
     (insert_doc (UntitledKey 1) draft no_docs, recovery_new, [])"
  "fresh_session show_nat (no_docs, recovery_new, [])"
  "get_doc (UntitledKey 1) (insert_doc (UntitledKey 1) draft no_docs) = Some draft"
  by (rule r_into_rtranclp, rule opens)
    (simp_all add: recovery_new_def draft_inv fresh_session_def no_docs_def folder_ok_def get_doc_def insert_doc_def)


text \<open>C6: A draft never saved comes back. When a session ends with a flush and the next one starts
  on the folder it left, with a layout that still shows the panel, the panel's editor opens with
  the text the draft had, and the history it gets fits that text.\<close>

theorem unsaved_work_returns:
  assumes "rope_contract R" "inj_on (record_file_name I) K" "fresh_session I st"
    and "(session_step I R K)\<^sup>*\<^sup>* st (ds, rv, fo)"
    and "recovery_tick I R now persist True ds rv = (rv', nxt)"
    and "get_doc (UntitledKey p) ds = Some doc" "unsaved R doc" "doc_path doc = None"
    and "UntitledKey p \<in> set (shown_documents F rules dk ls)" "doc_entries ds0 = []"
    and "start_recovery I accepts F rules dk persist' ls (drained R rv' fo) ds0 = ((rv1, ds1), fo1)"
  shows "\<exists>doc'. get_doc (UntitledKey p) (snd (ensure_untitled R p eol ds1)) = Some doc'
    \<and> doc_text R (buf doc') = doc_text R (buf doc) \<and> doc_inv R (buf doc')"
proof -
  have ok: "recovery_ok I R K (ds, rv, fo)" using session_recovery_ok assms(2-4) by blast
  have k: "(UntitledKey p, doc) \<in> set (doc_entries ds)" using assms(6) by (simp add: get_doc_def map_of_SomeD)
  have "folder_ok I (drained R rv' fo)"
    using recovery_tick_ok(1) [OF ok assms(2,5)] by (simp add: recovery_ok_def)
  moreover have "good_at I R (UntitledKey p) doc (drained R rv' fo)"
    using recovery_tick_ok(2) [OF ok assms(2,5) _ k assms(7)] by simp
  moreover have "doc_inv R (buf doc)" using ok k by (auto simp: recovery_ok_def entries_ok_def)
  ultimately obtain doc' ds' where "ensure_untitled R p eol ds1 = (UntitledKey p, ds')"
    "get_doc (UntitledKey p) ds' = Some doc'" "doc_text R (buf doc') = doc_text R (buf doc)"
    "doc_inv R (buf doc')"
    using rope_contract.untitled_comes_back [OF assms(1) _ _ assms(8) _ assms(9-11)] by blast
  then show ?thesis by simp
qed

definition blank_disk :: disk where
  "blank_disk = \<lparr>dk_files = (\<lambda>_. None), dk_location = (\<lambda>p. p), dk_stat_error = (\<lambda>_. None),
     dk_read_error = (\<lambda>_. None), dk_write_error = (\<lambda>_. None), dk_clock = None\<rparr>"

definition draft_layout :: layout where
  "draft_layout = add_tab 1 2 3 (Editor \<lparr>ed_path = None\<rparr>)
     \<lparr>l_version = LAYOUT_SCHEMA_VERSION, l_tabs = [], active_tab = None, panels = [], away = []\<rparr>"

lemma draft_shown: "UntitledKey 1 \<in> set (shown_documents ascii_folding LINUX blank_disk [draft_layout])"
  by (simp add: shown_documents_def draft_layout_def add_tab_def push_tab_def new_panel_def panel_key_def
      List.map_filter_def Let_def)

theorem unsaved_work_returns_witness:
  "\<exists>doc'. get_doc (UntitledKey 1) (snd (ensure_untitled list_rope 1 Lf (snd (fst (start_recovery show_nat accepts
        ascii_folding LINUX blank_disk True [draft_layout]
        (drained list_rope (fst (recovery_tick show_nat list_rope 0 True True
           (insert_doc (UntitledKey 1) draft no_docs) recovery_new)) []) no_docs))))) = Some doc'
    \<and> doc_text list_rope (buf doc') = [104, 105] \<and> doc_inv list_rope (buf doc')"
proof -
  let ?fo = "drained list_rope (fst (recovery_tick show_nat list_rope 0 True True
      (insert_doc (UntitledKey 1) draft no_docs) recovery_new)) []"
  obtain rv1 ds1 fo1 where s: "start_recovery show_nat accepts ascii_folding LINUX blank_disk True [draft_layout]
      ?fo (no_docs :: rstring documents) = ((rv1, ds1), fo1)"
    by (metis surj_pair)
  have "doc_entries no_docs = []" by (simp add: no_docs_def)
  then show ?thesis
    using unsaved_work_returns [OF list_rope_contract _ draft_session(2,1) surjective_pairing draft_session(3)
        draft_unsaved(1,3) draft_shown _ s]
    unfolding s draft_unsaved by simp
qed

text \<open>C38: The version numbers the rounds compare can repeat. A document written while its file was
  deleted is noted one version ahead of its own; when the file comes back and the next edit makes
  that version, the edit is taken as already written: even a flush sends nothing for it.\<close>

theorem version_repeats:
  assumes "on_disk doc = Deleted" "doc' = doc\<lparr>buf := b, on_disk := Changed\<rparr>" "version b = version (buf doc) + 1"
    and "unsaved R doc'"
    and "recovery_tick I R now persist True (insert_doc k doc no_docs) recovery_new = (rv1, nxt1)"
    and "recovery_tick I R later persist True (insert_doc k doc' no_docs) rv1 = (rv2, nxt2)"
  shows "rv_queue rv2 = rv_queue rv1 @ [FlushJob] \<and> drained R rv2 fo = drained R rv1 fo"
proof -
  have "fst (document_dirty R doc)"
    using assms(1) by (simp add: document_dirty_def buf_dirty_def split: prod.split)
  then have "rv_written rv1 = [(k, version (buf doc) + 1)]"
    using assms(5,1)
    by (auto simp: recovery_tick_def insert_doc_def no_docs_def recovery_new_def tick_doc_def unsaved_def
        changed_since_def send_job_def tick_version_def Let_def)
  then show ?thesis
    using assms(2-4,6)
    by (auto simp: recovery_tick_def insert_doc_def no_docs_def tick_doc_def tick_version_def send_job_def
        drained_def Let_def)
qed

definition lost_edit :: "rstring document" where
  "lost_edit = draft\<lparr>buf := (buf draft)\<lparr>rope := [104, 105, 33], version := version (buf draft) + 1, dirty := None\<rparr>,
     on_disk := Changed\<rparr>"

theorem version_repeats_witness:
  "\<exists>rv1 rv2 nxt1 nxt2.
     recovery_tick show_nat list_rope 0 True True
       (insert_doc (UntitledKey 1) (draft\<lparr>on_disk := Deleted\<rparr>) no_docs) recovery_new = (rv1, nxt1)
     \<and> recovery_tick show_nat list_rope 9 True True (insert_doc (UntitledKey 1) lost_edit no_docs) rv1 = (rv2, nxt2)
     \<and> unsaved list_rope lost_edit \<and> drained list_rope rv2 [] = drained list_rope rv1 []"
proof -
  obtain rv1 nxt1 where 1: "recovery_tick show_nat list_rope 0 True True
      (insert_doc (UntitledKey 1) (draft\<lparr>on_disk := Deleted\<rparr>) no_docs) recovery_new = (rv1, nxt1)"
    by fastforce
  obtain rv2 nxt2 where 2: "recovery_tick show_nat list_rope 9 True True
      (insert_doc (UntitledKey 1) lost_edit no_docs) rv1 = (rv2, nxt2)"
    by fastforce
  have u: "unsaved list_rope lost_edit"
    by (simp add: lost_edit_def draft_def unsaved_def document_dirty_def buf_dirty_def is_dirty_def restore_text_def
        restore_unsaved_def untitled_def doc_new_def Let_def)
  show ?thesis
    using version_repeats [OF _ _ _ u 1 2, of "buf lost_edit" "[]"] 1 2 u
    by (auto simp: lost_edit_def)
qed

text \<open>C37: A failed open forgets what was recovered. When a file with recovered edits cannot be read
  (but is there), the editor shows the error; once it can be read, Retry opens the file as it is on
  disk, the edits gone, and the next round deletes their record.\<close>

theorem retry_forgets_recovered:
  assumes "ensure_file R U F rules dk p m eol ds = (Inl e, ds1)" "doc_entries ds = []"
    and "map_of (doc_languages ds) (key_for F rules dk' p) = None"
    and "key_for F rules dk' p = key_for F rules dk p"
    and "open_document R U dk' p m eol = Inr doc"
    and "rope_contract R" "key_for F rules dk p \<in> set (rv_adopted rv)" "rv_written rv = []"
  shows "\<exists>ds2. ensure_file R U F rules dk' p m eol ds1 = (Inr (key_for F rules dk p), ds2)
    \<and> get_doc (key_for F rules dk p) ds2 = Some doc
    \<and> map_of (drained R (fst (recovery_tick I R now persist flush ds2 rv)) fo)
        (record_file_name I (key_for F rules dk p)) = None"
proof -
  let ?k = "key_for F rules dk p"
  have ds1: "doc_entries ds1 = []" "map_of (doc_recovered ds1) ?k = None" "doc_languages ds1 = doc_languages ds"
    using assms(1,2)
    by (auto simp: ensure_file_def take_recovered_def get_doc_def delete_conv' Let_def
        split: prod.splits sum.splits if_splits)
  then have e: "ensure_file R U F rules dk' p m eol ds1 = (Inr ?k, insert_doc ?k doc (snd (take_recovered ?k ds1)))"
    using assms(3-5) by (simp add: ensure_file_def get_doc_def take_recovered_def Let_def)
  have "doc = (untitled R eol)\<lparr>doc_indent := doc_indent doc, buf := buf doc, doc_format := doc_format doc,
      doc_stamp := doc_stamp doc, doc_path := Some p\<rparr>" "\<exists>t. buf doc = doc_new R t"
    using assms(5) by (auto simp: open_document_def split: sum.splits)
  then have "\<not> unsaved R doc"
    using rope_contract.rope_eq_text [OF assms(6)]
    by (auto simp: unsaved_def document_dirty_def buf_dirty_def is_dirty_def doc_new_def untitled_def Let_def
        dest: arg_cong [of _ _ on_disk])
  then have "map_of (drained R (fst (recovery_tick I R now persist flush
      (insert_doc ?k doc (snd (take_recovered ?k ds1))) rv)) fo) (record_file_name I ?k) = None"
    using ds1(1) assms(7,8)
    by (auto simp: recovery_tick_def insert_doc_def take_recovered_def tick_doc_def tick_clean_def send_job_def
        drained_def remove_file_def delete_conv' Let_def)
  then show ?thesis using e by (simp add: get_doc_def insert_doc_def update_conv')
qed

definition note_disk :: disk where
  "note_disk = blank_disk\<lparr>dk_files := (\<lambda>p. if p = lit ''/n'' then Some \<lparr>df_bytes = [0x61], df_modified = None\<rparr> else None)\<rparr>"

definition locked_disk :: disk where
  "locked_disk = note_disk\<lparr>dk_read_error := (\<lambda>p. Some \<lparr>e_kind = KPermissionDenied, e_text = []\<rparr>)\<rparr>"

definition note_docs :: "rstring documents" where
  "note_docs = no_docs\<lparr>doc_recovered := [(key_for ascii_folding LINUX note_disk (lit ''/n''),
     \<lparr>rr_format = 1, rr_path = Some (lit ''/n''), rr_untitled = None, rr_text = [98], rr_history = None,
      rr_language = None, rr_wrap = None\<rparr>)]\<rparr>"

theorem retry_forgets_recovered_witness:
  "\<exists>ds1 ds2 doc. ensure_file list_rope (\<lambda>_ _. None) ascii_folding LINUX locked_disk (lit ''/n'') 9 Lf note_docs
       = (Inl (OpenIo (describe_failure \<lparr>e_kind = KPermissionDenied, e_text = []\<rparr> OpRead (lit ''/n''))), ds1)
     \<and> ensure_file list_rope (\<lambda>_ _. None) ascii_folding LINUX note_disk (lit ''/n'') 9 Lf ds1
       = (Inr (key_for ascii_folding LINUX note_disk (lit ''/n'')), ds2)
     \<and> get_doc (key_for ascii_folding LINUX note_disk (lit ''/n'')) ds2 = Some doc"
proof -
  let ?U = "\<lambda>_ _. None" and ?p = "lit ''/n''"
  let ?k = "key_for ascii_folding LINUX note_disk ?p"
  have same: "key_for ascii_folding LINUX locked_disk ?p = ?k"
    by (simp add: key_for_def path_exists_def disk_stat_def locked_disk_def note_disk_def blank_disk_def)
  have "from_utf8 [0x61] = Inr [0x61]" using from_utf8_encoded [of "[0x61]"]
    by (simp add: utf8_def utf8_char_def to_byte_def is_scalar_def)
  then have "read_decoded ?U note_disk ?p 9 Lf =
      Inr (\<lparr>d_text = [0x61], d_format = \<lparr>tf_encoding = Utf8 False, tf_eol = Lf, tf_mixed = None\<rparr>\<rparr>, stamp_of note_disk ?p)"
    by (simp add: read_decoded_def disk_stat_def disk_read_def note_disk_def blank_disk_def decode_def read_raw_def
        decode_utf8_def BINARY_SNIFF_BYTES_def split_lines_def classify_def count_eol_def Let_def del: lit_Cons)
  then obtain doc where o: "open_document list_rope ?U note_disk ?p 9 Lf = Inr doc" by (simp add: open_document_def)
  obtain ds1 where l: "ensure_file list_rope ?U ascii_folding LINUX locked_disk ?p 9 Lf note_docs
      = (Inl (OpenIo (describe_failure \<lparr>e_kind = KPermissionDenied, e_text = []\<rparr> OpRead ?p)), ds1)"
    using same by (simp add: ensure_file_def get_doc_def note_docs_def no_docs_def open_document_def read_decoded_def
        path_exists_def disk_stat_def disk_read_def locked_disk_def note_disk_def blank_disk_def take_recovered_def
        Let_def del: lit_Cons)
  have "\<exists>ds2. ensure_file list_rope ?U ascii_folding LINUX note_disk ?p 9 Lf ds1 = (Inr ?k, ds2) \<and> get_doc ?k ds2 = Some doc"
    using retry_forgets_recovered [OF l, where dk' = note_disk and doc = doc and rv = "adopt ?k recovery_new"
        and I = show_nat and now = 0 and persist = True and flush = True and fo = "[]"] o same list_rope_contract
    by (auto simp: note_docs_def no_docs_def adopt_def recovery_new_def)
  then show ?thesis using l by blast
qed

section \<open>Files on disk\<close>

text \<open>C7: The disk never overwrites unsaved edits. Whatever a change notification finds -- the file
  changed, deleted, back again, unreadable -- a buffer whose text differs from what was last loaded
  or saved keeps its text and history; a clean one follows a file that changed.\<close>

theorem disk_never_overwrites_edits:
  assumes "rope_contract R" "doc_inv R (buf doc)"
  shows "(doc_text R (buf doc) \<noteq> to_string R (saved (buf doc)) \<longrightarrow>
        doc_text R (buf (check_disk R U dk m doc)) = doc_text R (buf doc)
        \<and> doc_history (buf (check_disk R U dk m doc)) = doc_history (buf doc))
    \<and> (doc_text R (buf doc) = to_string R (saved (buf doc)) \<longrightarrow> doc_path doc = Some p \<longrightarrow>
        stamp_of dk p = Some st \<longrightarrow> Some st \<noteq> doc_stamp doc \<longrightarrow>
        read_decoded U dk p m (tf_eol (doc_format doc)) = Inr (fresh, st') \<longrightarrow>
        doc_text R (buf (check_disk R U dk m doc)) = d_text fresh
        \<and> on_disk (check_disk R U dk m doc) = InSync)"
proof (intro conjI impI)
  show "doc_text R (buf (check_disk R U dk m doc)) = doc_text R (buf doc)"
    "doc_history (buf (check_disk R U dk m doc)) = doc_history (buf doc)"
    if "doc_text R (buf doc) \<noteq> to_string R (saved (buf doc))"
    by (rule rope_contract.check_disk_cases [OF assms refl, of U dk m]; use that in \<open>simp add: doc_text_def\<close>)+
next
  assume t: "doc_text R (buf doc) = to_string R (saved (buf doc))" and p: "doc_path doc = Some p"
    "stamp_of dk p = Some st" "Some st \<noteq> doc_stamp doc"
    "read_decoded U dk p m (tf_eol (doc_format doc)) = Inr (fresh, st')"
  let ?doc = "doc\<lparr>doc_stamp := st'\<rparr>"
  obtain b dd where b: "buf_dirty R ?doc = (b, dd)" by fastforce
  note f = rope_contract.buf_dirty_fields [OF assms(1) b]
  have "\<not> b" "rope (buf dd) = rope (buf doc)" using f assms(2) t by simp_all
  then show "doc_text R (buf (check_disk R U dk m doc)) = d_text fresh"
    "on_disk (check_disk R U dk m doc) = InSync"
    using p b t rope_contract.text_from_str [OF assms(1)]
    by (auto simp: check_disk_def reload_from_def doc_reset_def doc_text_def Let_def)
qed

theorem disk_never_overwrites_edits_witness:
  "doc_text list_rope (buf (check_disk list_rope (\<lambda>_ _. None) blank_disk 9 (draft\<lparr>doc_path := Some (lit ''/n'')\<rparr>))) = [104, 105]"
proof -
  let ?doc = "draft\<lparr>doc_path := Some (lit ''/n'')\<rparr>"
  have d: "doc_text list_rope (buf ?doc) = [104, 105]" "to_string list_rope (saved (buf ?doc)) = []"
    by (simp_all add: draft_def restore_text_def restore_unsaved_def untitled_def doc_new_def doc_text_def Let_def
        del: lit_Cons)
  have "doc_inv list_rope (buf ?doc)" using draft_inv by simp
  then have "doc_text list_rope (buf (check_disk list_rope (\<lambda>_ _. None) blank_disk 9 ?doc)) = doc_text list_rope (buf ?doc)"
    using disk_never_overwrites_edits [OF list_rope_contract, of ?doc] d by (simp del: lit_Cons)
  then show ?thesis using d by simp
qed



text \<open>C39: In a file of mixed endings an edit can merge two lines on disk. Emptying the second line of
  \<open>a\<close> CR \<open>x\<close> LF \<open>b\<close> LF leaves \<open>a\<close> its CR and gives the empty line the dominant LF: side by side
  they are one CR LF, and the file opens with the empty line gone.\<close>

theorem mixed_endings_merge:
  assumes "D [[97], [120], [98]] [[97], [], [98]] = [DiffEqual 0 0 1, DiffOther, DiffEqual 2 2 1]"
  shows "\<exists>fm d. decode U [97, 13, 120, 10, 98, 10] Lf = Inr \<lparr>d_text = [97, 10, 120, 10, 98, 10], d_format = fm\<rparr>
    \<and> decode U (encode D [97, 10, 10, 98, 10] fm) Lf = Inr d \<and> d_text d = [97, 10, 98, 10]"
proof -
  let ?fm = "\<lparr>tf_encoding = Utf8 False, tf_eol = Lf, tf_mixed = Some [([97], Some Cr), ([120], Some Lf), ([98], Some Lf)]\<rparr>"
  have u: "from_utf8 [97, 13, 120, 10, 98, 10] = Inr [97, 13, 120, 10, 98, 10]"
    "from_utf8 [97, 13, 10, 98, 10] = Inr [97, 13, 10, 98, 10]"
    using from_utf8_encoded [of "[97, 13, 120, 10, 98, 10]"] from_utf8_encoded [of "[97, 13, 10, 98, 10]"]
    by (simp_all add: utf8_def utf8_char_def to_byte_def is_scalar_def)
  have "decode U [97, 13, 120, 10, 98, 10] Lf = Inr \<lparr>d_text = [97, 10, 120, 10, 98, 10], d_format = ?fm\<rparr>"
    using u by (simp add: decode_def read_raw_def decode_utf8_def BINARY_SNIFF_BYTES_def split_lines_def classify_def
        count_eol_def Let_def)
  moreover have "encode D [97, 10, 10, 98, 10] ?fm = [97, 13, 10, 98, 10]"
    using assms by (simp add: encode_def new_lines_def encode_raw_def ends_with_def utf8_def utf8_char_def to_byte_def
        numeral_eq_Suc Let_def)
  moreover have "decode U [97, 13, 10, 98, 10] Lf = Inr \<lparr>d_text = [97, 10, 98, 10],
      d_format = \<lparr>tf_encoding = Utf8 False, tf_eol = Lf, tf_mixed = Some [([97], Some CrLf), ([98], Some Lf)]\<rparr>\<rparr>"
    using u by (simp add: decode_def read_raw_def decode_utf8_def BINARY_SNIFF_BYTES_def split_lines_def classify_def
        count_eol_def Let_def)
  ultimately show ?thesis by auto
qed

theorem mixed_endings_merge_witness:
  "\<exists>fm d. decode (\<lambda>_ _. None) [97, 13, 120, 10, 98, 10] Lf = Inr \<lparr>d_text = [97, 10, 120, 10, 98, 10], d_format = fm\<rparr>
    \<and> decode (\<lambda>_ _. None) (encode (\<lambda>_ _. [DiffEqual 0 0 1, DiffOther, DiffEqual 2 2 1]) [97, 10, 10, 98, 10] fm) Lf = Inr d
    \<and> d_text d = [97, 10, 98, 10]"
  using mixed_endings_merge [of "\<lambda>_ _. [DiffEqual 0 0 1, DiffOther, DiffEqual 2 2 1]"] by simp

end
