(* ===== verification/Hub.thy ===== *)
theory Hub
  imports TermView "HOL-Library.AList"
begin

text \<open>
  Terminal panels and the daemon's sessions as the window keeps them
  (\<open>throng-app/src/term/hub.rs\<close>, and sending through \<open>Client\<close> of \<open>throng-daemon/src/client.rs\<close>).
  The hash maps are lists of entries, one for each key. The emulator, the process table and the
  file system are parameters: what the emulator raises when a view changes, what a shell runs, where
  it works, which paths are directories. Times are milliseconds.
\<close>

section \<open>The client\<close>

record client_link =
  cl_next_id :: nat
  cl_sent :: "client_msg list"

text \<open>A new connection numbers its requests from one.\<close>

definition client_new :: client_link where
  "client_new = \<lparr>cl_next_id = 1, cl_sent = []\<rparr>"

definition client_send :: "request \<Rightarrow> client_link \<Rightarrow> nat \<times> client_link" where
  "client_send r c =
     (cl_next_id c, c\<lparr>cl_next_id := cl_next_id c + 1, cl_sent := cl_sent c @ [Request (cl_next_id c) r]\<rparr>)"

definition client_post :: "request \<Rightarrow> client_link \<Rightarrow> client_link" where
  "client_post r c = c\<lparr>cl_sent := cl_sent c @ [Request NO_REPLY r]\<rparr>"

definition client_write :: "nat \<Rightarrow> byte list \<Rightarrow> client_link \<Rightarrow> client_link" where
  "client_write t data c = fold client_post (chunked_writes t data) c"

text \<open>With a connection, or without one.\<close>

definition post_to :: "request \<Rightarrow> client_link option \<Rightarrow> client_link option" where
  "post_to r c = map_option (client_post r) c"

datatype client_event =
  EvOutput nat "64 word" "byte list"
| EvExited nat exit_status
| EvResync nat
| EvReply nat "rstring + reply"
| EvDisconnected rstring

section \<open>The state\<close>

record spawn_plan =
  pl_project :: nat
  pl_label :: rstring
  pl_root :: path
  pl_config :: terminal_config

datatype pending_kind = PendingAttach | PendingSpawn

datatype hub_event =
  Ended nat terminal_config
| ShellFailed nat exit_status
| TitleChanged nat
| Clipboard rstring
| DirectoryChanged nat path
| Observed nat "rstring option"
| Captured nat

text \<open>What the emulator raises; the answers to its queries are in it, as text.\<close>

datatype term_event =
  TermReply rstring
| TermTitle rstring
| ResetTitle
| TermClipboard rstring
| Bell
| ColorQuery rstring
| SizeQuery rstring

record hub_view =
  hv_term :: terminal_view
  hv_pending :: "nat option"
  hv_title :: "rstring option"
  hv_label :: rstring
  hv_bell :: bool
  hv_shell_pid :: "nat option"

record hub =
  hb_views :: "(nat \<times> hub_view) list"
  hb_plans :: "(nat \<times> spawn_plan) list"
  hb_pending :: "(nat \<times> nat \<times> pending_kind) list"
  hb_shells :: "shell_info list"
  hb_default_shell :: "rstring option"
  hb_remember_directory :: bool
  hb_listing :: "nat option"
  hb_listed_at :: "nat option"
  hb_closing :: bool
  hb_dormant :: "nat list"
  hb_queued :: "hub_event list"
  hb_killed :: "nat list"

record hub_host =
  hh_folding :: folding
  hh_rules :: path_rules
  hh_is_dir :: "path \<Rightarrow> bool"
  hh_env :: "(rstring \<times> rstring) list"
  hh_hostname :: "rstring option"
  hh_running :: "nat \<Rightarrow> rstring option"
  hh_working_directory :: "nat \<Rightarrow> path option"
  hh_emulator :: "terminal_view \<Rightarrow> terminal_view \<Rightarrow> term_event list"

definition DIRECTORY_POLL :: nat where "DIRECTORY_POLL = 1500"

definition hub_new :: "shell_info list \<Rightarrow> rstring option \<Rightarrow> hub" where
  "hub_new shells default_shell =
     \<lparr>hb_views = [], hb_plans = [], hb_pending = [], hb_shells = shells, hb_default_shell = default_shell,
      hb_remember_directory = False, hb_listing = None, hb_listed_at = None, hb_closing = False,
      hb_dormant = [], hb_queued = [], hb_killed = []\<rparr>"

definition get_view :: "nat \<Rightarrow> hub \<Rightarrow> hub_view option" where
  "get_view p h = map_of (hb_views h) p"

definition set_view :: "nat \<Rightarrow> hub_view \<Rightarrow> hub \<Rightarrow> hub" where
  "set_view p v h = h\<lparr>hb_views := AList.update p v (hb_views h)\<rparr>"

definition set_status :: "status \<Rightarrow> hub_view \<Rightarrow> hub_view" where
  "set_status s v = v\<lparr>hv_term := (hv_term v)\<lparr>tv_status := s\<rparr>\<rparr>"

section \<open>Panels come and go\<close>

definition hub_prepare :: "nat \<Rightarrow> spawn_plan \<Rightarrow> hub \<Rightarrow> hub" where
  "hub_prepare p plan h =
     (let v = (case get_view p h of
                 Some v \<Rightarrow> v
               | None \<Rightarrow> \<lparr>hv_term = view_new, hv_pending = None, hv_title = None, hv_label = [],
                           hv_bell = False, hv_shell_pid = None\<rparr>)
      in set_view p (v\<lparr>hv_label := pl_label plan\<rparr>) (h\<lparr>hb_plans := AList.update p plan (hb_plans h)\<rparr>))"

text \<open>A request for the panel, noted in the view and in the hub.\<close>

definition hub_request ::
  "nat \<Rightarrow> pending_kind \<Rightarrow> request \<Rightarrow> hub_view \<Rightarrow> hub \<Rightarrow> client_link \<Rightarrow> hub \<times> client_link" where
  "hub_request p k r v h c =
     (case client_send r c of (i, c) \<Rightarrow>
        ((set_view p (v\<lparr>hv_pending := Some i\<rparr>) h)\<lparr>hb_pending := AList.update i (p, k) (hb_pending h)\<rparr>, c))"

definition attach_request :: "nat \<Rightarrow> hub_view \<Rightarrow> request" where
  "attach_request p v = (case tv_size (hv_term v) of (cols, rows) \<Rightarrow> Attach p cols rows)"

definition hub_connect :: "nat \<Rightarrow> hub \<Rightarrow> client_link option \<Rightarrow> hub \<times> client_link option" where
  "hub_connect p h c =
     (if hb_closing h then (h, c)
      else case (get_view p h, c) of
        (Some v, Some cl) \<Rightarrow>
          if tv_status (hv_term v) = Connecting \<and> hv_pending v = None then
            (case hub_request p PendingAttach (attach_request p v) v h cl of (h, cl) \<Rightarrow> (h, Some cl))
          else (h, c)
      | _ \<Rightarrow> (h, c))"

fun wants_attach :: "status \<Rightarrow> bool" where
  "wants_attach Running = True"
| "wants_attach Connecting = True"
| "wants_attach (Failed reason) = True"
| "wants_attach (HasExited st) = False"
| "wants_attach Dormant = False"

definition hub_reconnected :: "hub \<Rightarrow> hub" where
  "hub_reconnected h = h\<lparr>hb_pending := [],
     hb_views := map (\<lambda>(p, v). let v = v\<lparr>hv_pending := None\<rparr>
       in (p, if wants_attach (tv_status (hv_term v)) then set_status Connecting v else v)) (hb_views h)\<rparr>"

definition hub_disconnected :: "hub \<Rightarrow> hub" where
  "hub_disconnected h = h\<lparr>hb_pending := [],
     hb_views := map (\<lambda>(p, v). (p, v\<lparr>hv_pending := None\<rparr>)) (hb_views h)\<rparr>"

definition hub_forget_view :: "nat \<Rightarrow> hub \<Rightarrow> client_link option \<Rightarrow> hub \<times> client_link option" where
  "hub_forget_view p h c =
     (h\<lparr>hb_views := AList.delete p (hb_views h), hb_plans := AList.delete p (hb_plans h)\<rparr>,
      if get_view p h \<noteq> None then post_to (Detach p) c else c)"

definition keep_dormant :: "nat list \<Rightarrow> hub \<Rightarrow> hub" where
  "keep_dormant ps h = h\<lparr>hb_dormant := fold List.insert ps (hb_dormant h)\<rparr>"

definition is_dormant :: "nat \<Rightarrow> hub \<Rightarrow> bool" where
  "is_dormant p h \<longleftrightarrow> (case get_view p h of None \<Rightarrow> False | Some v \<Rightarrow> tv_status (hv_term v) = Dormant)"

definition take_queued :: "hub \<Rightarrow> hub_event list \<times> hub" where
  "take_queued h = (hb_queued h, h\<lparr>hb_queued := []\<rparr>)"

definition observe_now :: "hub_host \<Rightarrow> nat \<Rightarrow> hub \<Rightarrow> rstring option option" where
  "observe_now H p h =
     (case Option.bind (get_view p h) hv_shell_pid of None \<Rightarrow> None | Some shell_id \<Rightarrow> Some (hh_running H shell_id))"

definition hub_kill :: "nat \<Rightarrow> hub \<Rightarrow> client_link option \<Rightarrow> hub \<times> client_link option" where
  "hub_kill p h c =
     (h\<lparr>hb_killed := List.insert p (hb_killed h), hb_views := AList.delete p (hb_views h),
        hb_plans := AList.delete p (hb_plans h)\<rparr>, post_to (Kill p) c)"

section \<open>Starting a shell\<close>

definition choose_shell :: "shell_info list \<Rightarrow> rstring option \<Rightarrow> shell_info option" where
  "choose_shell shells preferred =
     (case Option.bind preferred (\<lambda>i. find (\<lambda>s. si_id s = i) shells) of
        Some s \<Rightarrow> Some s
      | None \<Rightarrow> (case shells of [] \<Rightarrow> None | s # _ \<Rightarrow> Some s))"

definition spawn_request :: "hub_host \<Rightarrow> nat \<Rightarrow> spawn_plan \<Rightarrow> shell_info \<Rightarrow> hub_view \<Rightarrow> hub \<Rightarrow> request" where
  "spawn_request H p plan sh v h =
     (case tv_size (hv_term v) of (cols, rows) \<Rightarrow>
        Spawn \<lparr>sp_terminal = p, sp_project = pl_project plan, sp_label = pl_label plan,
          sp_program = si_program sh, sp_args = si_args sh @ t_args (pl_config plan),
          sp_cwd = start_directory (hh_folding H) (pl_config plan) (pl_root plan) (hb_remember_directory h)
                     (hh_rules H) (hh_is_dir H),
          sp_env = filter (\<lambda>(k, x). \<not> is_private_env_var k) (hh_env H),
          sp_cols = cols, sp_rows = rows, sp_startup = startup_command (pl_config plan),
          sp_admin = run_as_admin (pl_config plan)\<rparr>)"

definition hub_spawn :: "hub_host \<Rightarrow> nat \<Rightarrow> hub \<Rightarrow> client_link \<Rightarrow> hub \<times> client_link" where
  "hub_spawn H p h c =
     (if hb_closing h then (h, c)
      else case map_of (hb_plans h) p of
        None \<Rightarrow> (h, c)
      | Some plan \<Rightarrow>
          (case capture (pl_config plan) of (captured, config) \<Rightarrow>
             let plan = plan\<lparr>pl_config := config\<rparr>;
                 h = h\<lparr>hb_plans := AList.update p plan (hb_plans h),
                       hb_queued := (if captured then hb_queued h @ [Captured p] else hb_queued h)\<rparr>
             in case get_view p h of
                  None \<Rightarrow> (h, c)
                | Some v \<Rightarrow>
                    (case choose_shell (hb_shells h)
                        (case t_shell config of Some s \<Rightarrow> Some s | None \<Rightarrow> hb_default_shell h) of
                       None \<Rightarrow> (set_view p (set_status (Failed (lit ''No shell was found on this system.'')) v) h, c)
                     | Some sh \<Rightarrow>
                         hub_request p PendingSpawn (spawn_request H p plan sh v h) (set_status Connecting v) h c)))"

definition hub_restart :: "hub_host \<Rightarrow> nat \<Rightarrow> hub \<Rightarrow> client_link option \<Rightarrow> hub \<times> client_link option" where
  "hub_restart H p h c =
     (let h = h\<lparr>hb_dormant := removeAll p (hb_dormant h)\<rparr>;
          c = post_to (Forget p) c;
          h = (case get_view p h of
                 None \<Rightarrow> h | Some v \<Rightarrow> set_view p ((set_status Connecting v)\<lparr>hv_pending := None\<rparr>) h)
      in case c of
           None \<Rightarrow> (h, None)
         | Some cl \<Rightarrow> (case hub_spawn H p h cl of (h, cl) \<Rightarrow> (h, Some cl)))"

definition poll_directories :: "nat \<Rightarrow> hub \<Rightarrow> client_link option \<Rightarrow> nat option \<times> hub \<times> client_link option" where
  "poll_directories now h c =
     (case c of
        None \<Rightarrow> (None, h, None)
      | Some cl \<Rightarrow>
          if \<not> list_ex (\<lambda>(p, v). tv_status (hv_term v) = Running) (hb_views h) then (None, h, c)
          else if hb_listing h = None
                  \<and> (case hb_listed_at h of None \<Rightarrow> True | Some at_ms \<Rightarrow> now - at_ms \<ge> DIRECTORY_POLL) then
            (case client_send ListTerminals cl of (i, cl) \<Rightarrow>
               (Some DIRECTORY_POLL, h\<lparr>hb_listing := Some i, hb_listed_at := Some now\<rparr>, Some cl))
          else (Some DIRECTORY_POLL, h, c))"

section \<open>What the daemon says\<close>

text \<open>Query answers go to the shell; titles and clipboard writes go to the app.\<close>

definition emulator_event ::
  "nat \<Rightarrow> term_event \<Rightarrow> hub_view \<times> client_link option \<times> hub_event list
   \<Rightarrow> hub_view \<times> client_link option \<times> hub_event list" where
  "emulator_event p e st =
     (case st of (v, c, out) \<Rightarrow>
        let answer = (\<lambda>t. (v, map_option (client_write p (utf8 t)) c, out))
        in case e of
             TermReply t \<Rightarrow> answer t
           | TermTitle t \<Rightarrow> (v\<lparr>hv_title := Some t\<rparr>, c, out @ [TitleChanged p])
           | ResetTitle \<Rightarrow> (v\<lparr>hv_title := None\<rparr>, c, out @ [TitleChanged p])
           | TermClipboard t \<Rightarrow> (v, c, out @ [Clipboard t])
           | Bell \<Rightarrow> (v\<lparr>hv_bell := True\<rparr>, c, out)
           | ColorQuery t \<Rightarrow> answer t
           | SizeQuery t \<Rightarrow> answer t)"

definition settle_view :: "nat \<Rightarrow> hub_view \<Rightarrow> hub_view \<times> hub_event list" where
  "settle_view p v =
     (case settle_directory (hv_term v) of
        (dir, t) \<Rightarrow> (v\<lparr>hv_term := t\<rparr>, case dir of None \<Rightarrow> [] | Some d \<Rightarrow> [DirectoryChanged p d]))"

definition hub_exited ::
  "nat \<Rightarrow> exit_status \<Rightarrow> hub \<Rightarrow> client_link option \<Rightarrow> hub_event list
   \<Rightarrow> hub \<times> client_link option \<times> hub_event list" where
  "hub_exited p st h c out =
     (if get_view p h = None \<and> map_of (hb_plans h) p = None then (h, c, out)
      else
        (let (h, out) =
               (case map_of (hb_plans h) p of
                  None \<Rightarrow> (h, out)
                | Some plan \<Rightarrow>
                    (if running_cmd (pl_config plan) \<noteq> None then
                       (h\<lparr>hb_plans := AList.update p (plan\<lparr>pl_config := (pl_config plan)\<lparr>running_cmd := None\<rparr>\<rparr>)
                                     (hb_plans h)\<rparr>, out @ [Observed p None])
                     else (h, out)))
         in if should_surface_exit st then
              ((case get_view p h of None \<Rightarrow> h | Some v \<Rightarrow> set_view p (set_status (HasExited st) v) h),
               c, out @ [ShellFailed p st])
            else
              (h\<lparr>hb_views := AList.delete p (hb_views h), hb_plans := AList.delete p (hb_plans h)\<rparr>,
               post_to (Forget p) c,
               out @ [Ended p (case map_of (hb_plans h) p of None \<Rightarrow> terminal_default | Some plan \<Rightarrow> pl_config plan)])))"

text \<open>One terminal of a \<open>List\<close> reply.\<close>

definition listed_terminal :: "hub_host \<Rightarrow> terminal_info \<Rightarrow> hub \<times> hub_event list \<Rightarrow> hub \<times> hub_event list" where
  "listed_terminal H info st =
     (case st of (h, out) \<Rightarrow>
        (case get_view (tinf_terminal info) h of
           None \<Rightarrow> (h, out)
         | Some v \<Rightarrow>
             (let p = tinf_terminal info;
                  shell_id = (if tinf_exited info = None then tinf_pid info else None);
                  v = v\<lparr>hv_shell_pid := shell_id,
                        hv_term := (hv_term v)\<lparr>tv_process_cwd := Option.bind shell_id (hh_working_directory H)\<rparr>\<rparr>;
                  (v, dirs) = settle_view p v;
                  h = set_view p v h;
                  seen = (case (shell_id, map_of (hb_plans h) p) of
                            (Some n, Some plan) \<Rightarrow>
                              if remember_command (pl_config plan) \<and> running_cmd (pl_config plan) \<noteq> hh_running H n
                              then [Observed p (hh_running H n)] else []
                          | _ \<Rightarrow> [])
              in (h, out @ dirs @ seen))))"

text \<open>The answer to a view's request.\<close>

definition hub_answered ::
  "hub_host \<Rightarrow> nat \<Rightarrow> pending_kind \<Rightarrow> rstring + reply \<Rightarrow> hub_view \<Rightarrow> hub \<Rightarrow> client_link option
   \<Rightarrow> hub \<times> client_link option \<times> hub_event list" where
  "hub_answered H p kind result v h c =
     (case result of
        Inr (SnapshotReply sn) \<Rightarrow>
          (let h = set_view p (v\<lparr>hv_term := apply_snapshot (hh_hostname H) sn (hv_term v)\<rparr>) h
           in case sn_exited sn of
                None \<Rightarrow> (h, c, [])
              | Some st \<Rightarrow> hub_exited p st h c [])
      | Inr r \<Rightarrow> (h, c, [])
      | Inl message \<Rightarrow>
          if kind = PendingAttach \<and> message = NO_SUCH_TERMINAL then
            (if p \<in> set (hb_dormant h) then (set_view p (set_status Dormant v) h, c, [])
             else case c of
                    None \<Rightarrow> (h, c, [])
                  | Some cl \<Rightarrow> (case hub_spawn H p h cl of (h, cl) \<Rightarrow> (h, Some cl, [])))
          else (set_view p (set_status (Failed message) v) h, c, []))"

definition hub_reply ::
  "hub_host \<Rightarrow> nat \<Rightarrow> rstring + reply \<Rightarrow> hub \<Rightarrow> client_link option \<Rightarrow> hub \<times> client_link option \<times> hub_event list" where
  "hub_reply H i result h c =
     (case map_of (hb_pending h) i of
        None \<Rightarrow> (h, c, [])
      | Some (p, kind) \<Rightarrow>
          (let h = h\<lparr>hb_pending := AList.delete i (hb_pending h)\<rparr>
           in case get_view p h of
                None \<Rightarrow> (h, c, [])
              | Some v \<Rightarrow>
                  (let v = v\<lparr>hv_pending := None\<rparr>
                   in hub_answered H p kind result v (set_view p v h) c)))"

definition hub_event_body ::
  "hub_host \<Rightarrow> client_event \<Rightarrow> hub \<Rightarrow> client_link option \<Rightarrow> hub \<times> client_link option \<times> hub_event list" where
  "hub_event_body H e h c =
     (case e of
        EvOutput p offset data \<Rightarrow>
          (case get_view p h of
             None \<Rightarrow> (h, c, [])
           | Some v \<Rightarrow>
               (let t = feed (hh_hostname H) offset data (hv_term v);
                    (v, c, out) = fold (emulator_event p) (hh_emulator H (hv_term v) t) (v\<lparr>hv_term := t\<rparr>, c, []);
                    (v, dirs) = settle_view p v
                in (set_view p v h, c, out @ dirs)))
      | EvExited p st \<Rightarrow>
          if user_killed st \<and> p \<in> set (hb_killed h) then (h\<lparr>hb_killed := removeAll p (hb_killed h)\<rparr>, c, [])
          else hub_exited p st h c []
      | EvResync p \<Rightarrow>
          (case (get_view p h, c) of
             (Some v, Some cl) \<Rightarrow>
               (case hub_request p PendingAttach (attach_request p v) v h cl of (h, cl) \<Rightarrow> (h, Some cl, []))
           | _ \<Rightarrow> (h, c, []))
      | EvReply i result \<Rightarrow>
          if hb_listing h = Some i then
            (let h = h\<lparr>hb_listing := None\<rparr>
             in case result of
                  Inr (Terminals infos) \<Rightarrow> (case fold (listed_terminal H) infos (h, []) of (h, out) \<Rightarrow> (h, c, out))
                | _ \<Rightarrow> (h, c, []))
          else hub_reply H i result h c
      | EvDisconnected reason \<Rightarrow> (h, c, []))"

text \<open>A reply to a request nobody waits for, or to a panel without a view, leaves at once.\<close>

definition leaves_early :: "client_event \<Rightarrow> hub \<Rightarrow> bool" where
  "leaves_early e h \<longleftrightarrow>
     (case e of
        EvReply i result \<Rightarrow>
          hb_listing h \<noteq> Some i
          \<and> (case map_of (hb_pending h) i of None \<Rightarrow> True | Some (p, k) \<Rightarrow> get_view p h = None)
      | _ \<Rightarrow> False)"

definition on_daemon_event ::
  "hub_host \<Rightarrow> client_event \<Rightarrow> hub \<Rightarrow> client_link option \<Rightarrow> hub_event list \<times> hub \<times> client_link option" where
  "on_daemon_event H e h c =
     (case hub_event_body H e h c of
        (h', c', out) \<Rightarrow>
          if leaves_early e h then (out, h', c')
          else (out @ hb_queued h', h'\<lparr>hb_queued := []\<rparr>, c'))"

end
