(* ===== verification/HubInv.thy ===== *)
theory HubInv
  imports Hub
begin

text \<open>
  What the hub keeps through everything that happens to it: a view that waits, waits for a request
  sent on the connection it has; and while the window closes no shell is started.
\<close>

section \<open>Steps that ask for nothing\<close>

text \<open>The shells a connection was asked to start.\<close>

fun is_spawn :: "client_msg \<Rightarrow> bool" where
  "is_spawn (Request i (Spawn sp)) = True"
| "is_spawn m = False"

definition starts :: "client_link option \<Rightarrow> client_msg list" where
  "starts c = (case c of None \<Rightarrow> [] | Some cl \<Rightarrow> filter is_spawn (cl_sent cl))"

definition link_grows :: "client_link option \<Rightarrow> client_link option \<Rightarrow> bool" where
  "link_grows c c' \<longleftrightarrow> (case (c, c') of
     (Some cl, Some cl') \<Rightarrow> cl_next_id cl \<le> cl_next_id cl' \<and> set (cl_sent cl) \<subseteq> set (cl_sent cl')
   | (None, None) \<Rightarrow> True | _ \<Rightarrow> False)"

lemma link_grows_refl [simp]: "link_grows c c"
  by (simp add: link_grows_def split: option.split)

lemma link_grows_trans: "link_grows a b \<Longrightarrow> link_grows b c \<Longrightarrow> link_grows a c"
  by (fastforce simp: link_grows_def split: option.splits)

definition calm :: "hub \<times> client_link option \<Rightarrow> hub \<times> client_link option \<Rightarrow> bool" where
  "calm s s' \<longleftrightarrow> (case (s, s') of ((h, c), (h', c')) \<Rightarrow>
     hb_pending h' = hb_pending h \<and> hb_closing h' = hb_closing h \<and> starts c' = starts c \<and> link_grows c c'
     \<and> (\<forall>p v' i. get_view p h' = Some v' \<longrightarrow> hv_pending v' = Some i \<longrightarrow>
          (\<exists>v. get_view p h = Some v \<and> hv_pending v = Some i)))"

lemma calm_refl [simp]: "calm s s"
  by (auto simp: calm_def split: prod.split)

lemma calmI:
  assumes "hb_pending h' = hb_pending h" "hb_closing h' = hb_closing h" "starts c' = starts c" "link_grows c c'"
    and "\<And>p v' i. get_view p h' = Some v' \<Longrightarrow> hv_pending v' = Some i \<Longrightarrow>
      \<exists>v. get_view p h = Some v \<and> hv_pending v = Some i"
  shows "calm (h, c) (h', c')"
  using assms by (simp add: calm_def)

lemma calmD:
  assumes "calm (h, c) (h', c')"
  shows "hb_pending h' = hb_pending h" "hb_closing h' = hb_closing h" "starts c' = starts c" "link_grows c c'"
    and "get_view p h' = Some v' \<Longrightarrow> hv_pending v' = Some i \<Longrightarrow>
      \<exists>v. get_view p h = Some v \<and> hv_pending v = Some i"
  using assms by (simp_all add: calm_def)

lemma calm_trans:
  assumes "calm (h1, c1) (h2, c2)" "calm (h2, c2) (h3, c3)"
  shows "calm (h1, c1) (h3, c3)"
proof (rule calmI)
  show "link_grows c1 c3" using calmD(4) [OF assms(1)] calmD(4) [OF assms(2)] by (rule link_grows_trans)
  show "\<exists>v. get_view p h1 = Some v \<and> hv_pending v = Some i"
    if "get_view p h3 = Some v'" "hv_pending v' = Some i" for p v' i
    using calmD(5) [OF assms(2) that] calmD(5) [OF assms(1)] by blast
qed (use calmD(1,2,3) [OF assms(1)] calmD(1,2,3) [OF assms(2)] in simp_all)

lemma post_starts:
  "\<not> is_spawn (Request NO_REPLY r) \<Longrightarrow> starts (post_to r c) = starts c"
  "link_grows c (post_to r c)"
  by (auto simp: starts_def post_to_def client_post_def link_grows_def split: option.split)

lemma write_starts:
  "starts (map_option (client_write p bs) c) = starts c"
  "link_grows c (map_option (client_write p bs) c)"
proof -
  have "\<forall>r \<in> set rs. \<not> is_spawn (Request NO_REPLY r) \<Longrightarrow>
      filter is_spawn (cl_sent (fold client_post rs cl)) = filter is_spawn (cl_sent cl)
      \<and> cl_next_id (fold client_post rs cl) = cl_next_id cl
      \<and> set (cl_sent cl) \<subseteq> set (cl_sent (fold client_post rs cl))" for rs cl
  proof (induction rs arbitrary: cl)
    case (Cons r rs)
    then show ?case using Cons.IH [of "client_post r cl"] by (auto simp: client_post_def)
  qed simp
  moreover have "\<forall>r \<in> set (chunked_writes p bs). \<not> is_spawn (Request NO_REPLY r)"
    by (auto simp: chunked_writes_def)
  ultimately show "starts (map_option (client_write p bs) c) = starts c"
    "link_grows c (map_option (client_write p bs) c)"
    by (auto simp: starts_def link_grows_def client_write_def split: option.split)
qed

lemma get_set_view: "get_view q (set_view p v h) = (if q = p then Some v else get_view q h)"
  by (simp add: get_view_def set_view_def update_conv')

lemma set_view_fields [simp]:
  "hb_pending (set_view p v h) = hb_pending h" "hb_closing (set_view p v h) = hb_closing h"
  "hb_plans (set_view p v h) = hb_plans h" "hb_queued (set_view p v h) = hb_queued h"
  "hb_listing (set_view p v h) = hb_listing h" "hb_killed (set_view p v h) = hb_killed h"
  by (simp_all add: set_view_def)

lemma set_status_fields [simp]: "hv_pending (set_status s v) = hv_pending v"
  by (simp add: set_status_def)

text \<open>Writing a view back with the request it had, or none.\<close>

lemma calm_set_view:
  assumes "\<And>i. hv_pending v' = Some i \<Longrightarrow> \<exists>v. get_view p h = Some v \<and> hv_pending v = Some i"
    and "starts c' = starts c" "link_grows c c'"
  shows "calm (h, c) (set_view p v' h, c')"
  using assms by (intro calmI) (auto simp: get_set_view split: if_splits)

text \<open>Changing what views and requests do not show.\<close>

lemma calm_fields:
  assumes "hb_pending h' = hb_pending h" "hb_closing h' = hb_closing h"
    and "\<And>p v. get_view p h' = Some v \<Longrightarrow> get_view p h = Some v"
    and "starts c' = starts c" "link_grows c c'"
  shows "calm (h, c) (h', c')"
  using assms by (intro calmI) blast+

lemma get_view_more [simp]:
  "get_view p (h\<lparr>hb_plans := x\<rparr>) = get_view p h" "get_view p (h\<lparr>hb_queued := q\<rparr>) = get_view p h"
  "get_view p (h\<lparr>hb_pending := z\<rparr>) = get_view p h" "get_view p (h\<lparr>hb_killed := ks\<rparr>) = get_view p h"
  "get_view p (h\<lparr>hb_dormant := ds\<rparr>) = get_view p h" "get_view p (h\<lparr>hb_listing := l\<rparr>) = get_view p h"
  "get_view p (h\<lparr>hb_listed_at := t\<rparr>) = get_view p h"
  by (simp_all add: get_view_def)

lemma get_view_delete: "get_view q (h\<lparr>hb_views := AList.delete p (hb_views h)\<rparr>) = (if q = p then None else get_view q h)"
  by (simp add: get_view_def delete_conv')

section \<open>Waiting views\<close>

fun request_for :: "nat \<Rightarrow> request \<Rightarrow> bool" where
  "request_for p (Attach t cols rows) = (t = p)"
| "request_for p (Spawn sp) = (sp_terminal sp = p)"
| "request_for p r = False"

definition hub_ok :: "hub \<times> client_link option \<Rightarrow> bool" where
  "hub_ok s \<longleftrightarrow> (case s of (h, c) \<Rightarrow>
     (\<forall>p v i. get_view p h = Some v \<longrightarrow> hv_pending v = Some i \<longrightarrow> (\<exists>k. map_of (hb_pending h) i = Some (p, k)))
     \<and> (\<forall>i p k. map_of (hb_pending h) i = Some (p, k) \<longrightarrow>
          (\<exists>cl r. c = Some cl \<and> i < cl_next_id cl \<and> Request i r \<in> set (cl_sent cl) \<and> request_for p r)))"

lemma hub_okD:
  assumes "hub_ok (h, c)"
  shows "get_view p h = Some v \<Longrightarrow> hv_pending v = Some i \<Longrightarrow> \<exists>k. map_of (hb_pending h) i = Some (p, k)"
    and "map_of (hb_pending h) i = Some (p, k) \<Longrightarrow>
      \<exists>cl r. c = Some cl \<and> i < cl_next_id cl \<and> Request i r \<in> set (cl_sent cl) \<and> request_for p r"
  using assms by (simp_all add: hub_ok_def)

lemma hub_okI:
  assumes "\<And>p v i. get_view p h = Some v \<Longrightarrow> hv_pending v = Some i \<Longrightarrow> \<exists>k. map_of (hb_pending h) i = Some (p, k)"
    and "\<And>i p k. map_of (hb_pending h) i = Some (p, k) \<Longrightarrow>
      \<exists>cl r. c = Some cl \<and> i < cl_next_id cl \<and> Request i r \<in> set (cl_sent cl) \<and> request_for p r"
  shows "hub_ok (h, c)"
  using assms unfolding hub_ok_def prod.case by blast

lemma hub_ok_calm:
  assumes c: "calm (h, c) (h', c')" and ok: "hub_ok (h, c)"
  shows "hub_ok (h', c')"
proof (rule hub_okI)
  fix p v i
  assume "get_view p h' = Some v" "hv_pending v = Some i"
  then obtain v0 where "get_view p h = Some v0" "hv_pending v0 = Some i" using calmD(5) [OF c] by blast
  then show "\<exists>k. map_of (hb_pending h') i = Some (p, k)"
    using hub_okD(1) [OF ok] calmD(1) [OF c] by simp
next
  fix i p k
  assume "map_of (hb_pending h') i = Some (p, k)"
  then have "map_of (hb_pending h) i = Some (p, k)" using calmD(1) [OF c] by simp
  then obtain cl r where r: "c = Some cl" "i < cl_next_id cl" "Request i r \<in> set (cl_sent cl)" "request_for p r"
    using hub_okD(2) [OF ok] by blast
  moreover have "link_grows c c'" using calmD(4) [OF c] .
  ultimately show "\<exists>cl r. c' = Some cl \<and> i < cl_next_id cl \<and> Request i r \<in> set (cl_sent cl) \<and> request_for p r"
    by (cases c') (auto simp: link_grows_def)
qed

lemma hub_request_ok:
  assumes ok: "hub_ok (h, Some c)" and "request_for p r" "hub_request p k r v h c = (h', c')"
  shows "hub_ok (h', Some c')"
proof -
  let ?n = "cl_next_id c"
  have h': "hb_pending h' = AList.update ?n (p, k) (hb_pending h)"
    "\<And>q. get_view q h' = (if q = p then Some (v\<lparr>hv_pending := Some ?n\<rparr>) else get_view q h)"
    and c': "cl_next_id c' = Suc ?n" "cl_sent c' = cl_sent c @ [Request ?n r]"
    using assms(3) by (auto simp: hub_request_def client_send_def get_set_view)
  have fresh: "map_of (hb_pending h) ?n \<noteq> Some (q, j)" for q j
    using hub_okD(2) [OF ok, of ?n] by fastforce
  show ?thesis
  proof (rule hub_okI)
    fix q w i
    assume w: "get_view q h' = Some w" "hv_pending w = Some i"
    show "\<exists>k. map_of (hb_pending h') i = Some (q, k)"
    proof (cases "q = p")
      case False
      then obtain j where "map_of (hb_pending h) i = Some (q, j)"
        using w hub_okD(1) [OF ok, of q w i] by (auto simp: h')
      then show ?thesis using fresh [of q j] by (cases "i = ?n") (auto simp: h' update_conv')
    qed (use w in \<open>auto simp: h' update_conv'\<close>)
  next
    fix i q j
    assume i: "map_of (hb_pending h') i = Some (q, j)"
    show "\<exists>cl r. Some c' = Some cl \<and> i < cl_next_id cl \<and> Request i r \<in> set (cl_sent cl) \<and> request_for q r"
    proof (cases "i = ?n")
      case False
      then have "map_of (hb_pending h) i = Some (q, j)" using i by (simp add: h' update_conv')
      then obtain r' where "i < ?n" "Request i r' \<in> set (cl_sent c)" "request_for q r'"
        using hub_okD(2) [OF ok] by blast
      then show ?thesis by (auto simp: c')
    qed (use i assms(2) in \<open>auto simp: h' c' update_conv'\<close>)
  qed
qed

lemma hub_request_more:
  assumes "hub_request p k r v h c = (h', c')"
  shows "hb_closing h' = hb_closing h" "\<not> is_spawn (Request 0 r) \<Longrightarrow> starts (Some c') = starts (Some c)"
proof -
  have "is_spawn (Request i r) = is_spawn (Request 0 r)" for i by (cases r) auto
  then show "hb_closing h' = hb_closing h" "\<not> is_spawn (Request 0 r) \<Longrightarrow> starts (Some c') = starts (Some c)"
    using assms by (auto simp: hub_request_def client_send_def starts_def)
qed

section \<open>Every step\<close>

text \<open>What each operation keeps: the waiting views' requests, whether the window is closing, and then
  the shells asked for.\<close>

definition kept :: "hub \<times> client_link option \<Rightarrow> hub \<times> client_link option \<Rightarrow> bool" where
  "kept s s' \<longleftrightarrow> (hub_ok s \<longrightarrow> hub_ok s') \<and> hb_closing (fst s') = hb_closing (fst s)
     \<and> (hb_closing (fst s) \<longrightarrow> starts (snd s') = starts (snd s))"

lemma kept_calm: "calm (h, c) (h', c') \<Longrightarrow> kept (h, c) (h', c')"
  using hub_ok_calm calmD(2,3) by (fastforce simp: kept_def)

lemma kept_trans: "kept a b \<Longrightarrow> kept b c \<Longrightarrow> kept a c"
  by (simp add: kept_def)

lemma kept_request:
  assumes "hub_request p k r v h c = (h', c')" "request_for p r" "\<not> is_spawn (Request 0 r) \<or> \<not> hb_closing h"
  shows "kept (h, Some c) (h', Some c')"
  using hub_request_ok [OF _ assms(2,1)] hub_request_more [OF assms(1)] assms(3) by (auto simp: kept_def)

lemma attach_request_for [simp]: "request_for p (attach_request p v)" "\<not> is_spawn (Request i (attach_request p v))"
  by (simp_all add: attach_request_def split: prod.split)

lemma spawn_request_for [simp]: "request_for p (spawn_request H p plan sh v h)"
  by (simp add: spawn_request_def split: prod.split)

lemma kept_connect: "hub_connect p h c = (h', c') \<Longrightarrow> kept (h, c) (h', c')"
  using kept_request [of p PendingAttach] kept_calm [OF calm_refl]
  by (auto simp: hub_connect_def split: option.splits if_splits prod.splits)

lemma kept_spawn:
  assumes "hub_spawn H p h c = (h', c')"
  shows "kept (h, Some c) (h', Some c')"
proof (cases "hb_closing h \<or> map_of (hb_plans h) p = None")
  case True
  then show ?thesis using assms kept_calm [OF calm_refl] by (auto simp: hub_spawn_def split: if_splits)
next
  case False
  then obtain plan where plan: "map_of (hb_plans h) p = Some plan" and nc: "\<not> hb_closing h" by auto
  obtain b config where cap: "capture (pl_config plan) = (b, config)" by fastforce
  define h1 where "h1 = h\<lparr>hb_plans := AList.update p (plan\<lparr>pl_config := config\<rparr>) (hb_plans h),
      hb_queued := (if b then hb_queued h @ [Captured p] else hb_queued h)\<rparr>"
  have calm1: "kept (h, Some c) (h1, Some c)" by (rule kept_calm, rule calm_fields) (simp_all add: h1_def)
  show ?thesis
  proof (cases "get_view p h1")
    case None
    then show ?thesis using assms calm1 nc plan cap by (simp add: hub_spawn_def h1_def Let_def)
  next
    case (Some v)
    note rest = assms [unfolded hub_spawn_def, simplified nc plan cap option.case prod.case if_False Let_def, folded h1_def]
    show ?thesis
    proof (cases "choose_shell (hb_shells h1) (case t_shell config of None \<Rightarrow> hb_default_shell h1 | Some s \<Rightarrow> Some s)")
      case None
      then have "(h', c') = (set_view p (set_status (Failed (lit ''No shell was found on this system.'')) v) h1, c)"
        using rest Some by simp
      moreover have "kept (h1, Some c) (set_view p (set_status (Failed (lit ''No shell was found on this system.'')) v) h1, Some c)"
        using Some by (intro kept_calm calm_set_view) simp_all
      ultimately show ?thesis using calm1 kept_trans by auto
    next
      case (Some sh)
      then have "hub_request p PendingSpawn (spawn_request H p (plan\<lparr>pl_config := config\<rparr>) sh v h1)
          (set_status Connecting v) h1 c = (h', c')"
        using rest \<open>get_view p h1 = Some v\<close> by simp
      then have "kept (h1, Some c) (h', Some c')"
        by (rule kept_request) (simp_all add: h1_def nc)
      then show ?thesis using calm1 kept_trans by blast
    qed
  qed
qed

lemma kept_prepare: "kept (h, c) (hub_prepare p plan h, c)"
  unfolding hub_prepare_def Let_def
  by (rule kept_calm, rule calmI) (auto simp: get_set_view split: if_splits option.splits)

lemma kept_forget: "hub_forget_view p h c = (h', c') \<Longrightarrow> kept (h, c) (h', c')"
  using post_starts [where r = "Detach p" and c = c]
  by (intro kept_calm calmI) (auto simp: hub_forget_view_def get_view_def delete_conv' split: if_splits)

lemma kept_kill: "hub_kill p h c = (h', c') \<Longrightarrow> kept (h, c) (h', c')"
  using post_starts [where r = "Kill p" and c = c]
  by (intro kept_calm calmI) (auto simp: hub_kill_def get_view_def delete_conv' split: if_splits)

lemma kept_restart:
  assumes "hub_restart H p h c = (h', c')"
  shows "kept (h, c) (h', c')"
proof -
  define h1 where "h1 = h\<lparr>hb_dormant := removeAll p (hb_dormant h)\<rparr>"
  define h2 where "h2 = (case get_view p h1 of None \<Rightarrow> h1 | Some v \<Rightarrow> set_view p ((set_status Connecting v)\<lparr>hv_pending := None\<rparr>) h1)"
  have calm2: "kept (h, c) (h2, post_to (Forget p) c)"
    using post_starts [where r = "Forget p" and c = c]
    by (intro kept_calm calmI) (auto simp: h2_def h1_def get_set_view split: option.splits if_splits)
  show ?thesis
  proof (cases "post_to (Forget p) c")
    case None
    then show ?thesis
      using assms calm2 unfolding hub_restart_def Let_def h1_def [symmetric] h2_def [symmetric] by simp
  next
    case (Some cl)
    obtain h3 c3 where s: "hub_spawn H p h2 cl = (h3, c3)" by fastforce
    then have "h' = h3" "c' = Some c3"
      using assms Some unfolding hub_restart_def Let_def h1_def [symmetric] h2_def [symmetric] by simp_all
    then show ?thesis using kept_trans [OF calm2] kept_spawn [OF s] Some by simp
  qed
qed

lemma kept_poll: "poll_directories now h c = (t, h', c') \<Longrightarrow> kept (h, c) (h', c')"
  by (rule kept_calm, rule calmI)
    (auto simp: poll_directories_def client_send_def starts_def link_grows_def split: option.splits if_splits)

lemma get_view_deleted:
  "get_view q (h\<lparr>hb_views := AList.delete p (hb_views h), hb_plans := x\<rparr>) = (if q = p then None else get_view q h)"
  by (simp add: get_view_def delete_conv')

lemma kept_exited: "hub_exited p st h c out = (h', c', out') \<Longrightarrow> calm (h, c) (h', c')"
  using post_starts [where r = "Forget p" and c = c]
  by (intro calmI)
    (auto simp: hub_exited_def Let_def get_set_view get_view_deleted get_view_delete
      split: if_splits option.splits prod.splits)

lemma settle_view_pending: "settle_view p v = (v', out) \<Longrightarrow> hv_pending v' = hv_pending v"
  by (auto simp: settle_view_def split: prod.splits)

lemma emulator_events_keep:
  "fold (emulator_event p) es (v, c, out) = (v', c', out') \<Longrightarrow>
     hv_pending v' = hv_pending v \<and> starts c' = starts c \<and> link_grows c c'"
proof (induction es arbitrary: v c out)
  case (Cons e es)
  obtain v1 c1 out1 where e: "emulator_event p e (v, c, out) = (v1, c1, out1)" by (metis surj_pair)
  then have "hv_pending v1 = hv_pending v \<and> starts c1 = starts c \<and> link_grows c c1"
    using write_starts by (cases e) (auto simp: emulator_event_def Let_def)
  moreover have "hv_pending v' = hv_pending v1 \<and> starts c' = starts c1 \<and> link_grows c1 c'"
    using Cons e by simp
  ultimately show ?case using link_grows_trans by auto
qed simp

lemma listed_terminal_calm: "listed_terminal H info (h, out) = (h', out') \<Longrightarrow> calm (h, c) (h', c)"
  by (rule calmI)
    (auto simp: listed_terminal_def Let_def get_set_view dest!: settle_view_pending
      split: option.splits if_splits prod.splits)

lemma listed_terminals_calm: "fold (listed_terminal H) infos (h, out) = (h', out') \<Longrightarrow> calm (h, c) (h', c)"
proof (induction infos arbitrary: h out)
  case (Cons info infos)
  obtain h1 out1 where l: "listed_terminal H info (h, out) = (h1, out1)" by fastforce
  then have "calm (h1, c) (h', c)" using Cons by simp
  then show ?case using calm_trans [OF listed_terminal_calm [OF l]] by blast
qed simp

text \<open>A reply takes its request off the list and out of the view that waited for it.\<close>

lemma kept_replied:
  assumes "map_of (hb_pending h) i = Some (p, k)"
  shows "kept (h, c) (case get_view p h of
      None \<Rightarrow> h\<lparr>hb_pending := AList.delete i (hb_pending h)\<rparr>
    | Some v \<Rightarrow> set_view p (v\<lparr>hv_pending := None\<rparr>) (h\<lparr>hb_pending := AList.delete i (hb_pending h)\<rparr>), c)"
    (is "kept _ (?h, c)")
proof -
  have v: "get_view q ?h = Some v' \<Longrightarrow> hv_pending v' = Some j \<Longrightarrow> q \<noteq> p \<and> get_view q h = Some v'" for q v' j
    by (auto simp: get_set_view split: option.splits if_splits)
  have pd: "map_of (hb_pending ?h) = (map_of (hb_pending h))(i := None)"
    by (simp add: delete_conv' split: option.split)
  have "hub_ok (?h, c)" if ok: "hub_ok (h, c)"
  proof (rule hub_okI)
    fix q v' j
    assume a: "get_view q ?h = Some v'" "hv_pending v' = Some j"
    then obtain k' where "map_of (hb_pending h) j = Some (q, k')" using v hub_okD(1) [OF ok] by blast
    moreover have "q \<noteq> p" using v a by blast
    ultimately show "\<exists>k. map_of (hb_pending ?h) j = Some (q, k)" using assms by (auto simp: pd)
  next
    fix j q k'
    assume "map_of (hb_pending ?h) j = Some (q, k')"
    then have "map_of (hb_pending h) j = Some (q, k')" by (simp add: pd split: if_splits)
    then show "\<exists>cl r. c = Some cl \<and> j < cl_next_id cl \<and> Request j r \<in> set (cl_sent cl) \<and> request_for q r"
      by (rule hub_okD(2) [OF ok])
  qed
  then show ?thesis by (auto simp: kept_def split: option.split)
qed

lemma kept_answered:
  assumes "hub_answered H p k result v h c = (h', c', out)" "hv_pending v = None"
  shows "kept (h, c) (h', c')"
proof -
  have view: "kept (h, c) (set_view p w h, c)" if "hv_pending w = None" for w
    by (rule kept_calm, rule calm_set_view) (simp_all add: that)
  have snap: "kept (h, c) (h', c')" if "hub_exited p st (set_view p w h) c [] = (h', c', out)" "hv_pending w = None" for st w
    using kept_trans [OF view [OF that(2)] kept_calm [OF kept_exited [OF that(1)]]] .
  have spawn: "kept (h, c) (h', c')" if "c = Some cl" "hub_spawn H p h cl = (h3, c3)" "h' = h3" "c' = Some c3" for cl h3 c3
    using kept_spawn [OF that(2)] that by simp
  show ?thesis
    using assms kept_calm [OF calm_refl, of h c] view snap spawn
    by (auto simp: hub_answered_def Let_def split: sum.splits reply.splits option.splits if_splits prod.splits)
qed

lemma kept_reply:
  assumes "hub_reply H i result h c = (h', c', out)"
  shows "kept (h, c) (h', c')"
proof (cases "map_of (hb_pending h) i")
  case None
  then show ?thesis using assms kept_calm [OF calm_refl] by (simp add: hub_reply_def)
next
  case (Some pk)
  obtain p k where pk: "pk = (p, k)" by fastforce
  note kr = kept_replied [OF Some [unfolded pk], of c]
  show ?thesis
  proof (cases "get_view p h")
    case None
    then show ?thesis using assms kr Some pk by (simp add: hub_reply_def Let_def)
  next
    case (Some v)
    then have "hub_answered H p k result (v\<lparr>hv_pending := None\<rparr>)
        (set_view p (v\<lparr>hv_pending := None\<rparr>) (h\<lparr>hb_pending := AList.delete i (hb_pending h)\<rparr>)) c = (h', c', out)"
      using assms \<open>map_of (hb_pending h) i = Some pk\<close> pk by (simp add: hub_reply_def Let_def)
    then show ?thesis using kept_trans [OF _ kept_answered] kr Some by simp
  qed
qed

lemma kept_event:
  assumes "hub_event_body H e h c = (h', c', out)"
  shows "kept (h, c) (h', c')"
proof (cases e)
  case (EvOutput p offset data)
  show ?thesis
  proof (cases "get_view p h")
    case None
    then show ?thesis using assms EvOutput kept_calm [OF calm_refl] by (simp add: hub_event_body_def)
  next
    case (Some v)
    let ?t = "feed (hh_hostname H) offset data (hv_term v)"
    obtain v1 c1 out1 where f: "fold (emulator_event p) (hh_emulator H (hv_term v) ?t) (v\<lparr>hv_term := ?t\<rparr>, c, []) = (v1, c1, out1)"
      by (metis surj_pair)
    obtain v2 dirs where s: "settle_view p v1 = (v2, dirs)" by fastforce
    have r: "h' = set_view p v2 h" "c' = c1"
      using assms EvOutput Some f s by (simp_all add: hub_event_body_def Let_def)
    show ?thesis unfolding r
      by (rule kept_calm, rule calm_set_view)
        (use emulator_events_keep [OF f] settle_view_pending [OF s] Some in auto)
  qed
next
  case (EvExited p st)
  have "calm (h, c) (h\<lparr>hb_killed := removeAll p (hb_killed h)\<rparr>, c)" by (rule calm_fields) simp_all
  then show ?thesis
    using assms EvExited kept_exited [of p st h c "[]"] kept_calm
    by (auto simp: hub_event_body_def split: if_splits)
next
  case (EvResync p)
  then show ?thesis
    using assms kept_calm [OF calm_refl] kept_request [of p PendingAttach]
    by (auto simp: hub_event_body_def split: option.splits prod.splits)
next
  case (EvReply i result)
  have l: "calm (h, c) (h\<lparr>hb_listing := None\<rparr>, c)" by (rule calm_fields) simp_all
  show ?thesis
  proof (cases "hb_listing h = Some i")
    case True
    have "kept (h, c) (h', c')" if "fold (listed_terminal H) infos (h\<lparr>hb_listing := None\<rparr>, []) = (h', out)" "c' = c" for infos
      using kept_calm [OF calm_trans [OF l listed_terminals_calm [OF that(1)]]] that(2) by simp
    then show ?thesis
      using assms EvReply True kept_calm [OF l]
      by (auto simp: hub_event_body_def Let_def split: sum.splits reply.splits prod.splits)
  next
    case False
    then show ?thesis using assms EvReply kept_reply by (simp add: hub_event_body_def)
  qed
next
  case (EvDisconnected reason)
  then show ?thesis using assms kept_calm [OF calm_refl] by (simp add: hub_event_body_def)
qed

lemma kept_on_event:
  assumes "on_daemon_event H e h c = (out, h', c')"
  shows "kept (h, c) (h', c')"
proof -
  obtain h1 c1 out1 where b: "hub_event_body H e h c = (h1, c1, out1)" by (metis surj_pair)
  have "calm (h1, c1) (h1\<lparr>hb_queued := []\<rparr>, c1)" by (rule calm_fields) simp_all
  then show ?thesis
    using assms b kept_event [OF b] kept_trans [OF kept_event [OF b] kept_calm]
    by (auto simp: on_daemon_event_def split: if_splits)
qed

section \<open>A run of the hub\<close>

text \<open>
  Everything the window does with its hub. A connection that is lost is gone; one that comes numbers
  its requests anew.
\<close>

inductive hub_step ::
  "hub_host \<Rightarrow> hub \<times> client_link option \<Rightarrow> hub \<times> client_link option \<Rightarrow> bool" for H :: hub_host where
  prepares: "hub_step H (h, c) (hub_prepare p plan h, c)"
| connects: "hub_connect p h c = (h', c') \<Longrightarrow> hub_step H (h, c) (h', c')"
| comes_back: "hub_step H (h, c) (hub_reconnected h, Some client_new)"
| drops_out: "hub_step H (h, c) (hub_disconnected h, None)"
| leaves_view: "hub_forget_view p h c = (h', c') \<Longrightarrow> hub_step H (h, c) (h', c')"
| sleeps: "hub_step H (h, c) (keep_dormant ps h, c)"
| ends: "hub_kill p h c = (h', c') \<Longrightarrow> hub_step H (h, c) (h', c')"
| restarts: "hub_restart H p h c = (h', c') \<Longrightarrow> hub_step H (h, c) (h', c')"
| polls: "poll_directories now h c = (t, h', c') \<Longrightarrow> hub_step H (h, c) (h', c')"
| hears: "on_daemon_event H e h c = (out, h', c') \<Longrightarrow> hub_step H (h, c) (h', c')"
| takes: "take_queued h = (evs, h') \<Longrightarrow> hub_step H (h, c) (h', c)"

text \<open>No step starts a shell while the window closes, and none loses track of a waiting view.\<close>

lemma hub_step_kept:
  assumes "hub_step H (h, c) (h', c')"
  shows "(hub_ok (h, c) \<longrightarrow> hub_ok (h', c')) \<and> hb_closing h' = hb_closing h
    \<and> (hb_closing h \<longrightarrow> starts c' = starts c \<or> starts c' = [])"
  using assms
proof (cases rule: hub_step.cases)
  case comes_back
  have "hub_ok (hub_reconnected h, c')"
    by (rule hub_okI)
      (auto simp: hub_reconnected_def get_view_def Let_def set_status_def dest!: map_of_SomeD split: if_splits)
  then show ?thesis using comes_back by (simp add: hub_reconnected_def starts_def client_new_def)
next
  case drops_out
  have "hub_ok (hub_disconnected h, c')"
    by (rule hub_okI) (auto simp: hub_disconnected_def get_view_def dest!: map_of_SomeD)
  then show ?thesis using drops_out by (simp add: hub_disconnected_def starts_def)
next
  case (sleeps ps)
  have "calm (h, c) (keep_dormant ps h, c)" by (rule calm_fields) (simp_all add: keep_dormant_def)
  then show ?thesis using sleeps kept_calm by (fastforce simp: kept_def)
next
  case (takes evs)
  have "calm (h, c) (h\<lparr>hb_queued := []\<rparr>, c)" by (rule calm_fields) simp_all
  then show ?thesis using takes kept_calm by (fastforce simp: kept_def take_queued_def)
next
  case (prepares p plan)
  then show ?thesis using kept_prepare [of h c p plan] by (simp add: kept_def)
next
  case (connects p)
  then show ?thesis using kept_connect [of p h c h' c'] by (simp add: kept_def)
next
  case (leaves_view p)
  then show ?thesis using kept_forget [of p h c h' c'] by (simp add: kept_def)
next
  case (ends p)
  then show ?thesis using kept_kill [of p h c h' c'] by (simp add: kept_def)
next
  case (restarts p)
  then show ?thesis using kept_restart [of H p h c h' c'] by (simp add: kept_def)
next
  case (polls now t)
  then show ?thesis using kept_poll [of now h c t h' c'] by (simp add: kept_def)
next
  case (hears e out)
  then show ?thesis using kept_on_event [of H e h c out h' c'] by (simp add: kept_def)
qed

end
