(* ===== verification/DaemonLink.thy ===== *)
theory DaemonLink
  imports HubInv
begin

text \<open>
  The window's connection to the terminal host (\<open>throng-app/src/link.rs\<close>) and what the window does
  with it each frame (\<open>process_link\<close> of \<open>throng-app/src/app.rs\<close>). The thread that connects is a
  parameter: whether it starts, and what it brings when it ends. Times are milliseconds; a poll
  reads the clock once. A client counts as connected until the poll that hears of its loss.
\<close>

section \<open>The link\<close>

definition GRACE :: nat where "GRACE = 1200"

datatype connect_error =
  NotRunning
| VersionMismatch nat nat
| HostSpawnFailed rstring
| Handshake rstring

fun connect_error_text :: "connect_error \<Rightarrow> rstring" where
  "connect_error_text NotRunning = lit ''no daemon is listening''"
| "connect_error_text (VersionMismatch daemon host) =
     lit ''the terminal host (pid '' @ show_nat host @ lit '') speaks protocol '' @ show_nat daemon
     @ lit '', this build speaks '' @ show_nat PROTOCOL_VERSION"
| "connect_error_text (HostSpawnFailed e) = lit ''could not start the terminal host: '' @ e"
| "connect_error_text (Handshake e) = lit ''the terminal host did not answer: '' @ e"

datatype link_state =
  LinkConnecting
| LinkConnected
| LinkLost nat rstring
| LinkBlocked rstring nat

datatype link_event = LinkUp | LinkDown | FromDaemon client_event

record daemon_link =
  dl_client :: "client_link option"
  dl_state :: link_state
  dl_attempt :: bool
  dl_next_try :: nat
  dl_backoff :: nat

text \<open>\<open>spawned\<close>: the connecting thread started.\<close>

definition try_connect :: "bool \<Rightarrow> daemon_link \<Rightarrow> daemon_link" where
  "try_connect spawned l = (if spawned then l\<lparr>dl_attempt := True\<rparr> else l)"

definition link_start :: "bool \<Rightarrow> nat \<Rightarrow> daemon_link" where
  "link_start spawned now =
     try_connect spawned
       \<lparr>dl_client = None, dl_state = LinkConnecting, dl_attempt = False, dl_next_try = now, dl_backoff = 250\<rparr>"

definition outage :: "nat \<Rightarrow> daemon_link \<Rightarrow> rstring option" where
  "outage now l =
     (case dl_state l of
        LinkLost since reason \<Rightarrow>
          if now - since \<ge> GRACE then
            Some (lit ''The terminal host is not responding ('' @ reason @ lit ''). Reconnecting'' @ [8230])
          else None
      | LinkBlocked reason p \<Rightarrow> Some reason
      | _ \<Rightarrow> None)"

definition replace_blocking_daemon :: "nat \<Rightarrow> daemon_link \<Rightarrow> daemon_link" where
  "replace_blocking_daemon now l =
     (case dl_state l of
        LinkBlocked reason p \<Rightarrow> l\<lparr>dl_state := LinkConnecting, dl_next_try := now + 300\<rparr>
      | _ \<Rightarrow> l)"

definition blocked_reason :: "nat \<Rightarrow> nat \<Rightarrow> rstring" where
  "blocked_reason daemon p =
     lit ''A terminal host from a different throng version is running (pid '' @ show_nat p
     @ lit '', protocol '' @ show_nat daemon
     @ lit ''). Its terminals keep running; restart it to use terminals here.''"

text \<open>What the connecting thread brought.\<close>

definition attempt_ended ::
  "nat \<Rightarrow> client_link + connect_error \<Rightarrow> daemon_link \<Rightarrow> link_event list \<times> daemon_link" where
  "attempt_ended now result l =
     (let l = l\<lparr>dl_attempt := False\<rparr>
      in case result of
           Inl client \<Rightarrow> ([LinkUp], l\<lparr>dl_client := Some client, dl_state := LinkConnected, dl_backoff := 250\<rparr>)
         | Inr (VersionMismatch daemon p) \<Rightarrow> ([], l\<lparr>dl_state := LinkBlocked (blocked_reason daemon p) p\<rparr>)
         | Inr e \<Rightarrow>
             (let since = (case dl_state l of LinkLost since r \<Rightarrow> since | _ \<Rightarrow> now)
              in ([], l\<lparr>dl_state := LinkLost since (connect_error_text e), dl_next_try := now + dl_backoff l,
                        dl_backoff := min (dl_backoff l * 2) 15000\<rparr>)))"

fun drain_events :: "client_event list \<Rightarrow> link_event list \<times> rstring option \<Rightarrow> link_event list \<times> rstring option" where
  "drain_events [] st = st"
| "drain_events (EvDisconnected reason # es) (out, lost) = drain_events es (out, Some reason)"
| "drain_events (e # es) (out, lost) = drain_events es (out @ [FromDaemon e], lost)"

definition drain_client ::
  "nat \<Rightarrow> client_event list \<Rightarrow> link_event list \<times> daemon_link \<Rightarrow> link_event list \<times> daemon_link" where
  "drain_client now evs st =
     (case st of (out, l) \<Rightarrow>
        if dl_client l = None then (out, l)
        else (case drain_events evs (out, None) of
                (out, None) \<Rightarrow> (out, l)
              | (out, Some reason) \<Rightarrow>
                  (out @ [LinkDown],
                   l\<lparr>dl_client := None, dl_state := LinkLost now reason, dl_next_try := now + 100\<rparr>)))"

fun waiting :: "link_state \<Rightarrow> bool" where
  "waiting (LinkLost since reason) = True"
| "waiting LinkConnecting = True"
| "waiting LinkConnected = False"
| "waiting (LinkBlocked reason p) = False"

definition link_poll ::
  "bool \<Rightarrow> nat \<Rightarrow> (client_link + connect_error) option \<Rightarrow> client_event list \<Rightarrow> daemon_link
   \<Rightarrow> link_event list \<times> daemon_link" where
  "link_poll spawned now arrived evs l =
     (let st = (case (dl_attempt l, arrived) of (True, Some r) \<Rightarrow> attempt_ended now r l | _ \<Rightarrow> ([], l));
          (out, l) = drain_client now evs st
      in (out, if waiting (dl_state l) \<and> \<not> dl_attempt l \<and> dl_next_try l \<le> now then try_connect spawned l else l))"

definition next_wake :: "nat \<Rightarrow> daemon_link \<Rightarrow> nat option" where
  "next_wake now l =
     (case dl_state l of
        LinkLost since reason \<Rightarrow>
          Some (min (max (GRACE - (now - since)) 50) (max (dl_next_try l - now) 50))
      | LinkConnecting \<Rightarrow> Some 100
      | _ \<Rightarrow> None)"

section \<open>A frame of the window\<close>

definition link_event_step ::
  "hub_host \<Rightarrow> link_event \<Rightarrow> hub_event list \<times> hub \<times> client_link option
   \<Rightarrow> hub_event list \<times> hub \<times> client_link option" where
  "link_event_step H e st =
     (case st of (out, h, c) \<Rightarrow>
        (case e of
           LinkUp \<Rightarrow> (out, hub_reconnected h, c)
         | LinkDown \<Rightarrow> (out, hub_disconnected h, c)
         | FromDaemon ev \<Rightarrow> (case on_daemon_event H ev h c of (raised, h, c) \<Rightarrow> (out @ raised, h, c))))"

text \<open>The events for the app, the notice of an outage, and when to look again.\<close>

definition process_link ::
  "hub_host \<Rightarrow> bool \<Rightarrow> nat \<Rightarrow> (client_link + connect_error) option \<Rightarrow> client_event list
   \<Rightarrow> daemon_link \<times> hub \<Rightarrow> (hub_event list \<times> rstring option \<times> nat option) \<times> daemon_link \<times> hub" where
  "process_link H spawned now arrived evs s =
     (case s of (l, h) \<Rightarrow>
        (case link_poll spawned now arrived evs l of (les, l) \<Rightarrow>
           (case fold (link_event_step H) les ([], h, dl_client l) of (out, h, c) \<Rightarrow>
              (case take_queued h of (queued, h) \<Rightarrow>
                 let l = l\<lparr>dl_client := c\<rparr>
                 in ((out @ queued, outage now l, next_wake now l), l, h)))))"

section \<open>What the link keeps\<close>

definition link_ok :: "nat \<Rightarrow> daemon_link \<Rightarrow> bool" where
  "link_ok t l \<longleftrightarrow> (dl_client l \<noteq> None \<longleftrightarrow> dl_state l = LinkConnected)
     \<and> (dl_attempt l \<longrightarrow> waiting (dl_state l))
     \<and> 250 \<le> dl_backoff l \<and> dl_backoff l \<le> 15000
     \<and> dl_next_try l \<le> t + 15000
     \<and> (case dl_state l of LinkLost since r \<Rightarrow> since \<le> t | _ \<Rightarrow> True)"

lemma link_ok_later: "link_ok t l \<Longrightarrow> t \<le> t' \<Longrightarrow> link_ok t' l"
  by (auto simp: link_ok_def split: link_state.splits)

lemma link_start_ok: "link_ok now (link_start spawned now)"
  by (simp add: link_start_def try_connect_def link_ok_def)

lemma replace_ok: "link_ok now l \<Longrightarrow> link_ok now (replace_blocking_daemon now l)"
  by (auto simp: link_ok_def replace_blocking_daemon_def split: link_state.splits)

lemma attempt_ended_ok:
  assumes "link_ok now l" "dl_attempt l" "attempt_ended now r l = (out, l')"
  shows "link_ok now l'"
proof -
  have w: "waiting (dl_state l)" "dl_client l = None" "dl_backoff l \<le> 15000" "250 \<le> dl_backoff l"
    using assms(1,2) by (auto simp: link_ok_def)
  show ?thesis
  proof (cases r)
    case (Inr e)
    then show ?thesis
      using assms w
      by (cases e) (auto simp: attempt_ended_def Let_def link_ok_def split: link_state.splits)
  qed (use assms w in \<open>auto simp: attempt_ended_def link_ok_def Let_def\<close>)
qed

lemma drain_client_ok:
  assumes "link_ok now l" "drain_client now evs (out, l) = (out', l')"
  shows "link_ok now l'"
  using assms by (auto simp: drain_client_def link_ok_def split: if_splits prod.splits option.splits)

lemma link_poll_ok:
  assumes "link_ok t l" "t \<le> now" "link_poll spawned now arrived evs l = (out, l')"
  shows "link_ok now l'"
proof -
  have ok: "link_ok now l" using link_ok_later [OF assms(1,2)] .
  define st where "st = (case (dl_attempt l, arrived) of (True, Some r) \<Rightarrow> attempt_ended now r l | _ \<Rightarrow> ([], l))"
  obtain out1 l1 where st1: "st = (out1, l1)" by fastforce
  then have "link_ok now l1"
    using ok attempt_ended_ok [OF ok] by (auto simp: st_def split: bool.splits option.splits)
  moreover obtain out2 l2 where st2: "drain_client now evs (out1, l1) = (out2, l2)" by fastforce
  ultimately have "link_ok now l2" using drain_client_ok by blast
  moreover have "l' = (if waiting (dl_state l2) \<and> \<not> dl_attempt l2 \<and> dl_next_try l2 \<le> now then try_connect spawned l2 else l2)"
    using assms(3) st1 st2 unfolding link_poll_def st_def [symmetric] by simp
  ultimately show ?thesis by (auto simp: try_connect_def link_ok_def)
qed

text \<open>A link that is idle and waits is not put off: the poll after its time starts an attempt.\<close>

lemma link_poll_retries:
  assumes "waiting (dl_state l)" "\<not> dl_attempt l" "dl_client l = None" "dl_next_try l \<le> now"
  shows "link_poll True now arrived evs l = ([], l\<lparr>dl_attempt := True\<rparr>)"
  using assms by (simp add: link_poll_def drain_client_def try_connect_def)

text \<open>An attempt that fails for any reason but another version keeps the outage's beginning.\<close>

lemma link_poll_failed:
  assumes "dl_state l = LinkLost since r" "dl_client l = None" "\<And>d p. arrived \<noteq> Some (Inr (VersionMismatch d p))"
    "\<And>c. arrived \<noteq> Some (Inl c)" "link_poll spawned now arrived evs l = (out, l')"
  shows "out = [] \<and> dl_client l' = None \<and> (\<exists>r'. dl_state l' = LinkLost since r')"
proof (cases arrived)
  case None
  then show ?thesis using assms
    by (auto simp: link_poll_def drain_client_def try_connect_def split: bool.splits if_splits)
next
  case (Some res)
  then obtain e where e: "res = Inr e" using assms(4) by (cases res) auto
  then have "\<And>d p. e \<noteq> VersionMismatch d p" using assms(3) Some by auto
  then show ?thesis using assms(1,2,5) Some e
    by (cases e) (auto simp: link_poll_def drain_client_def try_connect_def attempt_ended_def Let_def
        split: bool.splits if_splits)
qed

text \<open>The runs of a link: polls and the user's replacing, at times that never go back.\<close>

inductive link_run :: "nat \<Rightarrow> daemon_link \<Rightarrow> bool" where
  starts_link: "link_run now (link_start spawned now)"
| polls_link: "link_run t l \<Longrightarrow> t \<le> now \<Longrightarrow> link_poll spawned now arrived evs l = (out, l') \<Longrightarrow> link_run now l'"
| uses_link: "link_run t l \<Longrightarrow> dl_client l = Some c \<Longrightarrow> link_run t (l\<lparr>dl_client := Some c'\<rparr>)"
| replaces: "link_run t l \<Longrightarrow> t \<le> now \<Longrightarrow> link_run now (replace_blocking_daemon now l)"

lemma link_run_ok: "link_run t l \<Longrightarrow> link_ok t l"
proof (induction rule: link_run.induct)
  case (starts_link now spawned)
  show ?case by (rule link_start_ok)
next
  case (polls_link t l now spawned arrived evs out l')
  then show ?case using link_poll_ok by blast
next
  case (uses_link t l c c')
  then show ?case by (auto simp: link_ok_def)
next
  case (replaces t l now)
  then show ?case using replace_ok link_ok_later by blast
qed

section \<open>The window keeps track of its terminals\<close>

text \<open>A poll's events: the new connection first, then the daemon's, a loss last.\<close>

lemma drain_events_shape:
  "drain_events evs (out, lost) = (out', lost') \<Longrightarrow>
     \<exists>ds. out' = out @ map FromDaemon ds \<and> (\<forall>d \<in> set ds. \<forall>r. d \<noteq> EvDisconnected r)"
proof (induction evs arbitrary: out lost)
  case Nil
  then show ?case by (intro exI [of _ "[]"]) simp
next
  case (Cons e evs)
  show ?case
  proof (cases "\<exists>r. e = EvDisconnected r")
    case True
    then show ?thesis using Cons by auto
  next
    case False
    then have "drain_events evs (out @ [FromDaemon e], lost) = (out', lost')" using Cons.prems by (cases e) auto
    then obtain ds where "out' = (out @ [FromDaemon e]) @ map FromDaemon ds" "\<forall>d \<in> set ds. \<forall>r. d \<noteq> EvDisconnected r"
      using Cons.IH by blast
    then show ?thesis using False by (intro exI [of _ "e # ds"]) auto
  qed
qed

lemma link_poll_shape:
  assumes "link_poll spawned now arrived evs l = (out, l')"
  obtains up ds down where "out = (if up then [LinkUp] else []) @ map FromDaemon ds @ (if down then [LinkDown] else [])"
    "down \<longrightarrow> dl_client l' = None" "up \<and> \<not> down \<longrightarrow> (\<exists>c. arrived = Some (Inl c) \<and> dl_client l' = Some c)"
    "\<not> up \<and> \<not> down \<longrightarrow> dl_client l' = dl_client l"
proof -
  define st where "st = (case (dl_attempt l, arrived) of (True, Some r) \<Rightarrow> attempt_ended now r l | _ \<Rightarrow> ([], l))"
  obtain out1 l1 where st1: "st = (out1, l1)" by fastforce
  obtain out2 l2 where st2: "drain_client now evs (out1, l1) = (out2, l2)" by fastforce
  have "out1 = [LinkUp] \<and> (\<exists>c. arrived = Some (Inl c) \<and> dl_client l1 = Some c)
      \<or> out1 = [] \<and> dl_client l1 = dl_client l"
    using st1 unfolding st_def attempt_ended_def Let_def
    by (auto split: bool.splits option.splits sum.splits connect_error.splits)
  then obtain up where up: "out1 = (if up then [LinkUp] else [])"
    "up \<longrightarrow> (\<exists>c. arrived = Some (Inl c) \<and> dl_client l1 = Some c)" "\<not> up \<longrightarrow> dl_client l1 = dl_client l"
    by (metis (full_types))
  have "\<exists>ds down. out2 = out1 @ map FromDaemon ds @ (if down then [LinkDown] else [])
      \<and> (down \<longrightarrow> dl_client l2 = None) \<and> (\<not> down \<longrightarrow> dl_client l2 = dl_client l1)"
  proof (cases "dl_client l1 = None")
    case True
    then show ?thesis using st2 by (intro exI [of _ "[]"] exI [of _ False]) (simp add: drain_client_def)
  next
    case False
    obtain o3 lost where d: "drain_events evs (out1, None) = (o3, lost)" by fastforce
    obtain ds where ds: "o3 = out1 @ map FromDaemon ds" using drain_events_shape [OF d] by blast
    show ?thesis using st2 False d ds
      by (intro exI [of _ ds] exI [of _ "lost \<noteq> None"]) (auto simp: drain_client_def split: option.splits)
  qed
  then obtain ds down where "out2 = out1 @ map FromDaemon ds @ (if down then [LinkDown] else [])"
    "down \<longrightarrow> dl_client l2 = None" "\<not> down \<longrightarrow> dl_client l2 = dl_client l1" by blast
  moreover have "out = out2" "dl_client l' = dl_client l2"
    using assms st1 st2 unfolding link_poll_def st_def [symmetric] by (auto simp: try_connect_def)
  ultimately show ?thesis using that [of up ds down] up by auto
qed

lemma daemon_events_kept:
  "fold (link_event_step H) (map FromDaemon ds) (out, h, c) = (out', h', c') \<Longrightarrow> kept (h, c) (h', c')"
proof (induction ds arbitrary: out h c)
  case Nil
  then show ?case using kept_calm [OF calm_refl] by simp
next
  case (Cons d ds)
  obtain raised h1 c1 where s: "on_daemon_event H d h c = (raised, h1, c1)" by (metis surj_pair)
  then have "kept (h1, c1) (h', c')" using Cons by (simp add: link_event_step_def)
  then show ?case using kept_trans [OF kept_on_event [OF s]] by blast
qed

lemma link_grows_None [simp]: "link_grows None c \<longleftrightarrow> c = None"
  by (simp add: link_grows_def split: option.split)

lemma no_client_stays:
  assumes "on_daemon_event H e h None = (out, h', c')"
  shows "c' = None"
proof -
  obtain h1 c1 out1 where b: "hub_event_body H e h None = (h1, c1, out1)" by (metis surj_pair)
  have "c1 = None"
  proof (cases e)
    case (EvOutput p offset data)
    then show ?thesis using b emulator_events_keep
      by (fastforce simp: hub_event_body_def Let_def split: option.splits prod.splits)
  next
    case (EvReply i result)
    have "hub_answered H p k result v h None = (h1, c1, out1) \<Longrightarrow> c1 = None" for p k v h
      using calmD(4) [OF kept_exited]
      by (auto simp: hub_answered_def Let_def split: sum.splits reply.splits option.splits if_splits) fastforce+
    then show ?thesis using b EvReply
      by (auto simp: hub_event_body_def hub_reply_def Let_def split: sum.splits reply.splits option.splits if_splits prod.splits)
  next
    case (EvExited p st)
    then show ?thesis using b calmD(4) [OF kept_exited, of p st h None "[]" h1 c1 out1]
      by (auto simp: hub_event_body_def split: if_splits)
  qed (use b in \<open>auto simp: hub_event_body_def split: option.splits\<close>)
  then show ?thesis using assms b by (auto simp: on_daemon_event_def split: if_splits)
qed

lemma daemon_events_no_client:
  "fold (link_event_step H) (map FromDaemon ds) (out, h, None) = (out', h', c') \<Longrightarrow> c' = None"
proof (induction ds arbitrary: out h)
  case (Cons d ds)
  obtain raised h1 c1 where s: "on_daemon_event H d h None = (raised, h1, c1)" by (metis surj_pair)
  then have "c1 = None" by (rule no_client_stays)
  then show ?case using Cons s by (simp add: link_event_step_def)
qed simp

lemma hub_ok_reconnected: "hub_ok (hub_reconnected h, c)"
  by (rule hub_okI)
    (auto simp: hub_reconnected_def get_view_def Let_def set_status_def dest!: map_of_SomeD split: if_splits)

lemma hub_ok_disconnected: "hub_ok (hub_disconnected h, c)"
  by (rule hub_okI) (auto simp: hub_disconnected_def get_view_def dest!: map_of_SomeD)

lemma process_link_ok:
  assumes ok: "hub_ok (h, dl_client l)" and p: "process_link H spawned now arrived evs (l, h) = (out, l', h')"
  shows "hub_ok (h', dl_client l') \<and> hb_closing h' = hb_closing h"
proof -
  obtain les l1 where lp: "link_poll spawned now arrived evs l = (les, l1)" by fastforce
  obtain up ds down where
    les: "les = (if up then [LinkUp] else []) @ map FromDaemon ds @ (if down then [LinkDown] else [])"
    and down: "down \<longrightarrow> dl_client l1 = None"
    and up: "up \<and> \<not> down \<longrightarrow> (\<exists>c. arrived = Some (Inl c) \<and> dl_client l1 = Some c)"
    and none: "\<not> up \<and> \<not> down \<longrightarrow> dl_client l1 = dl_client l"
    using link_poll_shape [OF lp] .
  define h0 where "h0 = (if up then hub_reconnected h else h)"
  have f0: "fold (link_event_step H) (if up then [LinkUp] else []) ([], h, dl_client l1) = ([], h0, dl_client l1)"
    by (simp add: h0_def link_event_step_def)
  obtain o2 h2 c2 where f2: "fold (link_event_step H) (map FromDaemon ds) ([], h0, dl_client l1) = (o2, h2, c2)"
    by (metis surj_pair)
  define h3 where "h3 = (if down then hub_disconnected h2 else h2)"
  have f3: "fold (link_event_step H) (if down then [LinkDown] else []) (o2, h2, c2) = (o2, h3, c2)"
    by (simp add: h3_def link_event_step_def)
  have f: "fold (link_event_step H) les ([], h, dl_client l1) = (o2, h3, c2)"
    unfolding les fold_append comp_def f0 f2 f3 ..
  then have r: "h' = h3\<lparr>hb_queued := []\<rparr>" "dl_client l' = c2"
    using p lp by (auto simp: process_link_def take_queued_def Let_def)
  have "hub_ok (h3, c2) \<and> hb_closing h3 = hb_closing h"
  proof (cases down)
    case True
    then show ?thesis using daemon_events_kept [OF f2] hub_ok_disconnected [of h2 c2]
      by (auto simp: h3_def h0_def kept_def hub_disconnected_def hub_reconnected_def)
  next
    case False
    then have "hub_ok (h0, dl_client l1)" using ok hub_ok_reconnected [of h] none by (cases up) (auto simp: h0_def)
    then show ?thesis using daemon_events_kept [OF f2] False
      by (auto simp: h3_def h0_def kept_def hub_reconnected_def)
  qed
  moreover have "calm (h3, c2) (h3\<lparr>hb_queued := []\<rparr>, c2)" by (rule calm_fields) simp_all
  ultimately show ?thesis using r hub_ok_calm by auto
qed

text \<open>Frames of the window and the calls it makes between them.\<close>

inductive window_step :: "hub_host \<Rightarrow> daemon_link \<times> hub \<Rightarrow> daemon_link \<times> hub \<Rightarrow> bool" for H :: hub_host where
  frame: "process_link H spawned now arrived evs s = (out, s') \<Longrightarrow> window_step H s s'"
| calls: "hub_step H (h, Some c) (h', Some c') \<Longrightarrow> dl_client l = Some c
    \<Longrightarrow> window_step H (l, h) (l\<lparr>dl_client := Some c'\<rparr>, h')"
| offline: "hub_step H (h, None) (h', None) \<Longrightarrow> dl_client l = None \<Longrightarrow> window_step H (l, h) (l, h')"
| restarts_host: "window_step H (l, h) (replace_blocking_daemon now l, h)"

lemma window_step_ok:
  assumes "window_step H s s'" "hub_ok (snd s, dl_client (fst s))"
  shows "hub_ok (snd s', dl_client (fst s'))"
  using assms(1)
proof (cases rule: window_step.cases)
  case (frame spawned now arrived evs out)
  then show ?thesis
    using assms(2) process_link_ok [of "snd s" "fst s" H spawned now arrived evs out "fst s'" "snd s'"] by simp
next
  case (calls h c h' c' l)
  then show ?thesis using assms(2) hub_step_kept [of H h "Some c" h' "Some c'"] by simp
next
  case (offline h h' l)
  then show ?thesis using assms(2) hub_step_kept [of H h None h' None] by simp
next
  case (restarts_host l h now)
  have "dl_client (replace_blocking_daemon now l) = dl_client l"
    by (simp add: replace_blocking_daemon_def split: link_state.split)
  then show ?thesis using assms(2) restarts_host by simp
qed

lemma window_run_ok:
  assumes "(window_step H)\<^sup>*\<^sup>* s s'" "hub_ok (snd s, dl_client (fst s))"
  shows "hub_ok (snd s', dl_client (fst s'))"
  using assms by (induction rule: rtranclp_induct) (auto dest: window_step_ok)

lemma hub_ok_new: "hub_ok (hub_new shells d, c)"
  by (rule hub_okI) (simp_all add: hub_new_def get_view_def)

end
