(* ===== verification/TermKeys.thy ===== *)
theory TermKeys
  imports Utf
begin

text \<open>
  Keys and pastes as a terminal receives them (\<open>throng-app/src/term/keys.rs\<close>): xterm's encoding,
  the kitty protocol's, and pasted text. \<open>meta\<close> is whether Alt sends an escape byte, which depends on the
  platform. A pasted text can never end its bracket early or bring a line feed.
\<close>

abbreviation ESC_CHAR :: rchar where "ESC_CHAR \<equiv> 27"

section \<open>Keys\<close>

text \<open>The keys the code tells apart; a letter is its upper-case character, a digit its own.\<close>

datatype term_key =
  KEnter | KTab | KBackspace | KEscape | KUp | KDown | KRight | KLeft | KHome | KEnd
| KInsert | KDelete | KPageUp | KPageDown | KFunction nat | KSpace
| KLetter rchar | KDigit nat | KOpenBracket | KBackslash | KCloseBracket | KMinus | KSlash | KOtherKey

record key_mods =
  m_shift :: bool
  m_alt :: bool
  m_ctrl :: bool

definition modifier_param :: "key_mods \<Rightarrow> nat" where
  "modifier_param m = 1 + of_bool (m_shift m) + 2 * of_bool (m_alt m) + 4 * of_bool (m_ctrl m)"

definition esc_text :: "rstring \<Rightarrow> byte list" where
  "esc_text body = utf8 (ESC_CHAR # body)"

definition cursor_key :: "key_mods \<Rightarrow> bool \<Rightarrow> char \<Rightarrow> byte list" where
  "cursor_key m app_cursor letter =
     (if modifier_param m > 1 then esc_text (lit ''[1;'' @ show_nat (modifier_param m) @ lit [letter])
      else if app_cursor then esc_text (lit ''O'' @ lit [letter])
      else esc_text (lit ''['' @ lit [letter]))"

definition tilde_key :: "key_mods \<Rightarrow> nat \<Rightarrow> byte list" where
  "tilde_key m code =
     (if modifier_param m > 1 then esc_text (lit ''['' @ show_nat code @ lit '';'' @ show_nat (modifier_param m) @ lit ''~'')
      else esc_text (lit ''['' @ show_nat code @ lit ''~''))"

definition meta_bytes :: "bool \<Rightarrow> key_mods \<Rightarrow> byte list \<Rightarrow> byte list" where
  "meta_bytes meta m bs = (if m_alt m \<and> meta then 27 # bs else bs)"

definition function_key :: "key_mods \<Rightarrow> nat \<Rightarrow> byte list" where
  "function_key m n =
     (if n \<le> 4 then
        (let letter = (if n = 1 then lit ''P'' else if n = 2 then lit ''Q'' else if n = 3 then lit ''R'' else lit ''S'')
         in if modifier_param m > 1 then esc_text (lit ''[1;'' @ show_nat (modifier_param m) @ letter)
            else esc_text (lit ''O'' @ letter))
      else tilde_key m (if n = 5 then 15 else if n \<le> 10 then n + 11 else n + 12))"

text \<open>The control code of Ctrl with a key.\<close>

fun control_code :: "term_key \<Rightarrow> byte option" where
  "control_code (KLetter c) = Some (to_byte ((c + 32) mod 32))"
| "control_code KSpace = Some 0x00"
| "control_code KOpenBracket = Some 0x1b"
| "control_code KBackslash = Some 0x1c"
| "control_code KCloseBracket = Some 0x1d"
| "control_code KMinus = Some 0x1f"
| "control_code KSlash = Some 0x1f"
| "control_code (KDigit d) =
     (if d = 2 then Some 0x00 else if d = 3 then Some 0x1b else if d = 4 then Some 0x1c
      else if d = 5 then Some 0x1d else if d = 6 then Some 0x1e else if d = 7 then Some 0x1f
      else if d = 8 then Some 0x7f else None)"
| "control_code k = None"

text \<open>The character a letter or digit key types.\<close>

fun printable_key :: "term_key \<Rightarrow> bool \<Rightarrow> rchar option" where
  "printable_key (KLetter c) shift = Some (if shift then c else c + 32)"
| "printable_key (KDigit d) shift = Some (48 + d)"
| "printable_key k shift = None"

definition other_key :: "bool \<Rightarrow> term_key \<Rightarrow> key_mods \<Rightarrow> byte list option" where
  "other_key meta k m =
     (if m_ctrl m \<and> \<not> m_shift m then map_option (\<lambda>b. meta_bytes meta m [b]) (control_code k)
      else if m_alt m \<and> meta \<and> \<not> m_ctrl m then
        map_option (\<lambda>c. meta_bytes meta m [to_byte c]) (printable_key k (m_shift m))
      else None)"

fun encode_key :: "bool \<Rightarrow> term_key \<Rightarrow> key_mods \<Rightarrow> bool \<Rightarrow> byte list option" where
  "encode_key meta KEnter m app = Some (meta_bytes meta m [13])"
| "encode_key meta KTab m app = Some (if m_shift m then esc_text (lit ''[Z'') else meta_bytes meta m [9])"
| "encode_key meta KBackspace m app = Some (meta_bytes meta m [if m_ctrl m then 8 else 0x7f])"
| "encode_key meta KEscape m app = Some (meta_bytes meta m [27])"
| "encode_key meta KUp m app = Some (cursor_key m app CHR ''A'')"
| "encode_key meta KDown m app = Some (cursor_key m app CHR ''B'')"
| "encode_key meta KRight m app = Some (cursor_key m app CHR ''C'')"
| "encode_key meta KLeft m app = Some (cursor_key m app CHR ''D'')"
| "encode_key meta KHome m app = Some (cursor_key m app CHR ''H'')"
| "encode_key meta KEnd m app = Some (cursor_key m app CHR ''F'')"
| "encode_key meta KInsert m app = Some (tilde_key m 2)"
| "encode_key meta KDelete m app = Some (tilde_key m 3)"
| "encode_key meta KPageUp m app = Some (tilde_key m 5)"
| "encode_key meta KPageDown m app = Some (tilde_key m 6)"
| "encode_key meta (KFunction n) m app =
     (if 1 \<le> n \<and> n \<le> 12 then Some (function_key m n) else other_key meta (KFunction n) m)"
| "encode_key meta k m app = other_key meta k m"

section \<open>The kitty protocol\<close>

record kitty =
  ky_disambiguate :: bool
  ky_all_keys :: bool
  ky_text :: bool

definition kitty_on :: "kitty \<Rightarrow> bool" where
  "kitty_on y \<longleftrightarrow> ky_disambiguate y \<or> ky_all_keys y"

definition csi_u :: "nat \<Rightarrow> key_mods \<Rightarrow> byte list" where
  "csi_u code m =
     (if modifier_param m > 1 then esc_text (lit ''['' @ show_nat code @ lit '';'' @ show_nat (modifier_param m) @ lit ''u'')
      else esc_text (lit ''['' @ show_nat code @ lit ''u''))"

definition csi_u_text :: "nat \<Rightarrow> key_mods \<Rightarrow> rstring \<Rightarrow> byte list" where
  "csi_u_text code m txt_typed =
     (let mods = (if modifier_param m > 1 then show_nat (modifier_param m) else [])
      in esc_text (lit ''['' @ show_nat code @ lit '';'' @ mods @ lit '';''
                   @ join (lit '':'') (map show_nat txt_typed) @ lit ''u''))"

definition encode_kitty_typed :: "term_key \<Rightarrow> key_mods \<Rightarrow> kitty \<Rightarrow> rstring option \<Rightarrow> byte list option" where
  "encode_kitty_typed k m y typed =
     (let csi = (\<lambda>code. case (if ky_all_keys y \<and> ky_text y then typed else None) of
                   Some t \<Rightarrow> csi_u_text code m t | None \<Rightarrow> csi_u code m);
          modified = (m_shift m \<or> m_alt m \<or> m_ctrl m);
          special = (\<lambda>code. if modified \<or> ky_all_keys y then Some (csi code) else None)
      in if \<not> kitty_on y then None
         else if k = KEscape then Some (csi 27)
         else if k = KEnter then special 13
         else if k = KTab then special 9
         else if k = KBackspace then special 127
         else if k = KSpace \<and> (m_ctrl m \<or> m_alt m \<or> ky_all_keys y) then special 32
         else (case printable_key k False of
                 None \<Rightarrow> None
               | Some c \<Rightarrow> if m_ctrl m \<or> m_alt m \<or> ky_all_keys y then Some (csi c) else None))"

definition encode_kitty :: "term_key \<Rightarrow> key_mods \<Rightarrow> kitty \<Rightarrow> byte list option" where
  "encode_kitty k m y = encode_kitty_typed k m y None"

section \<open>Pasting\<close>

text \<open>\<open>str::replace\<close> of CR LF by CR, then of LF by CR.\<close>

fun crlf_to_cr :: "rstring \<Rightarrow> rstring" where
  "crlf_to_cr (c # d # s) = (if c = CR \<and> d = LF then CR # crlf_to_cr s else c # crlf_to_cr (d # s))"
| "crlf_to_cr s = s"

definition paste_text :: "rstring \<Rightarrow> rstring" where
  "paste_text s = map (\<lambda>c. if c = LF then CR else c) (crlf_to_cr s)"

definition paste_keys :: "rstring \<Rightarrow> bool \<Rightarrow> byte list" where
  "paste_keys s bracketed =
     (let normalised = paste_text s
      in if bracketed then utf8 (ESC_CHAR # lit ''[200~'' @ filter (\<lambda>c. c \<noteq> ESC_CHAR) normalised @ ESC_CHAR # lit ''[201~'')
         else utf8 normalised)"

section \<open>What a paste can hold\<close>

text \<open>The bytes of a character outside ASCII are all above ASCII.\<close>

lemma utf8_char_high:
  assumes "is_scalar c" "0x80 \<le> c" "b \<in> set (utf8_char c)"
  shows "0x80 \<le> unat b"
proof -
  have "c < 0x110000" using assms(1) by (auto simp: is_scalar_def)
  then have "c div 64 < 0x20 \<or> c \<ge> 0x800" "c div 4096 < 0x10 \<or> c \<ge> 0x10000" "c div 262144 \<le> 4" by auto
  then show ?thesis
    using assms(2,3) by (auto simp: utf8_char_def cont_byte_def split: if_splits)
qed

lemma utf8_ascii_mem:
  assumes "is_str s" "n < 0x80" "to_byte n \<in> set (utf8 s)"
  shows "n \<in> set s"
proof -
  obtain c where c: "c \<in> set s" "to_byte n \<in> set (utf8_char c)" using assms(3) by (auto simp: utf8_def)
  then have "is_scalar c" using assms(1) by (simp add: list_all_iff)
  then have "c < 0x80" using utf8_char_high [of c "to_byte n"] c(2) assms(2) by fastforce
  then have "to_byte n = to_byte c" using c(2) by (simp add: utf8_char_def)
  then have "unat (to_byte n) = unat (to_byte c)" by simp
  then have "n = c" using \<open>c < 0x80\<close> assms(2) by simp
  then show ?thesis using c(1) by simp
qed

lemma crlf_to_cr_set: "set (crlf_to_cr s) \<subseteq> set s"
  by (induction s rule: crlf_to_cr.induct) auto

lemma paste_text_str: "is_str s \<Longrightarrow> is_str (paste_text s)" "LF \<notin> set (paste_text s)"
  using crlf_to_cr_set [of s] by (auto simp: paste_text_def list_all_iff is_scalar_def)

lemma utf8_append: "utf8 (a @ b) = utf8 a @ utf8 b"
  by (simp add: utf8_def)

lemma paste_keys_bracketed:
  assumes "is_str s"
  obtains body where "paste_keys s True = utf8 (ESC_CHAR # lit ''[200~'') @ body @ utf8 (ESC_CHAR # lit ''[201~'')"
    "0x1b \<notin> set body" "0x0a \<notin> set body" "body = utf8 (filter (\<lambda>c. c \<noteq> ESC_CHAR) (paste_text s))"
proof -
  let ?t = "filter (\<lambda>c. c \<noteq> ESC_CHAR) (paste_text s)"
  have t: "is_str ?t" "LF \<notin> set ?t" "ESC_CHAR \<notin> set ?t" using paste_text_str [of s] assms by (auto simp: list_all_iff)
  have b: "0x1b = to_byte 27" "0x0a = to_byte 10" by (simp_all add: to_byte_def)
  have "0x1b \<notin> set (utf8 ?t)" "0x0a \<notin> set (utf8 ?t)"
    unfolding b using utf8_ascii_mem [OF t(1), of 27] utf8_ascii_mem [OF t(1), of 10] t(2,3) by auto
  moreover have "paste_keys s True = utf8 (ESC_CHAR # lit ''[200~'') @ utf8 ?t @ utf8 (ESC_CHAR # lit ''[201~'')"
    unfolding paste_keys_def Let_def by (simp add: utf8_append [symmetric] del: lit_Cons)
  ultimately show ?thesis using that by blast
qed

lemma paste_keys_plain: "is_str s \<Longrightarrow> 0x0a \<notin> set (paste_keys s False)"
proof -
  assume s: "is_str s"
  have "(0x0a :: byte) = to_byte 10" by (simp add: to_byte_def)
  then show ?thesis
    using utf8_ascii_mem [OF paste_text_str(1) [OF s], of 10] paste_text_str(2) [of s] by (auto simp: paste_keys_def Let_def)
qed

end
