(* ===== verification/FileOps.thy ===== *)
theory FileOps
  imports FileHistory Terminal Notice
begin

text \<open>
  File operations of the tree that can be undone (\<open>throng-app/src/file_ops.rs\<close>), on the renames and
  the trash of \<open>throng-platform/src/fs.rs\<close>; moving and copying in the tree; paths dropped onto a
  terminal. The operating system is the record \<open>os\<close>: what \<open>std::fs\<close> and the trash crate answer and
  do in a world, which is threaded through. A trash that cannot restore is that of macOS.
\<close>

section \<open>The disk\<close>

datatype restore_error = Gone | Taken | Unsupported | RestoreFailed rstring

record trash_item =
  ti_id :: rstring
  ti_original :: path
  ti_deleted :: int

datatype trash_error = RestoreCollision | TrashOther rstring

record 'w os =
  os_exists :: "path \<Rightarrow> 'w \<Rightarrow> bool"
  os_is_dir :: "path \<Rightarrow> 'w \<Rightarrow> bool"
  os_canonicalize :: "path \<Rightarrow> 'w \<Rightarrow> rstring + path"
  os_rename :: "path \<Rightarrow> path \<Rightarrow> 'w \<Rightarrow> (io_error + unit) \<times> 'w"
  os_trash_restores :: bool
  os_trash_list :: "'w \<Rightarrow> rstring + trash_item list"
  os_trash_delete :: "path \<Rightarrow> 'w \<Rightarrow> (rstring + unit) \<times> 'w"
  os_trash_restore :: "trash_item \<Rightarrow> 'w \<Rightarrow> (trash_error + unit) \<times> 'w"

text \<open>The text of a path given by its components.\<close>

fun component_text :: "component \<Rightarrow> rstring" where
  "component_text RootDir = []"
| "component_text CurDir = [DOT]"
| "component_text ParentDir = [DOT, DOT]"
| "component_text (Normal s) = s"

definition of_components :: "component list \<Rightarrow> path" where
  "of_components cs =
     (if cs = [RootDir] then [SLASH] else join [SLASH] (map component_text cs))"

definition parent_path :: "path \<Rightarrow> path option" where
  "parent_path p = map_option of_components (parent (components p))"

definition same_entry :: "'w os \<Rightarrow> path \<Rightarrow> path \<Rightarrow> 'w \<Rightarrow> bool" where
  "same_entry D a b w \<longleftrightarrow>
     (case (os_canonicalize D a w, os_canonicalize D b w) of
        (Inr x, Inr y) \<Rightarrow> components x = components y | _ \<Rightarrow> False)"

definition rename_no_clobber :: "'w os \<Rightarrow> path \<Rightarrow> path \<Rightarrow> 'w \<Rightarrow> (io_error + unit) \<times> 'w" where
  "rename_no_clobber D from_path to_path w =
     (if os_exists D to_path w \<and> \<not> same_entry D from_path to_path w
      then (Inl \<lparr>e_kind = KAlreadyExists, e_text = lit ''destination exists''\<rparr>, w)
      else os_rename D from_path to_path w)"

definition trash_original :: "'w os \<Rightarrow> path \<Rightarrow> 'w \<Rightarrow> rstring + path" where
  "trash_original D p w =
     (case file_name (components p) of
        None \<Rightarrow> Inl (lit ''no file name'')
      | Some name \<Rightarrow>
          (let dir = (case parent_path p of None \<Rightarrow> [DOT] | Some d \<Rightarrow> if d = [] then [DOT] else d)
           in case os_canonicalize D dir w of Inl e \<Rightarrow> Inl e | Inr d \<Rightarrow> Inr (path_push d name)))"

text \<open>\<open>max_by_key\<close>: the last of the newest.\<close>

fun newest_item :: "trash_item list \<Rightarrow> trash_item option" where
  "newest_item [] = None"
| "newest_item (i # is) =
     (case newest_item is of None \<Rightarrow> Some i | Some j \<Rightarrow> Some (if ti_deleted j \<ge> ti_deleted i then j else i))"

definition trash_restorable :: "'w os \<Rightarrow> path \<Rightarrow> 'w \<Rightarrow> (rstring + rstring option) \<times> 'w" where
  "trash_restorable D p w =
     (if os_trash_restores D then
        (case trash_original D p w of
           Inl e \<Rightarrow> (Inl e, w)
         | Inr original \<Rightarrow>
             (let ours = (\<lambda>i. components (ti_original i) = components original);
                  earlier = (case os_trash_list D w of Inl e \<Rightarrow> [] | Inr is \<Rightarrow> map ti_id (filter ours is))
              in case os_trash_delete D p w of
                   (Inl e, w) \<Rightarrow> (Inl e, w)
                 | (Inr u, w) \<Rightarrow>
                     (Inr (case os_trash_list D w of
                             Inl e \<Rightarrow> None
                           | Inr is \<Rightarrow> map_option ti_id (newest_item (filter (\<lambda>i. ours i \<and> ti_id i \<notin> set earlier) is))), w)))
      else (case os_trash_delete D p w of (Inl e, w) \<Rightarrow> (Inl e, w) | (Inr u, w) \<Rightarrow> (Inr None, w)))"

definition restore_from_trash :: "'w os \<Rightarrow> rstring \<Rightarrow> path \<Rightarrow> 'w \<Rightarrow> (restore_error + unit) \<times> 'w" where
  "restore_from_trash D token original w =
     (if \<not> os_trash_restores D then (Inl Unsupported, w)
      else if os_exists D original w then (Inl Taken, w)
      else (case os_trash_list D w of
              Inl e \<Rightarrow> (Inl (RestoreFailed e), w)
            | Inr is \<Rightarrow>
                (case find (\<lambda>i. ti_id i = token) is of
                   None \<Rightarrow> (Inl Gone, w)
                 | Some i \<Rightarrow>
                     if os_exists D (ti_original i) w then (Inl Taken, w)
                     else (case os_trash_restore D i w of
                             (Inl RestoreCollision, w) \<Rightarrow> (Inl Taken, w)
                           | (Inl (TrashOther e), w) \<Rightarrow> (Inl (RestoreFailed e), w)
                           | (Inr u, w) \<Rightarrow> (Inr (), w)))))"

section \<open>Undo and redo\<close>

datatype changed = Moved path path | Restored path | Trashed path

record undo_refusal =
  rf_title :: rstring
  rf_item :: path
  rf_reason :: rstring

definition shown_name :: "path \<Rightarrow> rstring" where
  "shown_name p = (case file_name (components p) of None \<Rightarrow> p | Some n \<Rightarrow> n)"

definition refuse :: "bool \<Rightarrow> file_op \<Rightarrow> rstring \<Rightarrow> undo_refusal" where
  "refuse undo op reason =
     \<lparr>rf_title = lit ''Can't '' @ (if undo then lit ''undo'' else lit ''redo'') @ SP # verb op,
      rf_item = item op, rf_reason = reason\<rparr>"

definition no_folder :: "'w os \<Rightarrow> path \<Rightarrow> 'w \<Rightarrow> path option" where
  "no_folder D p w =
     (case parent_path p of None \<Rightarrow> None | Some d \<Rightarrow> if os_is_dir D d w then None else Some d)"

definition check_move :: "'w os \<Rightarrow> path \<Rightarrow> path \<Rightarrow> 'w \<Rightarrow> rstring option" where
  "check_move D from_path to_path w =
     (if \<not> os_exists D from_path w then
        Some (DQUOTE # shown_name from_path @ DQUOTE # lit '' is no longer at '' @ from_path @ lit ''.'')
      else if os_exists D to_path w then Some (lit ''Something else is now at '' @ to_path @ lit ''.'')
      else (case no_folder D to_path w of
              None \<Rightarrow> None
            | Some d \<Rightarrow> Some (lit ''The folder '' @ d @ lit '' no longer exists.'')))"

definition restore_reason :: "path \<Rightarrow> restore_error \<Rightarrow> rstring" where
  "restore_reason p e =
     (case e of
        Gone \<Rightarrow> lit ''It is no longer in the trash.''
      | Taken \<Rightarrow> lit ''Something else is now at '' @ p @ lit ''.''
      | Unsupported \<Rightarrow> lit ''This system's trash cannot put items back.''
      | RestoreFailed reason \<Rightarrow> reason)"

definition undo_file ::
  "'w os \<Rightarrow> file_history \<Rightarrow> 'w \<Rightarrow> (undo_refusal + changed option) \<times> file_history \<times> 'w" where
  "undo_file D h w =
     (case next_undo h of
        None \<Rightarrow> (Inr None, h, w)
      | Some (Move from_path to_path) \<Rightarrow>
          (let op = Move from_path to_path
           in case check_move D to_path from_path w of
                Some reason \<Rightarrow> (Inl (refuse True op reason), h, w)
              | None \<Rightarrow>
                  (case rename_no_clobber D to_path from_path w of
                     (Inl e, w) \<Rightarrow> (Inl (refuse True op (e_text e)), h, w)
                   | (Inr u, w) \<Rightarrow> (Inr (Some (Moved to_path from_path)), undone h, w)))
      | Some (Trash p token) \<Rightarrow>
          (let op = Trash p token
           in case no_folder D p w of
                Some d \<Rightarrow> (Inl (refuse True op (lit ''Its folder '' @ d @ lit '' no longer exists.'')), h, w)
              | None \<Rightarrow>
                  (case restore_from_trash D token p w of
                     (Inl e, w) \<Rightarrow> (Inl (refuse True op (restore_reason p e)), h, w)
                   | (Inr u, w) \<Rightarrow> (Inr (Some (Restored p)), undone h, w))))"

definition redo_file ::
  "'w os \<Rightarrow> file_history \<Rightarrow> 'w \<Rightarrow> (undo_refusal + changed option) \<times> file_history \<times> 'w" where
  "redo_file D h w =
     (case next_redo h of
        None \<Rightarrow> (Inr None, h, w)
      | Some (Move from_path to_path) \<Rightarrow>
          (let op = Move from_path to_path
           in case check_move D from_path to_path w of
                Some reason \<Rightarrow> (Inl (refuse False op reason), h, w)
              | None \<Rightarrow>
                  (case rename_no_clobber D from_path to_path w of
                     (Inl e, w) \<Rightarrow> (Inl (refuse False op (e_text e)), h, w)
                   | (Inr u, w) \<Rightarrow> (Inr (Some (Moved from_path to_path)), redone (Some op) h, w)))
      | Some (Trash p token) \<Rightarrow>
          (let op = Trash p token
           in if \<not> os_exists D p w then
                (Inl (refuse False op (lit ''Nothing is at '' @ p @ lit '' any more.'')), h, w)
              else (case trash_restorable D p w of
                      (Inl reason, w) \<Rightarrow> (Inl (refuse False op reason), h, w)
                    | (Inr t, w) \<Rightarrow> (Inr (Some (Trashed p)), redone (map_option (Trash p) t) h, w))))"

section \<open>Moving and copying in the tree\<close>

definition drop_folder :: "path \<Rightarrow> bool \<Rightarrow> path" where
  "drop_folder onto onto_is_dir =
     (if onto_is_dir then onto else case parent_path onto of None \<Rightarrow> onto | Some d \<Rightarrow> d)"

text \<open>\<open>None\<close>: the numbers for a copy's name ran out.\<close>

definition plan_transfer ::
  "folding \<Rightarrow> path_rules \<Rightarrow> path \<Rightarrow> path \<Rightarrow> path \<Rightarrow> bool \<Rightarrow> (path \<Rightarrow> bool)
   \<Rightarrow> (rstring + path option) option" where
  "plan_transfer F rules root source into copy ex =
     (if same_path F rules source root then
        Some (Inl (lit ''The project's root folder cannot be moved or copied.''))
      else if \<not> is_within F rules root into then Some (Inl (lit ''That folder is outside this project.''))
      else if \<not> transfer_allowed F rules source into then
        Some (Inl (DQUOTE # shown_name source @ DQUOTE # lit '' cannot go inside itself.''))
      else (case file_name (components source) of
              None \<Rightarrow> Some (Inl (lit ''That item has no name.''))
            | Some name \<Rightarrow>
                (let same_folder = (case parent_path source of None \<Rightarrow> False | Some d \<Rightarrow> same_path F rules d into)
                 in if copy then
                      map_option (\<lambda>unique. Inr (Some (path_push into unique)))
                        (copy_name name (\<lambda>candidate. ex (path_push into candidate)))
                    else if same_folder then Some (Inr None)
                    else (let target = path_push into name
                          in if ex target
                             then Some (Inl (DQUOTE # name @ DQUOTE # lit '' already exists in '' @ into @ lit ''.''))
                             else Some (Inr (Some target))))))"

section \<open>Paths for a terminal\<close>

text \<open>Quoting on Unix; the plain characters are those of \<open>plain_char\<close>.\<close>

definition quote_path :: "rstring \<Rightarrow> rstring" where
  "quote_path s =
     (if list_all (\<lambda>c. is_ascii_alphanumeric c \<or> c \<in> set (lit ''/._-+:@%,='')) s then s
      else [QUOTE] @ replace_char QUOTE [QUOTE, BACKSLASH, QUOTE, QUOTE] s @ [QUOTE])"

definition one_line :: "rstring \<Rightarrow> rstring" where
  "one_line s = filter (\<lambda>c. c \<noteq> LF \<and> c \<noteq> CR) s"

definition for_terminal :: "path list \<Rightarrow> rstring" where
  "for_terminal ps = concat (map (\<lambda>p. quote_path (one_line p) @ [SP]) ps)"

section \<open>What undo promises\<close>

lemma undo_file_refused: "undo_file D h w = (Inl r, h', w') \<Longrightarrow> h' = h \<and> (\<exists>op. next_undo h = Some op \<and> rf_item r = item op)"
  by (auto simp: undo_file_def refuse_def Let_def split: option.splits file_op.splits prod.splits sum.splits)

lemma redo_file_refused: "redo_file D h w = (Inl r, h', w') \<Longrightarrow> h' = h \<and> (\<exists>op. next_redo h = Some op \<and> rf_item r = item op)"
  by (auto simp: redo_file_def refuse_def Let_def split: option.splits file_op.splits prod.splits sum.splits if_splits)

text \<open>A call of the system that fails leaves the world as it was.\<close>

definition fails_cleanly :: "'w os \<Rightarrow> bool" where
  "fails_cleanly D \<longleftrightarrow>
     (\<forall>a b w e w'. os_rename D a b w = (Inl e, w') \<longrightarrow> w' = w)
     \<and> (\<forall>p w e w'. os_trash_delete D p w = (Inl e, w') \<longrightarrow> w' = w)
     \<and> (\<forall>i w e w'. os_trash_restore D i w = (Inl e, w') \<longrightarrow> w' = w)"

lemma rename_no_clobber_failed: "fails_cleanly D \<Longrightarrow> rename_no_clobber D a b w = (Inl e, w') \<Longrightarrow> w' = w"
  by (auto simp: rename_no_clobber_def fails_cleanly_def split: if_splits)

lemma restore_failed: "fails_cleanly D \<Longrightarrow> restore_from_trash D t p w = (Inl e, w') \<Longrightarrow> w' = w"
  by (auto simp: restore_from_trash_def fails_cleanly_def
      split: if_splits sum.splits option.splits prod.splits trash_error.splits)

lemma trash_failed: "fails_cleanly D \<Longrightarrow> trash_restorable D p w = (Inl e, w') \<Longrightarrow> w' = w"
  by (auto simp: trash_restorable_def fails_cleanly_def Let_def split: if_splits sum.splits prod.splits)

lemma undo_file_refused_world: "fails_cleanly D \<Longrightarrow> undo_file D h w = (Inl r, h', w') \<Longrightarrow> w' = w"
  using rename_no_clobber_failed [of D] restore_failed [of D]
  by (auto simp: undo_file_def Let_def split: option.splits file_op.splits prod.splits sum.splits)

lemma redo_file_refused_world: "fails_cleanly D \<Longrightarrow> redo_file D h w = (Inl r, h', w') \<Longrightarrow> w' = w"
  using rename_no_clobber_failed [of D] trash_failed [of D]
  by (auto simp: redo_file_def Let_def split: option.splits file_op.splits prod.splits sum.splits if_splits)

text \<open>Nothing is renamed onto another item.\<close>

lemma rename_no_clobber_free:
  "rename_no_clobber D a b w = (Inr u, w') \<Longrightarrow> \<not> os_exists D b w \<or> same_entry D a b w"
  by (auto simp: rename_no_clobber_def split: if_splits)

lemma undo_move:
  assumes "next_undo h = Some (Move a b)" "check_move D b a w = None" "os_rename D b a w = (Inr u, w')"
  shows "undo_file D h w = (Inr (Some (Moved b a)), undone h, w')"
proof -
  have "\<not> os_exists D a w" using assms(2) by (auto simp: check_move_def split: if_splits)
  then show ?thesis using assms by (simp add: undo_file_def rename_no_clobber_def Let_def)
qed

lemma redo_move:
  assumes "next_redo h = Some (Move a b)" "check_move D a b w = None" "os_rename D a b w = (Inr u, w')"
  shows "redo_file D h w = (Inr (Some (Moved a b)), redone (Some (Move a b)) h, w')"
proof -
  have "\<not> os_exists D b w" using assms(2) by (auto simp: check_move_def split: if_splits)
  then show ?thesis using assms by (simp add: redo_file_def rename_no_clobber_def Let_def)
qed

section \<open>What a transfer promises\<close>

lemma copy_name_free:
  assumes "copy_name name ex = Some c"
  shows "\<not> ex c"
proof (cases "ex name")
  case True
  obtain stem ext where se: "split_extension name = (stem, ext)" by fastforce
  then have "copy_search stem ext ex 1 = Some c" using assms True by (simp add: copy_name_def)
  then show ?thesis using copy_search_spec [where n = 1 and stem = stem and ext = ext and ex = ex] by auto
qed (use assms in \<open>simp add: copy_name_def\<close>)

lemma plan_transfer_free:
  assumes "plan_transfer F rules root source into copy ex = Some (Inr (Some target))"
  shows "\<not> ex target \<and> is_within F rules root into \<and> \<not> is_within F rules source into
    \<and> \<not> same_path F rules source root \<and> (\<exists>name. target = path_push into name)"
  using assms copy_name_free
  by (fastforce simp: plan_transfer_def transfer_allowed_def Let_def split: if_splits option.splits)

section \<open>What a terminal receives\<close>

lemma quote_path_shell: "s \<noteq> [] \<Longrightarrow> quote_path s = shell_quote s"
proof -
  have "(\<lambda>c. is_ascii_alphanumeric c \<or> c \<in> set (lit ''/._-+:@%,='')) = plain_char"
    by (auto simp: plain_char_def fun_eq_iff)
  then show "s \<noteq> [] \<Longrightarrow> quote_path s = shell_quote s" unfolding quote_path_def shell_quote_def by simp
qed

lemma posix_for_terminal:
  "\<forall>p \<in> set ps. one_line p \<noteq> [] \<Longrightarrow>
   posix_words out [] False False (for_terminal ps) = Some (out @ map one_line ps)"
proof (induction ps arbitrary: out)
  case (Cons p ps)
  then show ?case
    using posix_shell_quote [of out "one_line p" "SP # for_terminal ps"] by (simp add: for_terminal_def quote_path_shell)
qed (simp add: for_terminal_def)

lemma for_terminal_lines: "LF \<notin> set (for_terminal ps)" "CR \<notin> set (for_terminal ps)"
  by (auto simp: for_terminal_def quote_path_def one_line_def replace_char_def split: if_splits)

end
