(* ===== verification/PropsTerminals.thy ===== *)
theory PropsTerminals
  imports DaemonLink TermKeys FileOps
begin

text \<open>
  The properties of the window's terminals and of its file operations: the hub and the connection it
  runs on (\<open>Hub\<close>, \<open>HubInv\<close>, \<open>DaemonLink\<close>), what is typed and pasted (\<open>TermKeys\<close>), and undo on disk
  (\<open>FileOps\<close>).
\<close>

section \<open>The hub and its connection\<close>

definition sample_host :: hub_host where
  "sample_host = \<lparr>hh_folding = ascii_folding, hh_rules = LINUX, hh_is_dir = (\<lambda>p. True), hh_env = [],
     hh_hostname = None, hh_running = (\<lambda>i. None), hh_working_directory = (\<lambda>i. None),
     hh_emulator = (\<lambda>v v'. [])\<rparr>"

definition sample_plan :: spawn_plan where
  "sample_plan = \<lparr>pl_project = 1, pl_label = lit ''Terminal'', pl_root = lit ''/p'', pl_config = terminal_default\<rparr>"

text \<open>C9: from launch, whatever frames the window draws, whatever the host answers or drops, and
  whatever the user does with terminals: a terminal panel that waits for an answer waits for a request
  for that very panel, sent on the connection the window has now, and the hub knows whom the answer is
  for. No panel waits for an answer that was lost with an earlier connection.\<close>

theorem waiting_views_are_awaited:
  assumes "(window_step H)\<^sup>*\<^sup>* (link_start spawned t, hub_new shells d) (l, h)"
    and "get_view p h = Some v" "hv_pending v = Some i"
  shows "\<exists>c k r. dl_client l = Some c \<and> map_of (hb_pending h) i = Some (p, k) \<and> i < cl_next_id c
    \<and> Request i r \<in> set (cl_sent c) \<and> request_for p r"
proof -
  have ok: "hub_ok (h, dl_client l)" using window_run_ok [OF assms(1)] hub_ok_new by simp
  then obtain k where "map_of (hb_pending h) i = Some (p, k)" using hub_okD(1) [OF ok assms(2,3)] by blast
  then show ?thesis using hub_okD(2) [OF ok] by blast
qed

theorem waiting_views_are_awaited_witness:
  "\<exists>(l :: daemon_link) h v (c :: client_link) k r. get_view 7 h = Some v \<and> hv_pending v = Some 1 \<and> dl_client l = Some c
    \<and> map_of (hb_pending h) 1 = Some (7, k) \<and> Request 1 r \<in> set (cl_sent c) \<and> request_for 7 r"
proof -
  let ?S = "window_step sample_host"
  let ?l0 = "link_start True 0" and ?h0 = "hub_new [] None"
  let ?l1 = "?l0\<lparr>dl_client := Some client_new, dl_state := LinkConnected, dl_attempt := False\<rparr>"
  let ?h1 = "hub_prepare 7 sample_plan (hub_new [] None)"
  have s1: "?S (?l0, ?h0) (?l0, ?h1)"
    by (rule window_step.offline, rule hub_step.prepares) (simp add: link_start_def try_connect_def)
  have h1: "hub_reconnected ?h1 = ?h1" "hb_queued ?h1 = []" "?h1\<lparr>hb_queued := []\<rparr> = ?h1"
    by (simp_all add: hub_reconnected_def hub_prepare_def hub_new_def get_view_def set_view_def set_status_def view_new_def)
  have "process_link sample_host True 0 (Some (Inl client_new)) [] (?l0, g) = (([], None, None), ?l1, g)"
    if "hub_reconnected g = g" "hb_queued g = []" "g\<lparr>hb_queued := []\<rparr> = g" for g
    using that by (simp add: process_link_def link_poll_def attempt_ended_def drain_client_def link_start_def
        try_connect_def link_event_step_def take_queued_def outage_def next_wake_def Let_def)
  from window_step.frame [OF this [OF h1]] have s2: "?S (?l0, ?h1) (?l1, ?h1)" .
  obtain h2 c2 where hc: "hub_connect 7 ?h1 (Some client_new) = (h2, c2)" by fastforce
  define v1 where "v1 = \<lparr>hv_term = view_new, hv_pending = None, hv_title = None, hv_label = pl_label sample_plan,
      hv_bell = False, hv_shell_pid = None\<rparr>"
  have g: "get_view 7 ?h1 = Some v1" "\<not> hb_closing ?h1"
    by (simp_all add: v1_def hub_prepare_def hub_new_def get_view_def set_view_def Let_def)
  have v1: "hv_pending v1 = None" "tv_status (hv_term v1) = Connecting" "attach_request 7 v1 = Attach 7 80 24"
    by (simp_all add: v1_def view_new_def attach_request_def)
  have "hub_request 7 PendingAttach (Attach 7 80 24) v1 ?h1 client_new = (h2, the c2)" "c2 \<noteq> None"
    using hc g v1 by (auto simp: hub_connect_def split: prod.splits)
  then have r: "c2 = Some (snd (client_send (Attach 7 80 24) client_new))"
    "get_view 7 h2 = Some (v1\<lparr>hv_pending := Some 1\<rparr>)"
    by (auto simp: hub_request_def get_set_view client_send_def client_new_def)
  have "hub_step sample_host (?h1, Some client_new) (h2, Some (snd (client_send (Attach 7 80 24) client_new)))"
    using hub_step.connects [OF hc] unfolding r .
  then have "?S (?l1, ?h1) (?l1\<lparr>dl_client := Some (snd (client_send (Attach 7 80 24) client_new))\<rparr>, h2)"
    by (rule window_step.calls) simp
  then have "?S\<^sup>*\<^sup>* (?l1, ?h1) (?l1\<lparr>dl_client := Some (snd (client_send (Attach 7 80 24) client_new))\<rparr>, h2)"
    by (rule r_into_rtranclp)
  with s2 have "?S\<^sup>*\<^sup>* (?l0, ?h1) (?l1\<lparr>dl_client := Some (snd (client_send (Attach 7 80 24) client_new))\<rparr>, h2)"
    by (rule converse_rtranclp_into_rtranclp)
  with s1 have run: "?S\<^sup>*\<^sup>* (?l0, ?h0) (?l1\<lparr>dl_client := Some (snd (client_send (Attach 7 80 24) client_new))\<rparr>, h2)"
    by (rule converse_rtranclp_into_rtranclp)
  have p1: "hv_pending (v1\<lparr>hv_pending := Some 1\<rparr>) = Some 1" by simp
  from waiting_views_are_awaited [OF run r(2) p1] r(2) p1 show ?thesis by blast
qed

text \<open>C10: once the window is closing, nothing it does with its terminals, and nothing the host says,
  asks for a shell to be started on the connection it has, or on one that comes after.\<close>

theorem quitting_starts_no_shell:
  assumes "(hub_step H)\<^sup>*\<^sup>* (h, c) (h', c')" "hb_closing h" "starts c = []"
  shows "starts c' = []"
proof -
  have "hb_closing (fst s) \<and> starts (snd s) = []" if "(hub_step H)\<^sup>*\<^sup>* (h, c) s" for s
    using that
  proof (induction rule: rtranclp_induct)
    case (step s s')
    then show ?case using hub_step_kept [of H "fst s" "snd s" "fst s'" "snd s'"] by auto
  qed (use assms in simp)
  then show ?thesis using assms(1) by fastforce
qed

theorem quitting_starts_no_shell_witness:
  "starts (snd (hub_restart sample_host 7 (hub_prepare 7 sample_plan (hub_new [] None)\<lparr>hb_closing := True\<rparr>) (Some client_new))) = []"
proof -
  let ?h = "hub_prepare 7 sample_plan (hub_new [] None)\<lparr>hb_closing := True\<rparr>"
  obtain h' c' where r: "hub_restart sample_host 7 ?h (Some client_new) = (h', c')" by fastforce
  have "(hub_step sample_host)\<^sup>*\<^sup>* (?h, Some client_new) (h', c')" by (rule r_into_rtranclp, rule hub_step.restarts [OF r])
  then show ?thesis using quitting_starts_no_shell [of sample_host ?h "Some client_new" h' c'] r by (simp add: starts_def client_new_def)
qed

lemma get_view_disconnected:
  "get_view p (hub_disconnected h) = map_option (\<lambda>v. v\<lparr>hv_pending := None\<rparr>) (get_view p h)"
  by (simp add: get_view_def hub_disconnected_def map_of_map)

lemma get_view_reconnected:
  "get_view p (hub_reconnected h) = map_option (\<lambda>v. if wants_attach (tv_status (hv_term v))
     then set_status Connecting (v\<lparr>hv_pending := None\<rparr>) else v\<lparr>hv_pending := None\<rparr>) (get_view p h)"
  (is "_ = map_option ?f _")
proof -
  have eq: "(\<lambda>(p, v). let v = v\<lparr>hv_pending := None\<rparr>
      in (p, if wants_attach (tv_status (hv_term v)) then set_status Connecting v else v)) = (\<lambda>(p :: nat, v). (p, ?f v))"
    by (auto simp: Let_def)
  have "hb_views (hub_reconnected h) = map (\<lambda>(p, v). (p, ?f v)) (hb_views h)"
    unfolding hub_reconnected_def eq by simp
  then show ?thesis by (simp only: get_view_def map_of_map comp_def)
qed

text \<open>C35: a list of terminals that was asked for when the connection dropped is forgotten by nobody:
  the hub still waits for its number, which the next connection gives to another request. If that is a
  panel's request to attach, the answer to it is taken for the list: the panel stays without its
  screen, waiting, and is never attached again on that connection.\<close>

theorem lost_list_hides_a_terminal:
  assumes "hb_listing h = Some i" "get_view p h = Some v" "wants_attach (tv_status (hv_term v))" "\<not> hb_closing h"
    and "cl_next_id c = i" "hub_connect p (hub_reconnected (hub_disconnected h)) (Some c) = (h2, Some c2)"
    and "on_daemon_event H (EvReply i (Inr (SnapshotReply sn))) h2 (Some c2) = (out, h3, c3)"
  shows "Request i (attach_request p v) \<in> set (cl_sent c2) \<and> c3 = Some c2
    \<and> (\<exists>w. get_view p h3 = Some w \<and> tv_status (hv_term w) = Connecting \<and> hv_pending w = Some i)
    \<and> hub_connect p h3 c3 = (h3, c3)"
proof -
  let ?h = "hub_reconnected (hub_disconnected h)"
  let ?v = "set_status Connecting (v\<lparr>hv_pending := None\<rparr>)"
  have v: "get_view p ?h = Some ?v"
    using assms(2,3) by (simp add: get_view_reconnected get_view_disconnected)
  have a: "attach_request p ?v = attach_request p v" by (simp add: attach_request_def set_status_def)
  have "hub_request p PendingAttach (attach_request p v) ?v ?h c = (h2, c2)"
    using assms(4,6) v a by (auto simp: hub_connect_def set_status_def hub_reconnected_def hub_disconnected_def split: prod.splits)
  then have h2: "get_view p h2 = Some (?v\<lparr>hv_pending := Some i\<rparr>)" "hb_listing h2 = Some i" "hb_closing h2 = hb_closing h"
    and c2: "Request i (attach_request p v) \<in> set (cl_sent c2)"
    using assms(1,5) by (auto simp: hub_request_def client_send_def get_set_view hub_reconnected_def hub_disconnected_def)
  have "h3 = h2\<lparr>hb_listing := None, hb_queued := []\<rparr>" "c3 = Some c2"
    using assms(7) h2(2) by (auto simp: on_daemon_event_def hub_event_body_def leaves_early_def Let_def)
  then show ?thesis using h2 c2 by (simp add: hub_connect_def set_status_def get_view_def)
qed

theorem lost_list_hides_a_terminal_witness:
  "\<exists>(h :: hub) c2 h3. hub_connect 7 h3 (Some c2) = (h3, Some c2) \<and> hb_listing h = Some 1 \<and> Request 1 (Attach 7 80 24) \<in> set (cl_sent c2)"
proof -
  let ?h = "hub_prepare 7 sample_plan (hub_new [] None)\<lparr>hb_listing := Some 1\<rparr>"
  let ?v = "\<lparr>hv_term = view_new, hv_pending = None, hv_title = None, hv_label = lit ''Terminal'', hv_bell = False, hv_shell_pid = None\<rparr>"
  have g: "get_view 7 ?h = Some ?v"
    by (simp add: hub_prepare_def hub_new_def get_view_def set_view_def sample_plan_def Let_def del: lit_Cons)
  have l: "hb_listing ?h = Some 1" "\<not> hb_closing ?h" "wants_attach (tv_status (hv_term ?v))" "cl_next_id client_new = 1"
    by (simp_all add: hub_prepare_def hub_new_def view_new_def client_new_def Let_def del: lit_Cons)
  obtain h2 c where hc: "hub_connect 7 (hub_reconnected (hub_disconnected ?h)) (Some client_new) = (h2, c)" by fastforce
  then obtain c2 where c: "c = Some c2" by (auto simp: hub_connect_def split: option.splits if_splits prod.splits)
  obtain out h3 c3 where e: "on_daemon_event sample_host
      (EvReply 1 (Inr (SnapshotReply \<lparr>sn_terminal = 7, sn_tail = [], sn_end_offset = 0, sn_exited = None, sn_alt_screen = False, sn_elevated = False\<rparr>)))
      h2 (Some c2) = (out, h3, c3)"
    by (metis surj_pair)
  have "attach_request 7 ?v = Attach 7 80 24" by (simp add: attach_request_def view_new_def)
  with lost_list_hides_a_terminal [OF l(1) g l(3,2,4) hc [unfolded c] e]
  have "Request 1 (Attach 7 80 24) \<in> set (cl_sent c2)" "hub_connect 7 h3 c3 = (h3, c3)" "c3 = Some c2"
    by (simp_all only:) blast+
  note found = this
  show ?thesis
    by (rule exI [of _ ?h], rule exI [of _ c2], rule exI [of _ h3]) (use found l(1) in \<open>simp only: simp_thms\<close>)
qed

text \<open>When the user ends a terminal and starts another in its panel before the old one's end is
  reported, that report changes nothing of the new one and tells the app nothing; only the end that
  follows it is the new terminal's own.\<close>

lemma killed_end_is_silent:
  assumes "hub_kill p h c = (h1, c1)" "user_killed st" "distinct (hb_killed h)"
    and "on_daemon_event H (EvExited p st) (hub_prepare p plan h1) c1 = (out, h2, c2)"
  shows "out = hb_queued h \<and> c2 = c1 \<and> get_view p h2 = get_view p (hub_prepare p plan h1)
    \<and> map_of (hb_plans h2) p = Some plan \<and> p \<notin> set (hb_killed h2)"
proof -
  have k: "p \<in> set (hb_killed (hub_prepare p plan h1))" "hb_queued (hub_prepare p plan h1) = hb_queued h"
    "map_of (hb_plans (hub_prepare p plan h1)) p = Some plan"
    using assms(1) by (auto simp: hub_kill_def hub_prepare_def Let_def update_conv')
  then have r: "h2 = hub_prepare p plan h1\<lparr>hb_killed := removeAll p (hb_killed (hub_prepare p plan h1)), hb_queued := []\<rparr>"
    "out = hb_queued h" "c2 = c1"
    using assms(2,4) by (auto simp: on_daemon_event_def hub_event_body_def leaves_early_def)
  show ?thesis unfolding r using k by (simp add: get_view_def)
qed

lemma killed_end_is_silent_witness:
  "get_view 7 (fst (snd (on_daemon_event sample_host (EvExited 7 \<lparr>es_code = None, user_killed = True\<rparr>)
      (hub_prepare 7 sample_plan (fst (hub_kill 7 (hub_new [] None) None))) None))) \<noteq> None"
proof -
  let ?k = "hub_kill 7 (hub_new [] None) None"
  let ?p = "hub_prepare 7 sample_plan (fst ?k)"
  obtain out h2 c2 where e: "on_daemon_event sample_host (EvExited 7 \<lparr>es_code = None, user_killed = True\<rparr>) ?p None = (out, h2, c2)"
    by (metis surj_pair)
  have k: "?k = (fst ?k, None)" by (simp add: hub_kill_def post_to_def)
  have "get_view 7 ?p \<noteq> None" by (simp add: hub_prepare_def get_set_view Let_def)
  then show ?thesis using killed_end_is_silent [OF k _ _ e] e by (simp add: hub_new_def)
qed

text \<open>C11: a lost connection is tried again: whatever happened to the link, when it waits for the
  terminal host with no attempt under way, the first look at it fifteen seconds later, or any time
  after, starts one, and what a failed attempt sets off is never later than that. While every attempt
  fails, the outage counts from the loss, and the user is told of it once the grace is over.\<close>

theorem lost_link_is_retried:
  assumes "link_run t l" "waiting (dl_state l)" "\<not> dl_attempt l" "t + 15000 \<le> now"
  shows "dl_attempt (snd (link_poll True now arrived evs l))
    \<and> (\<forall>since r e. dl_state l = LinkLost since r \<and> \<not> (\<exists>d p. e = VersionMismatch d p) \<longrightarrow>
        (let l' = snd (link_poll True (now + 1) (Some (Inr e)) [] (snd (link_poll True now arrived evs l)))
         in (\<exists>r'. dl_state l' = LinkLost since r') \<and> outage (since + GRACE) l' \<noteq> None \<and> dl_next_try l' \<le> now + 1 + 15000))"
proof -
  have ok: "link_ok t l" by (rule link_run_ok [OF assms(1)])
  then have c: "dl_client l = None" "dl_next_try l \<le> now" using assms(2,4) by (auto simp: link_ok_def)
  have p: "link_poll True now arrived evs l = ([], l\<lparr>dl_attempt := True\<rparr>)"
    by (rule link_poll_retries [OF assms(2,3) c])
  have "(\<exists>r'. dl_state l' = LinkLost since r') \<and> outage (since + GRACE) l' \<noteq> None \<and> dl_next_try l' \<le> now + 1 + 15000"
    if "dl_state l = LinkLost since r" "\<not> (\<exists>d p. e = VersionMismatch d p)"
      "l' = snd (link_poll True (now + 1) (Some (Inr e)) [] (l\<lparr>dl_attempt := True\<rparr>))" for since r e l'
  proof -
    note l' = that
    obtain out where q: "link_poll True (now + 1) (Some (Inr e)) [] (l\<lparr>dl_attempt := True\<rparr>) = (out, l')"
      using l'(3) by (metis prod.collapse)
    have "link_ok t (l\<lparr>dl_attempt := True\<rparr>)" using ok assms(2) by (simp add: link_ok_def)
    from link_poll_ok [OF this _ q] have "link_ok (now + 1) l'" using assms(4) by simp
    moreover have "\<exists>r'. dl_state l' = LinkLost since r'"
      using link_poll_failed [of "l\<lparr>dl_attempt := True\<rparr>" since r "Some (Inr e)" True "now + 1" "[]" out l'] l' c q by auto
    ultimately show ?thesis by (auto simp: link_ok_def outage_def)
  qed
  then show ?thesis using p by (simp add: Let_def)
qed

theorem lost_link_is_retried_witness:
  "dl_attempt (snd (link_poll True 20000 None []
     (snd (link_poll False 100 (Some (Inr NotRunning)) [] (link_start True 0)))))"
proof -
  let ?q = "link_poll False 100 (Some (Inr NotRunning)) [] (link_start True 0)"
  have q: "?q = (fst ?q, snd ?q)" by simp
  have "link_run 100 (snd ?q)" by (rule link_run.polls_link [OF link_run.starts_link _ q]) simp
  moreover have "waiting (dl_state (snd ?q))" "\<not> dl_attempt (snd ?q)"
    by (simp_all add: link_poll_def attempt_ended_def drain_client_def link_start_def try_connect_def Let_def)
  ultimately show ?thesis using lost_link_is_retried [of 100 "snd ?q" 20000 None "[]"] by simp
qed

section \<open>Typing\<close>

text \<open>C32: whatever is pasted into a program that brackets pastes, what reaches it between the two
  markers holds no escape byte and no line feed: the paste cannot end its own bracket, nor give a
  command. Without brackets it still holds no line feed.\<close>

theorem pasted_text_stays_text:
  assumes "is_str s"
  shows "(\<exists>body. paste_keys s True = utf8 (ESC_CHAR # lit ''[200~'') @ body @ utf8 (ESC_CHAR # lit ''[201~'')
      \<and> 0x1b \<notin> set body \<and> 0x0a \<notin> set body)
    \<and> 0x0a \<notin> set (paste_keys s False)"
proof -
  obtain body where "paste_keys s True = utf8 (ESC_CHAR # lit ''[200~'') @ body @ utf8 (ESC_CHAR # lit ''[201~'')"
    "0x1b \<notin> set body" "0x0a \<notin> set body"
    using paste_keys_bracketed [OF assms] .
  then show ?thesis using paste_keys_plain [OF assms] by blast
qed

theorem pasted_text_stays_text_witness:
  "0x0a \<notin> set (paste_keys (lit ''ls'' @ ESC_CHAR # lit ''[201~'' @ [LF]) False)"
  using pasted_text_stays_text [of "lit ''ls'' @ ESC_CHAR # lit ''[201~'' @ [LF]"] by (simp add: is_scalar_def)

text \<open>C33: files dropped onto a terminal arrive as words: a POSIX shell reads back exactly the paths, one
  word each, without the line breaks their names may hold, and nothing of it ends the line.\<close>

theorem dropped_paths_are_words:
  assumes "\<forall>p \<in> set ps. one_line p \<noteq> []"
  shows "posix_words [] [] False False (for_terminal ps) = Some (map one_line ps)
    \<and> LF \<notin> set (for_terminal ps) \<and> CR \<notin> set (for_terminal ps)"
  using posix_for_terminal [OF assms, of "[]"] for_terminal_lines [of ps] by simp

theorem dropped_paths_are_words_witness:
  "posix_words [] [] False False (for_terminal [lit ''/p/my file's.txt'', lit ''/p/a; rm'']) =
     Some [lit ''/p/my file's.txt'', lit ''/p/a; rm'']"
  using dropped_paths_are_words [of "[lit ''/p/my file's.txt'', lit ''/p/a; rm'']"] by (simp add: one_line_def)

section \<open>File operations\<close>

text \<open>C34: an undo or redo of a file operation that is refused changes nothing: not the history, and,
  as long as the system's own calls do nothing when they fail, not the disk; and what is refused is
  named.\<close>

theorem refused_undo_changes_nothing:
  assumes "fails_cleanly D"
    and "undo_file D h w = (Inl r, h', w') \<or> redo_file D h w = (Inl r, h', w')"
  shows "h' = h \<and> w' = w \<and> (\<exists>op. (next_undo h = Some op \<or> next_redo h = Some op) \<and> rf_item r = item op)"
  using assms undo_file_refused [of D h w r h' w'] redo_file_refused [of D h w r h' w']
    undo_file_refused_world [of D h w r h' w'] redo_file_refused_world [of D h w r h' w'] by blast

definition one_file_os :: "path os" where
  "one_file_os = \<lparr>os_exists = (\<lambda>p w. map to_ascii_lower p = map to_ascii_lower w), os_is_dir = (\<lambda>p w. True),
     os_canonicalize = (\<lambda>p w. if map to_ascii_lower p = map to_ascii_lower w then Inr w else Inl []),
     os_rename = (\<lambda>a b w. (Inr (), b)), os_trash_restores = False, os_trash_list = (\<lambda>w. Inr []),
     os_trash_delete = (\<lambda>p w. (Inl [], w)), os_trash_restore = (\<lambda>i w. (Inl RestoreCollision, w))\<rparr>"

theorem refused_undo_changes_nothing_witness:
  "\<exists>r. undo_file one_file_os (record_op (Move (lit ''/p/a'') (lit ''/p/b'')) ops_default) (lit ''/p/c'') =
     (Inl r, record_op (Move (lit ''/p/a'') (lit ''/p/b'')) ops_default, lit ''/p/c'')"
proof -
  let ?h = "record_op (Move (lit ''/p/a'') (lit ''/p/b'')) ops_default"
  have f: "fails_cleanly one_file_os" by (simp add: fails_cleanly_def one_file_os_def)
  have n: "next_undo ?h = Some (Move (lit ''/p/a'') (lit ''/p/b''))"
    by (simp add: next_undo_def record_op_spec ops_default_def LIMIT_def del: lit_Cons)
  have "check_move one_file_os (lit ''/p/b'') (lit ''/p/a'') (lit ''/p/c'') \<noteq> None"
    by (simp add: check_move_def one_file_os_def to_ascii_lower_def is_ascii_upper_def)
  then obtain r h' w' where u: "undo_file one_file_os ?h (lit ''/p/c'') = (Inl r, h', w')"
    by (auto simp: undo_file_def n Let_def simp del: lit_Cons)
  show ?thesis using refused_undo_changes_nothing [OF f disjI1 [OF u]] u by auto
qed

text \<open>C36: on a disk that tells no upper case from lower, a rename that changes only the case of a name
  is done, and its undo is always refused, as if something else stood in its way; the check asks
  whether anything is at the old name, where the rename itself would see that it is the same item.\<close>

theorem case_rename_is_not_undone:
  assumes "next_undo h = Some (Move a b)" "os_exists D a w" "os_exists D b w"
    and "os_canonicalize D a w = Inr c" "os_canonicalize D b w = Inr c"
  shows "undo_file D h w =
      (Inl (refuse True (Move a b) (lit ''Something else is now at '' @ a @ lit ''.'')), h, w)
    \<and> rename_no_clobber D a b w = os_rename D a b w \<and> rename_no_clobber D b a w = os_rename D b a w"
  using assms by (simp add: undo_file_def check_move_def rename_no_clobber_def same_entry_def Let_def del: lit_Cons)

theorem case_rename_is_not_undone_witness:
  "undo_file one_file_os (record_op (Move (lit ''/p/a'') (lit ''/p/A'')) ops_default) (lit ''/p/A'') =
     (Inl (refuse True (Move (lit ''/p/a'') (lit ''/p/A'')) (lit ''Something else is now at '' @ lit ''/p/a'' @ lit ''.'')),
      record_op (Move (lit ''/p/a'') (lit ''/p/A'')) ops_default, lit ''/p/A'')"
proof -
  let ?h = "record_op (Move (lit ''/p/a'') (lit ''/p/A'')) ops_default"
  have n: "next_undo ?h = Some (Move (lit ''/p/a'') (lit ''/p/A''))"
    by (simp add: next_undo_def record_op_spec ops_default_def LIMIT_def del: lit_Cons)
  have "os_exists one_file_os (lit ''/p/a'') (lit ''/p/A'')" "os_exists one_file_os (lit ''/p/A'') (lit ''/p/A'')"
    "os_canonicalize one_file_os (lit ''/p/a'') (lit ''/p/A'') = Inr (lit ''/p/A'')"
    "os_canonicalize one_file_os (lit ''/p/A'') (lit ''/p/A'') = Inr (lit ''/p/A'')"
    by (simp_all add: one_file_os_def to_ascii_lower_def is_ascii_upper_def)
  from case_rename_is_not_undone [OF n this] show ?thesis by blast
qed

text \<open>A move or copy asked of the tree goes only to a free name in a folder of the project that is
  not inside what is moved, and never takes the project's root.\<close>

lemma transfer_takes_a_free_place:
  assumes "plan_transfer F rules root source into copy ex = Some (Inr (Some target))"
  shows "\<not> ex target \<and> is_within F rules root into \<and> \<not> is_within F rules source into
    \<and> \<not> same_path F rules source root \<and> (\<exists>name. target = path_push into name)"
  using plan_transfer_free [OF assms] .

lemma transfer_takes_a_free_place_witness:
  "\<not> is_within ascii_folding LINUX (lit ''/p/src/a'') (lit ''/p/dst'')"
proof -
  have "plan_transfer ascii_folding LINUX (lit ''/p'') (lit ''/p/src/a'') (lit ''/p/dst'') False (\<lambda>p. False) =
      Some (Inr (Some (lit ''/p/dst/a'')))"
    by code_simp
  from transfer_takes_a_free_place [OF this] show ?thesis by blast
qed

end
