(* ===== verification/Spec2Isabelle.thy ===== *)
theory Spec2Isabelle
  imports Commands PropsCore PropsDaemon PropsConfig PropsLinks PropsFiles PropsTerminals
begin

text \<open>
  A verification library for throng, a workbench of projects, terminals and editors written in Rust.

  The program. \<open>throng-editor\<close> is the text editor without a screen; \<open>throng-core\<close> the rules of the
  workbench: projects and their folders, the layout of tabs and panels, what a terminal remembers,
  file encodings, updates. A daemon (\<open>throng-daemon\<close>) owns the shells and outlives the windows; the
  window (\<open>throng-app\<close>) talks to it in frames (\<open>throng-protocol\<close>) and shows a shell's output in a
  terminal view. A layout's terminal panel and a daemon's session have the same id.

  The editor (\<open>src/crates/throng-editor/src\<close>). \<open>Change\<close> is \<open>change.rs\<close>, \<open>Selection\<close>
  \<open>selection.rs\<close>, \<open>History\<close> \<open>history.rs\<close>, \<open>Doc\<close> \<open>doc.rs\<close>, \<open>Lines\<close> \<open>lines.rs\<close>, \<open>Wrap\<close>
  \<open>wrap.rs\<close>, \<open>Find\<close> \<open>find.rs\<close> and \<open>Commands\<close> \<open>commands.rs\<close>. The rope under a document is the
  crate \<open>ropey\<close>, a parameter: the record \<open>ropey\<close> of its operations, with what the crate documents of
  them in the locale \<open>rope_contract\<close> (\<open>RopeText\<close>), interpreted on lists of characters. The lemmas
  relate every operation to the text: what an edit makes of it, that undo and redo follow, that
  selections stay normal, that the wrap's row counts stay those of the text. Their properties are in
  this theory.

  The core (\<open>src/crates/throng-core/src\<close>). \<open>Paths\<close> is \<open>paths.rs\<close> (the folding of names is a
  parameter with the laws of the locale \<open>path_folding\<close>), \<open>Project\<close> \<open>project.rs\<close>, \<open>Workspace\<close>
  \<open>workspace.rs\<close>, \<open>Terminal\<close> \<open>terminal.rs\<close>, \<open>TextCodec\<close> \<open>text.rs\<close>, \<open>Update\<close> \<open>update.rs\<close>,
  \<open>FileHistory\<close> \<open>file_history.rs\<close>, \<open>SubWorkspace\<close> \<open>subworkspace.rs\<close>, \<open>Notice\<close> \<open>notice.rs\<close> and
  \<open>failure.rs\<close>. \<open>LayoutInv\<close> holds the invariant of a layout, its preservation by every operation
  and what the check of a stored one accepts. \<open>Utf\<close>, \<open>StdPath\<close> and \<open>OrdMap\<close> model the standard
  library the core uses: UTF-8 and UTF-16, the components of a path, \<open>BTreeMap\<close> (behind the locale
  \<open>store\<close>). Their properties are in \<open>PropsCore\<close>.

  The daemon. \<open>Protocol\<close> is \<open>throng-protocol/src/lib.rs\<close>; \<open>Registry\<close> \<open>throng-daemon/src/registry.rs\<close>
  and the writer of \<open>server.rs\<close>, \<open>Session\<close> \<open>session.rs\<close>, \<open>Daemon\<close> \<open>server.rs\<close>. A step of the daemon
  is one request, one event of a shell or a client, or one look of the idle watch (\<open>daemon_step\<close>);
  \<open>DaemonInv\<close> shows what every reachable state keeps. \<open>TermView\<close> is the view of
  \<open>throng-app/src/term/mod.rs\<close> at the other end: \<open>world_step\<close> interleaves a session, its client's
  queue, the wire and the view, and every reachable world shows the output without gap or repeat.
  Their properties are in \<open>PropsDaemon\<close>.

  Parameters. What is not in the repository is an argument of the definitions that use it: \<open>ropey\<close>,
  the Unicode tables, \<open>serde_json\<close>, \<open>postcard\<close>, \<open>encoding_rs\<close>, \<open>similar\<close>, SHA-256, the emulator's
  scanner of directory reports, what the file system and the kernel answer. Where a property needs
  something of one, it is a named hypothesis (\<open>rope_contract\<close>, \<open>path_folding\<close>, \<open>utf16_exact\<close>,
  \<open>diff_reflexive\<close>), and its witness gives a concrete one.

  Numbers. Characters are code points and strings lists of them. Counters that only grow (document
  versions, a session's lifetime offset) are natural numbers; the offsets a client compares are 64-bit
  words, with the bound (a stream shorter than 2^64 bytes) in \<open>world_step\<close>; terminal sizes are 16-bit
  words; the \<open>usize\<close> subtraction of the idle watch and the \<open>u32\<close> counter of \<open>copy_name\<close> may
  overflow, which is a value of the model. Single-precision fractions are their rational values.

  Fuel. Loops are recursions with a proof of termination. \<open>read_frames\<close> and \<open>write_turns\<close> count
  frames and turns; the properties say how many are enough.

  Not modelled: drawing, input and windows (the rest of \<open>throng-app\<close>), settings, key maps, links and
  themes, storage and locking on disk (\<open>throng-persistence\<close>), the calls of the operating system
  (\<open>throng-platform\<close>), the relay process and the sockets of the daemon, syntax highlighting. Threads
  are the order of steps: a handler that takes several locks is one step.
\<close>

section \<open>The editor: transactions and selections\<close>

text \<open>C12: building a transaction from disjoint ranges and applying it to the rope gives the text
  with exactly those ranges replaced, whatever order the ranges come in.\<close>

theorem replace_splices:
  assumes R: "rope_contract R" and ok: "spans_ok (length (to_string R r)) edits"
  shows "to_string R (tx_apply R (tx_replace R r edits) r)
    = splice (to_string R r) 0 (rev (sort_by edit_order edits))"
  using rope_contract.tx_apply_text [OF R] rope_contract.tx_replace_text [OF R ok] by metis

theorem replace_splices_witness:
  "to_string list_rope (tx_apply list_rope
     (tx_replace list_rope (lit ''abcd'') [(0, 1, lit ''xy''), (3, 3, lit ''z'')]) (lit ''abcd''))
   = lit ''xybczd''"
  by (subst replace_splices [OF list_rope_contract])
    (simp_all add: spans_ok_def spans_apart_def edit_order_def)

text \<open>C14: the inverse of a transaction applies to what the transaction left and restores the text.\<close>

theorem invert_undoes:
  assumes R: "rope_contract R" and ok: "tx_fits (changes tx) (to_string R r)"
  shows "tx_fits (changes (tx_invert tx)) (to_string R (tx_apply R tx r))
    \<and> to_string R (tx_apply R (tx_invert tx) (tx_apply R tx r)) = to_string R r"
  using rope_contract.tx_invert_undoes [OF R ok] tx_invert_text [OF ok]
  by (simp add: rope_contract.tx_apply_text [OF R ok] tx_invert_def)

theorem invert_undoes_witness:
  "to_string list_rope (tx_apply list_rope (tx_invert \<lparr>changes = [\<lparr>ch_at = 1, removed = lit ''b'', inserted = lit ''xyz''\<rparr>]\<rparr>)
     (tx_apply list_rope \<lparr>changes = [\<lparr>ch_at = 1, removed = lit ''b'', inserted = lit ''xyz''\<rparr>]\<rparr> (lit ''abc'')))
   = lit ''abc''"
  using invert_undoes [OF list_rope_contract, of "\<lparr>changes = [\<lparr>ch_at = 1, removed = lit ''b'', inserted = lit ''xyz''\<rparr>]\<rparr>" "lit ''abc''"]
  by (simp add: change_fits_def removed_len_def)

text \<open>A character no change removes is found, after the transaction, where \<open>map\<close> sends its
  offset; and \<open>map\<close> never reorders offsets.\<close>

lemma map_follows_text:
  assumes R: "rope_contract R" and fits: "tx_fits (changes tx) (to_string R r)"
    and i: "i < length (to_string R r)" and keep: "survives (changes tx) i"
  shows "tx_map tx i After < length (to_string R (tx_apply R tx r))
    \<and> to_string R (tx_apply R tx r) ! tx_map tx i After = to_string R r ! i
    \<and> (\<forall>j \<le> i. \<forall>a. tx_map tx j a \<le> tx_map tx i a)"
  using tx_map_nth [OF fits i keep] tx_map_mono rope_contract.tx_apply_text [OF R fits]
  by (simp add: tx_map_def)

lemma map_follows_text_witness:
  "tx_map \<lparr>changes = [\<lparr>ch_at = 0, removed = lit ''a'', inserted = lit ''xyz''\<rparr>]\<rparr> 1 After < 4"
  using map_follows_text [OF list_rope_contract,
      of "\<lparr>changes = [\<lparr>ch_at = 0, removed = lit ''a'', inserted = lit ''xyz''\<rparr>]\<rparr>" "lit ''ab''" 1]
  by (simp add: change_fits_def removed_len_def tx_apply_def change_apply_def)

text \<open>C15: a selection built from any non-empty list of ranges is sorted with its ranges apart,
  covers exactly what they cover, keeps the primary range inside its primary, and building it again
  changes nothing.\<close>

theorem selection_normal_form:
  assumes "rs \<noteq> []"
  shows "\<exists>s. sel_new rs p = Some s \<and> sel_wf s \<and> span_set (ranges s) = span_set rs
    \<and> covers (primary_range s) (rs ! min p (length rs - 1)) \<and> sel_new (ranges s) (primary s) = Some s"
proof -
  note n = sel_norm_spec [OF assms, of p]
  have "sel_norm (ranges (sel_norm rs p)) (primary (sel_norm rs p)) = sel_norm rs p"
    using n(1) by (simp add: sel_wf_def sel_norm_wf)
  with n assms show ?thesis by (auto simp: sel_new_def sel_wf_def)
qed

theorem selection_normal_form_witness:
  "\<exists>s. sel_new [range_new 3 1, range_point 2] 1 = Some s \<and> covers (primary_range s) (range_point 2)"
  using selection_normal_form [of "[range_new 3 1, range_point 2]" 1] by auto

section \<open>The editor: documents\<close>

text \<open>C13: after an edit that starts a step of its own, undo restores the text and the selection it
  was made with, and every state on the way satisfies the document invariant.\<close>

theorem edit_then_undo:
  assumes R: "rope_contract R" and inv: "doc_inv R d" and fits: "tx_fits (changes tx) (doc_text R d)"
    and clean: "inserts_no_cr (changes tx)" and ne: "\<not> tx_is_empty tx"
    and fresh: "sealed (doc_history d) \<or> kind = Other"
  shows "\<exists>app d1 app2 d2. doc_edit R tx bef aft kind now d = (Some app, d1)
    \<and> doc_text R d1 = tx_text (changes tx) (doc_text R d) \<and> doc_inv R d1
    \<and> doc_undo R d1 = (Some (app2, sel_clamp (length (doc_text R d)) bef), d2)
    \<and> doc_text R d2 = doc_text R d \<and> doc_inv R d2"
  using rope_contract.doc_edit_then_undo [OF R inv fits clean ne fresh] by metis

theorem edit_then_undo_witness:
  "\<exists>app d1 app2 d2. doc_edit list_rope \<lparr>changes = [\<lparr>ch_at = 1, removed = [], inserted = lit ''x''\<rparr>]\<rparr>
      (sel_point 1) (sel_point 2) Other 0 (doc_new list_rope (lit ''ab'')) = (Some app, d1)
    \<and> doc_text list_rope d1 = lit ''axb''
    \<and> doc_undo list_rope d1 = (Some (app2, sel_clamp (length (lit ''ab'')) (sel_point 1)), d2)
    \<and> doc_text list_rope d2 = lit ''ab''"
  using edit_then_undo [OF list_rope_contract,
      OF rope_contract.doc_new_inv [OF list_rope_contract, of "lit ''ab''"],
      of "\<lparr>changes = [\<lparr>ch_at = 1, removed = [], inserted = lit ''x''\<rparr>]\<rparr>" Other "sel_point 1" "sel_point 2" 0]
  by (simp add: no_cr_def doc_text_def doc_new_def Let_def change_fits_def removed_len_def
      change_text_def tx_is_empty_def) blast

text \<open>Redo after undo restores the text.\<close>

lemma undo_then_redo:
  assumes R: "rope_contract R" and inv: "doc_inv R d" and u: "doc_undo R d = (Some (app, sel), d1)"
  shows "\<exists>app2 sel2 d2. doc_redo R d1 = (Some (app2, sel2), d2) \<and> doc_text R d2 = doc_text R d
    \<and> doc_inv R d1 \<and> doc_inv R d2"
  using rope_contract.doc_undo_then_redo [OF R inv u] by metis

definition undo_example :: "rstring textdoc" where
  "undo_example = snd (doc_edit list_rope \<lparr>changes = [\<lparr>ch_at = 1, removed = [], inserted = lit ''x''\<rparr>]\<rparr>
      (sel_point 1) (sel_point 2) Other 0 (doc_new list_rope (lit ''ab'')))"

lemma undo_example_inv: "doc_inv list_rope undo_example"
  unfolding undo_example_def
  by (rule rope_contract.doc_edit_inv [OF list_rope_contract rope_contract.doc_new_inv [OF list_rope_contract]])
    (simp_all add: no_cr_def doc_text_def doc_new_def Let_def change_fits_def removed_len_def)

lemma undo_example_undo:
  "\<exists>app sel d1. doc_undo list_rope undo_example = (Some (app, sel), d1)"
  by (simp add: undo_example_def doc_undo_def doc_edit_def tx_is_empty_def doc_apply_def apply_one_def
      doc_new_def history_record_def history_default_def history_undo_def keep_last_def MAX_ENTRIES_def
      Let_def split_beta)

lemma undo_then_redo_witness:
  "\<exists>app sel d1 app2 sel2 d2. doc_undo list_rope undo_example = (Some (app, sel), d1)
    \<and> doc_redo list_rope d1 = (Some (app2, sel2), d2) \<and> doc_text list_rope d2 = doc_text list_rope undo_example"
  using undo_then_redo [OF list_rope_contract undo_example_inv] undo_example_undo by metis

text \<open>C18: what an edit reports about lines is true: only the lines from \<open>first_line\<close> to
  \<open>last_line\<close> may differ, the lines before are untouched and the lines after are shifted by
  \<open>line_delta\<close>; so the row counts the view keeps, carried across the edit by \<open>Wrap::apply\<close>
  (which does not panic), are those of the new text.\<close>

theorem edit_keeps_rows:
  assumes R: "rope_contract R" and inv: "doc_inv R d" and fits: "tx_fits (changes tx) (doc_text R d)"
    and clean: "inserts_no_cr (changes tx)" and w: "wrap_ok U (doc_text R d) w"
    and ed: "doc_edit R tx bef aft kind now d = (Some app, d')"
  shows "lines_agree (first_line app) (last_line app) (line_delta app)
      (tlines (doc_text R d)) (tlines (doc_text R d'))
    \<and> (\<exists>w'. wrap_apply U R (rope d') app w = Some w' \<and> wrap_ok U (doc_text R d') w')"
proof -
  have l: "lines_agree (first_line app) (last_line app) (line_delta app)
      (tlines (doc_text R d)) (tlines (doc_text R d'))"
    by (rule rope_contract.doc_edit_lines [OF R inv fits clean ed])
  obtain w' where "wrap_apply U R (rope d') app w = Some w'" "wrap_ok U (to_string R (rope d')) w'"
    using rope_contract.wrap_apply_ok [OF R w, of app "rope d'"] l by (metis doc_text_def)
  with l show ?thesis by (auto simp: doc_text_def)
qed

theorem edit_keeps_rows_witness:
  "\<exists>app d' w'. doc_edit list_rope \<lparr>changes = [\<lparr>ch_at = 1, removed = [], inserted = lit ''x''\<rparr>]\<rparr>
      (sel_point 1) (sel_point 2) Other 0 (doc_new list_rope (lit ''ab'')) = (Some app, d')
    \<and> wrap_apply ascii_unicode list_rope (rope d') app
        (wrap_new ascii_unicode list_rope (lit ''ab'') (Some 2) 4) = Some w'
    \<and> wrap_ok ascii_unicode (doc_text list_rope d') w'"
proof -
  let ?tx = "\<lparr>changes = [\<lparr>ch_at = 1, removed = [], inserted = lit ''x''\<rparr>]\<rparr>"
  let ?d = "doc_new list_rope (lit ''ab'')"
  have "\<exists>app d'. doc_edit list_rope ?tx (sel_point 1) (sel_point 2) Other 0 ?d = (Some app, d')"
    by (simp add: doc_edit_def tx_is_empty_def split_beta)
  then obtain app d' where ed: "doc_edit list_rope ?tx (sel_point 1) (sel_point 2) Other 0 ?d = (Some app, d')"
    by blast
  have t: "doc_text list_rope ?d = lit ''ab''" by (simp add: doc_text_def doc_new_def Let_def)
  have "doc_inv list_rope ?d"
    by (rule rope_contract.doc_new_inv [OF list_rope_contract]) (simp add: no_cr_def)
  moreover have "wrap_ok ascii_unicode (doc_text list_rope ?d) (wrap_new ascii_unicode list_rope (lit ''ab'') (Some 2) 4)"
    using rope_contract.wrap_new_ok [OF list_rope_contract, of ascii_unicode "lit ''ab''"] t by simp
  moreover have "tx_fits (changes ?tx) (doc_text list_rope ?d)" "inserts_no_cr (changes ?tx)"
    by (simp_all add: doc_text_def doc_new_def Let_def change_fits_def removed_len_def no_cr_def)
  ultimately show ?thesis
    using edit_keeps_rows [OF list_rope_contract _ _ _ _ ed] ed by blast
qed

text \<open>\<open>is_dirty\<close>, with its cache keyed by the version, says exactly whether the text differs
  from the saved one, and keeps the invariant.\<close>

lemma dirty_iff_changed:
  assumes R: "rope_contract R" and inv: "doc_inv R d"
  shows "fst (is_dirty R d) = (doc_text R d \<noteq> to_string R (saved d)) \<and> doc_inv R (snd (is_dirty R d))"
  using rope_contract.is_dirty_spec [OF R inv] by simp

lemma dirty_iff_changed_witness:
  "fst (is_dirty list_rope undo_example) = (doc_text list_rope undo_example \<noteq> saved undo_example)"
  using dirty_iff_changed [OF list_rope_contract undo_example_inv] by simp

text \<open>A history trimmed for storage fits its limit, or is empty; it keeps a suffix of each
  stack, and drops undo steps only once no redo step is left.\<close>

lemma trimmed_history_fits:
  "(sum_list (map revision_size (h_undo (trimmed_to h m) @ h_redo (trimmed_to h m))) \<le> m
      \<or> (h_undo (trimmed_to h m) = [] \<and> h_redo (trimmed_to h m) = []))
   \<and> (\<exists>ds es. h_redo h = ds @ h_redo (trimmed_to h m) \<and> h_undo h = es @ h_undo (trimmed_to h m)
        \<and> (es = [] \<or> h_redo (trimmed_to h m) = []))"
  by (rule trimmed_to_spec [of h m]) blast

section \<open>The editor: rows and columns\<close>

text \<open>The rows of a wrapped line start at 0 and ascend; each but a single character is no wider
  than the view, the last one too when the width is not zero.\<close>

lemma rows_fit:
  "rows_ok U tab w line (row_starts U line (Some w) tab)
   \<and> (0 < w \<longrightarrow> row_fits U tab w line (last (row_starts U line (Some w) tab)) (length line))"
  using row_starts_ok [of U tab "Some w" line] row_starts_last_fits [of w U tab line] by simp

lemma rows_fit_witness:
  "row_fits ascii_unicode 4 3 (lit ''ab cd'') (last (row_starts ascii_unicode (lit ''ab cd'') (Some 3) 4)) (length (lit ''ab cd''))"
  using rows_fit [of ascii_unicode 4 3 "lit ''ab cd''"] by simp

text \<open>With every character visible, going to the row and column a position is shown at comes
  back to the position.\<close>

lemma locate_position_round_trip:
  assumes R: "rope_contract R" and w: "wrap_ok U (to_string R r) w" and pos: "pos \<le> length (to_string R r)"
    and vis: "visible_text U (w_tab w) (to_string R r)"
  shows "\<exists>row col w'. locate U R r pos w = ((row, col), w') \<and> row < fst (total_rows w)
    \<and> fst (wrap_position U R r row col w) = pos"
  using rope_contract.locate_ok [OF R w pos vis] total_rows_ok [OF w] by metis

lemma locate_position_round_trip_witness:
  "\<exists>row col w'. locate ascii_unicode list_rope (lit ''ab cd'') 4
      (wrap_new ascii_unicode list_rope (lit ''ab cd'') (Some 3) 4) = ((row, col), w')
    \<and> fst (wrap_position ascii_unicode list_rope (lit ''ab cd'') row col
        (wrap_new ascii_unicode list_rope (lit ''ab cd'') (Some 3) 4)) = 4"
proof -
  let ?w = "wrap_new ascii_unicode list_rope (lit ''ab cd'') (Some 3) 4"
  have "wrap_ok ascii_unicode (to_string list_rope (lit ''ab cd'')) ?w"
    using rope_contract.wrap_new_ok [OF list_rope_contract, of ascii_unicode "lit ''ab cd''"] by simp
  moreover have "visible_text ascii_unicode (w_tab ?w) (to_string list_rope (lit ''ab cd''))"
    by (simp add: visible_text_def char_width_def ascii_unicode_def is_control_def)
  ultimately show ?thesis
    using locate_position_round_trip [OF list_rope_contract, of ascii_unicode "lit ''ab cd''" ?w 4] by auto
qed

section \<open>The editor: find and replace\<close>

text \<open>C22: \<open>find_all\<close> reports only occurrences of the term, in order and apart; unless it stopped at
  the limit it misses none but those that overlap one it reports; it never reports more than the limit
  (and one).\<close>

theorem find_all_exact:
  assumes R: "rope_contract R" and needle: "q_term q \<noteq> []" "LF \<notin> set (q_term q)"
  shows "\<exists>full. doc_matches U q (to_string R r) 0 (find_all U R r q limit) full
    \<and> length (find_all U R r q limit) \<le> max limit 1
    \<and> (full \<longrightarrow> limit \<le> length (find_all U R r q limit))"
  by (rule rope_contract.find_all_spec [OF R needle])

theorem find_all_exact_witness:
  "length (find_all ascii_unicode list_rope (lit ''ab AB'')
      \<lparr>q_term = lit ''ab'', case_sensitive = False, whole_word = True\<rparr> 10) \<le> 10"
  using find_all_exact [OF list_rope_contract, of "\<lparr>q_term = lit ''ab'', case_sensitive = False, whole_word = True\<rparr>"
      ascii_unicode "lit ''ab AB''" 10] by auto

text \<open>Replacing every match replaces exactly the matches.\<close>

lemma replace_all_exact:
  assumes R: "rope_contract R" and needle: "q_term q \<noteq> []" "LF \<notin> set (q_term q)"
  shows "to_string R (tx_apply R (replace_all R r (find_all U R r q limit) rep) r)
    = splice (to_string R r) 0 (map (\<lambda>(f, t). (f, t, rep)) (find_all U R r q limit))"
proof -
  obtain full where m: "doc_matches U q (to_string R r) 0 (find_all U R r q limit) full"
    using rope_contract.find_all_spec [OF R needle] by blast
  let ?es = "map (\<lambda>(f, t). (f, t, rep)) (find_all U R r q limit)"
  have so: "spans_ok (length (to_string R r)) ?es" by (rule rope_contract.doc_matches_spans [OF R m])
  have "ascending (length (to_string R r)) ?es" by (rule doc_matches_ascending [OF needle(1) m so])
  then have "rev (sort_by edit_order ?es) = ?es" by (simp add: ascending_sort)
  then show ?thesis
    using rope_contract.tx_apply_text [OF R] rope_contract.tx_replace_text [OF R so]
    by (simp add: replace_all_def)
qed

lemma replace_all_exact_witness:
  "to_string list_rope (tx_apply list_rope (replace_all list_rope (lit ''ab'')
      (find_all ascii_unicode list_rope (lit ''ab'') \<lparr>q_term = lit ''b'', case_sensitive = True, whole_word = False\<rparr> 5)
      (lit ''xy'')) (lit ''ab''))
   = splice (lit ''ab'') 0 (map (\<lambda>(f, t). (f, t, lit ''xy''))
      (find_all ascii_unicode list_rope (lit ''ab'') \<lparr>q_term = lit ''b'', case_sensitive = True, whole_word = False\<rparr> 5))"
  using replace_all_exact [OF list_rope_contract, of "\<lparr>q_term = lit ''b'', case_sensitive = True, whole_word = False\<rparr>"
      "lit ''ab''" ascii_unicode 5 "lit ''xy''"] by simp

section \<open>The editor: commands\<close>

text \<open>Typing replaces every range of the selection with the text, at once; each caret ends up
  right behind its copy of the text. The document and the selection stay good.\<close>

lemma typing_replaces_ranges:
  assumes R: "rope_contract R" and inv: "doc_inv R d" and wf: "sel_wf sel"
    and within: "sel_within (length (doc_text R d)) sel" and clean: "no_cr text"
  shows "\<exists>e d'. insert_text R sel text now d = Some (e, d') \<and> edit_ok R (e, d')
    \<and> doc_text R d' = splice (doc_text R d) 0 (map (\<lambda>rg. (r_from rg, r_to rg, text)) (ranges sel))
    \<and> (\<exists>ps. length ps = length (ranges sel)
         \<and> e_selection e = sel_norm (map (\<lambda>p. range_point (p + length text)) ps) (primary sel)
         \<and> (\<forall>p \<in> set ps. take (length text) (drop p (doc_text R d')) = text)
         \<and> sorted_wrt (\<lambda>p q. p + length text \<le> q) ps)"
proof -
  let ?es = "map (\<lambda>rg. (r_from rg, r_to rg, text)) (ranges sel)"
  obtain e d' where ed: "insert_text R sel text now d = Some (e, d')" "edit_ok R (e, d')"
    "doc_text R d' = splice (doc_text R d) 0 ?es"
    "e_selection e = sel_norm (map (\<lambda>p. range_point (p + length text)) (spots 0 0 ?es)) (primary sel)"
    by (rule rope_contract.insert_text_spec [OF R inv wf within clean])
  have sh: "spots_hold text (doc_text R d) ?es (spots 0 0 ?es)"
    by (rule spots_hold_ranges) (use wf within in \<open>simp_all add: sel_wf_def\<close>)
  show ?thesis
  proof (intro exI conjI)
    show "insert_text R sel text now d = Some (e, d')" "edit_ok R (e, d')"
      "doc_text R d' = splice (doc_text R d) 0 ?es"
      "e_selection e = sel_norm (map (\<lambda>p. range_point (p + length text)) (spots 0 0 ?es)) (primary sel)"
      by (rule ed)+
    show "length (spots 0 0 ?es) = length (ranges sel)" by simp
    show "\<forall>p \<in> set (spots 0 0 ?es). take (length text) (drop p (doc_text R d')) = text"
      "sorted_wrt (\<lambda>p q. p + length text \<le> q) (spots 0 0 ?es)"
      using sh by (simp_all add: spots_hold_def ed(3))
  qed
qed

lemma typing_replaces_ranges_witness:
  "\<exists>e d'. insert_text list_rope \<lparr>ranges = [range_point 1, range_new 2 4], primary = 0\<rparr> (lit ''XY'') 0
      (doc_new list_rope (lit ''abcde'')) = Some (e, d')
    \<and> doc_text list_rope d' = lit ''aXYbXYe''"
  using typing_replaces_ranges [OF list_rope_contract,
      OF rope_contract.doc_new_inv [OF list_rope_contract, of "lit ''abcde''"],
      of "\<lparr>ranges = [range_point 1, range_new 2 4], primary = 0\<rparr>" "lit ''XY''" 0]
  by (simp add: no_cr_def doc_text_def doc_new_def Let_def sel_wf_def sel_within_def apart_def
      range_point_def) blast

text \<open>Backspace removes exactly the characters of its spans: the selected text, else back to
  the previous indent stop or word; nothing else changes.\<close>

lemma backspace_removes_spans:
  assumes R: "rope_contract R" and inv: "doc_inv R d" and wf: "sel_wf sel"
    and within: "sel_within (length (doc_text R d)) sel"
  shows "doc_text R (snd (delete_backward U R sel unit style now d))
      = keep_outside (doc_text R d) (covered (map (backward_span U R (rope d) unit style) (ranges sel)))
    \<and> edit_ok R (delete_backward U R sel unit style now d)"
  unfolding delete_backward_def
  using rope_contract.delete_spans_spec [OF R inv wf within cut_spans_ok]
    rope_contract.backward_span_ok [OF R within] by metis

lemma backspace_removes_spans_witness:
  "doc_text list_rope (snd (delete_backward ascii_unicode list_rope (sel_point 3) Char
     \<lparr>tabs = False, i_width = 2\<rparr> 0 (doc_new list_rope (lit ''   x'')))) = lit ''  x''"
proof -
  let ?d = "doc_new list_rope (lit ''   x'')" and ?st = "\<lparr>tabs = False, i_width = 2\<rparr>"
  have "doc_inv list_rope ?d"
    by (rule rope_contract.doc_new_inv [OF list_rope_contract]) (simp add: no_cr_def)
  then have "doc_text list_rope (snd (delete_backward ascii_unicode list_rope (sel_point 3) Char ?st 0 ?d))
    = keep_outside (doc_text list_rope ?d)
        (covered (map (backward_span ascii_unicode list_rope (rope ?d) Char ?st) (ranges (sel_point 3))))"
    using backspace_removes_spans [OF list_rope_contract, of ?d "sel_point 3" ascii_unicode Char ?st 0]
    by (simp add: sel_point_def sel_wf_def sel_within_def range_point_def doc_text_def doc_new_def Let_def)
  also have "\<dots> = lit ''  x''"
    by (simp add: doc_new_def doc_text_def sel_point_def backward_span_def range_point_def range_new_def
        r_is_empty_def Let_def line_of_def line_start_def ends_line_def is_break_def keep_outside_def upt_rec
        eval_nat_numeral)
  finally show ?thesis .
qed



text \<open>Every movement leaves a selection that is sorted, apart and inside the document.\<close>

lemma movement_stays_inside:
  assumes R: "rope_contract R" and wf: "sel_wf sel" and within: "sel_within (length (to_string R r)) sel"
  shows "move_ok (length (to_string R r)) (move_horizontal U R r sel forward unit ext)
    \<and> move_ok (length (to_string R r)) (move_line_start R r sel ext)
    \<and> move_ok (length (to_string R r)) (move_line_end R r sel ext)
    \<and> move_ok (length (to_string R r)) (move_doc_edge R r sel to_end ext)
    \<and> move_ok (length (to_string R r)) (fst (move_vertical U R r w sel rows ext))"
  using rope_contract.moves_ok [OF R wf within] rope_contract.move_vertical_ok [OF R wf within] by blast

lemma movement_stays_inside_witness:
  "move_ok (length (lit ''ab cd'')) (move_horizontal ascii_unicode list_rope (lit ''ab cd'') (sel_point 1) True AWord True)"
  using movement_stays_inside [OF list_rope_contract, of "sel_point 1" "lit ''ab cd''" ascii_unicode True AWord True]
  by (simp add: sel_point_def sel_wf_def sel_within_def range_point_def)

text \<open>A block pasted at the end of a document of one line comes out scrambled: the rows past
  the end are inserted in front of the row that belongs on the last line.\<close>

lemma column_paste_past_end:
  assumes R: "rope_contract R" and inv: "doc_inv R d" and one: "tlines (doc_text R d) = [doc_text R d]"
    and nolf: "LF \<notin> set (doc_text R d)" "LF \<notin> set row" "LF \<notin> set row'"
    and clip: "clip_text clip = row @ [LF] @ row'"
    and clean: "no_cr row" "no_cr row'" "pad \<noteq> CR"
  shows "\<exists>out. paste_column U R (sel_point (length (doc_text R d))) clip pad now d = Some out
    \<and> doc_text R (snd out) = doc_text R d @ [LF]
       @ replicate (display_col U (doc_text R d) (length (doc_text R d)) 4) pad @ row' @ row"
  using rope_contract.paste_column_two_rows [OF R inv one nolf(1) clip nolf(2,3) clean refl, of U now] by metis

lemma column_paste_past_end_witness:
  "\<exists>out. paste_column ascii_unicode list_rope (sel_point 4)
      \<lparr>clip_text = lit ''x'' @ [LF] @ lit ''y'', clip_mode_of = Column\<rparr> SP 0 (doc_new list_rope (lit ''abcd'')) = Some out
    \<and> doc_text list_rope (snd out) = lit ''abcd'' @ [LF] @ lit ''    yx''"
proof -
  let ?d = "doc_new list_rope (lit ''abcd'')"
  have t: "doc_text list_rope ?d = lit ''abcd''" by (simp add: doc_text_def doc_new_def Let_def)
  have i: "doc_inv list_rope ?d"
    by (rule rope_contract.doc_new_inv [OF list_rope_contract]) (simp add: no_cr_def)
  have "\<exists>out. paste_column ascii_unicode list_rope (sel_point (length (doc_text list_rope ?d)))
      \<lparr>clip_text = lit ''x'' @ [LF] @ lit ''y'', clip_mode_of = Column\<rparr> SP 0 ?d = Some out
    \<and> doc_text list_rope (snd out) = doc_text list_rope ?d @ [LF]
       @ replicate (display_col ascii_unicode (doc_text list_rope ?d) (length (doc_text list_rope ?d)) 4) SP
       @ lit ''y'' @ lit ''x''"
    by (rule column_paste_past_end [OF list_rope_contract i])
      (unfold t, simp_all add: ends_line_def is_break_def no_cr_def)
  then show ?thesis
    unfolding t
    by (simp add: display_col_def char_width_def ascii_unicode_def is_control_def eval_nat_numeral)
qed

text \<open>A document's lines also end at a form feed (and the other Unicode breaks the rope counts),
  but \<open>line_end\<close> leaves out only a line feed: on such a line it is the start of the next line.\<close>

lemma line_end_after_form_feed:
  assumes R: "rope_contract R" and t: "to_string R r = a @ [12] @ b" and plain: "\<forall>c \<in> set a. \<not> is_break c"
  shows "line_of R r 0 = 0 \<and> line_end R r 0 = line_start R r 1 \<and> line_of R r (line_end R r 0) = 1"
proof -
  have "tlines (a @ [12] @ b) = (a @ [12]) # tlines b"
    using plain by (induction a) (auto simp: ends_line_def is_break_def)
  then have l: "tlines (to_string R r) = (a @ [12]) # tlines b" by (simp add: t)
  have lines: "Suc 0 < length (tlines (to_string R r))" by (simp add: l)
  have off: "line_offset (to_string R r) 1 = Suc (length a)" by (simp add: line_offset_def l)
  have e: "line_end R r 0 = Suc (length a)"
    using rope_contract.line_end_text [OF R, of r 0] rope_contract.line_text_text [OF R, of r 0]
      rope_contract.line_start_text [OF R, of r 0]
    by (simp add: text_line_def strip_lf_def l)
  have s: "line_start R r 1 = Suc (length a)"
    using rope_contract.line_start_text [OF R, of r 1] lines off by (simp add: min_def)
  have "line_of R r (Suc (length a)) = 1"
    using rope_contract.line_of_text [OF R, of r "Suc (length a)"] line_index_line_offset [OF lines] off
    by (simp add: t)
  moreover have "line_of R r 0 = 0" using rope_contract.line_of_text [OF R, of r 0] by simp
  ultimately show ?thesis using e s by simp
qed

lemma line_end_after_form_feed_witness:
  "line_of list_rope (lit ''ab'' @ [12] @ lit ''cd'') (line_end list_rope (lit ''ab'' @ [12] @ lit ''cd'') 0) = 1"
  using line_end_after_form_feed [OF list_rope_contract, of "lit ''ab'' @ [12] @ lit ''cd''" "lit ''ab''" "lit ''cd''",
      THEN conjunct2, THEN conjunct2]
  by (simp add: is_break_def)

end
